(* ===== verification/Prelude.thy ===== *)
theory Prelude
  imports Main "HOL-Library.Word"
begin

text \<open>
  Shared ground of the development: C memory as a function from byte addresses to bytes,
  little-endian loads and stores of any width on it, and the generic facts about them, lists
  and words that the component theories use.  Three simp collections are carried through the
  development: \<open>mem_simps\<close> (loads after stores), \<open>bits_simps\<close> (packed words) and
  \<open>heap_simps\<close> (linked structures).
\<close>

named_theorems mem_simps \<open>loads after stores, at the same place and elsewhere\<close>
named_theorems bits_simps \<open>reading a field of a packed word after writing one\<close>
named_theorems heap_simps \<open>pointer-linked structures\<close>

unbundle bit_operations_syntax

type_synonym byte = "8 word"
type_synonym addr = nat
type_synonym bytes = "addr \<Rightarrow> byte"
type_synonym uint32 = "32 word"

text \<open>The null pointer. Every object of the programs lives at a non-zero address.\<close>

abbreviation NULL :: addr where
  "NULL \<equiv> 0"

section \<open>Little-endian loads and stores\<close>

fun load_le :: "bytes \<Rightarrow> addr \<Rightarrow> nat \<Rightarrow> nat" where
  "load_le m a 0 = 0"
| "load_le m a (Suc n) = unat (m a) + 256 * load_le m (Suc a) n"

fun store_le :: "bytes \<Rightarrow> addr \<Rightarrow> nat \<Rightarrow> nat \<Rightarrow> bytes" where
  "store_le m a 0 v = m"
| "store_le m a (Suc n) v = store_le (m(a := of_nat v)) (Suc a) n (v div 256)"

lemma store_le_other [mem_simps]:
  "x < a \<or> a + n \<le> x \<Longrightarrow> store_le m a n v x = m x"
  by (induction m a n v rule: store_le.induct) auto

lemma load_le_cong:
  "(\<And>x. a \<le> x \<Longrightarrow> x < a + n \<Longrightarrow> m x = m' x) \<Longrightarrow> load_le m a n = load_le m' a n"
  by (induction n arbitrary: a) auto

lemma load_le_bound: "load_le m a n < 256 ^ n"
proof (induction n arbitrary: a)
  case 0
  then show ?case by simp
next
  case (Suc n)
  have "unat (m a) < 256" using unsigned_less [of "m a", where ?'a = nat] by simp
  moreover have "load_le m (Suc a) n + 1 \<le> 256 ^ n" using Suc.IH [of "Suc a"] by simp
  then have "256 * load_le m (Suc a) n + 256 \<le> 256 * 256 ^ n" by linarith
  ultimately show ?case by simp
qed

lemma load_store_same [mem_simps]: "load_le (store_le m a n v) a n = v mod 256 ^ n"
proof (induction n arbitrary: m a v)
  case 0
  then show ?case by simp
next
  case (Suc n)
  have "store_le (m(a := of_nat v)) (Suc a) n (v div 256) a = of_nat v"
    by (simp add: store_le_other)
  moreover have "v mod (256 * 256 ^ n) = 256 * (v div 256 mod 256 ^ n) + v mod 256"
    by (simp add: mod_mult2_eq)
  ultimately show ?case using Suc.IH by (simp add: unat_of_nat)
qed

lemma load_store_other [mem_simps]:
  "b + k \<le> a \<or> a + n \<le> b \<Longrightarrow> load_le (store_le m a n v) b k = load_le m b k"
  by (rule load_le_cong) (auto simp: store_le_other)

lemma load_le_upd_other [mem_simps]:
  "x < a \<or> a + n \<le> x \<Longrightarrow> load_le (m(x := v)) a n = load_le m a n"
  by (rule load_le_cong) auto

lemma store_le_apply:
  "store_le m a n v x = (if a \<le> x \<and> x < a + n then of_nat (v div 256 ^ (x - a)) else m x)"
proof (induction n arbitrary: m a v)
  case (Suc n)
  have "a < x \<Longrightarrow> x - a = Suc (x - Suc a)" by simp
  then show ?case by (auto simp: Suc.IH div_mult2_eq)
qed auto

lemma store_store_same [mem_simps]: "store_le (store_le m a n u) a n v = store_le m a n v"
  by (rule ext) (simp add: store_le_apply)

text \<open>32-bit accesses, which is what the bit-packed headers of \<open>my_pthread.c\<close> use.\<close>

definition load32 :: "bytes \<Rightarrow> addr \<Rightarrow> uint32" where
  "load32 m a = of_nat (load_le m a 4)"

definition store32 :: "bytes \<Rightarrow> addr \<Rightarrow> uint32 \<Rightarrow> bytes" where
  "store32 m a w = store_le m a 4 (unat w)"

lemma load32_store32_same [mem_simps]: "load32 (store32 m a w) a = w"
proof -
  have "unat w < 256 ^ 4" using unsigned_less [of w, where ?'a = nat] by simp
  then show ?thesis by (simp add: load32_def store32_def load_store_same)
qed

lemma load32_store32_other [mem_simps]:
  "b + 4 \<le> a \<or> a + 4 \<le> b \<Longrightarrow> load32 (store32 m a w) b = load32 m b"
  by (simp add: load32_def store32_def load_store_other)

lemma store32_other [mem_simps]: "x < a \<or> a + 4 \<le> x \<Longrightarrow> store32 m a w x = m x"
  by (simp add: store32_def store_le_other)

lemma store32_store32_same [mem_simps]: "store32 (store32 m a v) a w = store32 m a w"
  by (simp add: store32_def mem_simps)

text \<open>A C \<open>int\<close>: the value of an expression converted to 32 bits, two's complement.\<close>

definition c_int :: "int \<Rightarrow> int" where
  "c_int x = sint (word_of_int x :: uint32)"

lemma c_int_id: "- (2 ^ 31) \<le> x \<Longrightarrow> x < 2 ^ 31 \<Longrightarrow> c_int x = x"
  by (simp add: c_int_def signed_of_int signed_take_bit_int_eq_self)

lemma c_int_nat [simp]: "x < 2147483648 \<Longrightarrow> c_int (int x) = int x"
  by (rule c_int_id) auto

text \<open>C's integer division truncates; the divisors of the programs are positive constants.\<close>

definition c_div :: "int \<Rightarrow> int \<Rightarrow> int" where
  "c_div a b = (if a < 0 then - ((- a) div b) else a div b)"

lemma c_div_nat [simp]: "c_div (int a) (int b) = int (a div b)"
  by (simp add: c_div_def zdiv_int)

lemma unat_word_of_int32: "unat (word_of_int v :: uint32) = nat (v mod 2 ^ 32)"
  by (simp add: unsigned_of_int take_bit_eq_mod)

text \<open>Bytes that spell a value, little-endian, load as that value.\<close>

lemma load_le_spelled:
  assumes "\<And>j. j < n \<Longrightarrow> m (a + j) = of_nat (v div 256 ^ j)"
  shows "load_le m a n = v mod 256 ^ n"
proof -
  have "load_le m a n = load_le (store_le m a n v) a n"
  proof (rule load_le_cong)
    fix x assume x: "a \<le> x" "x < a + n"
    then have "m (a + (x - a)) = of_nat (v div 256 ^ (x - a))" by (intro assms) auto
    then show "m x = store_le m a n v x" using x by (simp add: store_le_apply)
  qed
  then show ?thesis by (simp add: load_store_same)
qed

section \<open>Search loops\<close>

text \<open>\<open>for (i = lo; i < n; i++) if (P(i)) return i;\<close>\<close>

function first_from :: "(nat \<Rightarrow> bool) \<Rightarrow> nat \<Rightarrow> nat \<Rightarrow> nat option" where
  "first_from P i n = (if i < n then if P i then Some i else first_from P (Suc i) n else None)"
  by pat_completeness auto
termination
  by (relation "measure (\<lambda>(P, i, n). n - i)") auto

declare first_from.simps [simp del]

lemma first_from_Some:
  "first_from P i n = Some k \<longleftrightarrow> i \<le> k \<and> k < n \<and> P k \<and> (\<forall>j. i \<le> j \<and> j < k \<longrightarrow> \<not> P j)"
proof (induction P i n rule: first_from.induct)
  case (1 P i n)
  have split: "i \<le> j \<longleftrightarrow> j = i \<or> Suc i \<le> j" for j by auto
  show ?case
  proof (cases "i < n \<and> \<not> P i")
    case True
    then have "first_from P i n = first_from P (Suc i) n" by (simp add: first_from.simps [of P i n])
    moreover have "k \<noteq> i" if "P k" using True that by auto
    ultimately show ?thesis using 1 True unfolding split by metis
  next
    case False
    then show ?thesis by (subst first_from.simps) (auto simp: le_less)
  qed
qed

lemma first_from_None: "first_from P i n = None \<longleftrightarrow> (\<forall>j. i \<le> j \<and> j < n \<longrightarrow> \<not> P j)"
proof (induction P i n rule: first_from.induct)
  case (1 P i n)
  have split: "i \<le> j \<longleftrightarrow> j = i \<or> Suc i \<le> j" for j by auto
  show ?case
  proof (cases "i < n \<and> \<not> P i")
    case True
    then have "first_from P i n = first_from P (Suc i) n" by (simp add: first_from.simps [of P i n])
    then show ?thesis using 1 True unfolding split by metis
  next
    case False
    then show ?thesis by (subst first_from.simps) auto
  qed
qed

lemma first_from_cong:
  assumes "\<And>j. i \<le> j \<Longrightarrow> j < n \<Longrightarrow> P j = Q j"
  shows "first_from P i n = first_from Q i n"
proof (cases "first_from Q i n")
  case None
  then have "first_from P i n = None" using assms by (simp add: first_from_None)
  then show ?thesis using None by simp
next
  case (Some k)
  then have "first_from P i n = Some k" using assms by (simp add: first_from_Some)
  then show ?thesis using Some by simp
qed

text \<open>A fresh number keeps a numbering injective.\<close>

lemma inj_on_new:
  fixes f g :: "'a \<Rightarrow> int"
  assumes "inj_on f A" "\<And>x. x \<in> A \<Longrightarrow> g x = f x" "\<And>x. x \<in> A \<Longrightarrow> f x < n" "g y = n"
  shows "inj_on g (insert y A)"
proof -
  have "inj_on g A" using assms(1) inj_on_cong [of A g f] assms(2) by blast
  moreover have "g x \<noteq> g y" if "x \<in> A" for x using assms(2-4) that by force
  then have "g y \<notin> g ` (A - {y})" by (metis DiffD1 imageE)
  ultimately show ?thesis by (simp add: inj_on_insert)
qed

end
