(* ===== verification/FirstFit.thy ===== *)
theory FirstFit
  imports Prelude
begin

text \<open>
  The abstract specification of a first-fit allocator whose arena is tiled by blocks, each a
  header of \<open>H\<close> bytes followed by its payload.  \<open>MallocStuff/mymalloc.c\<close> (16-byte headers
  holding a \<open>next\<close> pointer) and the library part of \<open>my_pthread/my_pthread.c\<close> (4-byte
  bit-packed headers) are two implementations of it.  The locale \<open>first_fit_allocator\<close> is
  their common interface: what a client may rely on is proved once, inside it.
\<close>

text \<open>An abstract block: payload size and whether it is free.\<close>

type_synonym ablock = "nat \<times> bool"

fun ff_alloc :: "nat \<Rightarrow> addr \<Rightarrow> nat \<Rightarrow> ablock list \<Rightarrow> (addr \<times> ablock list) option" where
  "ff_alloc H a n [] = None"
| "ff_alloc H a n ((s, f) # bs) =
     (if f \<and> s = n then Some (a + H, (n, False) # bs)
      else if f \<and> n + H \<le> s then Some (a + H, (n, False) # (s - n - H, True) # bs)
      else map_option (\<lambda>(p, bs'). (p, (s, f) # bs')) (ff_alloc H (a + H + s) n bs))"

fun merge_next :: "nat \<Rightarrow> ablock list \<Rightarrow> ablock list" where
  "merge_next H ((s, True) # (s', True) # bs) = (s + s' + H, True) # bs"
| "merge_next H bs = bs"

text \<open>Freeing the block whose header is at \<open>t\<close>: merge with the next, then with the previous.\<close>

fun ff_free :: "nat \<Rightarrow> addr \<Rightarrow> addr \<Rightarrow> ablock list \<Rightarrow> ablock list option" where
  "ff_free H a t [] = None"
| "ff_free H a t ((s, f) # bs) =
     (if a = t then Some (merge_next H ((s, True) # bs))
      else map_option
        (\<lambda>bs'. if f \<and> a + H + s = t then merge_next H ((s, f) # bs') else (s, f) # bs')
        (ff_free H (a + H + s) t bs))"

fun span :: "nat \<Rightarrow> ablock list \<Rightarrow> nat" where
  "span H [] = 0"
| "span H ((s, f) # bs) = H + s + span H bs"

text \<open>The allocated payloads, as (address, size), from the block list laid out at \<open>a\<close>.\<close>

fun live :: "nat \<Rightarrow> addr \<Rightarrow> ablock list \<Rightarrow> (addr \<times> nat) list" where
  "live H a [] = []"
| "live H a ((s, f) # bs) = (if f then [] else [(a + H, s)]) @ live H (a + H + s) bs"

fun coalesced :: "ablock list \<Rightarrow> bool" where
  "coalesced ((s, f) # (s', f') # bs) = (\<not> (f \<and> f') \<and> coalesced ((s', f') # bs))"
| "coalesced bs = True"

section \<open>Properties of the specification\<close>

lemma live_bounds:
  "(p, n) \<in> set (live H a bs) \<Longrightarrow> a + H \<le> p \<and> p + n \<le> a + span H bs"
  by (induction H a bs rule: live.induct) (fastforce split: if_splits)+

lemma live_separated:
  assumes "(p, n) \<in> set (live H a bs)" "(q, k) \<in> set (live H a bs)" "(p, n) \<noteq> (q, k)"
  shows "p + n + H \<le> q \<or> q + k + H \<le> p"
  using assms
  by (induction H a bs rule: live.induct) (fastforce split: if_splits dest: live_bounds)+

lemma live_shape:
  "0 < H \<Longrightarrow> (p, n) \<in> set (live H a bs) \<Longrightarrow> (p, k) \<in> set (live H a bs) \<Longrightarrow> n = k"
  using live_separated by fastforce

lemma span_append [simp]: "span H (xs @ ys) = span H xs + span H ys"
  by (induction xs) auto

lemma live_append [simp]: "live H a (xs @ ys) = live H a xs @ live H (a + span H xs) ys"
  by (induction H a xs rule: live.induct) (auto simp: add.assoc)

lemma span_merge_next [simp]: "span H (merge_next H bs) = span H bs"
  by (induction H bs rule: merge_next.induct) auto

lemma live_merge_next [simp]: "live H a (merge_next H bs) = live H a bs"
  by (induction H bs rule: merge_next.induct) (auto simp: add.commute add.left_commute)

lemma ff_alloc_span: "ff_alloc H a n bs = Some (p, bs') \<Longrightarrow> span H bs' = span H bs"
  by (induction H a n bs arbitrary: p bs' rule: ff_alloc.induct)
     (auto split: if_splits)

lemma ff_alloc_bounds:
  "ff_alloc H a n bs = Some (p, bs') \<Longrightarrow> a + H \<le> p \<and> p + n \<le> a + span H bs"
  by (induction H a n bs arbitrary: p bs' rule: ff_alloc.induct)
     (fastforce split: if_splits)+

lemma ff_alloc_live:
  "ff_alloc H a n bs = Some (p, bs') \<Longrightarrow>
   set (live H a bs') = insert (p, n) (set (live H a bs))"
  by (induction H a n bs arbitrary: p bs' rule: ff_alloc.induct)
     (auto split: if_splits simp: add.commute add.left_commute)

lemma ff_alloc_fresh:
  "0 < H \<Longrightarrow> ff_alloc H a n bs = Some (p, bs') \<Longrightarrow> (p, k) \<notin> set (live H a bs)"
proof (induction H a n bs arbitrary: p bs' rule: ff_alloc.induct)
  case (2 H a n s f bs)
  then show ?case
    by (auto split: if_splits dest: live_bounds ff_alloc_bounds)
qed simp

lemma ff_alloc_None:
  "ff_alloc H a n bs = None \<longleftrightarrow> (\<forall>(s, f) \<in> set bs. f \<longrightarrow> s \<noteq> n \<and> s < n + H)"
  by (induction H a n bs rule: ff_alloc.induct) auto

lemma coalesced_Cons:
  "coalesced ((s, f) # bs) \<longleftrightarrow> (case bs of [] \<Rightarrow> True | (s', f') # _ \<Rightarrow> \<not> (f \<and> f')) \<and> coalesced bs"
  by (cases bs) auto

lemma ff_alloc_not_Nil: "ff_alloc H a n bs = Some (p, bs') \<Longrightarrow> bs' \<noteq> []"
  by (cases bs) (auto split: if_splits)

lemma ff_alloc_head:
  "ff_alloc H a n ((s, f) # bs) = Some (p, (s', f') # bs') \<Longrightarrow> f' \<Longrightarrow> f"
  by (auto split: if_splits)

lemma ff_alloc_coalesced:
  "ff_alloc H a n bs = Some (p, bs') \<Longrightarrow> coalesced bs \<Longrightarrow> coalesced bs'"
proof (induction H a n bs arbitrary: p bs' rule: ff_alloc.induct)
  case (2 H a n s f bs)
  show ?case
  proof (cases "f \<and> s = n \<or> f \<and> n + H \<le> s")
    case True
    with "2.prems" show ?thesis
      by (auto simp: coalesced_Cons split: if_splits list.splits)
  next
    case False
    then obtain bs'' where r: "ff_alloc H (a + H + s) n bs = Some (p, bs'')"
        and b: "bs' = (s, f) # bs''"
      using "2.prems"(1) by (auto split: if_splits)
    have "coalesced bs''" using "2.IH" [of p bs''] False r "2.prems"(2) by (auto simp: coalesced_Cons)
    moreover have "f \<longrightarrow> bs'' \<noteq> [] \<longrightarrow> \<not> snd (hd bs'')"
      using r "2.prems"(2) ff_alloc_head
      by (cases bs; cases bs'') (fastforce simp: coalesced_Cons)+
    ultimately show ?thesis
      using b by (auto simp: coalesced_Cons split: list.splits)
  qed
qed simp

lemma ff_free_span: "ff_free H a t bs = Some bs' \<Longrightarrow> span H bs' = span H bs"
  by (induction H a t bs arbitrary: bs' rule: ff_free.induct) (auto split: if_splits)

lemma ff_free_live:
  assumes "0 < H" "ff_free H a t bs = Some bs'"
  shows "set (live H a bs') = {(p, n). (p, n) \<in> set (live H a bs) \<and> p \<noteq> t + H}"
  using assms
proof (induction H a t bs arbitrary: bs' rule: ff_free.induct)
  case (2 H a t s f bs)
  show ?case
  proof (cases "a = t")
    case True
    then have "bs' = merge_next H ((s, True) # bs)" using "2.prems"(2) by simp
    then show ?thesis using True "2.prems"(1) by (auto dest: live_bounds)
  next
    case False
    then obtain cs where c: "ff_free H (a + H + s) t bs = Some cs"
        and b: "bs' = (if f \<and> a + H + s = t then merge_next H ((s, f) # cs) else (s, f) # cs)"
      using "2.prems"(2) by auto
    have "live H a bs' = live H a ((s, f) # cs)" using b by simp
    moreover note "2.IH" [OF False "2.prems"(1) c]
    ultimately show ?thesis using False by auto
  qed
qed simp

lemma ff_free_ge: "ff_free H a t bs = Some bs' \<Longrightarrow> a \<le> t"
  by (induction H a t bs arbitrary: bs' rule: ff_free.induct) (fastforce split: if_splits)+

lemma ff_free_of_live:
  "0 < H \<Longrightarrow> (p, n) \<in> set (live H a bs) \<Longrightarrow> \<exists>bs'. ff_free H a (p - H) bs = Some bs'"
proof (induction H a bs rule: live.induct)
  case (2 H a s f bs)
  then show ?case
    by (cases "a = p - H") (auto split: if_splits dest: live_bounds)
qed simp

lemma ff_free_head:
  assumes "0 < H" "ff_free H a t ((s, f) # bs) = Some ((s', f') # bs')"
  shows "f' \<longleftrightarrow> f \<or> a = t"
  using assms
  by (cases "a = t"; cases f; cases bs; cases bs')
     (auto split: if_splits elim: merge_next.elims)

lemma ff_free_not_Nil: "ff_free H a t bs = Some [] \<Longrightarrow> False"
  by (cases bs) (auto split: if_splits elim: merge_next.elims)

lemma coalesced_merge_next:
  assumes "coalesced bs"
  shows "coalesced (merge_next H ((s, True) # bs))"
proof (cases bs)
  case (Cons b cs)
  obtain s' f' where b: "b = (s', f')" by (cases b)
  show ?thesis
    using assms Cons b by (cases f') (auto simp: coalesced_Cons split: list.split)
qed simp

lemma ff_free_coalesced:
  "0 < H \<Longrightarrow> ff_free H a t bs = Some bs' \<Longrightarrow> coalesced bs \<Longrightarrow> coalesced bs'"
proof (induction H a t bs arbitrary: bs' rule: ff_free.induct)
  case (2 H a t s f bs)
  show ?case
  proof (cases "a = t")
    case True
    then show ?thesis using "2.prems" by (auto simp: coalesced_Cons intro: coalesced_merge_next)
  next
    case False
    then obtain cs where c: "ff_free H (a + H + s) t bs = Some cs"
        and b: "bs' = (if f \<and> a + H + s = t then merge_next H ((s, f) # cs) else (s, f) # cs)"
      using "2.prems"(2) by auto
    have cc: "coalesced cs" using "2.IH" [OF False "2.prems"(1) c] "2.prems"(3)
      by (simp add: coalesced_Cons)
    show ?thesis
    proof (cases "f \<and> a + H + s = t")
      case True
      then show ?thesis using b coalesced_merge_next [OF cc] by simp
    next
      case nm: False
      obtain s1 f1 bs1 where bs: "bs = (s1, f1) # bs1" using c by (cases bs) auto
      obtain s2 f2 cs2 where cs: "cs = (s2, f2) # cs2" using c ff_free_not_Nil by (cases cs) auto
      have "f2 \<longleftrightarrow> f1 \<or> a + H + s = t" using ff_free_head [OF "2.prems"(1)] c bs cs by simp
      then show ?thesis using b nm cc cs bs "2.prems"(3) by (auto simp: coalesced_Cons)
    qed
  qed
qed simp

lemma coalesced_all_free:
  assumes "coalesced bs" "live H a bs = []" "bs \<noteq> []"
  shows "bs = [(span H bs - H, True)]"
proof -
  obtain s f cs where bs: "bs = (s, f) # cs" using assms(3) by (cases bs) auto
  have f: "f" using assms(2) bs by (auto split: if_splits)
  have "cs = []"
  proof (cases cs)
    case (Cons c ds)
    obtain s' f' where c: "c = (s', f')" by (cases c)
    have "f'" using assms(2) bs Cons c by (auto split: if_splits)
    then show ?thesis using assms(1) bs f Cons c by simp
  qed
  then show ?thesis using bs f by simp
qed

text \<open>In a list with no two free blocks side by side, freeing what was just allocated gives the list back.\<close>

lemma ff_alloc_free:
  "0 < H \<Longrightarrow> coalesced bs \<Longrightarrow> ff_alloc H a n bs = Some (p, bs') \<Longrightarrow> ff_free H a (p - H) bs' = Some bs"
proof (induction H a n bs arbitrary: p bs' rule: ff_alloc.induct)
  case (2 H a n s f bs)
  have single: "merge_next H ((s, f) # bs) = (s, f) # bs" using "2.prems"(2) by (cases bs) (auto split: if_splits)
  show ?case
  proof (cases "f \<and> (s = n \<or> n + H \<le> s)")
    case True
    then show ?thesis using "2.prems"(3) single by (auto split: if_splits)
  next
    case False
    then obtain cs where c: "ff_alloc H (a + H + s) n bs = Some (p, cs)" "bs' = (s, f) # cs" using "2.prems"(3) by (auto split: if_splits)
    have b: "coalesced bs" using "2.prems"(2) by (simp add: coalesced_Cons)
    have ih: "ff_free H (a + H + s) (p - H) cs = Some bs" using "2.IH" False "2.prems"(1) b c(1) by auto
    have "a \<noteq> p - H" using ff_alloc_bounds [OF c(1)] "2.prems"(1) by auto
    moreover have "f \<and> a + H + s = p - H \<Longrightarrow> merge_next H ((s, f) # bs) = (s, f) # bs" by (rule single)
    ultimately show ?thesis using ih c(2) by auto
  qed
qed simp

section \<open>The allocator interface\<close>

text \<open>
  \<open>rep m a bs\<close>: the allocator state \<open>m\<close> represents the block list \<open>bs\<close> laid out at address
  \<open>a\<close>.  \<open>alloc\<close> and \<open>dealloc\<close> return \<open>None\<close> where the C code would access memory it must
  not; a failed allocation returns the null pointer.  \<open>peek\<close> and \<open>poke\<close> are the client's
  own reads and writes of payload bytes.
\<close>

locale first_fit_allocator =
  fixes H :: nat
    and rep :: "'m \<Rightarrow> addr \<Rightarrow> ablock list \<Rightarrow> bool"
    and alloc :: "'m \<Rightarrow> nat \<Rightarrow> ('m \<times> addr) option"
    and dealloc :: "'m \<Rightarrow> addr \<Rightarrow> 'm option"
    and peek :: "'m \<Rightarrow> addr \<Rightarrow> byte"
    and poke :: "'m \<Rightarrow> addr \<Rightarrow> byte \<Rightarrow> 'm"
  assumes H_pos: "0 < H"
    and rep_not_Nil: "rep m a bs \<Longrightarrow> bs \<noteq> []"
    and alloc_ok: "rep m a bs \<Longrightarrow> ff_alloc H a n bs = Some (p, bs') \<Longrightarrow>
      \<exists>m'. alloc m n = Some (m', p) \<and> rep m' a bs'"
    and alloc_full: "rep m a bs \<Longrightarrow> ff_alloc H a n bs = None \<Longrightarrow>
      \<exists>m'. alloc m n = Some (m', NULL) \<and> rep m' a bs"
    and alloc_frame: "rep m a bs \<Longrightarrow> alloc m n = Some (m', p) \<Longrightarrow>
      (q, k) \<in> set (live H a bs) \<Longrightarrow> q \<le> x \<Longrightarrow> x < q + k \<Longrightarrow> peek m' x = peek m x"
    and dealloc_ok: "rep m a bs \<Longrightarrow> (p, n) \<in> set (live H a bs) \<Longrightarrow> 0 < n \<Longrightarrow>
      ff_free H a (p - H) bs = Some bs' \<Longrightarrow> \<exists>m'. dealloc m p = Some m' \<and> rep m' a bs'"
    and dealloc_frame: "rep m a bs \<Longrightarrow> (p, n) \<in> set (live H a bs) \<Longrightarrow> 0 < n \<Longrightarrow> dealloc m p = Some m' \<Longrightarrow>
      (q, k) \<in> set (live H a bs) \<Longrightarrow> q \<le> x \<Longrightarrow> x < q + k \<Longrightarrow> peek m' x = peek m x"
    and poke_ok: "rep m a bs \<Longrightarrow> (p, n) \<in> set (live H a bs) \<Longrightarrow> p \<le> x \<Longrightarrow> x < p + n \<Longrightarrow>
      rep (poke m x v) a bs"

text \<open>
  What a well-behaved client can do: request memory, give back what it holds, write into what
  it holds.  The second component is the set of payloads it holds.  Payloads of size 0 are never
  given back: \<open>mymalloc.c\<close> may place one at the very end of its array and then refuses it.
\<close>

inductive client_reach ::
  "('m \<Rightarrow> nat \<Rightarrow> ('m \<times> addr) option) \<Rightarrow> ('m \<Rightarrow> addr \<Rightarrow> 'm option) \<Rightarrow>
   ('m \<Rightarrow> addr \<Rightarrow> byte \<Rightarrow> 'm) \<Rightarrow> 'm \<Rightarrow> 'm \<Rightarrow> (addr \<times> nat) set \<Rightarrow> bool"
  for alloc dealloc poke m0 where
  start: "client_reach alloc dealloc poke m0 m0 {}"
| request: "client_reach alloc dealloc poke m0 m L \<Longrightarrow> alloc m n = Some (m', p) \<Longrightarrow>
    client_reach alloc dealloc poke m0 m' (if p = NULL then L else insert (p, n) L)"
| release: "client_reach alloc dealloc poke m0 m L \<Longrightarrow> (p, n) \<in> L \<Longrightarrow> 0 < n \<Longrightarrow> dealloc m p = Some m' \<Longrightarrow>
    client_reach alloc dealloc poke m0 m' (L - {(p, n)})"
| put: "client_reach alloc dealloc poke m0 m L \<Longrightarrow> (p, n) \<in> L \<Longrightarrow> p \<le> x \<Longrightarrow> x < p + n \<Longrightarrow>
    client_reach alloc dealloc poke m0 (poke m x v) L"

context first_fit_allocator
begin

text \<open>An allocation that succeeds returns a non-null payload that touches no live payload.\<close>

lemma alloc_result:
  assumes "rep m a bs"
  shows "(\<exists>m' p bs'. alloc m n = Some (m', p) \<and> ff_alloc H a n bs = Some (p, bs') \<and> rep m' a bs'
            \<and> p \<noteq> NULL)
       \<or> (\<exists>m'. alloc m n = Some (m', NULL) \<and> rep m' a bs \<and> ff_alloc H a n bs = None)"
proof (cases "ff_alloc H a n bs")
  case None
  then show ?thesis using alloc_full [OF assms] by blast
next
  case (Some r)
  obtain p bs' where r: "r = (p, bs')" by (cases r)
  then have "p \<noteq> NULL" using Some ff_alloc_bounds H_pos by fastforce
  then show ?thesis using Some r alloc_ok [OF assms] by blast
qed

lemma client_invariant:
  assumes "client_reach alloc dealloc poke m0 m L"
    and init: "rep m0 a [(s, True)]"
  shows "\<exists>bs. rep m a bs \<and> set (live H a bs) = L \<and> coalesced bs \<and> span H bs = H + s"
  using assms(1)
proof (induction rule: client_reach.induct)
  case start
  show ?case using init by (intro exI [of _ "[(s, True)]"]) simp
next
  case (request m L n m' p)
  then obtain bs where bs: "rep m a bs" "set (live H a bs) = L" "coalesced bs" "span H bs = H + s"
    by blast
  consider bs' where "ff_alloc H a n bs = Some (p, bs')" "rep m' a bs'" "p \<noteq> NULL"
    | "p = NULL" "rep m' a bs"
    using alloc_result [OF bs(1), of n] request.hyps(2) by auto
  then show ?case
  proof cases
    case 1
    then show ?thesis
      using ff_alloc_live [OF 1(1)] ff_alloc_coalesced [OF 1(1)] ff_alloc_span [OF 1(1)] bs by auto
  next
    case 2
    then show ?thesis using bs by auto
  qed
next
  case (release m L p n m')
  then obtain bs where bs: "rep m a bs" "set (live H a bs) = L" "coalesced bs" "span H bs = H + s"
    by blast
  have lv: "(p, n) \<in> set (live H a bs)" using bs(2) release.hyps(2) by simp
  then obtain bs' where f: "ff_free H a (p - H) bs = Some bs'"
    using ff_free_of_live [OF H_pos] by blast
  have "H \<le> p" using live_bounds [OF lv] by simp
  then have "p - H + H = p" by simp
  then have "set (live H a bs') = {(q, k). (q, k) \<in> L \<and> q \<noteq> p}"
    using ff_free_live [OF H_pos f] bs(2) by simp
  also have "\<dots> = L - {(p, n)}"
    using live_shape [OF H_pos lv] release.hyps(2) unfolding bs(2) by blast
  finally have "set (live H a bs') = L - {(p, n)}" .
  moreover have "rep m' a bs'" using dealloc_ok [OF bs(1) lv release.hyps(3) f] release.hyps(4) by force
  moreover have "coalesced bs'" "span H bs' = H + s"
    using bs(3,4) ff_free_coalesced [OF H_pos f] ff_free_span [OF f] by simp_all
  ultimately show ?case by blast
next
  case (put m L p n x v)
  then show ?case using poke_ok by blast
qed

lemma client_payloads_disjoint:
  assumes "client_reach alloc dealloc poke m0 m L" "rep m0 a [(s, True)]"
    "(p, n) \<in> L" "(q, k) \<in> L" "(p, n) \<noteq> (q, k)"
  shows "{p..<p + n} \<inter> {q..<q + k} = {}"
proof -
  obtain bs where "set (live H a bs) = L" using client_invariant [OF assms(1,2)] by blast
  then show ?thesis using live_separated [of p n H a bs q k] assms(3-5) by auto
qed

lemma client_payload_in_arena:
  assumes "client_reach alloc dealloc poke m0 m L" "rep m0 a [(s, True)]" "(p, n) \<in> L"
  shows "a + H \<le> p \<and> p + n \<le> a + H + s"
proof -
  obtain bs where "set (live H a bs) = L" "span H bs = H + s"
    using client_invariant [OF assms(1,2)] by blast
  then show ?thesis using live_bounds [of p n H a bs] assms(3) by auto
qed

lemma client_never_stuck:
  assumes "client_reach alloc dealloc poke m0 m L" "rep m0 a [(s, True)]"
  shows "(\<exists>m' p. alloc m n = Some (m', p)) \<and> (\<forall>(p, k) \<in> L. 0 < k \<longrightarrow> (\<exists>m'. dealloc m p = Some m'))"
proof -
  obtain bs where bs: "rep m a bs" "set (live H a bs) = L"
    using client_invariant [OF assms] by blast
  then show ?thesis using alloc_result [OF bs(1), of n] dealloc_ok [OF bs(1)]
      ff_free_of_live [OF H_pos] by blast
qed

text \<open>When everything has been given back, the whole arena is one free block again.\<close>

lemma client_all_returned:
  assumes "client_reach alloc dealloc poke m0 m {}" "rep m0 a [(s, True)]"
  shows "\<exists>m'. alloc m s = Some (m', a + H)"
proof -
  obtain bs where bs: "rep m a bs" "set (live H a bs) = {}" "coalesced bs" "span H bs = H + s"
    using client_invariant [OF assms] by blast
  then have "bs = [(s, True)]"
    using coalesced_all_free [of bs H a] rep_not_Nil [OF bs(1)] by simp
  then have "ff_alloc H a s bs = Some (a + H, [(s, False)])" by simp
  then show ?thesis using alloc_ok [OF bs(1)] by blast
qed

end

end
