(* ===== verification/BlockChain.thy ===== *)
theory BlockChain
  imports FirstFit
begin

text \<open>
  Between the abstract block list of \<open>FirstFit\<close> and an allocator's bytes: a chain of headers in
  memory, read through three accessors (free flag, payload size, next header).  The locale
  \<open>block_chain\<close> holds what follows from the accessors looking at the header only; the locale
  \<open>chain_allocator\<close> takes one round of the first-fit loop and of the free-and-merge loop as its
  laws and proves, once, that the loops refine \<open>ff_alloc\<close> and \<open>ff_free\<close>.
\<close>

fun chain :: "nat \<Rightarrow> (bytes \<Rightarrow> addr \<Rightarrow> bool) \<Rightarrow> (bytes \<Rightarrow> addr \<Rightarrow> nat) \<Rightarrow> (bytes \<Rightarrow> addr \<Rightarrow> addr) \<Rightarrow>
    bytes \<Rightarrow> addr \<Rightarrow> ablock list \<Rightarrow> bool" where
  "chain H fr sz nx m b [] = False"
| "chain H fr sz nx m b ((z, f) # bs) =
     (fr m b = f \<and> sz m b = z \<and>
      (if bs = [] then nx m b = NULL
       else nx m b = b + H + z \<and> chain H fr sz nx m (b + H + z) bs))"

text \<open>Memory changed in the headers at \<open>B\<close> only; and memory whose live payloads are unchanged.\<close>

definition only_headers :: "nat \<Rightarrow> addr set \<Rightarrow> bytes \<Rightarrow> bytes \<Rightarrow> bool" where
  "only_headers H B m m' \<longleftrightarrow> (\<forall>x. (\<forall>b \<in> B. x < b \<or> b + H \<le> x) \<longrightarrow> m' x = m x)"

definition same_live :: "nat \<Rightarrow> addr \<Rightarrow> ablock list \<Rightarrow> bytes \<Rightarrow> bytes \<Rightarrow> bool" where
  "same_live H b bs m m' \<longleftrightarrow>
     (\<forall>x < b. m' x = m x) \<and>
     (\<forall>(q, k) \<in> set (live H b bs). \<forall>x. q \<le> x \<longrightarrow> x < q + k \<longrightarrow> m' x = m x)"

lemma only_headersD: "only_headers H B m m' \<Longrightarrow> \<forall>b \<in> B. x < b \<or> b + H \<le> x \<Longrightarrow> m' x = m x"
  by (simp add: only_headers_def)

lemma only_headers_trans:
  "only_headers H B m m' \<Longrightarrow> only_headers H C m' m'' \<Longrightarrow> only_headers H (B \<union> C) m m''"
  by (simp add: only_headers_def)

locale block_chain =
  fixes H :: nat
    and fr :: "bytes \<Rightarrow> addr \<Rightarrow> bool"
    and sz :: "bytes \<Rightarrow> addr \<Rightarrow> nat"
    and nx :: "bytes \<Rightarrow> addr \<Rightarrow> addr"
  assumes H_pos: "0 < H"
    and hdr_cong: "(\<And>x. b \<le> x \<Longrightarrow> x < b + H \<Longrightarrow> m' x = m x) \<Longrightarrow>
      fr m' b = fr m b \<and> sz m' b = sz m b \<and> nx m' b = nx m b"
begin

lemma chain_above:
  "(\<And>x. b \<le> x \<Longrightarrow> m' x = m x) \<Longrightarrow> chain H fr sz nx m' b bs = chain H fr sz nx m b bs"
proof (induction bs arbitrary: b)
  case (Cons x bs)
  then show ?case using hdr_cong [of b m' m] by (cases x) auto
qed simp

lemma chain_within:
  "(\<And>x. b \<le> x \<Longrightarrow> x < b + span H bs \<Longrightarrow> m' x = m x) \<Longrightarrow> chain H fr sz nx m' b bs = chain H fr sz nx m b bs"
proof (induction bs arbitrary: b)
  case (Cons x bs)
  obtain z f where x: "x = (z, f)" by (cases x)
  have "chain H fr sz nx m' (b + H + z) bs = chain H fr sz nx m (b + H + z) bs" by (rule Cons.IH) (use Cons.prems x in auto)
  then show ?case using hdr_cong [of b m' m] Cons.prems x by auto
qed simp

lemma chain_live:
  assumes "chain H fr sz nx m b bs" "(q, k) \<in> set (live H b bs)"
    and out: "\<And>y. y < q \<or> q + k \<le> y \<Longrightarrow> m' y = m y"
  shows "chain H fr sz nx m' b bs"
  using assms(1,2)
proof (induction bs arbitrary: b)
  case (Cons x bs)
  obtain z f where x: "x = (z, f)" by (cases x)
  have "b + H \<le> q" using live_bounds Cons.prems(2) by blast
  then have h: "fr m' b = fr m b" "sz m' b = sz m b" "nx m' b = nx m b"
    using hdr_cong [of b m' m] out by auto
  show ?case
  proof (cases "(q, k) \<in> set (live H (b + H + z) bs)")
    case True
    then have "bs \<noteq> []" by auto
    then show ?thesis using Cons.IH [OF _ True] Cons.prems(1) h x by auto
  next
    case False
    then have "q = b + H" "k = z" using Cons.prems(2) x by (auto split: if_splits)
    then have "chain H fr sz nx m' (b + H + z) bs = chain H fr sz nx m (b + H + z) bs"
      using out by (intro chain_above) auto
    then show ?thesis using Cons.prems(1) h x by auto
  qed
qed simp

lemma live_head_taken:
  "chain H fr sz nx m b bs \<Longrightarrow> (p, n) \<in> set (live H b bs) \<Longrightarrow> \<not> fr m (p - H)"
  by (induction bs arbitrary: b) (auto split: if_splits)

text \<open>The end of a chain, and a new end after the same blocks.\<close>

lemma chain_drop: "chain H fr sz nx m b (xs @ ys) \<Longrightarrow> ys \<noteq> [] \<Longrightarrow> chain H fr sz nx m (b + span H xs) ys"
proof (induction xs arbitrary: b)
  case (Cons x xs)
  then show ?case using Cons.IH [of "b + H + fst x"] by (cases x) (simp add: add.assoc)
qed simp

lemma chain_new_tail:
  assumes "chain H fr sz nx m b (xs @ ys)" "ys \<noteq> []" "ys' \<noteq> []" "\<And>x. b \<le> x \<Longrightarrow> x < b + span H xs \<Longrightarrow> m' x = m x" "chain H fr sz nx m' (b + span H xs) ys'"
  shows "chain H fr sz nx m' b (xs @ ys')"
  using assms
proof (induction xs arbitrary: b)
  case (Cons x xs)
  obtain z f where x: "x = (z, f)" by (cases x)
  have "fr m' b = fr m b \<and> sz m' b = sz m b \<and> nx m' b = nx m b" by (rule hdr_cong) (use Cons.prems(4) x in auto)
  moreover have "chain H fr sz nx m' (b + H + z) (xs @ ys')"
    using Cons.IH [of "b + H + z"] Cons.prems x by (simp add: add.assoc)
  ultimately show ?case using Cons.prems(1-3) x by simp
qed simp

text \<open>Rewriting the head block: only its own header changes.\<close>

lemma chain_head:
  assumes "chain H fr sz nx m b ((z, f) # bs)" "only_headers H {b} m m'"
    "fr m' b = f'" "sz m' b = z" "nx m' b = nx m b"
  shows "chain H fr sz nx m' b ((z, f') # bs)"
proof -
  have "chain H fr sz nx m' (b + H + z) bs = chain H fr sz nx m (b + H + z) bs"
    by (rule chain_above) (auto intro: only_headersD [OF assms(2)])
  then show ?thesis using assms(1,3-5) by auto
qed

text \<open>A new head block whose next is the old second block: what merging with the next does.\<close>

lemma chain_absorb:
  assumes c: "chain H fr sz nx m b ((z, True) # (z', f') # bs)" and o: "only_headers H {b} m m'"
    and f: "fr m' b" "sz m' b = z + z' + H" "nx m' b = nx m (b + H + z)"
  shows "chain H fr sz nx m' b ((z + z' + H, True) # bs)"
proof -
  let ?e = "b + H + z + H + z'"
  have up: "chain H fr sz nx m' ?e bs = chain H fr sz nx m ?e bs"
    by (rule chain_above) (auto intro: only_headersD [OF o])
  have e: "b + H + (z + z' + H) = ?e" by simp
  show ?thesis unfolding chain.simps e using c f up by (auto split: if_splits)
qed

lemma chain_split:
  assumes c: "chain H fr sz nx m b ((z, True) # bs)" and n: "n + H \<le> z"
    and o: "only_headers H {b, b + H + n} m m'"
    and f: "\<not> fr m' b" "sz m' b = n" "nx m' b = b + H + n"
      "fr m' (b + H + n)" "sz m' (b + H + n) = z - n - H" "nx m' (b + H + n) = nx m b"
  shows "chain H fr sz nx m' b ((n, False) # (z - n - H, True) # bs)"
proof -
  have up: "chain H fr sz nx m' (b + H + z) bs = chain H fr sz nx m (b + H + z) bs"
    using n by (intro chain_above only_headersD [OF o]) auto
  have e: "b + H + n + H + (z - n - H) = b + H + z" using n by simp
  show ?thesis unfolding chain.simps e using c f up by (auto split: if_splits)
qed

lemma only_headers_same_live:
  assumes "only_headers H B m m'" "\<And>c. c \<in> B \<Longrightarrow> b \<le> c"
    and "\<And>c q k. c \<in> B \<Longrightarrow> (q, k) \<in> set (live H b bs) \<Longrightarrow> q + k \<le> c \<or> c + H \<le> q"
  shows "same_live H b bs m m'"
proof -
  have "m' x = m x" if "x < b" for x
    using assms(2) that by (intro only_headersD [OF assms(1)]) force
  moreover have "m' x = m x" if "(q, k) \<in> set (live H b bs)" "q \<le> x" "x < q + k" for q k x
    using assms(3) [OF _ that(1)] that(2,3) by (intro only_headersD [OF assms(1)]) force
  ultimately show ?thesis by (auto simp: same_live_def)
qed

lemma same_live_head:
  assumes "only_headers H {b} m m'"
  shows "same_live H b ((z, f) # bs) m m'"
  by (rule only_headers_same_live [OF assms]) (auto dest: live_bounds split: if_splits)

lemma same_live_split:
  assumes "only_headers H {b, b + H + n} m m'" "n + H \<le> z"
  shows "same_live H b ((z, True) # bs) m m'"
  by (rule only_headers_same_live [OF assms(1)]) (use assms(2) in \<open>auto dest: live_bounds\<close>)

lemma same_live_two:
  assumes "only_headers H {b, b + H + z} m m'"
  shows "same_live H b ((z, f) # (z', f') # bs) m m'"
  by (rule only_headers_same_live [OF assms]) (auto dest!: live_bounds split: if_splits)

text \<open>Everything below the last block is as it was, and its bytes if it is taken.\<close>

lemma same_live_last:
  assumes "\<And>x. x < b + span H (xs @ [(z, f)]) \<Longrightarrow> x < b + span H xs \<or> \<not> f \<and> b + span H xs + H \<le> x \<Longrightarrow> m' x = m x"
  shows "same_live H b (xs @ [(z, f)]) m m'"
  unfolding same_live_def using assms by (auto dest!: live_bounds split: if_split_asm)

lemma same_live_Cons:
  assumes "same_live H (b + H + z) bs m m'"
  shows "same_live H b ((z, f) # bs) m m'"
  using assms by (auto simp: same_live_def)

lemma chain_Cons:
  assumes "chain H fr sz nx m b ((z, f) # bs)" "chain H fr sz nx m' (b + H + z) cs" "bs \<noteq> []"
    "same_live H (b + H + z) bs m m'"
  shows "chain H fr sz nx m' b ((z, f) # cs)"
  using assms hdr_cong [of b m' m] by (cases cs) (auto simp: same_live_def)

end

section \<open>The loops\<close>

text \<open>
  \<open>arena s b bs\<close>: the blocks \<open>bs\<close> laid out from \<open>b\<close> reach exactly to the end of the memory the
  state owns.  \<open>search\<close> is the first-fit loop from a header, \<open>walk t previous current\<close> the loop
  that looks for the header \<open>t\<close>.
\<close>

locale chain_allocator = block_chain H fr sz nx
  for H :: nat
    and fr :: "bytes \<Rightarrow> addr \<Rightarrow> bool"
    and sz :: "bytes \<Rightarrow> addr \<Rightarrow> nat"
    and nx :: "bytes \<Rightarrow> addr \<Rightarrow> addr" +
  fixes mem :: "'s \<Rightarrow> bytes"
    and put :: "'s \<Rightarrow> bytes \<Rightarrow> 's"
    and arena :: "'s \<Rightarrow> addr \<Rightarrow> ablock list \<Rightarrow> bool"
    and search :: "'s \<Rightarrow> nat \<Rightarrow> addr \<Rightarrow> ('s \<times> addr) option"
    and walk :: "'s \<Rightarrow> addr \<Rightarrow> addr \<Rightarrow> addr \<Rightarrow> ('s \<times> bool) option"
  assumes arena_tail: "arena s b ((z, f) # bs) \<Longrightarrow> arena s (b + H + z) bs"
    and search_exact: "chain H fr sz nx (mem s) b ((n, True) # bs) \<Longrightarrow> arena s b ((n, True) # bs) \<Longrightarrow>
      \<exists>m'. search s n b = Some (put s m', b + H) \<and> only_headers H {b} (mem s) m' \<and>
        \<not> fr m' b \<and> sz m' b = n \<and> nx m' b = nx (mem s) b"
    and search_split: "chain H fr sz nx (mem s) b ((z, True) # bs) \<Longrightarrow> arena s b ((z, True) # bs) \<Longrightarrow>
      n + H \<le> z \<Longrightarrow>
      \<exists>m'. search s n b = Some (put s m', b + H) \<and> only_headers H {b, b + H + n} (mem s) m' \<and>
        \<not> fr m' b \<and> sz m' b = n \<and> nx m' b = b + H + n \<and>
        fr m' (b + H + n) \<and> sz m' (b + H + n) = z - n - H \<and> nx m' (b + H + n) = nx (mem s) b"
    and search_skip: "chain H fr sz nx (mem s) b ((z, f) # bs) \<Longrightarrow> arena s b ((z, f) # bs) \<Longrightarrow>
      \<not> (f \<and> z = n) \<Longrightarrow> \<not> (f \<and> n + H \<le> z) \<Longrightarrow>
      search s n b = (if bs = [] then Some (s, NULL) else search s n (b + H + z))"
    and walk_found: "chain H fr sz nx (mem s) b ((z, f) # bs) \<Longrightarrow> arena s b ((z, f) # bs) \<Longrightarrow>
      \<exists>m'. walk s b NULL b = Some (put s m', True) \<and> only_headers H {b} (mem s) m' \<and>
        chain H fr sz nx m' b (merge_next H ((z, True) # bs))"
    and walk_found_after: "chain H fr sz nx (mem s) q ((y, g) # (z, f) # bs) \<Longrightarrow>
      arena s q ((y, g) # (z, f) # bs) \<Longrightarrow>
      \<exists>m'. walk s (q + H + y) q (q + H + y) = Some (put s m', True) \<and>
        only_headers H {q, q + H + y} (mem s) m' \<and>
        chain H fr sz nx m' q (if g then merge_next H ((y, g) # merge_next H ((z, True) # bs))
                               else (y, g) # merge_next H ((z, True) # bs))"
    and walk_step: "chain H fr sz nx (mem s) b ((z, f) # bs) \<Longrightarrow> arena s b ((z, f) # bs) \<Longrightarrow> b \<noteq> t \<Longrightarrow>
      walk s t previous b = (if bs = [] then Some (s, False) else walk s t b (b + H + z))"
begin

lemma search_refines_None:
  assumes "chain H fr sz nx (mem s) b bs" "arena s b bs" "ff_alloc H b n bs = None"
  shows "search s n b = Some (s, NULL)"
  using assms
proof (induction bs arbitrary: b)
  case (Cons x bs)
  obtain z f where x: "x = (z, f)" by (cases x)
  have skip: "\<not> (f \<and> z = n)" "\<not> (f \<and> n + H \<le> z)"
    and r: "ff_alloc H (b + H + z) n bs = None"
    using Cons.prems(3) x by (auto split: if_splits)
  show ?case
    using search_skip [OF Cons.prems(1,2) [unfolded x] skip] Cons.IH [OF _ _ r] Cons.prems(1) x
      arena_tail [OF Cons.prems(2) [unfolded x]] by (auto split: if_splits)
qed simp

lemma search_refines_Some:
  assumes "chain H fr sz nx (mem s) b bs" "arena s b bs" "ff_alloc H b n bs = Some (p, bs')"
  shows "\<exists>m'. search s n b = Some (put s m', p) \<and> chain H fr sz nx m' b bs' \<and> same_live H b bs (mem s) m' \<and>
    (\<forall>x \<ge> b + span H bs. m' x = mem s x)"
  using assms
proof (induction bs arbitrary: b bs')
  case (Cons x bs)
  obtain z f where x: "x = (z, f)" by (cases x)
  note c = Cons.prems(1) [unfolded x] and a = Cons.prems(2) [unfolded x]
  consider (fit) "f" "z = n" | (split) "f" "z \<noteq> n" "n + H \<le> z"
    | (skip) "\<not> (f \<and> z = n)" "\<not> (f \<and> n + H \<le> z)" by blast
  then show ?case
  proof cases
    case fit
    then obtain m' where m': "search s n b = Some (put s m', b + H)" "only_headers H {b} (mem s) m'"
      "\<not> fr m' b" "sz m' b = n" "nx m' b = nx (mem s) b"
      using search_exact [of s b n bs] c a by auto
    then show ?thesis
      using chain_head [OF c m'(2), of False] same_live_head [OF m'(2), of n True bs] only_headersD [OF m'(2)] Cons.prems(3) x fit
      by auto
  next
    case split
    then obtain m' where m': "search s n b = Some (put s m', b + H)"
      "only_headers H {b, b + H + n} (mem s) m'" "\<not> fr m' b" "sz m' b = n" "nx m' b = b + H + n"
      "fr m' (b + H + n)" "sz m' (b + H + n) = z - n - H" "nx m' (b + H + n) = nx (mem s) b"
      using search_split [of s b z bs n] c a by auto
    have "f = True" using split(1) by simp
    from chain_split [OF c [unfolded this] split(3) m'(2-8)]
    have "chain H fr sz nx m' b ((n, False) # (z - n - H, True) # bs)" .
    moreover have "p = b + H" "bs' = (n, False) # (z - n - H, True) # bs" "x = (z, True)"
      using Cons.prems(3) x split by auto
    moreover have "m' y = mem s y" if "b + span H (x # bs) \<le> y" for y
      using that x split(3) by (intro only_headersD [OF m'(2)]) auto
    ultimately show ?thesis
      using m'(1) same_live_split [OF m'(2) split(3), of bs] by blast
  next
    case skip
    let ?b = "b + H + z"
    obtain cs where r: "ff_alloc H ?b n bs = Some (p, cs)" and bs': "bs' = (z, f) # cs"
      using Cons.prems(3) x skip by (auto split: if_splits)
    have ne: "bs \<noteq> []" using r by auto
    then have "chain H fr sz nx (mem s) ?b bs" using c by simp
    from Cons.IH [OF this arena_tail [OF a] r] obtain m' where
      m': "search s n ?b = Some (put s m', p)" "chain H fr sz nx m' ?b cs"
        "same_live H ?b bs (mem s) m'" "\<forall>x \<ge> ?b + span H bs. m' x = mem s x" by blast
    then show ?thesis
      using search_skip [OF c a skip] ne bs' x chain_Cons [OF c m'(2) ne m'(3)] same_live_Cons [OF m'(3)]
      by auto
  qed
qed simp

lemma walk_after:
  assumes "chain H fr sz nx (mem s) q ((y, g) # bs)" "arena s q ((y, g) # bs)" "q \<noteq> t"
    "ff_free H q t ((y, g) # bs) = Some cs"
  shows "\<exists>m'. walk s t q (q + H + y) = Some (put s m', True) \<and> chain H fr sz nx m' q cs \<and>
    same_live H q ((y, g) # bs) (mem s) m' \<and> (\<forall>x \<ge> q + span H ((y, g) # bs). m' x = mem s x)"
  using assms
proof (induction bs arbitrary: q y g cs)
  case Nil
  then show ?case by simp
next
  case (Cons x bs)
  obtain z f where x: "x = (z, f)" by (cases x)
  let ?b = "q + H + y"
  note c = Cons.prems(1) [unfolded x] and a = Cons.prems(2) [unfolded x]
  have cb: "chain H fr sz nx (mem s) ?b ((z, f) # bs)" using c by simp
  show ?case
  proof (cases "?b = t")
    case True
    from walk_found_after [OF c a] obtain m' where m': "walk s ?b q ?b = Some (put s m', True)"
      "only_headers H {q, ?b} (mem s) m'"
      "chain H fr sz nx m' q (if g then merge_next H ((y, g) # merge_next H ((z, True) # bs))
                              else (y, g) # merge_next H ((z, True) # bs))" by blast
    then show ?thesis
      using same_live_two [OF m'(2), of g z f bs] only_headersD [OF m'(2)] Cons.prems(3,4) True x by auto
  next
    case False
    obtain ds where ds: "ff_free H ?b t ((z, f) # bs) = Some ds" and cs: "cs = (y, g) # ds"
      using Cons.prems(3,4) x False by (auto split: if_splits)
    have ne: "bs \<noteq> []" using ds False by auto
    obtain m' where m': "walk s t ?b (?b + H + z) = Some (put s m', True)"
      "chain H fr sz nx m' ?b ds" "same_live H ?b ((z, f) # bs) (mem s) m'" "\<forall>x \<ge> ?b + span H ((z, f) # bs). m' x = mem s x"
      using Cons.IH [OF cb arena_tail [OF a] False ds] by blast
    then show ?thesis
      using walk_step [OF cb arena_tail [OF a] False, of q] ne cs x
        chain_Cons [OF c m'(2) _ m'(3)] same_live_Cons [OF m'(3)] by auto
  qed
qed

lemma walk_refines:
  assumes c: "chain H fr sz nx (mem s) b bs" and a: "arena s b bs" and f: "ff_free H b t bs = Some cs"
  shows "\<exists>m'. walk s t NULL b = Some (put s m', True) \<and> chain H fr sz nx m' b cs \<and>
    same_live H b bs (mem s) m' \<and> (\<forall>x \<ge> b + span H bs. m' x = mem s x)"
proof -
  obtain z g ds where bs: "bs = (z, g) # ds" using c by (cases bs) auto
  show ?thesis
  proof (cases "b = t")
    case True
    obtain m' where m': "walk s b NULL b = Some (put s m', True)" "only_headers H {b} (mem s) m'"
      "chain H fr sz nx m' b (merge_next H ((z, True) # ds))"
      using walk_found [OF c [unfolded bs] a [unfolded bs]] by blast
    then show ?thesis using same_live_head [OF m'(2), of z g ds] only_headersD [OF m'(2)] True bs f by auto
  next
    case False
    then have "ds \<noteq> []" using f bs by auto
    then have "walk s t NULL b = walk s t b (b + H + z)"
      using walk_step [OF c [unfolded bs] a [unfolded bs] False] by simp
    then show ?thesis using walk_after [of s b z g ds t cs] c a f bs False by simp
  qed
qed

text \<open>A header address that is not on the chain is not found, and nothing is changed.\<close>

lemma walk_unknown:
  assumes "chain H fr sz nx (mem s) b bs" "arena s b bs" "ff_free H b t bs = None"
  shows "walk s t previous b = Some (s, False)"
  using assms
proof (induction bs arbitrary: b previous)
  case (Cons x bs)
  obtain z f where x: "x = (z, f)" by (cases x)
  have t: "b \<noteq> t" "ff_free H (b + H + z) t bs = None"
    using Cons.prems(3) x by (auto split: if_splits)
  show ?case
    using walk_step [OF Cons.prems(1,2) [unfolded x] t(1), of previous] Cons.IH [OF _ _ t(2)]
      Cons.prems(1) arena_tail [OF Cons.prems(2) [unfolded x]] x by (auto split: if_splits)
qed simp

end

end
