(* ===== verification/MyMalloc.thy ===== *)
theory MyMalloc
  imports BlockChain
begin

text \<open>
  \<open>MallocStuff/mymalloc.c\<close>: a first-fit allocator over the static array \<open>myblock\<close> of 5000
  bytes.  The \<open>Block\<close> headers live inside the array, so the model keeps the array as bytes
  and reads and writes the header fields at their offsets (x86-64 layout of the struct:
  \<open>isFree\<close> at 0, \<open>size\<close> at 2, \<open>next\<close> at 8, 16 bytes in all).  \<open>None\<close> is an access outside
  \<open>myblock\<close> (undefined behaviour) or a walk that never ends.
\<close>

section \<open>State\<close>

definition MM_MAX_MEMORY :: nat where
  "MM_MAX_MEMORY = 5000"

definition MM_BLOCK_SIZE :: nat where
  "MM_BLOCK_SIZE = 16"

lemma MM_BLOCK_SIZE_pos [simp]: "0 < MM_BLOCK_SIZE" "MM_BLOCK_SIZE \<noteq> 0"
  by (simp_all add: MM_BLOCK_SIZE_def)

datatype mm_msg = NotEnoughSpace int string | NotCreated int string | AlreadyFreed int string

text \<open>\<open>myblock\<close> is the address of the array, \<open>printed\<close> the error messages so far.\<close>

record mm_state =
  myblock :: addr
  mm_mem :: bytes
  firstMalloc :: bool
  rootBlock :: addr
  printed :: "mm_msg list"

definition blk_isFree :: "bytes \<Rightarrow> addr \<Rightarrow> bool" where
  "blk_isFree m b = (m b \<noteq> 0)"

definition blk_size :: "bytes \<Rightarrow> addr \<Rightarrow> nat" where
  "blk_size m b = load_le m (b + 2) 2"

definition blk_next :: "bytes \<Rightarrow> addr \<Rightarrow> addr" where
  "blk_next m b = load_le m (b + 8) 8"

definition set_isFree :: "bytes \<Rightarrow> addr \<Rightarrow> bool \<Rightarrow> bytes" where
  "set_isFree m b v = m(b := if v then 1 else 0)"

text \<open>\<open>size\<close> is an \<open>unsigned short\<close>: storing two bytes drops the rest.\<close>

definition set_size :: "bytes \<Rightarrow> addr \<Rightarrow> nat \<Rightarrow> bytes" where
  "set_size m b v = store_le m (b + 2) 2 v"

definition set_next :: "bytes \<Rightarrow> addr \<Rightarrow> addr \<Rightarrow> bytes" where
  "set_next m b p = store_le m (b + 8) 8 p"

text \<open>A \<open>Block*\<close> may be dereferenced when the whole struct lies in \<open>myblock\<close>.\<close>

definition ok_block :: "mm_state \<Rightarrow> addr \<Rightarrow> bool" where
  "ok_block s b \<longleftrightarrow> myblock s \<le> b \<and> b + MM_BLOCK_SIZE \<le> myblock s + MM_MAX_MEMORY"

definition mm_init :: "addr \<Rightarrow> mm_state" where
  "mm_init base = \<lparr>myblock = base, mm_mem = (\<lambda>_. 0), firstMalloc = True, rootBlock = NULL,
     printed = []\<rparr>"

section \<open>Operations\<close>

definition initializeRoot :: "mm_state \<Rightarrow> mm_state" where
  "initializeRoot s =
     (let b = myblock s;
          m = set_next (set_size (set_isFree (mm_mem s) b True) b (MM_MAX_MEMORY - MM_BLOCK_SIZE))
                b NULL
      in s\<lparr>rootBlock := b, mm_mem := m, firstMalloc := False\<rparr>)"

definition inMemorySpace :: "mm_state \<Rightarrow> addr \<Rightarrow> bool" where
  "inMemorySpace s ptr \<longleftrightarrow> myblock s \<le> ptr \<and> ptr \<le> myblock s + (MM_MAX_MEMORY - 1)"

text \<open>What \<open>freeAndMerge\<close> does once \<open>current == toFree\<close>.\<close>

definition merge_at :: "mm_state \<Rightarrow> addr \<Rightarrow> addr \<Rightarrow> mm_state option" where
  "merge_at s previous current =
     (let m1 = set_isFree (mm_mem s) current True;
          next = blk_next m1 current
      in if next \<noteq> NULL \<and> \<not> ok_block s next then None
         else let m2 = (if next \<noteq> NULL \<and> blk_isFree m1 next
                        then let m = set_size m1 current
                                (blk_size m1 current + (blk_size m1 next + MM_BLOCK_SIZE))
                             in set_next m current (blk_next m next)
                        else m1);
                  m3 = (if previous \<noteq> NULL \<and> blk_isFree m2 previous
                        then let m = set_size m2 previous
                                (blk_size m2 previous + (blk_size m2 current + MM_BLOCK_SIZE))
                             in set_next m previous (blk_next m current)
                        else m2)
              in Some (s\<lparr>mm_mem := m3\<rparr>))"

partial_function (option) freeAndMerge_from ::
  "mm_state \<Rightarrow> addr \<Rightarrow> addr \<Rightarrow> addr \<Rightarrow> (mm_state \<times> bool) option" where
  "freeAndMerge_from s toFree previous current =
     (if \<not> ok_block s current then None
      else if current = toFree
      then map_option (\<lambda>s'. (s', True)) (merge_at s previous current)
      else let next = blk_next (mm_mem s) current
           in if next = NULL then Some (s, False)
              else freeAndMerge_from s toFree current next)"

definition freeAndMerge :: "mm_state \<Rightarrow> addr \<Rightarrow> (mm_state \<times> bool) option" where
  "freeAndMerge s toFree = freeAndMerge_from s toFree NULL (rootBlock s)"

text \<open>
  The first-fit search; a null result means that no block was suitable.  The loop moves on when
  the block is taken or too small, and also when it is bigger than the request but cannot hold a
  second header.
\<close>

partial_function (option) mymalloc_from ::
  "mm_state \<Rightarrow> nat \<Rightarrow> addr \<Rightarrow> (mm_state \<times> addr) option" where
  "mymalloc_from s n current =
     (if \<not> ok_block s current then None
      else let m = mm_mem s;
               sizeWithBlock = (n + MM_BLOCK_SIZE) mod 65536;
               next = blk_next m current
           in if (\<not> blk_isFree m current \<or> blk_size m current < n)
                 \<or> (blk_size m current \<noteq> n \<and> \<not> sizeWithBlock \<le> blk_size m current)
              then (if next = NULL then Some (s, NULL) else mymalloc_from s n next)
              else if blk_size m current = n
              then Some (s\<lparr>mm_mem := set_isFree m current False\<rparr>, current + MM_BLOCK_SIZE)
              else let newBlock = current + sizeWithBlock
                   in if \<not> ok_block s newBlock then None
                      else let m1 = set_isFree m newBlock True;
                               m2 = set_size m1 newBlock (blk_size m1 current - sizeWithBlock);
                               m3 = set_next m2 newBlock (blk_next m2 current);
                               m4 = set_next m3 current newBlock;
                               m5 = set_size m4 current n;
                               m6 = set_isFree m5 current False
                           in Some (s\<lparr>mm_mem := m6\<rparr>, current + MM_BLOCK_SIZE))"

definition mymalloc :: "string \<Rightarrow> int \<Rightarrow> mm_state \<Rightarrow> nat \<Rightarrow> (mm_state \<times> addr) option" where
  "mymalloc fl ln s n =
     (let s0 = (if firstMalloc s then initializeRoot s else s)
      in case mymalloc_from s0 n (rootBlock s0) of
           None \<Rightarrow> None
         | Some (s', p) \<Rightarrow>
             if p = NULL
             then Some (s'\<lparr>printed := printed s' @ [NotEnoughSpace ln fl]\<rparr>, NULL)
             else Some (s', p))"

definition myfree :: "string \<Rightarrow> int \<Rightarrow> mm_state \<Rightarrow> addr \<Rightarrow> mm_state option" where
  "myfree fl ln s ptr =
     (if \<not> inMemorySpace s ptr
      then Some (s\<lparr>printed := printed s @ [NotCreated ln fl]\<rparr>)
      else let block = ptr - MM_BLOCK_SIZE
           in if \<not> ok_block s block then None
              else if blk_isFree (mm_mem s) block
              then Some (s\<lparr>printed := printed s @ [AlreadyFreed ln fl]\<rparr>)
              else case freeAndMerge s block of
                     None \<Rightarrow> None
                   | Some (s', True) \<Rightarrow> Some s'
                   | Some (s', False) \<Rightarrow>
                       Some (s'\<lparr>printed := printed s' @ [NotCreated ln fl]\<rparr>))"

section \<open>Header fields\<close>

lemmas hdr_defs = blk_isFree_def blk_size_def blk_next_def set_isFree_def set_size_def set_next_def

lemma hdr_same [mem_simps]:
  "blk_isFree (set_isFree m b v) b = v"
  "blk_isFree (set_size m b n) b = blk_isFree m b"
  "blk_isFree (set_next m b p) b = blk_isFree m b"
  "blk_size (set_isFree m b v) b = blk_size m b"
  "blk_size (set_size m b n) b = n mod 65536"
  "blk_size (set_next m b p) b = blk_size m b"
  "blk_next (set_isFree m b v) b = blk_next m b"
  "blk_next (set_size m b n) b = blk_next m b"
  "blk_next (set_next m b p) b = p mod 2 ^ 64"
  by (simp_all add: hdr_defs mem_simps)

lemma hdr_other [mem_simps]:
  assumes "b + MM_BLOCK_SIZE \<le> c \<or> c + MM_BLOCK_SIZE \<le> b"
  shows "blk_isFree (set_isFree m b v) c = blk_isFree m c"
    "blk_isFree (set_size m b n) c = blk_isFree m c"
    "blk_isFree (set_next m b p) c = blk_isFree m c"
    "blk_size (set_isFree m b v) c = blk_size m c"
    "blk_size (set_size m b n) c = blk_size m c"
    "blk_size (set_next m b p) c = blk_size m c"
    "blk_next (set_isFree m b v) c = blk_next m c"
    "blk_next (set_size m b n) c = blk_next m c"
    "blk_next (set_next m b p) c = blk_next m c"
  using assms by (auto simp: hdr_defs mem_simps MM_BLOCK_SIZE_def)

lemma hdr_byte [mem_simps]:
  assumes "x < b \<or> b + MM_BLOCK_SIZE \<le> x"
  shows "set_isFree m b v x = m x" "set_size m b n x = m x" "set_next m b p x = m x"
  using assms by (auto simp: hdr_defs mem_simps MM_BLOCK_SIZE_def)

section \<open>One round of each loop\<close>

interpretation mm_hdr: block_chain MM_BLOCK_SIZE blk_isFree blk_size blk_next
proof
  fix b and m' m :: bytes
  assume h: "\<And>x. b \<le> x \<Longrightarrow> x < b + MM_BLOCK_SIZE \<Longrightarrow> m' x = m x"
  have "load_le m' (b + 2) 2 = load_le m (b + 2) 2" "load_le m' (b + 8) 8 = load_le m (b + 8) 8"
    by (rule load_le_cong; simp add: h MM_BLOCK_SIZE_def)+
  then show "blk_isFree m' b = blk_isFree m b \<and> blk_size m' b = blk_size m b \<and> blk_next m' b = blk_next m b"
    using h [of b] by (simp add: blk_isFree_def blk_size_def blk_next_def)
qed simp

abbreviation mm_chain :: "bytes \<Rightarrow> addr \<Rightarrow> ablock list \<Rightarrow> bool" where
  "mm_chain \<equiv> chain MM_BLOCK_SIZE blk_isFree blk_size blk_next"

text \<open>A chain that ends where \<open>myblock\<close> ends; every header on it may be dereferenced.\<close>

definition in_arena :: "mm_state \<Rightarrow> addr \<Rightarrow> ablock list \<Rightarrow> bool" where
  "in_arena s b bs \<longleftrightarrow> 0 < myblock s \<and> myblock s + MM_MAX_MEMORY < 2 ^ 64 \<and> myblock s \<le> b \<and>
     b + span MM_BLOCK_SIZE bs = myblock s + MM_MAX_MEMORY"

lemma in_arena_tail:
  "in_arena s b ((sz, f) # bs) \<Longrightarrow> in_arena s (b + MM_BLOCK_SIZE + sz) bs"
  by (auto simp: in_arena_def)

lemma in_arena_ok: "in_arena s b ((sz, f) # bs) \<Longrightarrow> ok_block s b"
  by (auto simp: in_arena_def ok_block_def)

text \<open>The memory after a block has been split.\<close>

definition split_block :: "bytes \<Rightarrow> addr \<Rightarrow> nat \<Rightarrow> nat \<Rightarrow> bytes" where
  "split_block m b n swb =
     (let c = b + swb; m1 = set_isFree m c True; m2 = set_size m1 c (blk_size m1 b - swb);
          m3 = set_next m2 c (blk_next m2 b); m4 = set_next m3 b c; m5 = set_size m4 b n
      in set_isFree m5 b False)"

lemma split_block_only:
  "only_headers MM_BLOCK_SIZE {b, b + swb} m (split_block m b n swb)"
  by (simp add: only_headers_def split_block_def Let_def mem_simps)

lemma split_fields:
  assumes "n + MM_BLOCK_SIZE \<le> blk_size m b" "blk_next m b < 2 ^ 64"
    "b + MM_BLOCK_SIZE + n < 2 ^ 64"
  defines "m' \<equiv> split_block m b n (n + MM_BLOCK_SIZE)" and "c \<equiv> b + MM_BLOCK_SIZE + n"
  shows "\<not> blk_isFree m' b \<and> blk_size m' b = n \<and> blk_next m' b = c \<and>
    blk_isFree m' c \<and> blk_size m' c = blk_size m b - n - MM_BLOCK_SIZE \<and> blk_next m' c = blk_next m b"
proof -
  have "blk_size m b < 65536" using load_le_bound [of m "b + 2" 2] by (simp add: blk_size_def)
  then show ?thesis
    using assms(1-3) by (simp add: m'_def c_def split_block_def Let_def mem_simps ac_simps)
qed

lemma search_split:
  assumes c: "mm_chain (mm_mem s) b ((sz, True) # bs)" and a: "in_arena s b ((sz, True) # bs)"
    and n: "n + MM_BLOCK_SIZE \<le> sz"
  shows "mymalloc_from s n b
    = Some (s\<lparr>mm_mem := split_block (mm_mem s) b n (n + MM_BLOCK_SIZE)\<rparr>, b + MM_BLOCK_SIZE)"
proof -
  have "n + MM_BLOCK_SIZE < 65536" using n a by (auto simp: in_arena_def MM_MAX_MEMORY_def)
  moreover have "ok_block s (b + (n + MM_BLOCK_SIZE))"
    using n a by (auto simp: in_arena_def ok_block_def)
  moreover have "sz \<noteq> n" "n \<le> sz" using n by (auto simp: MM_BLOCK_SIZE_def)
  ultimately show ?thesis
    using c n in_arena_ok [OF a]
    by (subst mymalloc_from.simps) (simp add: Let_def split_block_def)
qed

lemma search_skip:
  assumes c: "mm_chain (mm_mem s) b ((sz, f) # bs)" and a: "in_arena s b ((sz, f) # bs)"
    and skip: "\<not> (f \<and> sz = n)" "\<not> (f \<and> n + MM_BLOCK_SIZE \<le> sz)"
  shows "mymalloc_from s n b =
    (if bs = [] then Some (s, NULL) else mymalloc_from s n (b + MM_BLOCK_SIZE + sz))"
proof -
  have sz: "sz < 5000" using a by (auto simp: in_arena_def MM_MAX_MEMORY_def MM_BLOCK_SIZE_def)
  have "\<not> blk_isFree (mm_mem s) b \<or> blk_size (mm_mem s) b < n
      \<or> blk_size (mm_mem s) b \<noteq> n \<and> \<not> (n + MM_BLOCK_SIZE) mod 65536 \<le> blk_size (mm_mem s) b"
  proof (cases "f \<and> n \<le> sz")
    case True
    then have "(n + MM_BLOCK_SIZE) mod 65536 = n + MM_BLOCK_SIZE"
      using sz by (simp add: MM_BLOCK_SIZE_def)
    then show ?thesis using True skip c by auto
  qed (use c in auto)
  moreover have "0 < myblock s" "myblock s \<le> b" using a by (auto simp: in_arena_def)
  ultimately show ?thesis
    using c in_arena_ok [OF a] by (subst mymalloc_from.simps) (auto simp: Let_def)
qed

text \<open>Absorbing the next block when it is free; only the header at \<open>b\<close> is written.\<close>

definition absorb_next :: "bytes \<Rightarrow> addr \<Rightarrow> bytes" where
  "absorb_next m b =
     (let nx = blk_next m b
      in if nx \<noteq> NULL \<and> blk_isFree m nx
         then set_next (set_size m b (blk_size m b + (blk_size m nx + MM_BLOCK_SIZE)))
                b (blk_next m nx)
         else m)"

lemma absorb_next_only: "only_headers MM_BLOCK_SIZE {b} m (absorb_next m b)"
  by (simp add: only_headers_def absorb_next_def Let_def mem_simps)

lemma absorb_next_chain:
  assumes c: "mm_chain m b ((sz, True) # bs)" and a: "in_arena s b ((sz, True) # bs)"
  shows "mm_chain (absorb_next m b) b (merge_next MM_BLOCK_SIZE ((sz, True) # bs))"
proof (cases bs)
  case Nil
  then show ?thesis using c by (simp add: absorb_next_def)
next
  case (Cons y cs)
  obtain sz' f' where y: "y = (sz', f')" by (cases y)
  let ?c = "b + MM_BLOCK_SIZE + sz"
  show ?thesis
  proof (cases f')
    case False
    then show ?thesis using c Cons y by (auto simp: absorb_next_def Let_def)
  next
    case True
    have lim: "sz + sz' + MM_BLOCK_SIZE < 65536" "blk_next m ?c < 2 ^ 64"
      using c a Cons y by (auto simp: in_arena_def MM_MAX_MEMORY_def split: if_splits)
    have m: "absorb_next m b = set_next (set_size m b (sz + (sz' + MM_BLOCK_SIZE))) b (blk_next m ?c)"
      using c Cons y True by (simp add: absorb_next_def Let_def)
    have "blk_isFree (absorb_next m b) b" "blk_size (absorb_next m b) b = sz + sz' + MM_BLOCK_SIZE"
      "blk_next (absorb_next m b) b = blk_next m ?c"
      using lim c by (simp_all add: m mem_simps)
    from mm_hdr.chain_absorb [OF c [unfolded Cons y] absorb_next_only this]
    show ?thesis using Cons y True by simp
  qed
qed

text \<open>\<open>merge_at\<close> is: mark free, absorb the next block, let the previous one absorb this one.\<close>

lemma mark_free_chain:
  assumes "mm_chain m b ((sz, f) # bs)"
  shows "only_headers MM_BLOCK_SIZE {b} m (set_isFree m b True)"
    "mm_chain (set_isFree m b True) b ((sz, True) # bs)"
proof -
  show o: "only_headers MM_BLOCK_SIZE {b} m (set_isFree m b True)"
    by (simp add: only_headers_def mem_simps)
  show "mm_chain (set_isFree m b True) b ((sz, True) # bs)"
    by (rule mm_hdr.chain_head [OF assms o]) (use assms in \<open>auto simp: mem_simps\<close>)
qed

definition freed :: "bytes \<Rightarrow> addr \<Rightarrow> bytes" where
  "freed m b = absorb_next (set_isFree m b True) b"

lemma freed_chain:
  assumes "mm_chain m b ((sz, f) # bs)" "in_arena s b ((sz, f) # bs)"
  shows "only_headers MM_BLOCK_SIZE {b} m (freed m b)"
    "mm_chain (freed m b) b (merge_next MM_BLOCK_SIZE ((sz, True) # bs))"
proof -
  show "only_headers MM_BLOCK_SIZE {b} m (freed m b)"
    using only_headers_trans [OF mark_free_chain(1) [OF assms(1)] absorb_next_only [of b]]
    by (simp add: freed_def)
  have "in_arena s b ((sz, True) # bs)" using assms(2) by (simp add: in_arena_def)
  then show "mm_chain (freed m b) b (merge_next MM_BLOCK_SIZE ((sz, True) # bs))"
    unfolding freed_def by (rule absorb_next_chain [OF mark_free_chain(2) [OF assms(1)]])
qed

lemma freed_isFree: "blk_isFree (freed m b) b"
  by (simp add: freed_def absorb_next_def Let_def mem_simps)

lemma merge_at_eq:
  assumes c: "mm_chain (mm_mem s) b ((sz, f) # bs)" and a: "in_arena s b ((sz, f) # bs)"
    and prev: "previous \<noteq> NULL \<Longrightarrow> previous + MM_BLOCK_SIZE \<le> b \<and> blk_next (freed (mm_mem s) b) previous = b"
  shows "merge_at s previous b =
    (let m2 = freed (mm_mem s) b
     in Some (s\<lparr>mm_mem := if previous \<noteq> NULL \<and> blk_isFree m2 previous
                         then absorb_next m2 previous else m2\<rparr>))"
proof -
  let ?m1 = "set_isFree (mm_mem s) b True"
  let ?m2 = "freed (mm_mem s) b"
  have b: "0 < b" using a by (auto simp: in_arena_def)
  have nx: "blk_next ?m1 b \<noteq> NULL \<Longrightarrow> ok_block s (blk_next ?m1 b)"
    using c a in_arena_tail [OF a] by (cases bs) (auto simp: mem_simps intro: in_arena_ok)
  have far: "blk_next ?m1 b = NULL \<or> b + MM_BLOCK_SIZE \<le> blk_next ?m1 b"
    using c by (auto simp: mem_simps split: if_splits)
  have ab: "absorb_next ?m2 previous =
      set_next (set_size ?m2 previous (blk_size ?m2 previous + (blk_size ?m2 b + MM_BLOCK_SIZE)))
        previous (blk_next ?m2 b)" if "previous \<noteq> NULL"
    using that prev freed_isFree b by (simp add: absorb_next_def [of ?m2] Let_def)
  show ?thesis
    using nx far ab prev unfolding merge_at_def freed_def
    by (auto simp: Let_def absorb_next_def [of ?m1] mem_simps)
qed

lemma walk_found_after:
  assumes c: "mm_chain (mm_mem s) q ((y, g) # (sz, f) # bs)" and a: "in_arena s q ((y, g) # (sz, f) # bs)"
  defines "b \<equiv> q + MM_BLOCK_SIZE + y"
  shows "\<exists>m'. freeAndMerge_from s b q b = Some (s\<lparr>mm_mem := m'\<rparr>, True) \<and>
    only_headers MM_BLOCK_SIZE {q, b} (mm_mem s) m' \<and>
    mm_chain m' q (if g then merge_next MM_BLOCK_SIZE ((y, g) # merge_next MM_BLOCK_SIZE ((sz, True) # bs))
                   else (y, g) # merge_next MM_BLOCK_SIZE ((sz, True) # bs))"
proof -
  let ?m2 = "freed (mm_mem s) b"
  let ?rest = "merge_next MM_BLOCK_SIZE ((sz, True) # bs)"
  let ?m3 = "if g then absorb_next ?m2 q else ?m2"
  have q: "0 < q" using a by (auto simp: in_arena_def)
  have cb: "mm_chain (mm_mem s) b ((sz, f) # bs)" using c by (simp add: b_def)
  have ab: "in_arena s b ((sz, f) # bs)" using in_arena_tail [OF a] by (simp add: b_def)
  note r = freed_chain [OF cb ab]
  have hq: "blk_isFree ?m2 q = g" "blk_size ?m2 q = y" "blk_next ?m2 q = b"
    using c mm_hdr.hdr_cong [of q ?m2 "mm_mem s"] only_headersD [OF r(1)] by (auto simp: b_def)
  have ne: "?rest \<noteq> []" by (cases "(MM_BLOCK_SIZE, (sz, True) # bs)" rule: merge_next.cases) auto
  have cq: "mm_chain ?m2 q ((y, g) # ?rest)" using hq r(2) ne by (simp add: b_def)
  have sp: "in_arena s q ((y, True) # ?rest)" using a by (auto simp: in_arena_def)
  have "freeAndMerge_from s b q b = Some (s\<lparr>mm_mem := ?m3\<rparr>, True)"
    using merge_at_eq [OF cb ab, of q] q hq in_arena_ok [OF ab]
    by (subst freeAndMerge_from.simps) (simp add: b_def Let_def)
  moreover have "only_headers MM_BLOCK_SIZE {q, b} (mm_mem s) ?m3"
    using r(1) only_headers_trans [OF r(1) absorb_next_only, of q]
    by (auto simp: only_headers_def insert_commute)
  moreover have "mm_chain ?m3 q (if g then merge_next MM_BLOCK_SIZE ((y, g) # ?rest) else (y, g) # ?rest)"
    using cq absorb_next_chain [OF _ sp, of ?m2] by auto
  ultimately show ?thesis by blast
qed

interpretation mm_loops: chain_allocator MM_BLOCK_SIZE blk_isFree blk_size blk_next
  mm_mem "\<lambda>s m. s\<lparr>mm_mem := m\<rparr>" in_arena mymalloc_from freeAndMerge_from
proof
  show "\<And>s b z f bs. in_arena s b ((z, f) # bs) \<Longrightarrow> in_arena s (b + MM_BLOCK_SIZE + z) bs"
    by (rule in_arena_tail)
next
  fix s b n bs
  assume c: "mm_chain (mm_mem s) b ((n, True) # bs)" and a: "in_arena s b ((n, True) # bs)"
  let ?m = "set_isFree (mm_mem s) b False"
  have "mymalloc_from s n b = Some (s\<lparr>mm_mem := ?m\<rparr>, b + MM_BLOCK_SIZE)"
    using c in_arena_ok [OF a] by (subst mymalloc_from.simps) (simp add: Let_def)
  moreover have "only_headers MM_BLOCK_SIZE {b} (mm_mem s) ?m"
    by (simp add: only_headers_def mem_simps)
  ultimately show "\<exists>m'. mymalloc_from s n b = Some (s\<lparr>mm_mem := m'\<rparr>, b + MM_BLOCK_SIZE) \<and>
      only_headers MM_BLOCK_SIZE {b} (mm_mem s) m' \<and> \<not> blk_isFree m' b \<and> blk_size m' b = n \<and>
      blk_next m' b = blk_next (mm_mem s) b"
    using c by (intro exI [of _ ?m]) (simp add: mem_simps)
next
  fix s b z bs n
  assume c: "mm_chain (mm_mem s) b ((z, True) # bs)" and a: "in_arena s b ((z, True) # bs)"
    and n: "n + MM_BLOCK_SIZE \<le> z"
  let ?m = "split_block (mm_mem s) b n (n + MM_BLOCK_SIZE)"
  have "b + MM_BLOCK_SIZE + n < 2 ^ 64" "blk_next (mm_mem s) b < 2 ^ 64" "blk_size (mm_mem s) b = z"
    using c a n by (auto simp: in_arena_def split: if_splits)
  then show "\<exists>m'. mymalloc_from s n b = Some (s\<lparr>mm_mem := m'\<rparr>, b + MM_BLOCK_SIZE) \<and>
      only_headers MM_BLOCK_SIZE {b, b + MM_BLOCK_SIZE + n} (mm_mem s) m' \<and>
      \<not> blk_isFree m' b \<and> blk_size m' b = n \<and> blk_next m' b = b + MM_BLOCK_SIZE + n \<and>
      blk_isFree m' (b + MM_BLOCK_SIZE + n) \<and> blk_size m' (b + MM_BLOCK_SIZE + n) = z - n - MM_BLOCK_SIZE \<and>
      blk_next m' (b + MM_BLOCK_SIZE + n) = blk_next (mm_mem s) b"
    using search_split [OF c a n] split_fields [of n "mm_mem s" b] n
      split_block_only [of b "n + MM_BLOCK_SIZE" "mm_mem s" n]
    by (intro exI [of _ ?m]) (simp add: ac_simps)
next
  show "\<And>s b z f bs n. mm_chain (mm_mem s) b ((z, f) # bs) \<Longrightarrow> in_arena s b ((z, f) # bs) \<Longrightarrow>
      \<not> (f \<and> z = n) \<Longrightarrow> \<not> (f \<and> n + MM_BLOCK_SIZE \<le> z) \<Longrightarrow>
      mymalloc_from s n b =
      (if bs = [] then Some (s, NULL) else mymalloc_from s n (b + MM_BLOCK_SIZE + z))"
    by (rule search_skip)
next
  fix s b z f bs
  assume c: "mm_chain (mm_mem s) b ((z, f) # bs)" and a: "in_arena s b ((z, f) # bs)"
  have "freeAndMerge_from s b NULL b = Some (s\<lparr>mm_mem := freed (mm_mem s) b\<rparr>, True)"
    using merge_at_eq [OF c a, of NULL] in_arena_ok [OF a]
    by (subst freeAndMerge_from.simps) (simp add: Let_def)
  then show "\<exists>m'. freeAndMerge_from s b NULL b = Some (s\<lparr>mm_mem := m'\<rparr>, True) \<and>
      only_headers MM_BLOCK_SIZE {b} (mm_mem s) m' \<and>
      mm_chain m' b (merge_next MM_BLOCK_SIZE ((z, True) # bs))"
    using freed_chain [OF c a] by blast
next
  fix s q y g z f bs
  assume "mm_chain (mm_mem s) q ((y, g) # (z, f) # bs)" "in_arena s q ((y, g) # (z, f) # bs)"
  then show "\<exists>m'. freeAndMerge_from s (q + MM_BLOCK_SIZE + y) q (q + MM_BLOCK_SIZE + y) =
      Some (s\<lparr>mm_mem := m'\<rparr>, True) \<and> only_headers MM_BLOCK_SIZE {q, q + MM_BLOCK_SIZE + y} (mm_mem s) m' \<and>
      mm_chain m' q (if g then merge_next MM_BLOCK_SIZE ((y, g) # merge_next MM_BLOCK_SIZE ((z, True) # bs))
                     else (y, g) # merge_next MM_BLOCK_SIZE ((z, True) # bs))"
    by (rule walk_found_after)
next
  fix s b z f bs t previous
  assume c: "mm_chain (mm_mem s) b ((z, f) # bs)" and a: "in_arena s b ((z, f) # bs)" and "b \<noteq> t"
  then show "freeAndMerge_from s t previous b =
      (if bs = [] then Some (s, False) else freeAndMerge_from s t b (b + MM_BLOCK_SIZE + z))"
    using in_arena_ok [OF a] by (subst freeAndMerge_from.simps) (auto simp: Let_def)
qed

section \<open>The allocator as an instance of the interface\<close>

definition mm_rep :: "mm_state \<Rightarrow> addr \<Rightarrow> ablock list \<Rightarrow> bool" where
  "mm_rep s a bs \<longleftrightarrow> a = myblock s \<and> in_arena s a bs \<and>
     (if firstMalloc s then bs = [(MM_MAX_MEMORY - MM_BLOCK_SIZE, True)]
      else rootBlock s = a \<and> mm_chain (mm_mem s) a bs)"

abbreviation mm_poke :: "mm_state \<Rightarrow> addr \<Rightarrow> byte \<Rightarrow> mm_state" where
  "mm_poke s x v \<equiv> s\<lparr>mm_mem := (mm_mem s)(x := v)\<rparr>"

lemma mm_rep_started:
  assumes "mm_rep s a bs"
  defines "s0 \<equiv> if firstMalloc s then initializeRoot s else s"
  shows "mm_rep s0 a bs" "\<not> firstMalloc s0"
    "(q, k) \<in> set (live MM_BLOCK_SIZE a bs) \<Longrightarrow> mm_mem s0 x = mm_mem s x"
  using assms
  by (auto simp: mm_rep_def initializeRoot_def Let_def in_arena_def mem_simps
      MM_MAX_MEMORY_def MM_BLOCK_SIZE_def)

lemma mymalloc_refines:
  assumes r: "mm_rep s a bs"
  shows "case ff_alloc MM_BLOCK_SIZE a n bs of
      None \<Rightarrow> \<exists>s'. mymalloc fl ln s n = Some (s', NULL) \<and> mm_rep s' a bs \<and>
                (\<forall>(q, k) \<in> set (live MM_BLOCK_SIZE a bs). \<forall>x. q \<le> x \<longrightarrow> x < q + k \<longrightarrow> mm_mem s' x = mm_mem s x)
    | Some (p, bs') \<Rightarrow> \<exists>s'. mymalloc fl ln s n = Some (s', p) \<and> mm_rep s' a bs' \<and>
                (\<forall>(q, k) \<in> set (live MM_BLOCK_SIZE a bs). \<forall>x. q \<le> x \<longrightarrow> x < q + k \<longrightarrow> mm_mem s' x = mm_mem s x)"
proof -
  define s0 where "s0 = (if firstMalloc s then initializeRoot s else s)"
  note st = mm_rep_started [OF r, folded s0_def]
  have c: "rootBlock s0 = a" "mm_chain (mm_mem s0) a bs" "in_arena s0 a bs" "a = myblock s0"
    using st(1,2) by (auto simp: mm_rep_def)
  show ?thesis
  proof (cases "ff_alloc MM_BLOCK_SIZE a n bs")
    case None
    then have "mymalloc_from s0 n a = Some (s0, NULL)" by (rule mm_loops.search_refines_None [OF c(2,3)])
    then have "mymalloc fl ln s n = Some (s0\<lparr>printed := printed s0 @ [NotEnoughSpace ln fl]\<rparr>, NULL)"
      using c(1) by (simp add: mymalloc_def s0_def [symmetric] Let_def)
    then show ?thesis using None st by (auto simp: mm_rep_def in_arena_def)
  next
    case (Some pb)
    obtain p bs' where pb: "pb = (p, bs')" by (cases pb)
    obtain m' where m': "mymalloc_from s0 n a = Some (s0\<lparr>mm_mem := m'\<rparr>, p)" "mm_chain m' a bs'"
      and sl: "same_live MM_BLOCK_SIZE a bs (mm_mem s0) m'"
      using mm_loops.search_refines_Some [OF c(2,3)] Some pb by blast
    have al: "ff_alloc MM_BLOCK_SIZE a n bs = Some (p, bs')" using Some pb by simp
    then have "p \<noteq> NULL" using ff_alloc_bounds [OF al] by (auto simp: MM_BLOCK_SIZE_def)
    then have "mymalloc fl ln s n = Some (s0\<lparr>mm_mem := m'\<rparr>, p)"
      using c(1) m'(1) by (simp add: mymalloc_def s0_def [symmetric] Let_def)
    moreover have "mm_rep (s0\<lparr>mm_mem := m'\<rparr>) a bs'"
      using c st(2) m'(2) ff_alloc_span [OF al] by (auto simp: mm_rep_def in_arena_def)
    ultimately show ?thesis using al sl st(3) by (auto simp: same_live_def)
  qed
qed

lemma myfree_refines:
  assumes r: "mm_rep s a bs" and lv: "(p, n) \<in> set (live MM_BLOCK_SIZE a bs)" and n: "0 < n"
    and f: "ff_free MM_BLOCK_SIZE a (p - MM_BLOCK_SIZE) bs = Some bs'"
  shows "\<exists>s'. myfree fl ln s p = Some s' \<and> mm_rep s' a bs' \<and>
    (\<forall>(q, k) \<in> set (live MM_BLOCK_SIZE a bs). \<forall>x. q \<le> x \<longrightarrow> x < q + k \<longrightarrow> mm_mem s' x = mm_mem s x)"
proof -
  have init: "\<not> firstMalloc s" using r lv by (auto simp: mm_rep_def split: if_splits)
  then have c: "rootBlock s = a" "mm_chain (mm_mem s) a bs" "in_arena s a bs" "a = myblock s"
    using r by (auto simp: mm_rep_def)
  have bd: "a + MM_BLOCK_SIZE \<le> p" "p + n \<le> a + MM_MAX_MEMORY"
    using live_bounds [OF lv] c(3,4) by (auto simp: in_arena_def)
  obtain m' where m': "freeAndMerge s (p - MM_BLOCK_SIZE) = Some (s\<lparr>mm_mem := m'\<rparr>, True)"
    "mm_chain m' a bs'" and sl: "same_live MM_BLOCK_SIZE a bs (mm_mem s) m'"
    using mm_loops.walk_refines [OF c(2,3) f] c(1) by (auto simp: freeAndMerge_def)
  have "inMemorySpace s p" "ok_block s (p - MM_BLOCK_SIZE)"
    using bd c(4) n by (auto simp: inMemorySpace_def ok_block_def MM_MAX_MEMORY_def)
  then have "myfree fl ln s p = Some (s\<lparr>mm_mem := m'\<rparr>)"
    using mm_hdr.live_head_taken [OF c(2) lv] m'(1) by (simp add: myfree_def Let_def)
  moreover have "mm_rep (s\<lparr>mm_mem := m'\<rparr>) a bs'"
    using c init m'(2) ff_free_span [OF f] by (auto simp: mm_rep_def in_arena_def)
  ultimately show ?thesis using sl by (auto simp: same_live_def)
qed

interpretation mm: first_fit_allocator MM_BLOCK_SIZE mm_rep "mymalloc fl ln" "myfree fl ln"
  "\<lambda>s x. mm_mem s x" "\<lambda>s x v. mm_poke s x v" for fl ln
proof
  show "0 < MM_BLOCK_SIZE" by simp
next
  fix m a bs assume "mm_rep m a bs"
  then show "bs \<noteq> []" by (auto simp: mm_rep_def split: if_splits)
next
  fix m a bs n p bs'
  assume "mm_rep m a bs" "ff_alloc MM_BLOCK_SIZE a n bs = Some (p, bs')"
  then show "\<exists>m'. mymalloc fl ln m n = Some (m', p) \<and> mm_rep m' a bs'"
    using mymalloc_refines [of m a bs, where n = n and fl = fl and ln = ln] by auto
next
  fix m a bs n assume "mm_rep m a bs" "ff_alloc MM_BLOCK_SIZE a n bs = None"
  then show "\<exists>m'. mymalloc fl ln m n = Some (m', NULL) \<and> mm_rep m' a bs"
    using mymalloc_refines [of m a bs, where n = n and fl = fl and ln = ln] by auto
next
  fix m a bs n m' p q k x
  assume "mm_rep m a bs" "mymalloc fl ln m n = Some (m', p)"
    "(q, k) \<in> set (live MM_BLOCK_SIZE a bs)" "q \<le> x" "x < q + k"
  then show "mm_mem m' x = mm_mem m x"
    using mymalloc_refines [of m a bs, where n = n and fl = fl and ln = ln] by (fastforce split: option.splits)
next
  fix m a bs p n bs'
  assume "mm_rep m a bs" "(p, n) \<in> set (live MM_BLOCK_SIZE a bs)" "0 < n"
    "ff_free MM_BLOCK_SIZE a (p - MM_BLOCK_SIZE) bs = Some bs'"
  then show "\<exists>m'. myfree fl ln m p = Some m' \<and> mm_rep m' a bs'"
    using myfree_refines by blast
next
  fix m a bs p n m' q k x
  assume h: "mm_rep m a bs" "(p, n) \<in> set (live MM_BLOCK_SIZE a bs)" "0 < n"
    "myfree fl ln m p = Some m'"
    "(q, k) \<in> set (live MM_BLOCK_SIZE a bs)" "q \<le> x" "x < q + k"
  obtain bs' where "ff_free MM_BLOCK_SIZE a (p - MM_BLOCK_SIZE) bs = Some bs'"
    using ff_free_of_live [OF _ h(2)] by auto
  from myfree_refines [OF h(1-3) this, where fl = fl and ln = ln] h(4-7) show "mm_mem m' x = mm_mem m x"
    by fastforce
next
  fix m a bs p n x v
  assume h: "mm_rep m a bs" "(p, n) \<in> set (live MM_BLOCK_SIZE a bs)" "p \<le> x" "x < p + n"
  have init: "\<not> firstMalloc m" using h(1,2) by (auto simp: mm_rep_def)
  then have "mm_chain (mm_mem m) a bs" using h(1) by (auto simp: mm_rep_def)
  then have "mm_chain ((mm_mem m)(x := v)) a bs" by (rule mm_hdr.chain_live [OF _ h(2)]) (use h(3,4) in auto)
  then show "mm_rep (mm_poke m x v) a bs" using h(1) init by (auto simp: mm_rep_def in_arena_def)
qed

section \<open>Properties\<close>

lemma mm_rep_init:
  "0 < base \<Longrightarrow> base + MM_MAX_MEMORY < 2 ^ 64 \<Longrightarrow>
   mm_rep (mm_init base) base [(MM_MAX_MEMORY - MM_BLOCK_SIZE, True)]"
  by (simp add: mm_rep_def mm_init_def in_arena_def MM_MAX_MEMORY_def MM_BLOCK_SIZE_def)

abbreviation mm_client :: "addr \<Rightarrow> string \<Rightarrow> int \<Rightarrow> mm_state \<Rightarrow> (addr \<times> nat) set \<Rightarrow> bool" where
  "mm_client base fl ln s L \<equiv>
     client_reach (mymalloc fl ln) (myfree fl ln) (\<lambda>s x v. mm_poke s x v) (mm_init base) s L"

text \<open>
  Two requests of 100 and 200 bytes from the fresh allocator: the first two payloads the array
  holds, back to back with one header between them.
\<close>

lemma mm_two_requests:
  assumes "0 < base" "base + MM_MAX_MEMORY < 2 ^ 64"
  shows "\<exists>s. mm_client base fl ln s {(base + 16, 100), (base + 132, 200)} \<and>
    mm_rep s base [(100, False), (200, False), (4652, True)]"
proof -
  let ?R = "client_reach (mymalloc fl ln) (myfree fl ln) (\<lambda>s x v. mm_poke s x v) (mm_init base)"
  have "ff_alloc MM_BLOCK_SIZE base 100 [(MM_MAX_MEMORY - MM_BLOCK_SIZE, True)]
      = Some (base + 16, [(100, False), (4868, True)])"
    by (simp add: MM_BLOCK_SIZE_def MM_MAX_MEMORY_def)
  from mm.alloc_ok [OF mm_rep_init [OF assms] this, where fl = fl and ln = ln] obtain s1 where
    s1: "mymalloc fl ln (mm_init base) 100 = Some (s1, base + 16)"
      "mm_rep s1 base [(100, False), (4868, True)]" by blast
  have r1: "?R s1 {(base + 16, 100)}"
    using client_reach.request [where alloc = "mymalloc fl ln" and dealloc = "myfree fl ln"
        and poke = "\<lambda>s x v. mm_poke s x v", OF client_reach.start s1(1)] by simp
  have "ff_alloc MM_BLOCK_SIZE base 200 [(100, False), (4868, True)]
      = Some (base + 132, [(100, False), (200, False), (4652, True)])"
    by (simp add: MM_BLOCK_SIZE_def)
  from mm.alloc_ok [OF s1(2) this, where fl = fl and ln = ln] obtain s2 where
    s2: "mymalloc fl ln s1 200 = Some (s2, base + 132)"
      "mm_rep s2 base [(100, False), (200, False), (4652, True)]" by blast
  have "?R s2 {(base + 16, 100), (base + 132, 200)}"
    using client_reach.request [OF r1 s2(1)] by (simp add: insert_commute)
  then show ?thesis using s2(2) by blast
qed

text \<open>
  C8. Whatever sequence of \<open>mymalloc\<close>, \<open>myfree\<close> of held blocks and writes into held blocks a
  client performs from the start, any two blocks it holds are disjoint byte ranges inside
  \<open>myblock\<close>, past the first header.
\<close>

theorem mymalloc_payloads_disjoint:
  assumes "mm_client base fl ln s L" "0 < base" "base + MM_MAX_MEMORY < 2 ^ 64"
    "(p, n) \<in> L" "(q, k) \<in> L" "(p, n) \<noteq> (q, k)"
  shows "{p..<p + n} \<inter> {q..<q + k} = {} \<and> base + MM_BLOCK_SIZE \<le> p \<and> p + n \<le> base + MM_MAX_MEMORY"
proof -
  have "base + MM_BLOCK_SIZE + (MM_MAX_MEMORY - MM_BLOCK_SIZE) = base + MM_MAX_MEMORY"
    by (simp add: MM_MAX_MEMORY_def MM_BLOCK_SIZE_def)
  then show ?thesis
    using mm.client_payloads_disjoint [OF assms(1) mm_rep_init [OF assms(2,3)] assms(4-6)]
      mm.client_payload_in_arena [OF assms(1) mm_rep_init [OF assms(2,3)] assms(4)] by simp
qed

theorem mymalloc_payloads_disjoint_witness:
  "\<exists>s L. mm_client 4096 ''a.c'' 7 s L \<and> (4112, 100) \<in> L \<and> (4228, 200) \<in> L \<and>
     {4112..<4112 + 100} \<inter> {4228..<4228 + (200::nat)} = {}"
proof -
  obtain s where s: "mm_client 4096 ''a.c'' 7 s {(4112, 100), (4228, 200)}"
    using mm_two_requests [of 4096 "''a.c''" 7] by (auto simp: MM_MAX_MEMORY_def)
  show ?thesis
    using s mymalloc_payloads_disjoint [OF s, of 4112 100 4228 200] by (auto simp: MM_MAX_MEMORY_def)
qed

text \<open>
  C16. No request and no release of a held, non-empty block from a reachable state touches memory
  outside \<open>myblock\<close> or loops (the model returns), and neither changes a byte of any held block.
\<close>

theorem mymalloc_myfree_safe:
  assumes "mm_client base fl ln s L" "0 < base" "base + MM_MAX_MEMORY < 2 ^ 64"
    "(p, n) \<in> L" "0 < n"
  shows "\<exists>s1 r s2. mymalloc fl ln s req = Some (s1, r) \<and> myfree fl ln s p = Some s2 \<and>
    (\<forall>(q, k) \<in> L. \<forall>x. q \<le> x \<longrightarrow> x < q + k \<longrightarrow> mm_mem s1 x = mm_mem s x \<and> mm_mem s2 x = mm_mem s x)"
proof -
  note init = mm_rep_init [OF assms(2,3)]
  obtain bs where bs: "mm_rep s base bs" "set (live MM_BLOCK_SIZE base bs) = L"
    using mm.client_invariant [OF assms(1) init] by blast
  note go = mm.client_never_stuck [OF assms(1) init]
  obtain s1 r where s1: "mymalloc fl ln s req = Some (s1, r)" using go by metis
  obtain s2 where s2: "myfree fl ln s p = Some s2"
    using bspec [OF conjunct2 [OF go] assms(4)] assms(5) by auto
  have "mm_mem s1 x = mm_mem s x \<and> mm_mem s2 x = mm_mem s x"
    if "(q, k) \<in> L" "q \<le> x" "x < q + k" for q k x
    using mm.alloc_frame [OF bs(1) s1, of q k x] mm.dealloc_frame [OF bs(1) _ assms(5) s2, of q k x]
      that assms(4) unfolding bs(2) by simp
  then have "\<forall>(q, k) \<in> L. \<forall>x. q \<le> x \<longrightarrow> x < q + k \<longrightarrow>
      mm_mem s1 x = mm_mem s x \<and> mm_mem s2 x = mm_mem s x"
    by (intro ballI) (clarify, blast)
  then show ?thesis using s1 s2 by (intro exI conjI)
qed

theorem mymalloc_myfree_safe_witness:
  "\<exists>s L. mm_client 4096 ''a.c'' 7 s L \<and> (4112, 100) \<in> L \<and>
     (\<exists>s1 r s2. mymalloc ''a.c'' 7 s 50 = Some (s1, r) \<and> myfree ''a.c'' 7 s 4112 = Some s2)"
proof -
  obtain s where s: "mm_client 4096 ''a.c'' 7 s {(4112, 100), (4228, 200)}"
    using mm_two_requests [of 4096 "''a.c''" 7] by (auto simp: MM_MAX_MEMORY_def)
  have "\<exists>s1 r s2. mymalloc ''a.c'' 7 s 50 = Some (s1, r) \<and> myfree ''a.c'' 7 s 4112 = Some s2"
    using mymalloc_myfree_safe [OF s, of 4112 100 50] by (auto simp: MM_MAX_MEMORY_def)
  then show ?thesis using s by blast
qed

text \<open>
  C17. Freeing coalesces: once everything has been given back, one request for the whole arena
  (4984 bytes) succeeds again and is placed at its start.
\<close>

theorem mymalloc_all_returned:
  assumes "mm_client base fl ln s {}" "0 < base" "base + MM_MAX_MEMORY < 2 ^ 64"
  shows "\<exists>s'. mymalloc fl ln s (MM_MAX_MEMORY - MM_BLOCK_SIZE) = Some (s', base + MM_BLOCK_SIZE)"
  using mm.client_all_returned [OF assms(1) mm_rep_init [OF assms(2,3)]] .

theorem mymalloc_all_returned_witness:
  "\<exists>s s1 s2 s3. mm_client 4096 ''a.c'' 7 s {(4112, 100), (4228, 200)} \<and>
     myfree ''a.c'' 7 s 4112 = Some s1 \<and> myfree ''a.c'' 7 s1 4228 = Some s2 \<and>
     mymalloc ''a.c'' 7 s2 4984 = Some (s3, 4112)"
proof -
  let ?f = "''a.c''" and ?L = "{(4112, 100), (4228, 200)} :: (nat \<times> nat) set"
  obtain s where s: "mm_client 4096 ?f 7 s ?L"
    using mm_two_requests [of 4096 ?f 7] by (auto simp: MM_MAX_MEMORY_def)
  have init: "mm_rep (mm_init 4096) 4096 [(MM_MAX_MEMORY - MM_BLOCK_SIZE, True)]"
    by (rule mm_rep_init) (simp_all add: MM_MAX_MEMORY_def)
  obtain s1 where s1: "myfree ?f 7 s 4112 = Some s1"
    using mm.client_never_stuck [OF s init] by auto
  have r1: "mm_client 4096 ?f 7 s1 {(4228, 200)}"
    using client_reach.release [OF s _ _ s1, of 100] by simp
  obtain s2 where s2: "myfree ?f 7 s1 4228 = Some s2"
    using mm.client_never_stuck [OF r1 init] by auto
  have r2: "mm_client 4096 ?f 7 s2 {}"
    using client_reach.release [OF r1 _ _ s2, of 200] by simp
  obtain s3 where s3: "mymalloc ?f 7 s2 (MM_MAX_MEMORY - MM_BLOCK_SIZE) = Some (s3, 4096 + MM_BLOCK_SIZE)"
    using mymalloc_all_returned [OF r2] by (auto simp: MM_MAX_MEMORY_def)
  then show ?thesis using s s1 s2 by (auto simp: MM_MAX_MEMORY_def MM_BLOCK_SIZE_def)
qed

text \<open>
  C18. What \<open>mymalloc\<close> answers is exactly first fit: it returns the null pointer (and prints the
  out-of-space message) iff no free block has the requested size or room for the request plus
  another header; otherwise the payload of the first such block, and the block list becomes the
  specification's.
\<close>

theorem mymalloc_first_fit:
  assumes "mm_rep s a bs"
  shows "\<exists>s' r. mymalloc fl ln s n = Some (s', r) \<and>
    (case ff_alloc MM_BLOCK_SIZE a n bs of
       None \<Rightarrow> r = NULL \<and> mm_rep s' a bs \<and> (\<forall>(z, f) \<in> set bs. f \<longrightarrow> z \<noteq> n \<and> z < n + MM_BLOCK_SIZE)
     | Some (p, bs') \<Rightarrow> r = p \<and> r \<noteq> NULL \<and> mm_rep s' a bs')"
proof (cases "ff_alloc MM_BLOCK_SIZE a n bs")
  case None
  have "\<forall>(z, f) \<in> set bs. f \<longrightarrow> z \<noteq> n \<and> z < n + MM_BLOCK_SIZE"
    using None unfolding ff_alloc_None .
  then show ?thesis using None mm.alloc_full [OF assms None, where fl = fl and ln = ln] by auto
next
  case (Some pb)
  obtain p bs' where pb: "pb = (p, bs')" by (cases pb)
  have "p \<noteq> NULL"
    using ff_alloc_bounds [of MM_BLOCK_SIZE a n bs p bs'] Some pb by (simp add: MM_BLOCK_SIZE_def)
  then show ?thesis
    using Some pb mm.alloc_ok [OF assms Some [unfolded pb], where fl = fl and ln = ln] by auto
qed

theorem mymalloc_first_fit_witness:
  "\<exists>s'. mymalloc ''a.c'' 7 (mm_init 4096) 5000 = Some (s', NULL)"
proof -
  have "mm_rep (mm_init 4096) 4096 [(MM_MAX_MEMORY - MM_BLOCK_SIZE, True)]"
    by (rule mm_rep_init) (simp_all add: MM_MAX_MEMORY_def)
  from mymalloc_first_fit [OF this, of "''a.c''" 7 5000] show ?thesis
    by (auto simp: MM_MAX_MEMORY_def MM_BLOCK_SIZE_def)
qed

text \<open>
  C34. Error paths of \<open>myfree\<close>: a pointer outside \<open>myblock\<close> and a pointer inside it that is no
  block of the chain (and whose would-be flag byte reads as taken) are both reported as not
  created by malloc, a block that is already free as already freed, and no byte changes.
\<close>

theorem myfree_errors:
  assumes "mm_rep s a bs" "\<not> firstMalloc s"
  shows "(\<not> inMemorySpace s p \<longrightarrow> myfree fl ln s p = Some (s\<lparr>printed := printed s @ [NotCreated ln fl]\<rparr>)) \<and>
    (inMemorySpace s p \<and> a + MM_BLOCK_SIZE \<le> p \<longrightarrow>
      (blk_isFree (mm_mem s) (p - MM_BLOCK_SIZE) \<longrightarrow>
         myfree fl ln s p = Some (s\<lparr>printed := printed s @ [AlreadyFreed ln fl]\<rparr>)) \<and>
      (\<not> blk_isFree (mm_mem s) (p - MM_BLOCK_SIZE) \<and>
       ff_free MM_BLOCK_SIZE a (p - MM_BLOCK_SIZE) bs = None \<longrightarrow>
         myfree fl ln s p = Some (s\<lparr>printed := printed s @ [NotCreated ln fl]\<rparr>)))"
proof -
  have c: "rootBlock s = a" "mm_chain (mm_mem s) a bs" "in_arena s a bs" "a = myblock s"
    using assms by (auto simp: mm_rep_def)
  have "ok_block s (p - MM_BLOCK_SIZE)" if "inMemorySpace s p" "a + MM_BLOCK_SIZE \<le> p"
    using that c(4) by (auto simp: inMemorySpace_def ok_block_def)
  then show ?thesis
    using mm_loops.walk_unknown [OF c(2,3)] c(1) by (simp add: myfree_def Let_def freeAndMerge_def)
qed

theorem myfree_errors_witness:
  "\<exists>s. mm_rep s 4096 [(100, False), (200, False), (4652, True)] \<and>
     myfree ''a.c'' 7 s 17 = Some (s\<lparr>printed := printed s @ [NotCreated 7 ''a.c'']\<rparr>) \<and>
     myfree ''a.c'' 7 s 4444 = Some (s\<lparr>printed := printed s @ [AlreadyFreed 7 ''a.c'']\<rparr>)"
proof -
  obtain s where s: "mm_rep s 4096 [(100, False), (200, False), (4652, True)]"
    using mm_two_requests [of 4096 "''a.c''" 7] by (auto simp: MM_MAX_MEMORY_def)
  then have n: "\<not> firstMalloc s" and b: "myblock s = 4096"
    and f: "blk_isFree (mm_mem s) (4444 - MM_BLOCK_SIZE)"
    by (auto simp: mm_rep_def MM_BLOCK_SIZE_def split: if_splits)
  show ?thesis
    using s b f myfree_errors [OF s n, of 17 "''a.c''" 7] myfree_errors [OF s n, of 4444 "''a.c''" 7]
    by (auto simp: inMemorySpace_def MM_MAX_MEMORY_def MM_BLOCK_SIZE_def)
qed

text \<open>
  An edge the code gets wrong: when the last block of the chain is a free block of size 0,
  \<open>mymalloc(0)\<close> can hand out the one-past-the-end address of \<open>myblock\<close>, and \<open>myfree\<close> of exactly
  that pointer is refused as not created by malloc, so the block can never be given back.
\<close>

theorem myfree_rejects_end_pointer:
  assumes "mm_rep s a [(MM_MAX_MEMORY - 2 * MM_BLOCK_SIZE, False), (0, True)]"
  shows "\<exists>s'. mymalloc fl ln s 0 = Some (s', a + MM_MAX_MEMORY) \<and>
    myfree fl ln s' (a + MM_MAX_MEMORY) = Some (s'\<lparr>printed := printed s' @ [NotCreated ln fl]\<rparr>)"
proof -
  have "ff_alloc MM_BLOCK_SIZE a 0 [(MM_MAX_MEMORY - 2 * MM_BLOCK_SIZE, False), (0, True)]
      = Some (a + MM_MAX_MEMORY, [(MM_MAX_MEMORY - 2 * MM_BLOCK_SIZE, False), (0, False)])"
    by (simp add: MM_MAX_MEMORY_def MM_BLOCK_SIZE_def)
  from mm.alloc_ok [OF assms this, where fl = fl and ln = ln] obtain s' where
    s': "mymalloc fl ln s 0 = Some (s', a + MM_MAX_MEMORY)" and "myblock s' = a"
    by (auto simp: mm_rep_def)
  then have "\<not> inMemorySpace s' (a + MM_MAX_MEMORY)"
    by (simp add: inMemorySpace_def MM_MAX_MEMORY_def)
  then show ?thesis using s' by (simp add: myfree_def)
qed

theorem myfree_rejects_end_pointer_witness:
  "\<exists>s1 s2. mymalloc ''a.c'' 7 (mm_init 4096) 4968 = Some (s1, 4112) \<and>
     mymalloc ''a.c'' 8 s1 0 = Some (s2, 9096) \<and>
     myfree ''a.c'' 8 s2 9096 = Some (s2\<lparr>printed := printed s2 @ [NotCreated 8 ''a.c'']\<rparr>)"
proof -
  have r: "mm_rep (mm_init 4096) 4096 [(MM_MAX_MEMORY - MM_BLOCK_SIZE, True)]"
    by (rule mm_rep_init) (simp_all add: MM_MAX_MEMORY_def)
  have "ff_alloc MM_BLOCK_SIZE 4096 4968 [(MM_MAX_MEMORY - MM_BLOCK_SIZE, True)]
      = Some (4112, [(MM_MAX_MEMORY - 2 * MM_BLOCK_SIZE, False), (0, True)])"
    by (simp add: MM_MAX_MEMORY_def MM_BLOCK_SIZE_def)
  from mm.alloc_ok [OF r this, where fl = "''a.c''" and ln = 7] obtain s1 where
    s1: "mymalloc ''a.c'' 7 (mm_init 4096) 4968 = Some (s1, 4112)"
      "mm_rep s1 4096 [(MM_MAX_MEMORY - 2 * MM_BLOCK_SIZE, False), (0, True)]" by blast
  show ?thesis
    using s1(1) myfree_rejects_end_pointer [OF s1(2), of "''a.c''" 8] by (auto simp: MM_MAX_MEMORY_def)
qed

end
