(* ===== verification/PackedWords.thy ===== *)
theory PackedWords
  imports Prelude
begin

text \<open>
  The 32-bit packed words of \<open>my_pthread.c\<close>: a block header holds the payload size (24 bits), an
  is-there-a-next-block nibble and a free nibble; a page-table entry holds the page number (16
  bits), the owning thread (8 bits) and a free byte.  The locale \<open>packed3\<close> is the contract of
  such a word with three fields; both layouts are instances.
\<close>

section \<open>Block headers\<close>

definition setBlockSize :: "uint32 \<Rightarrow> uint32 \<Rightarrow> uint32" where
  "setBlockSize block sz = push_bit 8 sz OR (block AND 0x000000FF)"

definition getBlockSize :: "uint32 \<Rightarrow> uint32" where
  "getBlockSize block = drop_bit 8 block AND 0x00FFFFFF"

definition setBlockIsNext :: "uint32 \<Rightarrow> uint32 \<Rightarrow> uint32" where
  "setBlockIsNext block isNext = push_bit 4 isNext OR (block AND 0xFFFFFF0F)"

definition getBlockIsNext :: "uint32 \<Rightarrow> uint32" where
  "getBlockIsNext block = drop_bit 4 block AND 0x0000000F"

definition setBlockIsF :: "uint32 \<Rightarrow> uint32 \<Rightarrow> uint32" where
  "setBlockIsF block isF = (block AND 0xFFFFFFF0) OR isF"

definition getBlockIsF :: "uint32 \<Rightarrow> uint32" where
  "getBlockIsF block = block AND 0x0000000F"

section \<open>Page-table entries\<close>

definition setPagePgID :: "uint32 \<Rightarrow> uint32 \<Rightarrow> uint32" where
  "setPagePgID pg i = push_bit 16 i OR (pg AND 0x0000FFFF)"

definition getPagePgID :: "uint32 \<Rightarrow> uint32" where
  "getPagePgID pg = drop_bit 16 pg AND 0x0000FFFF"

definition setPageThID :: "uint32 \<Rightarrow> uint32 \<Rightarrow> uint32" where
  "setPageThID pg i = push_bit 8 i OR (pg AND 0xFFFF00FF)"

definition getPageThID :: "uint32 \<Rightarrow> uint32" where
  "getPageThID pg = drop_bit 8 pg AND 0x000000FF"

definition setPageIsF :: "uint32 \<Rightarrow> uint32 \<Rightarrow> uint32" where
  "setPageIsF pg fr = (pg AND 0xFFFFFF00) OR fr"

definition getPageIsF :: "uint32 \<Rightarrow> uint32" where
  "getPageIsF pg = pg AND 0x000000FF"

lemmas block_word_defs = setBlockSize_def getBlockSize_def setBlockIsNext_def getBlockIsNext_def
  setBlockIsF_def getBlockIsF_def

lemmas page_word_defs = setPagePgID_def getPagePgID_def setPageThID_def getPageThID_def
  setPageIsF_def getPageIsF_def

section \<open>The contract of a word of three fields\<close>

locale packed3 =
  fixes getA getB getC :: "uint32 \<Rightarrow> uint32"
    and setA setB setC :: "uint32 \<Rightarrow> uint32 \<Rightarrow> uint32"
    and limA limB limC :: nat
  assumes bounds: "unat (getA w) < limA" "unat (getB w) < limB" "unat (getC w) < limC"
    and same: "unat v < limA \<Longrightarrow> getA (setA w v) = v" "unat v < limB \<Longrightarrow> getB (setB w v) = v"
      "unat v < limC \<Longrightarrow> getC (setC w v) = v"
    and keepA: "unat v < limA \<Longrightarrow> getB (setA w v) = getB w" "unat v < limA \<Longrightarrow> getC (setA w v) = getC w"
    and keepB: "unat v < limB \<Longrightarrow> getA (setB w v) = getA w" "unat v < limB \<Longrightarrow> getC (setB w v) = getC w"
    and keepC: "unat v < limC \<Longrightarrow> getA (setC w v) = getA w" "unat v < limC \<Longrightarrow> getB (setC w v) = getB w"
    and whole: "getA w = getA w' \<Longrightarrow> getB w = getB w' \<Longrightarrow> getC w = getC w' \<Longrightarrow> w = w'"
begin

lemmas fields = same keepA keepB keepC

text \<open>Writing the three fields makes the word, whatever it held; any order gives the same.\<close>

lemma fill_overwrites:
  assumes "unat a < limA" "unat b < limB" "unat c < limC"
  shows "setB (setA (setC w c) a) b = setB (setA (setC w' c) a) b"
  by (rule whole) (simp_all add: fields assms)

lemma fill_order:
  assumes "unat a < limA" "unat b < limB" "unat c < limC"
  shows "setB (setA (setC w c) a) b = setC (setB (setA w a) b) c"
  by (rule whole) (simp_all add: fields assms)

lemma set_get_id: "setA w (getA w) = w" "setB w (getB w) = w" "setC w (getC w) = w"
  by (rule whole; simp add: fields bounds)+

end

lemma mask_consts:
  "(0x000000FF :: uint32) = mask 8" "(0x00FFFFFF :: uint32) = mask 24"
  "(0x0000000F :: uint32) = mask 4" "(0x0000FFFF :: uint32) = mask 16"
  "(0xFFFFFF0F :: uint32) = NOT (push_bit 4 (mask 4))" "(0xFFFFFFF0 :: uint32) = NOT (mask 4)"
  "(0xFFFF00FF :: uint32) = NOT (push_bit 8 (mask 8))" "(0xFFFFFF00 :: uint32) = NOT (mask 8)"
  by (simp_all add: mask_eq_exp_minus_1)

lemma bit_below:
  fixes v :: uint32
  assumes "unat v < 2 ^ k" "bit v n"
  shows "n < k"
proof (rule ccontr)
  assume "\<not> n < k"
  have "bit (unat v) n" using assms(2) by (simp add: bit_unsigned_iff)
  then have "odd (unat v div 2 ^ n)" by (simp add: bit_iff_odd)
  moreover have "unat v < 2 ^ n"
    using assms(1) \<open>\<not> n < k\<close> power_increasing [of k n "2 :: nat"] by linarith
  ultimately show False by simp
qed

lemma and_mask_bound: "unat (w AND mask k :: uint32) < 2 ^ k" if "k \<le> 32"
proof -
  have "unat (take_bit k w) = take_bit k (unat w)" by (simp add: unsigned_take_bit_eq)
  then show ?thesis by (simp add: take_bit_eq_mask [symmetric])
qed

text \<open>A word agrees with another when three consecutive fields that cover it do.\<close>

lemma word_of_fields:
  fixes w w' :: uint32
  assumes lo: "w AND mask k = w' AND mask k"
    and mid: "drop_bit k w AND mask j = drop_bit k w' AND mask j"
    and hi: "drop_bit (k + j) w AND mask i = drop_bit (k + j) w' AND mask i"
    and "k + j + i = 32"
  shows "w = w'"
proof (rule bit_word_eqI)
  fix n assume n: "n < LENGTH(32)"
  consider "n < k" | "k \<le> n" "n < k + j" | "k + j \<le> n" by linarith
  then show "bit w n = bit w' n"
  proof cases
    case 1
    then show ?thesis using arg_cong [OF lo, of "\<lambda>x. bit x n"] n by (simp add: bit_simps)
  next
    case 2
    then have "bit (drop_bit k w AND mask j) (n - k) = bit w n"
      "bit (drop_bit k w' AND mask j) (n - k) = bit w' n" using n by (auto simp: bit_simps)
    then show ?thesis using mid by simp
  next
    case 3
    then have "bit (drop_bit (k + j) w AND mask i) (n - (k + j)) = bit w n"
      "bit (drop_bit (k + j) w' AND mask i) (n - (k + j)) = bit w' n" using n assms(4) by (auto simp: bit_simps)
    then show ?thesis using hi by simp
  qed
qed

interpretation block_word: packed3 getBlockSize getBlockIsNext getBlockIsF
  setBlockSize setBlockIsNext setBlockIsF "2 ^ 24" "2 ^ 4" "2 ^ 4"
proof
  fix w
  show "unat (getBlockSize w) < 2 ^ 24" "unat (getBlockIsNext w) < 2 ^ 4" "unat (getBlockIsF w) < 2 ^ 4"
    by (simp_all only: block_word_defs mask_consts) (rule and_mask_bound; simp)+
next
  fix v w :: uint32 assume "unat v < 2 ^ 24"
  note h = bit_below [OF this]
  show "getBlockSize (setBlockSize w v) = v" "getBlockIsNext (setBlockSize w v) = getBlockIsNext w"
    "getBlockIsF (setBlockSize w v) = getBlockIsF w"
    by (rule bit_word_eqI; auto simp: block_word_defs mask_consts bit_simps dest: h)+
next
  fix v w :: uint32 assume "unat v < 2 ^ 4"
  note h = bit_below [OF this]
  show "getBlockIsNext (setBlockIsNext w v) = v" "getBlockSize (setBlockIsNext w v) = getBlockSize w"
    "getBlockIsF (setBlockIsNext w v) = getBlockIsF w"
    "getBlockIsF (setBlockIsF w v) = v" "getBlockSize (setBlockIsF w v) = getBlockSize w"
    "getBlockIsNext (setBlockIsF w v) = getBlockIsNext w"
    by (rule bit_word_eqI; auto simp: block_word_defs mask_consts bit_simps dest: h)+
next
  fix w w' assume "getBlockSize w = getBlockSize w'" "getBlockIsNext w = getBlockIsNext w'"
    "getBlockIsF w = getBlockIsF w'"
  then show "w = w'"
    by (intro word_of_fields [of w 4 w' 4 24]) (simp_all only: block_word_defs mask_consts, simp_all)
qed

interpretation page_word: packed3 getPagePgID getPageThID getPageIsF
  setPagePgID setPageThID setPageIsF "2 ^ 16" "2 ^ 8" "2 ^ 8"
proof
  fix w
  show "unat (getPagePgID w) < 2 ^ 16" "unat (getPageThID w) < 2 ^ 8" "unat (getPageIsF w) < 2 ^ 8"
    by (simp_all only: page_word_defs mask_consts) (rule and_mask_bound; simp)+
next
  fix v w :: uint32 assume "unat v < 2 ^ 16"
  note h = bit_below [OF this]
  show "getPagePgID (setPagePgID w v) = v" "getPageThID (setPagePgID w v) = getPageThID w"
    "getPageIsF (setPagePgID w v) = getPageIsF w"
    by (rule bit_word_eqI; auto simp: page_word_defs mask_consts bit_simps dest: h)+
next
  fix v w :: uint32 assume "unat v < 2 ^ 8"
  note h = bit_below [OF this]
  show "getPageThID (setPageThID w v) = v" "getPagePgID (setPageThID w v) = getPagePgID w"
    "getPageIsF (setPageThID w v) = getPageIsF w"
    "getPageIsF (setPageIsF w v) = v" "getPagePgID (setPageIsF w v) = getPagePgID w"
    "getPageThID (setPageIsF w v) = getPageThID w"
    by (rule bit_word_eqI; auto simp: page_word_defs mask_consts bit_simps dest: h)+
next
  fix w w' assume "getPagePgID w = getPagePgID w'" "getPageThID w = getPageThID w'"
    "getPageIsF w = getPageIsF w'"
  then show "w = w'"
    by (intro word_of_fields [of w 8 w' 8 16]) (simp_all only: page_word_defs mask_consts, simp_all)
qed

lemmas packed_word_fields [bits_simps] = block_word.fields page_word.fields

section \<open>Properties\<close>

text \<open>
  A block header is written by three setters, in the order \<open>myallocate\<close> uses, over whatever
  the word held: reading it back gives exactly the size (below 2\<open>^\<close>24), next flag and free flag
  written, and no bit of the old word survives.
\<close>

theorem block_header_roundtrip:
  assumes "unat sz < 2 ^ 24" "unat nxt < 2 ^ 4" "unat fr < 2 ^ 4"
  shows "(let w' = setBlockIsNext (setBlockSize (setBlockIsF w fr) sz) nxt
          in getBlockSize w' = sz \<and> getBlockIsNext w' = nxt \<and> getBlockIsF w' = fr \<and>
             w' = setBlockIsNext (setBlockSize (setBlockIsF 0 fr) sz) nxt)"
  using assms block_word.fill_overwrites [OF assms, of w 0] by (simp add: Let_def bits_simps)

theorem block_header_roundtrip_witness:
  "getBlockSize (setBlockIsNext (setBlockSize (setBlockIsF 0xDEADBEEF 1) 819196) 0) = 819196"
  by (rule conjunct1 [OF block_header_roundtrip [of 819196 0 1 "0xDEADBEEF", unfolded Let_def]]) simp_all

text \<open>
  A page-table entry is written by three setters, in the order \<open>initializePage\<close> uses: reading
  it back gives the page number, the thread and the free byte written, provided the thread id is
  below 256 and the page number below 65536.
\<close>

theorem page_entry_roundtrip:
  assumes "unat pgid < 2 ^ 16" "unat thid < 2 ^ 8" "unat fr < 2 ^ 8"
  shows "(let w' = setPageIsF (setPageThID (setPagePgID w pgid) thid) fr
          in getPagePgID w' = pgid \<and> getPageThID w' = thid \<and> getPageIsF w' = fr)"
  using assms by (simp add: Let_def bits_simps)

theorem page_entry_roundtrip_witness:
  "getPageThID (setPageIsF (setPageThID (setPagePgID 1 1847) 255) 0) = 255"
  using page_entry_roundtrip [of 1847 255 0 1] by (simp add: Let_def)

text \<open>
  Thread ids do not fit their field for ever: for every id from 256 up to the 24 bits that
  survive the shift, \<open>setPageThID\<close> records the id modulo 256, so \<open>getPageThID\<close> attributes the page
  to another thread, and the excess bits are or-ed into the page number.
\<close>

theorem page_thread_id_truncates:
  assumes "unat thid < 2 ^ 24"
  shows "getPageThID (setPageThID w thid) = thid AND 0xFF \<and>
    getPagePgID (setPageThID w thid) = getPagePgID w OR drop_bit 8 thid"
proof
  note h = bit_below [OF assms]
  show "getPageThID (setPageThID w thid) = thid AND 0xFF"
    by (rule bit_word_eqI; auto simp: page_word_defs mask_consts bit_simps)
  show "getPagePgID (setPageThID w thid) = getPagePgID w OR drop_bit 8 thid"
    by (rule bit_word_eqI; auto simp: page_word_defs mask_consts bit_simps dest: h)
qed

theorem page_thread_id_truncates_witness:
  "getPageThID (setPageThID (setPagePgID 0 6) 257) = 1 \<and>
   getPagePgID (setPageThID (setPagePgID 0 6) 257) = 7"
  using page_thread_id_truncates [of 257 "setPagePgID 0 6"] by (simp add: page_word_defs)

end
