(* ===== verification/LibHeap.thy ===== *)
theory LibHeap
  imports BlockChain PackedWords
begin

text \<open>
  The allocator of \<open>my_pthread/my_pthread.c\<close> for the library's own requests (\<open>LIBRARYREQ\<close>) and
  the one the code keeps for the swap file (\<open>DISKREQ\<close>): first fit over blocks with 4-byte packed
  headers, in the first \<open>LIBPAGES\<close> pages of the array \<open>memory\<close>.  \<open>PAGESIZE\<close> is what
  \<open>sysconf\<close> answers and \<open>memory\<close> the address \<open>posix_memalign\<close> returns; both are fields of the
  state that no operation changes.  \<open>None\<close> is an access outside \<open>memory\<close>, or a walk that never
  ends.
\<close>

section \<open>State\<close>

definition PT_BLOCK_SIZE :: nat where
  "PT_BLOCK_SIZE = 4"

definition PT_MAX_MEMORY :: nat where
  "PT_MAX_MEMORY = 8388608"

definition LIBPAGES :: nat where
  "LIBPAGES = 200"

lemma PT_BLOCK_SIZE_pos [simp]: "0 < PT_BLOCK_SIZE" "PT_BLOCK_SIZE \<noteq> 0"
  by (simp_all add: PT_BLOCK_SIZE_def)

datatype pt_msg = PNotEnoughSpace int string | PNotCreated int string | PAlreadyFreed int string
  | PInvalidCaller | PCouldNotAllocate | PDiskAndMemoryFull | POutOfSpace

record pt_heap =
  PAGESIZE :: nat
  memory :: addr
  pt_bytes :: bytes
  pt_root :: addr
  rootBlockD :: addr
  pt_out :: "pt_msg list"

definition say :: "pt_msg \<Rightarrow> pt_heap \<Rightarrow> pt_heap" where
  "say x h = h\<lparr>pt_out := pt_out h @ [x]\<rparr>"

abbreviation put_bytes :: "pt_heap \<Rightarrow> bytes \<Rightarrow> pt_heap" where
  "put_bytes h m \<equiv> h\<lparr>pt_bytes := m\<rparr>"

text \<open>A header may be accessed when it lies in \<open>memory\<close>.\<close>

definition ok_hdr :: "pt_heap \<Rightarrow> addr \<Rightarrow> bool" where
  "ok_hdr h b \<longleftrightarrow> memory h \<le> b \<and> b + PT_BLOCK_SIZE \<le> memory h + PT_MAX_MEMORY"

section \<open>Operations\<close>

definition getNextBlock :: "bytes \<Rightarrow> addr \<Rightarrow> addr" where
  "getNextBlock m block =
     (let isNext = getBlockIsNext (load32 m block)
      in if isNext = 0 then NULL
         else block + unat (getBlockSize (load32 m block)) + PT_BLOCK_SIZE)"

definition upd32 :: "(uint32 \<Rightarrow> uint32) \<Rightarrow> addr \<Rightarrow> bytes \<Rightarrow> bytes" where
  "upd32 f a m = store32 m a (f (load32 m a))"

definition pt_initializeRoot :: "pt_heap \<Rightarrow> pt_heap" where
  "pt_initializeRoot h =
     (let r = memory h;
          m1 = upd32 (\<lambda>w. setBlockIsF w 1) r (pt_bytes h);
          m2 = upd32 (\<lambda>w. setBlockSize w (of_nat (LIBPAGES * PAGESIZE h - PT_BLOCK_SIZE))) r m1;
          m3 = upd32 (\<lambda>w. setBlockIsNext w 0) r m2
      in h\<lparr>pt_root := r, pt_bytes := m3\<rparr>)"

text \<open>Carving a block of \<open>n\<close> bytes off the free block at \<open>current\<close> (the same six statements in
  each branch of \<open>myallocate\<close>).\<close>

definition carve :: "bytes \<Rightarrow> addr \<Rightarrow> nat \<Rightarrow> bytes" where
  "carve m current n =
     (let sizeWithBlock = (of_nat (n + PT_BLOCK_SIZE) :: uint32);
          newBlock = current + unat sizeWithBlock;
          m1 = upd32 (\<lambda>w. setBlockIsF w 1) newBlock m;
          m2 = upd32 (\<lambda>w. setBlockSize w (getBlockSize (load32 m1 current) - sizeWithBlock)) newBlock m1;
          m3 = upd32 (\<lambda>w. setBlockIsNext w (getBlockIsNext (load32 m2 current))) newBlock m2;
          m4 = upd32 (\<lambda>w. setBlockSize w (of_nat n)) current m3;
          m5 = upd32 (\<lambda>w. setBlockIsNext w 1) current m4
      in upd32 (\<lambda>w. setBlockIsF w 0) current m5)"

text \<open>The first-fit loop; a null result means that no block was suitable.\<close>

partial_function (option) firstFit_from ::
  "pt_heap \<Rightarrow> nat \<Rightarrow> addr \<Rightarrow> (pt_heap \<times> addr) option" where
  "firstFit_from h n current =
     (if \<not> ok_hdr h current then None
      else let m = pt_bytes h;
               w = load32 m current;
               sizeWithBlock = (of_nat (n + PT_BLOCK_SIZE) :: uint32);
               next = getNextBlock m current
           in if (getBlockIsF w = 0 \<or> unat (getBlockSize w) < n)
                 \<or> \<not> (getBlockIsF w = 1 \<and> (unat (getBlockSize w) = n \<or> sizeWithBlock \<le> getBlockSize w))
              then (if next = NULL then Some (h, NULL) else firstFit_from h n next)
              else if unat (getBlockSize w) = n
              then Some (put_bytes h (upd32 (\<lambda>w. setBlockIsF w 0) current m), current + PT_BLOCK_SIZE)
              else if \<not> ok_hdr h (current + unat sizeWithBlock) then None
              else Some (put_bytes h (carve m current n), current + PT_BLOCK_SIZE))"

definition allocate_from_root :: "addr \<Rightarrow> string \<Rightarrow> int \<Rightarrow> pt_heap \<Rightarrow> nat \<Rightarrow> (pt_heap \<times> addr) option" where
  "allocate_from_root root fl ln h n =
     (case firstFit_from h n root of
        None \<Rightarrow> None
      | Some (h', p) \<Rightarrow> if p = NULL then Some (say (PNotEnoughSpace ln fl) h', NULL) else Some (h', p))"

definition myallocate_lib :: "string \<Rightarrow> int \<Rightarrow> pt_heap \<Rightarrow> nat \<Rightarrow> (pt_heap \<times> addr) option" where
  "myallocate_lib fl ln h n = allocate_from_root (pt_root h) fl ln h n"

definition myallocate_disk :: "string \<Rightarrow> int \<Rightarrow> pt_heap \<Rightarrow> nat \<Rightarrow> (pt_heap \<times> addr) option" where
  "myallocate_disk fl ln h n = allocate_from_root (rootBlockD h) fl ln h n"

definition inMemSpace :: "pt_heap \<Rightarrow> addr \<Rightarrow> bool" where
  "inMemSpace h ptr \<longleftrightarrow> memory h \<le> ptr \<and> ptr < memory h + PT_MAX_MEMORY"

text \<open>What \<open>freeAndMerge\<close> does once \<open>current == toFree\<close>.\<close>

definition pt_merge_at :: "pt_heap \<Rightarrow> addr \<Rightarrow> addr \<Rightarrow> pt_heap option" where
  "pt_merge_at h previous current =
     (let m1 = upd32 (\<lambda>w. setBlockIsF w 1) current (pt_bytes h);
          next = getNextBlock m1 current
      in if next \<noteq> NULL \<and> \<not> ok_hdr h next then None
         else let m2 = (if next \<noteq> NULL \<and> getBlockIsF (load32 m1 next) = 1
                        then let m = upd32 (\<lambda>w. setBlockSize w (getBlockSize w
                                   + getBlockSize (load32 m1 next) + of_nat PT_BLOCK_SIZE)) current m1
                             in upd32 (\<lambda>w. setBlockIsNext w (getBlockIsNext (load32 m next))) current m
                        else m1);
                  m3 = (if previous \<noteq> NULL \<and> getBlockIsF (load32 m2 previous) = 1
                        then let m = upd32 (\<lambda>w. setBlockSize w (getBlockSize (load32 m2 current)
                                   + getBlockSize w + of_nat PT_BLOCK_SIZE)) previous m2
                             in upd32 (\<lambda>w. setBlockIsNext w (getBlockIsNext (load32 m current))) previous m
                        else m2)
              in Some (put_bytes h m3))"

partial_function (option) pt_freeAndMerge_from ::
  "pt_heap \<Rightarrow> addr \<Rightarrow> addr \<Rightarrow> addr \<Rightarrow> (pt_heap \<times> bool) option" where
  "pt_freeAndMerge_from h toFree previous current =
     (if \<not> ok_hdr h current then None
      else if current = toFree
      then map_option (\<lambda>h'. (h', True)) (pt_merge_at h previous current)
      else let next = getNextBlock (pt_bytes h) current
           in if next = NULL then Some (h, False)
              else pt_freeAndMerge_from h toFree current next)"

definition freeAndMerge_lib :: "pt_heap \<Rightarrow> addr \<Rightarrow> (pt_heap \<times> bool) option" where
  "freeAndMerge_lib h toFree =
     (if pt_root h = NULL then Some (h, False) else pt_freeAndMerge_from h toFree NULL (pt_root h))"

definition mydeallocate_lib :: "string \<Rightarrow> int \<Rightarrow> pt_heap \<Rightarrow> addr \<Rightarrow> pt_heap option" where
  "mydeallocate_lib fl ln h ptr =
     (if \<not> inMemSpace h ptr then Some (say (PNotCreated ln fl) h)
      else let block = ptr - PT_BLOCK_SIZE
           in if \<not> ok_hdr h block then None
              else if getBlockIsF (load32 (pt_bytes h) block) = 1
              then Some (say (PAlreadyFreed ln fl) h)
              else case freeAndMerge_lib h block of
                     None \<Rightarrow> None
                   | Some (h', True) \<Rightarrow> Some h'
                   | Some (h', False) \<Rightarrow> Some (say (PNotCreated ln fl) h'))"

section \<open>Headers in memory\<close>

lemma load32_upd32_same [mem_simps]: "load32 (upd32 f a m) a = f (load32 m a)"
  by (simp add: upd32_def mem_simps)

lemma load32_upd32_other [mem_simps]:
  "b + PT_BLOCK_SIZE \<le> a \<or> a + PT_BLOCK_SIZE \<le> b \<Longrightarrow> load32 (upd32 f a m) b = load32 m b"
  by (simp add: upd32_def mem_simps PT_BLOCK_SIZE_def)

lemma upd32_byte [mem_simps]:
  "x < a \<or> a + PT_BLOCK_SIZE \<le> x \<Longrightarrow> upd32 f a m x = m x"
  by (simp add: upd32_def mem_simps PT_BLOCK_SIZE_def)

definition hdr_free :: "bytes \<Rightarrow> addr \<Rightarrow> bool" where
  "hdr_free m b \<longleftrightarrow> getBlockIsF (load32 m b) = 1"

definition hdr_size :: "bytes \<Rightarrow> addr \<Rightarrow> nat" where
  "hdr_size m b = unat (getBlockSize (load32 m b))"

lemmas hdr_word_defs = hdr_free_def hdr_size_def getNextBlock_def Let_def

lemma hdr_size_bound: "hdr_size m b < 2 ^ 24"
  using block_word.bounds(1) by (simp add: hdr_size_def)

lemma getBlockSize_of: "getBlockSize (load32 m b) = of_nat (hdr_size m b)"
  by (simp add: hdr_size_def)

lemma unat_of_nat32: "k < 2 ^ 32 \<Longrightarrow> unat (of_nat k :: uint32) = k"
  by (simp add: unat_of_nat)

interpretation pt_hdr: block_chain PT_BLOCK_SIZE hdr_free hdr_size getNextBlock
proof
  fix b and m' m :: bytes
  assume "\<And>x. b \<le> x \<Longrightarrow> x < b + PT_BLOCK_SIZE \<Longrightarrow> m' x = m x"
  then have "load32 m' b = load32 m b"
    unfolding load32_def PT_BLOCK_SIZE_def by (simp add: load_le_cong [of b 4 m' m])
  then show "hdr_free m' b = hdr_free m b \<and> hdr_size m' b = hdr_size m b \<and>
      getNextBlock m' b = getNextBlock m b"
    by (simp add: hdr_word_defs)
qed simp

abbreviation pt_chain :: "bytes \<Rightarrow> addr \<Rightarrow> ablock list \<Rightarrow> bool" where
  "pt_chain \<equiv> chain PT_BLOCK_SIZE hdr_free hdr_size getNextBlock"

text \<open>The blocks \<open>bs\<close> from \<open>b\<close> reach exactly to \<open>e\<close>; the library's to the end of the first \<open>LIBPAGES\<close> pages.\<close>

definition pt_arena :: "addr \<Rightarrow> pt_heap \<Rightarrow> addr \<Rightarrow> ablock list \<Rightarrow> bool" where
  "pt_arena e h b bs \<longleftrightarrow> 0 < memory h \<and> e \<le> memory h + PT_MAX_MEMORY \<and> memory h \<le> b \<and> b + span PT_BLOCK_SIZE bs = e"

abbreviation lib_end :: "pt_heap \<Rightarrow> addr" where
  "lib_end h \<equiv> memory h + LIBPAGES * PAGESIZE h"

lemma pt_arena_tail:
  "pt_arena e h b ((z, f) # bs) \<Longrightarrow> pt_arena e h (b + PT_BLOCK_SIZE + z) bs"
  by (auto simp: pt_arena_def)

lemma pt_arena_ok: "pt_arena e h b ((z, f) # bs) \<Longrightarrow> ok_hdr h b"
  by (auto simp: pt_arena_def ok_hdr_def)

lemma pt_arena_size: "pt_arena e h b ((z, f) # bs) \<Longrightarrow> z + span PT_BLOCK_SIZE bs + PT_BLOCK_SIZE \<le> 8388608"
  by (auto simp: pt_arena_def PT_MAX_MEMORY_def)

section \<open>One round of each loop\<close>

lemma carve_only:
  assumes "n + PT_BLOCK_SIZE < 2 ^ 32"
  shows "only_headers PT_BLOCK_SIZE {b, b + PT_BLOCK_SIZE + n} m (carve m b n)"
proof -
  have e: "b + (n + PT_BLOCK_SIZE) = b + PT_BLOCK_SIZE + n" by simp
  show ?thesis
    unfolding only_headers_def carve_def Let_def unat_of_nat32 [OF assms] e by (simp add: mem_simps)
qed

lemma carve_words:
  fixes b n :: nat
  assumes "n + PT_BLOCK_SIZE < 2 ^ 32"
  defines "c \<equiv> b + PT_BLOCK_SIZE + n"
  shows "load32 (carve m b n) b = setBlockIsF (setBlockIsNext (setBlockSize (load32 m b) (of_nat n)) 1) 0"
    "load32 (carve m b n) c = setBlockIsNext (setBlockSize (setBlockIsF (load32 m c) 1)
       (getBlockSize (load32 m b) - of_nat (n + PT_BLOCK_SIZE))) (getBlockIsNext (load32 m b))"
proof -
  have e: "b + (n + PT_BLOCK_SIZE) = c" by (simp add: c_def)
  have far: "b + PT_BLOCK_SIZE \<le> c" by (simp add: c_def)
  show "load32 (carve m b n) b = setBlockIsF (setBlockIsNext (setBlockSize (load32 m b) (of_nat n)) 1) 0"
    "load32 (carve m b n) c = setBlockIsNext (setBlockSize (setBlockIsF (load32 m c) 1)
       (getBlockSize (load32 m b) - of_nat (n + PT_BLOCK_SIZE))) (getBlockIsNext (load32 m b))"
    unfolding carve_def Let_def unat_of_nat32 [OF assms(1)] e using far
    by (simp_all add: mem_simps del: of_nat_add)
qed

lemma carve_fields:
  fixes b n :: nat
  assumes "n + PT_BLOCK_SIZE \<le> hdr_size m b"
  defines "m' \<equiv> carve m b n" and "c \<equiv> b + PT_BLOCK_SIZE + n"
  shows "\<not> hdr_free m' b \<and> hdr_size m' b = n \<and> getNextBlock m' b = c \<and> hdr_free m' c \<and>
    hdr_size m' c = hdr_size m b - n - PT_BLOCK_SIZE \<and> getNextBlock m' c = getNextBlock m b"
proof -
  have z: "hdr_size m b < 2 ^ 24" by (rule hdr_size_bound)
  have n: "n + PT_BLOCK_SIZE < 2 ^ 32" "unat (of_nat n :: uint32) = n" "unat (of_nat n :: uint32) < 2 ^ 24"
    using z assms(1) by (auto simp: unat_of_nat)
  have d: "getBlockSize (load32 m b) - of_nat (n + PT_BLOCK_SIZE)
      = (of_nat (hdr_size m b - (n + PT_BLOCK_SIZE)) :: uint32)"
    unfolding getBlockSize_of using assms(1) by (simp del: of_nat_add)
  have ud: "unat (of_nat (hdr_size m b - (n + PT_BLOCK_SIZE)) :: uint32) = hdr_size m b - (n + PT_BLOCK_SIZE)"
    "unat (of_nat (hdr_size m b - (n + PT_BLOCK_SIZE)) :: uint32) < 2 ^ 24"
    using z by (auto simp: unat_of_nat)
  have nb: "unat (getBlockIsNext (load32 m b)) < 2 ^ 4" by (rule block_word.bounds)
  note w = carve_words [OF n(1), of m b, unfolded d, folded m'_def c_def]
  have "getBlockIsF (load32 m' b) = 0" "getBlockSize (load32 m' b) = of_nat n"
    "getBlockIsNext (load32 m' b) = 1"
    using n by (simp_all add: w bits_simps)
  moreover have "getBlockIsF (load32 m' c) = 1"
    "getBlockSize (load32 m' c) = of_nat (hdr_size m b - (n + PT_BLOCK_SIZE))"
    "getBlockIsNext (load32 m' c) = getBlockIsNext (load32 m b)"
    using ud nb by (simp_all add: w bits_simps)
  ultimately show ?thesis
    using n ud assms(1) by (auto simp: hdr_word_defs c_def hdr_size_def)
qed

text \<open>Absorbing the next block when it is free; only the header at \<open>b\<close> is written.\<close>

definition pt_absorb :: "bytes \<Rightarrow> addr \<Rightarrow> bytes" where
  "pt_absorb m b =
     (let next = getNextBlock m b
      in if next \<noteq> NULL \<and> hdr_free m next
         then upd32 (\<lambda>w. setBlockIsNext (setBlockSize w (getBlockSize w
                + getBlockSize (load32 m next) + of_nat PT_BLOCK_SIZE)) (getBlockIsNext (load32 m next))) b m
         else m)"

lemma upd32_upd32 [mem_simps]: "upd32 g a (upd32 f a m) = upd32 (\<lambda>w. g (f w)) a m"
  by (simp add: upd32_def mem_simps)

lemma pt_absorb_only: "only_headers PT_BLOCK_SIZE {b} m (pt_absorb m b)"
  by (simp add: only_headers_def pt_absorb_def Let_def mem_simps)

lemma pt_absorb_chain:
  assumes c: "pt_chain m b ((z, True) # bs)" and a: "pt_arena e h b ((z, True) # bs)"
  shows "pt_chain (pt_absorb m b) b (merge_next PT_BLOCK_SIZE ((z, True) # bs))"
proof (cases bs)
  case Nil
  then show ?thesis using c by (simp add: pt_absorb_def)
next
  case (Cons y cs)
  obtain z' f' where y: "y = (z', f')" by (cases y)
  let ?c = "b + PT_BLOCK_SIZE + z"
  have nx: "getNextBlock m b = ?c" "hdr_free m ?c = f'" "hdr_size m ?c = z'" "hdr_size m b = z" "hdr_free m b"
    using c Cons y by auto
  show ?thesis
  proof (cases f')
    case False
    then show ?thesis using c Cons y nx by (auto simp: pt_absorb_def Let_def)
  next
    case True
    let ?w = "load32 m b" and ?v = "load32 m ?c"
    have lim: "z + z' + PT_BLOCK_SIZE < 2 ^ 24" using pt_arena_size [OF a] Cons y by simp
    then have sum: "getBlockSize ?w + getBlockSize ?v + of_nat PT_BLOCK_SIZE
        = (of_nat (z + z' + PT_BLOCK_SIZE) :: uint32)"
      using nx by (simp add: getBlockSize_of)
    have u: "unat (of_nat (z + z' + PT_BLOCK_SIZE) :: uint32) = z + z' + PT_BLOCK_SIZE"
      by (rule unat_of_nat32) (use lim in simp)
    have w': "load32 (pt_absorb m b) b
        = setBlockIsNext (setBlockSize ?w (of_nat (z + z' + PT_BLOCK_SIZE))) (getBlockIsNext ?v)"
      using nx True sum by (simp add: pt_absorb_def Let_def mem_simps del: of_nat_add)
    have nb: "unat (getBlockIsNext ?v) < 2 ^ 4" by (rule block_word.bounds)
    have "getBlockSize (load32 (pt_absorb m b) b) = of_nat (z + z' + PT_BLOCK_SIZE)"
      "getBlockIsF (load32 (pt_absorb m b) b) = getBlockIsF ?w"
      "getBlockIsNext (load32 (pt_absorb m b) b) = getBlockIsNext ?v"
      unfolding w' using nb u lim by (simp_all add: bits_simps del: of_nat_add)
    then have "hdr_free (pt_absorb m b) b" "hdr_size (pt_absorb m b) b = z + z' + PT_BLOCK_SIZE"
      "getNextBlock (pt_absorb m b) b = getNextBlock m ?c"
      using nx u by (simp_all add: hdr_word_defs del: of_nat_add)
    from pt_hdr.chain_absorb [OF c [unfolded Cons y] pt_absorb_only this]
    show ?thesis using Cons y True by simp
  qed
qed

definition pt_freed :: "bytes \<Rightarrow> addr \<Rightarrow> bytes" where
  "pt_freed m b = pt_absorb (upd32 (\<lambda>w. setBlockIsF w 1) b m) b"

lemma mark_free_fields:
  "hdr_free (upd32 (\<lambda>w. setBlockIsF w 1) b m) b"
  "hdr_size (upd32 (\<lambda>w. setBlockIsF w 1) b m) b = hdr_size m b"
  "getNextBlock (upd32 (\<lambda>w. setBlockIsF w 1) b m) b = getNextBlock m b"
  by (simp_all add: hdr_word_defs mem_simps bits_simps)

lemma mark_taken_fields:
  "\<not> hdr_free (upd32 (\<lambda>w. setBlockIsF w 0) b m) b"
  "hdr_size (upd32 (\<lambda>w. setBlockIsF w 0) b m) b = hdr_size m b"
  "getNextBlock (upd32 (\<lambda>w. setBlockIsF w 0) b m) b = getNextBlock m b"
  by (simp_all add: hdr_word_defs mem_simps bits_simps)

lemma upd32_only: "only_headers PT_BLOCK_SIZE {b} m (upd32 f b m)"
  by (simp add: only_headers_def mem_simps)

lemma pt_freed_chain:
  assumes c: "pt_chain m b ((z, f) # bs)" and a: "pt_arena e h b ((z, f) # bs)"
  shows "only_headers PT_BLOCK_SIZE {b} m (pt_freed m b)"
    "pt_chain (pt_freed m b) b (merge_next PT_BLOCK_SIZE ((z, True) # bs))"
proof -
  show "only_headers PT_BLOCK_SIZE {b} m (pt_freed m b)"
    using only_headers_trans [OF upd32_only [of b m "\<lambda>w. setBlockIsF w 1"] pt_absorb_only [of b]]
    by (simp add: pt_freed_def)
  have "pt_chain (upd32 (\<lambda>w. setBlockIsF w 1) b m) b ((z, True) # bs)"
    by (rule pt_hdr.chain_head [OF c upd32_only]) (use c in \<open>simp_all add: mark_free_fields\<close>)
  moreover have "pt_arena e h b ((z, True) # bs)" using a by (simp add: pt_arena_def)
  ultimately show "pt_chain (pt_freed m b) b (merge_next PT_BLOCK_SIZE ((z, True) # bs))"
    unfolding pt_freed_def by (rule pt_absorb_chain)
qed

lemma merge_next_head: "\<exists>y cs. merge_next H ((z, True) # bs) = (y, True) # cs"
  by (cases "(H, (z, True) # bs)" rule: merge_next.cases) auto

lemma pt_merge_at_eq:
  assumes c: "pt_chain (pt_bytes h) b ((z, f) # bs)" and a: "pt_arena e h b ((z, f) # bs)"
    and prev: "previous \<noteq> NULL \<Longrightarrow>
      previous + PT_BLOCK_SIZE \<le> b \<and> getNextBlock (pt_freed (pt_bytes h) b) previous = b"
  shows "pt_merge_at h previous b =
    (let m2 = pt_freed (pt_bytes h) b
     in Some (put_bytes h (if previous \<noteq> NULL \<and> hdr_free m2 previous then pt_absorb m2 previous else m2)))"
proof -
  let ?m1 = "upd32 (\<lambda>w. setBlockIsF w 1) b (pt_bytes h)"
  let ?m2 = "pt_freed (pt_bytes h) b"
  have b: "0 < b" using a by (auto simp: pt_arena_def)
  have nx: "getNextBlock ?m1 b \<noteq> NULL \<Longrightarrow> ok_hdr h (getNextBlock ?m1 b)"
    using c a pt_arena_tail [OF a] by (cases bs) (auto simp: mark_free_fields intro: pt_arena_ok)
  have far: "getNextBlock ?m1 b = NULL \<or> b + PT_BLOCK_SIZE \<le> getNextBlock ?m1 b"
    by (simp add: getNextBlock_def Let_def)
  obtain y cs where "pt_chain ?m2 b ((y, True) # cs)"
    using pt_freed_chain(2) [OF c a] merge_next_head by metis
  then have fr: "hdr_free ?m2 b" by simp
  have ab: "pt_absorb ?m2 previous = upd32 (\<lambda>w. setBlockIsNext (setBlockSize w (getBlockSize w
        + getBlockSize (load32 ?m2 b) + of_nat PT_BLOCK_SIZE)) (getBlockIsNext (load32 ?m2 b))) previous ?m2"
    if "previous \<noteq> NULL"
    using that prev fr b by (simp add: pt_absorb_def [of ?m2] Let_def)
  have m2: "?m2 = (if getNextBlock ?m1 b \<noteq> NULL \<and> getBlockIsF (load32 ?m1 (getNextBlock ?m1 b)) = 1
      then upd32 (\<lambda>w. setBlockIsNext w (getBlockIsNext (load32 ?m1 (getNextBlock ?m1 b)))) b
             (upd32 (\<lambda>w. setBlockSize w (getBlockSize w + getBlockSize (load32 ?m1 (getNextBlock ?m1 b))
                + of_nat PT_BLOCK_SIZE)) b ?m1)
      else ?m1)"
    by (simp add: pt_freed_def pt_absorb_def Let_def hdr_free_def mem_simps)
  have comm: "getBlockSize (load32 ?m2 b) + getBlockSize w + of_nat PT_BLOCK_SIZE
      = getBlockSize w + getBlockSize (load32 ?m2 b) + of_nat PT_BLOCK_SIZE" for w by simp
  show ?thesis
  proof (cases "previous = NULL")
    case True
    then show ?thesis
      using nx far unfolding pt_merge_at_def Let_def m2 by (auto simp: mem_simps)
  next
    case False
    then have p: "previous + PT_BLOCK_SIZE \<le> b" using prev by simp
    have "pt_merge_at h previous b =
      Some (put_bytes h (if hdr_free ?m2 previous
        then upd32 (\<lambda>w. setBlockIsNext w (getBlockIsNext (load32 ?m2 b))) previous
               (upd32 (\<lambda>w. setBlockSize w (getBlockSize (load32 ?m2 b) + getBlockSize w + of_nat PT_BLOCK_SIZE))
                 previous ?m2)
        else ?m2))"
      using nx far p False unfolding pt_merge_at_def Let_def m2 hdr_free_def
      by (auto simp: load32_upd32_other)
    also have "\<dots> = Some (put_bytes h (if hdr_free ?m2 previous then pt_absorb ?m2 previous else ?m2))"
      using ab [OF False] by (simp add: mem_simps comm)
    finally show ?thesis using False by (simp add: Let_def)
  qed
qed

lemma pt_walk_found_after:
  assumes c: "pt_chain (pt_bytes h) q ((y, g) # (z, f) # bs)" and a: "pt_arena e h q ((y, g) # (z, f) # bs)"
  defines "b \<equiv> q + PT_BLOCK_SIZE + y"
  shows "\<exists>m'. pt_freeAndMerge_from h b q b = Some (put_bytes h m', True) \<and>
    only_headers PT_BLOCK_SIZE {q, b} (pt_bytes h) m' \<and>
    pt_chain m' q (if g then merge_next PT_BLOCK_SIZE ((y, g) # merge_next PT_BLOCK_SIZE ((z, True) # bs))
                   else (y, g) # merge_next PT_BLOCK_SIZE ((z, True) # bs))"
proof -
  let ?m2 = "pt_freed (pt_bytes h) b"
  let ?rest = "merge_next PT_BLOCK_SIZE ((z, True) # bs)"
  let ?m3 = "if g then pt_absorb ?m2 q else ?m2"
  have q: "0 < q" using a by (auto simp: pt_arena_def)
  have cb: "pt_chain (pt_bytes h) b ((z, f) # bs)" using c by (simp add: b_def)
  have ab: "pt_arena e h b ((z, f) # bs)" using pt_arena_tail [OF a] by (simp add: b_def)
  note r = pt_freed_chain [OF cb ab]
  have hq: "hdr_free ?m2 q = g" "hdr_size ?m2 q = y" "getNextBlock ?m2 q = b"
    using c pt_hdr.hdr_cong [of q ?m2 "pt_bytes h"] only_headersD [OF r(1)] by (auto simp: b_def)
  have ne: "?rest \<noteq> []" using merge_next_head by (metis list.distinct(1))
  have cq: "pt_chain ?m2 q ((y, g) # ?rest)" using hq r(2) ne by (simp add: b_def)
  have sp: "pt_arena e h q ((y, True) # ?rest)" using a by (auto simp: pt_arena_def)
  have "pt_freeAndMerge_from h b q b = Some (put_bytes h ?m3, True)"
    using pt_merge_at_eq [OF cb ab, of q] q hq pt_arena_ok [OF ab]
    by (subst pt_freeAndMerge_from.simps) (simp add: b_def Let_def)
  moreover have "only_headers PT_BLOCK_SIZE {q, b} (pt_bytes h) ?m3"
    using r(1) only_headers_trans [OF r(1) pt_absorb_only, of q]
    by (auto simp: only_headers_def insert_commute)
  moreover have "pt_chain ?m3 q (if g then merge_next PT_BLOCK_SIZE ((y, g) # ?rest) else (y, g) # ?rest)"
    using cq pt_absorb_chain [OF _ sp, of ?m2] by auto
  ultimately show ?thesis by blast
qed

lemma firstFit_exact:
  assumes c: "pt_chain (pt_bytes h) b ((n, True) # bs)" and a: "pt_arena e h b ((n, True) # bs)"
  shows "firstFit_from h n b
    = Some (put_bytes h (upd32 (\<lambda>w. setBlockIsF w 0) b (pt_bytes h)), b + PT_BLOCK_SIZE)"
  using c pt_arena_ok [OF a]
  by (subst firstFit_from.simps) (simp add: Let_def hdr_free_def hdr_size_def)

lemma firstFit_split:
  assumes c: "pt_chain (pt_bytes h) b ((z, True) # bs)" and a: "pt_arena e h b ((z, True) # bs)"
    and n: "n + PT_BLOCK_SIZE \<le> z"
  shows "firstFit_from h n b = Some (put_bytes h (carve (pt_bytes h) b n), b + PT_BLOCK_SIZE)"
proof -
  have n32: "n + PT_BLOCK_SIZE < 2 ^ 32" using pt_arena_size [OF a] n by simp
  have ok: "ok_hdr h (b + unat (of_nat (n + PT_BLOCK_SIZE) :: uint32))"
    unfolding unat_of_nat32 [OF n32] using n a by (auto simp: pt_arena_def ok_hdr_def)
  have le: "of_nat (n + PT_BLOCK_SIZE) \<le> getBlockSize (load32 (pt_bytes h) b)"
    using c n by (simp add: word_le_nat_alt unat_of_nat32 [OF n32] hdr_size_def del: of_nat_add)
  have "z \<noteq> n" using n by (auto simp: PT_BLOCK_SIZE_def)
  then show ?thesis
    using c n ok le pt_arena_ok [OF a]
    by (subst firstFit_from.simps) (simp add: Let_def hdr_free_def hdr_size_def del: of_nat_add)
qed

lemma firstFit_skip:
  assumes c: "pt_chain (pt_bytes h) b ((z, f) # bs)" and a: "pt_arena e h b ((z, f) # bs)"
    and skip: "\<not> (f \<and> z = n)" "\<not> (f \<and> n + PT_BLOCK_SIZE \<le> z)"
  shows "firstFit_from h n b =
    (if bs = [] then Some (h, NULL) else firstFit_from h n (b + PT_BLOCK_SIZE + z))"
proof -
  let ?w = "load32 (pt_bytes h) b"
  have no: "(getBlockIsF ?w = 0 \<or> unat (getBlockSize ?w) < n)
      \<or> \<not> (getBlockIsF ?w = 1 \<and> (unat (getBlockSize ?w) = n \<or> of_nat (n + PT_BLOCK_SIZE) \<le> getBlockSize ?w))"
  proof (cases "f \<and> n \<le> z")
    case True
    then have n32: "n + PT_BLOCK_SIZE < 2 ^ 32"
      using pt_arena_size [OF a] by (simp add: PT_BLOCK_SIZE_def)
    have "\<not> of_nat (n + PT_BLOCK_SIZE) \<le> getBlockSize ?w"
      using True skip c by (simp add: word_le_nat_alt unat_of_nat32 [OF n32] hdr_size_def del: of_nat_add)
    then show ?thesis using True skip c by (auto simp: hdr_free_def hdr_size_def)
  qed (use c in \<open>auto simp: hdr_free_def hdr_size_def\<close>)
  have nx: "getNextBlock (pt_bytes h) b = (if bs = [] then NULL else b + PT_BLOCK_SIZE + z)"
    using c by simp
  show ?thesis
    using no pt_arena_ok [OF a] by (subst firstFit_from.simps) (simp add: Let_def nx del: of_nat_add)
qed

interpretation pt_loops: chain_allocator PT_BLOCK_SIZE hdr_free hdr_size getNextBlock
  pt_bytes "\<lambda>h m. put_bytes h m" "pt_arena e" firstFit_from pt_freeAndMerge_from for e
proof
  show "\<And>s b z f bs. pt_arena e s b ((z, f) # bs) \<Longrightarrow> pt_arena e s (b + PT_BLOCK_SIZE + z) bs"
    by (rule pt_arena_tail)
next
  fix s b n bs
  assume c: "pt_chain (pt_bytes s) b ((n, True) # bs)" and a: "pt_arena e s b ((n, True) # bs)"
  then show "\<exists>m'. firstFit_from s n b = Some (put_bytes s m', b + PT_BLOCK_SIZE) \<and>
      only_headers PT_BLOCK_SIZE {b} (pt_bytes s) m' \<and> \<not> hdr_free m' b \<and> hdr_size m' b = n \<and>
      getNextBlock m' b = getNextBlock (pt_bytes s) b"
    using firstFit_exact [OF c a] upd32_only [of b "pt_bytes s" "\<lambda>w. setBlockIsF w 0"] mark_taken_fields
    by (intro exI [of _ "upd32 (\<lambda>w. setBlockIsF w 0) b (pt_bytes s)"]) auto
next
  fix s b z bs n
  assume c: "pt_chain (pt_bytes s) b ((z, True) # bs)" and a: "pt_arena e s b ((z, True) # bs)"
    and n: "n + PT_BLOCK_SIZE \<le> z"
  have "hdr_size (pt_bytes s) b = z" "n + PT_BLOCK_SIZE < 2 ^ 32"
    using c pt_arena_size [OF a] n by auto
  then show "\<exists>m'. firstFit_from s n b = Some (put_bytes s m', b + PT_BLOCK_SIZE) \<and>
      only_headers PT_BLOCK_SIZE {b, b + PT_BLOCK_SIZE + n} (pt_bytes s) m' \<and>
      \<not> hdr_free m' b \<and> hdr_size m' b = n \<and> getNextBlock m' b = b + PT_BLOCK_SIZE + n \<and>
      hdr_free m' (b + PT_BLOCK_SIZE + n) \<and> hdr_size m' (b + PT_BLOCK_SIZE + n) = z - n - PT_BLOCK_SIZE \<and>
      getNextBlock m' (b + PT_BLOCK_SIZE + n) = getNextBlock (pt_bytes s) b"
    using firstFit_split [OF c a n] carve_fields [of n "pt_bytes s" b] carve_only [of n b "pt_bytes s"] n
    by (intro exI [of _ "carve (pt_bytes s) b n"]) simp
next
  show "\<And>s b z f bs n. pt_chain (pt_bytes s) b ((z, f) # bs) \<Longrightarrow> pt_arena e s b ((z, f) # bs) \<Longrightarrow>
      \<not> (f \<and> z = n) \<Longrightarrow> \<not> (f \<and> n + PT_BLOCK_SIZE \<le> z) \<Longrightarrow>
      firstFit_from s n b = (if bs = [] then Some (s, NULL) else firstFit_from s n (b + PT_BLOCK_SIZE + z))"
    by (rule firstFit_skip)
next
  fix s b z f bs
  assume c: "pt_chain (pt_bytes s) b ((z, f) # bs)" and a: "pt_arena e s b ((z, f) # bs)"
  have "pt_freeAndMerge_from s b NULL b = Some (put_bytes s (pt_freed (pt_bytes s) b), True)"
    using pt_merge_at_eq [OF c a, of NULL] pt_arena_ok [OF a]
    by (subst pt_freeAndMerge_from.simps) (simp add: Let_def)
  then show "\<exists>m'. pt_freeAndMerge_from s b NULL b = Some (put_bytes s m', True) \<and>
      only_headers PT_BLOCK_SIZE {b} (pt_bytes s) m' \<and>
      pt_chain m' b (merge_next PT_BLOCK_SIZE ((z, True) # bs))"
    using pt_freed_chain [OF c a] by blast
next
  fix s q y g z f bs
  assume "pt_chain (pt_bytes s) q ((y, g) # (z, f) # bs)" "pt_arena e s q ((y, g) # (z, f) # bs)"
  then show "\<exists>m'. pt_freeAndMerge_from s (q + PT_BLOCK_SIZE + y) q (q + PT_BLOCK_SIZE + y) =
      Some (put_bytes s m', True) \<and> only_headers PT_BLOCK_SIZE {q, q + PT_BLOCK_SIZE + y} (pt_bytes s) m' \<and>
      pt_chain m' q (if g then merge_next PT_BLOCK_SIZE ((y, g) # merge_next PT_BLOCK_SIZE ((z, True) # bs))
                     else (y, g) # merge_next PT_BLOCK_SIZE ((z, True) # bs))"
    by (rule pt_walk_found_after)
next
  fix s b z f bs t previous
  assume c: "pt_chain (pt_bytes s) b ((z, f) # bs)" and a: "pt_arena e s b ((z, f) # bs)" and "b \<noteq> t"
  then show "pt_freeAndMerge_from s t previous b =
      (if bs = [] then Some (s, False) else pt_freeAndMerge_from s t b (b + PT_BLOCK_SIZE + z))"
    using pt_arena_ok [OF a] by (subst pt_freeAndMerge_from.simps) (auto simp: Let_def)
qed

section \<open>The library allocator as an instance of the interface\<close>

definition lib_rep :: "pt_heap \<Rightarrow> addr \<Rightarrow> ablock list \<Rightarrow> bool" where
  "lib_rep h a bs \<longleftrightarrow> a = memory h \<and> pt_root h = a \<and> pt_arena (lib_end h) h a bs \<and> pt_chain (pt_bytes h) a bs"

lemma say_simps [simp]:
  "pt_bytes (say x h) = pt_bytes h" "memory (say x h) = memory h" "pt_root (say x h) = pt_root h"
  "PAGESIZE (say x h) = PAGESIZE h" "pt_arena e (say x h) b bs = pt_arena e h b bs"
  by (simp_all add: say_def pt_arena_def)

lemma pt_arena_put [simp]: "pt_arena e (put_bytes h m) b bs = pt_arena e h b bs"
  by (simp add: pt_arena_def)

abbreviation unchanged_live :: "addr \<Rightarrow> ablock list \<Rightarrow> pt_heap \<Rightarrow> pt_heap \<Rightarrow> bool" where
  "unchanged_live a bs h h' \<equiv> \<forall>(q, k) \<in> set (live PT_BLOCK_SIZE a bs).
     \<forall>x. q \<le> x \<longrightarrow> x < q + k \<longrightarrow> pt_bytes h' x = pt_bytes h x"

lemma myallocate_lib_None:
  assumes r: "lib_rep h a bs" and f: "ff_alloc PT_BLOCK_SIZE a n bs = None"
  shows "myallocate_lib fl ln h n = Some (say (PNotEnoughSpace ln fl) h, NULL)"
  using pt_loops.search_refines_None [of h a bs "lib_end h" n] r f
  by (auto simp: lib_rep_def myallocate_lib_def allocate_from_root_def)

lemma myallocate_lib_Some:
  assumes r: "lib_rep h a bs" and f: "ff_alloc PT_BLOCK_SIZE a n bs = Some (p, bs')"
  shows "\<exists>h'. myallocate_lib fl ln h n = Some (h', p) \<and> lib_rep h' a bs' \<and> unchanged_live a bs h h'
    \<and> (\<exists>m'. h' = put_bytes h m' \<and> (\<forall>x \<ge> lib_end h. m' x = pt_bytes h x))"
proof -
  have c: "a = memory h" "pt_root h = a" "pt_arena (lib_end h) h a bs" "pt_chain (pt_bytes h) a bs"
    using r by (auto simp: lib_rep_def)
  obtain m' where m': "firstFit_from h n a = Some (put_bytes h m', p)" "pt_chain m' a bs'"
    "same_live PT_BLOCK_SIZE a bs (pt_bytes h) m'" "\<forall>x \<ge> a + span PT_BLOCK_SIZE bs. m' x = pt_bytes h x"
    using pt_loops.search_refines_Some [OF c(4,3) f] by blast
  have "p \<noteq> NULL" using ff_alloc_bounds [OF f] by (simp add: PT_BLOCK_SIZE_def)
  then have "myallocate_lib fl ln h n = Some (put_bytes h m', p)"
    using m'(1) c(2) by (simp add: myallocate_lib_def allocate_from_root_def)
  moreover have "lib_rep (put_bytes h m') a bs'"
    using c m'(2) ff_alloc_span [OF f] by (simp add: lib_rep_def pt_arena_def)
  moreover have "unchanged_live a bs h (put_bytes h m')" using m'(3) by (simp add: same_live_def)
  moreover have "\<forall>x \<ge> lib_end h. m' x = pt_bytes h x" using m'(4) c(3) by (simp add: pt_arena_def)
  ultimately show ?thesis by blast
qed

lemma mydeallocate_lib_ok:
  assumes r: "lib_rep h a bs" and lv: "(p, n) \<in> set (live PT_BLOCK_SIZE a bs)" and n: "0 < n"
    and f: "ff_free PT_BLOCK_SIZE a (p - PT_BLOCK_SIZE) bs = Some bs'"
  shows "\<exists>h'. mydeallocate_lib fl ln h p = Some h' \<and> lib_rep h' a bs' \<and> unchanged_live a bs h h'
    \<and> (\<exists>m'. h' = put_bytes h m' \<and> (\<forall>x \<ge> lib_end h. m' x = pt_bytes h x))"
proof -
  have c: "a = memory h" "pt_root h = a" "pt_arena (lib_end h) h a bs" "pt_chain (pt_bytes h) a bs"
    using r by (auto simp: lib_rep_def)
  have bd: "a + PT_BLOCK_SIZE \<le> p" "p + n \<le> a + LIBPAGES * PAGESIZE h" "LIBPAGES * PAGESIZE h \<le> PT_MAX_MEMORY"
    using live_bounds [OF lv] c(1,3) by (auto simp: pt_arena_def)
  have nn: "pt_root h \<noteq> NULL" using c by (auto simp: pt_arena_def)
  obtain m' where m': "freeAndMerge_lib h (p - PT_BLOCK_SIZE) = Some (put_bytes h m', True)"
    "pt_chain m' a bs'" and sl: "same_live PT_BLOCK_SIZE a bs (pt_bytes h) m'" and ab: "\<forall>x \<ge> a + span PT_BLOCK_SIZE bs. m' x = pt_bytes h x"
    using pt_loops.walk_refines [OF c(4,3) f] c(2) nn by (auto simp: freeAndMerge_lib_def)
  have "inMemSpace h p" "ok_hdr h (p - PT_BLOCK_SIZE)"
    using bd c(1) n by (auto simp: inMemSpace_def ok_hdr_def)
  then have "mydeallocate_lib fl ln h p = Some (put_bytes h m')"
    using pt_hdr.live_head_taken [OF c(4) lv] m'(1)
    by (simp add: mydeallocate_lib_def Let_def hdr_free_def)
  moreover have "lib_rep (put_bytes h m') a bs'"
    using c m'(2) ff_free_span [OF f] by (simp add: lib_rep_def pt_arena_def)
  moreover have "unchanged_live a bs h (put_bytes h m')" using sl by (simp add: same_live_def)
  moreover have "\<forall>x \<ge> lib_end h. m' x = pt_bytes h x" using ab c(3) by (simp add: pt_arena_def)
  ultimately show ?thesis by blast
qed

interpretation lib: first_fit_allocator PT_BLOCK_SIZE lib_rep "myallocate_lib fl ln" "mydeallocate_lib fl ln"
  "\<lambda>h x. pt_bytes h x" "\<lambda>h x v. put_bytes h ((pt_bytes h)(x := v))" for fl ln
proof
  show "0 < PT_BLOCK_SIZE" by simp
next
  fix m a bs assume "lib_rep m a bs"
  then show "bs \<noteq> []" by (auto simp: lib_rep_def)
next
  fix m a bs n p bs'
  assume "lib_rep m a bs" "ff_alloc PT_BLOCK_SIZE a n bs = Some (p, bs')"
  then show "\<exists>m'. myallocate_lib fl ln m n = Some (m', p) \<and> lib_rep m' a bs'"
    using myallocate_lib_Some by blast
next
  fix m a bs n assume h: "lib_rep m a bs" "ff_alloc PT_BLOCK_SIZE a n bs = None"
  have "lib_rep (say (PNotEnoughSpace ln fl) m) a bs" using h(1) by (auto simp: lib_rep_def)
  then show "\<exists>m'. myallocate_lib fl ln m n = Some (m', NULL) \<and> lib_rep m' a bs"
    using myallocate_lib_None [OF h] by blast
next
  fix m a bs n m' p q k x
  assume h: "lib_rep m a bs" "myallocate_lib fl ln m n = Some (m', p)"
    "(q, k) \<in> set (live PT_BLOCK_SIZE a bs)" "q \<le> x" "x < q + k"
  show "pt_bytes m' x = pt_bytes m x"
  proof (cases "ff_alloc PT_BLOCK_SIZE a n bs")
    case None
    then show ?thesis using myallocate_lib_None [OF h(1) None, of fl ln] h(2) by simp
  next
    case (Some r)
    then show ?thesis
      using myallocate_lib_Some [OF h(1), of n "fst r" "snd r" fl ln] h(2-5) by fastforce
  qed
next
  fix m a bs p n bs'
  assume "lib_rep m a bs" "(p, n) \<in> set (live PT_BLOCK_SIZE a bs)" "0 < n"
    "ff_free PT_BLOCK_SIZE a (p - PT_BLOCK_SIZE) bs = Some bs'"
  then show "\<exists>m'. mydeallocate_lib fl ln m p = Some m' \<and> lib_rep m' a bs'"
    using mydeallocate_lib_ok by blast
next
  fix m a bs p n m' q k x
  assume h: "lib_rep m a bs" "(p, n) \<in> set (live PT_BLOCK_SIZE a bs)" "0 < n"
    "mydeallocate_lib fl ln m p = Some m'"
    "(q, k) \<in> set (live PT_BLOCK_SIZE a bs)" "q \<le> x" "x < q + k"
  obtain bs' where "ff_free PT_BLOCK_SIZE a (p - PT_BLOCK_SIZE) bs = Some bs'"
    using ff_free_of_live [OF _ h(2)] by auto
  from mydeallocate_lib_ok [OF h(1-3) this, of fl ln] h(4-7) show "pt_bytes m' x = pt_bytes m x"
    by fastforce
next
  fix m a bs p n x v
  assume h: "lib_rep m a bs" "(p, n) \<in> set (live PT_BLOCK_SIZE a bs)" "p \<le> x" "x < p + n"
  have "pt_chain (pt_bytes m) a bs" using h(1) by (auto simp: lib_rep_def)
  then have "pt_chain ((pt_bytes m)(x := v)) a bs"
    by (rule pt_hdr.chain_live [OF _ h(2)]) (use h(3,4) in auto)
  then show "lib_rep (put_bytes m ((pt_bytes m)(x := v))) a bs" using h(1) by (auto simp: lib_rep_def)
qed

lemma pt_initializeRoot_rep:
  assumes "0 < memory h" "0 < PAGESIZE h" "LIBPAGES * PAGESIZE h \<le> PT_MAX_MEMORY"
  shows "lib_rep (pt_initializeRoot h) (memory h) [(LIBPAGES * PAGESIZE h - PT_BLOCK_SIZE, True)]"
proof -
  let ?z = "LIBPAGES * PAGESIZE h - PT_BLOCK_SIZE"
  have z: "?z < 2 ^ 24" "PT_BLOCK_SIZE \<le> LIBPAGES * PAGESIZE h"
    using assms by (auto simp: PT_MAX_MEMORY_def LIBPAGES_def PT_BLOCK_SIZE_def)
  then have u: "unat (of_nat ?z :: uint32) = ?z" by (intro unat_of_nat32) simp
  have "pt_chain (pt_bytes (pt_initializeRoot h)) (memory h) [(?z, True)]"
    using z u by (simp add: pt_initializeRoot_def Let_def hdr_word_defs mem_simps bits_simps del: of_nat_diff)
  then show ?thesis
    using assms z by (simp add: lib_rep_def pt_arena_def pt_initializeRoot_def Let_def)
qed

section \<open>Properties\<close>

text \<open>A freshly started library allocator: 200 pages of 4096 bytes at a given address.\<close>

definition lib_start :: "addr \<Rightarrow> nat \<Rightarrow> pt_heap" where
  "lib_start base ps = pt_initializeRoot \<lparr>PAGESIZE = ps, memory = base, pt_bytes = (\<lambda>_. 0),
     pt_root = NULL, rootBlockD = NULL, pt_out = []\<rparr>"

lemma lib_start_rep:
  assumes "0 < base" "0 < ps" "LIBPAGES * ps \<le> PT_MAX_MEMORY"
  shows "lib_rep (lib_start base ps) base [(LIBPAGES * ps - PT_BLOCK_SIZE, True)]"
  using pt_initializeRoot_rep [of "\<lparr>PAGESIZE = ps, memory = base, pt_bytes = (\<lambda>_. 0), pt_root = NULL,
     rootBlockD = NULL, pt_out = []\<rparr>"] assms by (simp add: lib_start_def)

abbreviation lib_client :: "addr \<Rightarrow> nat \<Rightarrow> string \<Rightarrow> int \<Rightarrow> pt_heap \<Rightarrow> (addr \<times> nat) set \<Rightarrow> bool" where
  "lib_client base ps fl ln h L \<equiv> client_reach (myallocate_lib fl ln) (mydeallocate_lib fl ln)
     (\<lambda>h x v. put_bytes h ((pt_bytes h)(x := v))) (lib_start base ps) h L"

lemma lib_one_request:
  assumes "0 < base" "LIBPAGES * ps \<le> PT_MAX_MEMORY" "n + 2 * PT_BLOCK_SIZE \<le> LIBPAGES * ps"
  shows "\<exists>h. lib_client base ps fl ln h {(base + PT_BLOCK_SIZE, n)}"
proof -
  have ps: "0 < ps" using assms(3) by (cases ps) (auto simp: PT_BLOCK_SIZE_def)
  have "ff_alloc PT_BLOCK_SIZE base n [(LIBPAGES * ps - PT_BLOCK_SIZE, True)]
    = Some (base + PT_BLOCK_SIZE, [(n, False), (LIBPAGES * ps - PT_BLOCK_SIZE - n - PT_BLOCK_SIZE, True)])"
    using assms(3) by (auto simp: PT_BLOCK_SIZE_def)
  from lib.alloc_ok [OF lib_start_rep [OF assms(1) ps assms(2)] this] obtain h where
    "myallocate_lib fl ln (lib_start base ps) n = Some (h, base + PT_BLOCK_SIZE)" by blast
  from client_reach.request [where alloc = "myallocate_lib fl ln" and dealloc = "mydeallocate_lib fl ln"
      and poke = "\<lambda>h x v. put_bytes h ((pt_bytes h)(x := v))", OF client_reach.start this]
  show ?thesis by auto
qed

text \<open>
  Every sequence of library requests, releases and writes keeps the blocks the library holds
  pairwise disjoint and inside the first \<open>LIBPAGES\<close> pages of \<open>memory\<close>; in particular none ever
  reaches into user space.
\<close>

theorem myallocate_lib_payloads_disjoint:
  assumes "lib_client base ps fl ln h L" "0 < base" "0 < ps" "LIBPAGES * ps \<le> PT_MAX_MEMORY"
    "(p, n) \<in> L"
  shows "base + PT_BLOCK_SIZE \<le> p \<and> p + n \<le> base + LIBPAGES * ps \<and>
    (\<forall>(q, k) \<in> L. (q, k) \<noteq> (p, n) \<longrightarrow> {p..<p + n} \<inter> {q..<q + k} = {})"
proof -
  note init = lib_start_rep [OF assms(2-4)]
  have "PT_BLOCK_SIZE \<le> LIBPAGES * ps" using assms(3) by (simp add: LIBPAGES_def PT_BLOCK_SIZE_def)
  then have "base + PT_BLOCK_SIZE \<le> p" "p + n \<le> base + LIBPAGES * ps"
    using lib.client_payload_in_arena [OF assms(1) init assms(5)] by auto
  moreover have "{p..<p + n} \<inter> {q..<q + k} = {}" if "(q, k) \<in> L" "(q, k) \<noteq> (p, n)" for q k
    using lib.client_payloads_disjoint [OF assms(1) init assms(5) that(1)] that(2) by auto
  ultimately show ?thesis by blast
qed

theorem myallocate_lib_payloads_disjoint_witness:
  "\<exists>h L. lib_client 4096 4096 ''m.c'' 9 h L \<and> (4100, 64) \<in> L \<and> (4100::nat) + 64 \<le> 4096 + LIBPAGES * 4096"
proof -
  obtain h where h: "lib_client 4096 4096 ''m.c'' 9 h {(4096 + PT_BLOCK_SIZE, 64)}"
    using lib_one_request [of 4096 4096 64] by (auto simp: PT_BLOCK_SIZE_def LIBPAGES_def PT_MAX_MEMORY_def)
  then show ?thesis
    using myallocate_lib_payloads_disjoint [OF h, of 4100 64]
    by (auto simp: PT_BLOCK_SIZE_def LIBPAGES_def PT_MAX_MEMORY_def)
qed

text \<open>
  The library allocator's answer is exactly first fit over its block list, on every request:
  the null pointer and the out-of-space message, with the heap unchanged, iff no free block has
  the requested size or room for the request and one more header; else the first such block.
\<close>

theorem myallocate_lib_first_fit:
  assumes "lib_rep h a bs"
  shows "case ff_alloc PT_BLOCK_SIZE a n bs of
      None \<Rightarrow> myallocate_lib fl ln h n = Some (say (PNotEnoughSpace ln fl) h, NULL) \<and>
              (\<forall>(z, f) \<in> set bs. f \<longrightarrow> z \<noteq> n \<and> z < n + PT_BLOCK_SIZE)
    | Some (p, bs') \<Rightarrow> \<exists>h'. myallocate_lib fl ln h n = Some (h', p) \<and> lib_rep h' a bs' \<and> p \<noteq> NULL"
proof (cases "ff_alloc PT_BLOCK_SIZE a n bs")
  case None
  have "\<forall>(z, f) \<in> set bs. f \<longrightarrow> z \<noteq> n \<and> z < n + PT_BLOCK_SIZE" using None unfolding ff_alloc_None .
  then show ?thesis using None myallocate_lib_None [OF assms None] by simp
next
  case (Some r)
  obtain p bs' where r: "r = (p, bs')" by (cases r)
  have f: "ff_alloc PT_BLOCK_SIZE a n bs = Some (p, bs')" using Some r by simp
  have "p \<noteq> NULL" using ff_alloc_bounds [OF f] by (simp add: PT_BLOCK_SIZE_def)
  then show ?thesis using f lib.alloc_ok [OF assms f, of fl ln] by auto
qed

theorem myallocate_lib_first_fit_witness:
  "myallocate_lib ''m.c'' 9 (lib_start 4096 4096) 819197
     = Some (say (PNotEnoughSpace 9 ''m.c'') (lib_start 4096 4096), NULL)"
proof -
  have "lib_rep (lib_start 4096 4096) 4096 [(LIBPAGES * 4096 - PT_BLOCK_SIZE, True)]"
    by (rule lib_start_rep) (simp_all add: LIBPAGES_def PT_MAX_MEMORY_def)
  from myallocate_lib_first_fit [OF this, where n = 819197 and fl = "''m.c''" and ln = 9]
  show ?thesis by (simp add: LIBPAGES_def PT_BLOCK_SIZE_def)
qed

text \<open>
  C30. A request larger than the library's pages is refused and nothing is changed but the message
  printed, whatever its size: also when the size with the header does not fit 32 bits and wraps
  around to a small number.
\<close>

theorem myallocate_lib_refuses_oversized:
  assumes r: "lib_rep h a bs" and n: "LIBPAGES * PAGESIZE h < n + PT_BLOCK_SIZE"
  shows "myallocate_lib fl ln h n = Some (say (PNotEnoughSpace ln fl) h, NULL)"
proof -
  have s: "span PT_BLOCK_SIZE bs = LIBPAGES * PAGESIZE h" using r by (auto simp: lib_rep_def pt_arena_def)
  have "z + PT_BLOCK_SIZE \<le> span PT_BLOCK_SIZE bs" if "(z, f) \<in> set bs" for z f using that by (induction bs) auto
  then have "\<forall>(z, f) \<in> set bs. f \<longrightarrow> z \<noteq> n \<and> z < n + PT_BLOCK_SIZE" using s n by fastforce
  then show ?thesis using myallocate_lib_None [OF r] unfolding ff_alloc_None by blast
qed

theorem myallocate_lib_refuses_oversized_witness:
  "(of_nat (2 ^ 32 - 4 + PT_BLOCK_SIZE) :: uint32) = 0 \<and>
   myallocate_lib ''m.c'' 9 (lib_start 4096 4096) (2 ^ 32 - 4) = Some (say (PNotEnoughSpace 9 ''m.c'') (lib_start 4096 4096), NULL)"
proof -
  have r: "lib_rep (lib_start 4096 4096) 4096 [(LIBPAGES * 4096 - PT_BLOCK_SIZE, True)]"
    by (rule lib_start_rep) (simp_all add: LIBPAGES_def PT_MAX_MEMORY_def)
  have "PAGESIZE (lib_start 4096 4096) = 4096" by (simp add: lib_start_def pt_initializeRoot_def Let_def)
  then show ?thesis using myallocate_lib_refuses_oversized [OF r, of "2 ^ 32 - 4" "''m.c''" 9] by (simp add: LIBPAGES_def PT_BLOCK_SIZE_def)
qed

text \<open>
  The \<open>DISKREQ\<close> branch of \<open>myallocate\<close> starts from \<open>rootBlockD\<close>, which no code assigns: with
  the null pointer it had at program start, every disk request reads through a null pointer.
\<close>

theorem myallocate_disk_always_faults:
  assumes "rootBlockD h = NULL" "0 < memory h"
  shows "myallocate_disk fl ln h n = None"
  using assms by (simp add: myallocate_disk_def allocate_from_root_def firstFit_from.simps ok_hdr_def)

theorem myallocate_disk_always_faults_witness:
  "myallocate_disk ''m.c'' 9 (lib_start 4096 4096) 8 = None"
  by (rule myallocate_disk_always_faults) (simp_all add: lib_start_def pt_initializeRoot_def Let_def)

end
