(* ===== verification/BlockDev.thy ===== *)
theory BlockDev
  imports Prelude
begin

text \<open>
  \<open>assignment3/src/block.c\<close>: the disk of the simple file system is one host file, read and written
  in blocks of 16384 bytes with \<open>pread\<close> and \<open>pwrite\<close>.  The model keeps the descriptor variable,
  whether the descriptor is open, and the contents of the host file (its length and its bytes).
  A buffer is a function from offsets to bytes of which only the first \<open>BLOCK_SIZE\<close> are used.
  The locale \<open>block_store\<close> is what the file system relies on.
\<close>

section \<open>State and operations\<close>

definition BLOCK_SIZE :: nat where
  "BLOCK_SIZE = 16384"

text \<open>
  \<open>junk site\<close> is what an uninitialised local buffer of that name happens to hold: the programs
  write some of these bytes to the disk, and nothing is assumed of them.
\<close>

record disk =
  diskfile :: int
  fd_open :: bool
  file_len :: nat
  file_bytes :: bytes
  junk :: "string \<Rightarrow> bytes"

text \<open>\<open>fd\<close> is what \<open>open\<close> answers; \<open>None\<close> is the exit of the process when it fails.\<close>

definition disk_open :: "int \<Rightarrow> disk \<Rightarrow> disk option" where
  "disk_open fd d =
     (if diskfile d \<ge> 0 then Some d
      else if fd < 0 then None
      else Some (d\<lparr>diskfile := fd, fd_open := True\<rparr>))"

definition disk_close :: "disk \<Rightarrow> disk" where
  "disk_close d = (if diskfile d \<ge> 0 then d\<lparr>fd_open := False\<rparr> else d)"

text \<open>The byte offset of a block, an \<open>int\<close> product in the code.\<close>

definition block_off :: "int \<Rightarrow> int" where
  "block_off block_num = c_int (block_num * int BLOCK_SIZE)"

definition block_read :: "disk \<Rightarrow> int \<Rightarrow> bytes \<Rightarrow> int \<times> bytes" where
  "block_read d block_num buf =
     (if \<not> fd_open d \<or> block_off block_num < 0 then (-1, \<lambda>_. 0)
      else let off = nat (block_off block_num);
               got = min BLOCK_SIZE (file_len d - off)
           in if got = 0 then (0, \<lambda>_. 0)
              else (int got, \<lambda>i. if i < got then file_bytes d (off + i) else buf i))"

definition block_write :: "disk \<Rightarrow> int \<Rightarrow> bytes \<Rightarrow> int \<times> disk" where
  "block_write d block_num buf =
     (if \<not> fd_open d \<or> block_off block_num < 0 then (-1, d)
      else let off = nat (block_off block_num)
           in (int BLOCK_SIZE,
               d\<lparr>file_len := max (file_len d) (off + BLOCK_SIZE),
                 file_bytes := (\<lambda>a. if off \<le> a \<and> a < off + BLOCK_SIZE then buf (a - off)
                                    else if a < file_len d then file_bytes d a else 0)\<rparr>))"

section \<open>The interface the file system uses\<close>

text \<open>
  \<open>rd d b i\<close> is byte \<open>i\<close> of block \<open>b\<close>, \<open>wr\<close> writes a whole block, \<open>ok\<close> is the state the
  laws need, \<open>lim\<close> the number of addressable blocks.
\<close>

locale block_store =
  fixes B lim :: nat
    and ok :: "'d \<Rightarrow> bool"
    and rd :: "'d \<Rightarrow> nat \<Rightarrow> bytes"
    and wr :: "'d \<Rightarrow> nat \<Rightarrow> bytes \<Rightarrow> 'd"
  assumes rd_wr_same: "ok d \<Longrightarrow> b < lim \<Longrightarrow> i < B \<Longrightarrow> rd (wr d b buf) b i = buf i"
    and rd_wr_other: "ok d \<Longrightarrow> b < lim \<Longrightarrow> c < lim \<Longrightarrow> b \<noteq> c \<Longrightarrow> i < B \<Longrightarrow> rd (wr d b buf) c i = rd d c i"
    and ok_wr: "ok d \<Longrightarrow> b < lim \<Longrightarrow> ok (wr d b buf)"
begin

text \<open>A read, a change of one byte in the buffer, a write back: exactly that byte changes.\<close>

lemma rmw_byte:
  assumes "ok d" "b < lim" "c < lim" "i < B"
  shows "rd (wr d b ((rd d b)(k := v))) c i = (if c = b \<and> i = k then v else rd d c i)"
  using assms rd_wr_same [of d b i] rd_wr_other [of d b c i] by (cases "c = b") auto

text \<open>The same for a range of bytes.\<close>

lemma rmw_range:
  assumes "ok d" "b < lim" "c < lim" "i < B"
  shows "rd (wr d b (\<lambda>x. if lo \<le> x \<and> x < hi then f x else rd d b x)) c i =
    (if c = b \<and> lo \<le> i \<and> i < hi then f i else rd d c i)"
  using assms rd_wr_same [of d b i] rd_wr_other [of d b c i] by (cases "c = b") auto

end

section \<open>block.c implements it\<close>

text \<open>The disk is open and the host file consists of whole blocks.\<close>

definition disk_ok :: "disk \<Rightarrow> bool" where
  "disk_ok d \<longleftrightarrow> fd_open d \<and> BLOCK_SIZE dvd file_len d \<and> (\<forall>a \<ge> file_len d. file_bytes d a = 0)"

definition block_get :: "disk \<Rightarrow> nat \<Rightarrow> bytes" where
  "block_get d b = snd (block_read d (int b) (junk d ''buf''))"

definition block_put :: "disk \<Rightarrow> nat \<Rightarrow> bytes \<Rightarrow> disk" where
  "block_put d b buf = snd (block_write d (int b) buf)"

definition MAX_BLOCKS :: nat where
  "MAX_BLOCKS = 131072"

lemma block_off_nat:
  assumes "b < MAX_BLOCKS"
  shows "nat (block_off (int b)) = b * BLOCK_SIZE" "\<not> block_off (int b) < 0"
proof -
  have "b < MAX_BLOCKS" by fact
  then have "b * BLOCK_SIZE < 2147483648" by (simp add: MAX_BLOCKS_def BLOCK_SIZE_def)
  then have "c_int (int (b * BLOCK_SIZE)) = int (b * BLOCK_SIZE)" by (rule c_int_nat)
  then have "block_off (int b) = int (b * BLOCK_SIZE)" by (simp add: block_off_def)
  then show "nat (block_off (int b)) = b * BLOCK_SIZE" "\<not> block_off (int b) < 0"
    by (simp_all only: nat_int of_nat_less_0_iff not_False_eq_True)
qed

lemma whole_blocks:
  assumes "BLOCK_SIZE dvd n" "b * BLOCK_SIZE < n"
  shows "b * BLOCK_SIZE + BLOCK_SIZE \<le> n"
proof -
  obtain k where k: "n = BLOCK_SIZE * k" using assms(1) by (elim dvdE)
  then have "b < k" using assms(2) by (simp add: BLOCK_SIZE_def)
  then have "Suc b * BLOCK_SIZE \<le> k * BLOCK_SIZE" by (intro mult_le_mono1) simp
  then show ?thesis using k by (simp add: mult.commute)
qed

lemma block_get_eq:
  assumes "disk_ok d" "b < MAX_BLOCKS" "i < BLOCK_SIZE"
  shows "block_get d b i = file_bytes d (b * BLOCK_SIZE + i)"
proof (cases "b * BLOCK_SIZE < file_len d")
  case True
  then have "b * BLOCK_SIZE + BLOCK_SIZE \<le> file_len d"
    using assms(1) whole_blocks by (auto simp: disk_ok_def)
  then have "min BLOCK_SIZE (file_len d - b * BLOCK_SIZE) = BLOCK_SIZE" by simp
  then show ?thesis
    using assms block_off_nat [OF assms(2)]
    by (simp add: block_get_def block_read_def disk_ok_def Let_def)
next
  case False
  then show ?thesis
    using assms block_off_nat [OF assms(2)]
    by (simp add: block_get_def block_read_def disk_ok_def Let_def)
qed

lemma block_put_bytes:
  assumes "disk_ok d" "b < MAX_BLOCKS"
  shows "file_bytes (block_put d b buf) a =
    (if b * BLOCK_SIZE \<le> a \<and> a < b * BLOCK_SIZE + BLOCK_SIZE then buf (a - b * BLOCK_SIZE) else file_bytes d a)"
  using assms block_off_nat [OF assms(2)]
  by (auto simp: block_put_def block_write_def disk_ok_def Let_def)

lemma block_put_ok:
  assumes "disk_ok d" "b < MAX_BLOCKS"
  shows "disk_ok (block_put d b buf)"
proof -
  have len: "file_len (block_put d b buf) = max (file_len d) (b * BLOCK_SIZE + BLOCK_SIZE)"
    and op: "fd_open (block_put d b buf)"
    using assms block_off_nat [OF assms(2)]
    by (auto simp: block_put_def block_write_def disk_ok_def Let_def)
  have "BLOCK_SIZE dvd file_len (block_put d b buf)"
    using assms(1) unfolding len max_def by (auto simp: disk_ok_def)
  moreover have "file_bytes (block_put d b buf) a = 0" if "file_len (block_put d b buf) \<le> a" for a
    using assms that block_put_bytes [OF assms, of buf a] by (auto simp: len disk_ok_def)
  ultimately show ?thesis using op by (simp add: disk_ok_def)
qed

lemma block_index:
  assumes "(b::nat) * BLOCK_SIZE \<le> c * BLOCK_SIZE + i" "c * BLOCK_SIZE + i < b * BLOCK_SIZE + BLOCK_SIZE"
    "i < BLOCK_SIZE"
  shows "b = c"
proof -
  have "(c * BLOCK_SIZE + i) div BLOCK_SIZE = c" using assms(3) by simp
  moreover have "(c * BLOCK_SIZE + i) div BLOCK_SIZE = b"
    using assms(1,2) by (intro div_nat_eqI) (auto simp: algebra_simps)
  ultimately show ?thesis by simp
qed

interpretation blk: block_store BLOCK_SIZE MAX_BLOCKS disk_ok block_get block_put
proof
  fix d b i buf assume h: "disk_ok d" "b < MAX_BLOCKS" "i < BLOCK_SIZE"
  then show "block_get (block_put d b buf) b i = buf i"
    using block_get_eq [OF block_put_ok [OF h(1,2)] h(2,3)] by (simp add: block_put_bytes)
next
  fix d b c i buf
  assume h: "disk_ok d" "b < MAX_BLOCKS" "c < MAX_BLOCKS" "b \<noteq> c" "i < BLOCK_SIZE"
  then show "block_get (block_put d b buf) c i = block_get d c i"
    using block_get_eq [OF block_put_ok [OF h(1,2)] h(3,5)] block_get_eq [OF h(1,3,5)] block_index [of b c i]
    by (auto simp: block_put_bytes)
next
  fix d b buf assume "disk_ok d" "b < MAX_BLOCKS"
  then show "disk_ok (block_put d b buf)" by (rule block_put_ok)
qed

end
