(* ===== verification/SfsLayout.thy ===== *)
theory SfsLayout
  imports BlockDev
begin

text \<open>
  The on-disk layout of \<open>assignment3/src/sfs.c\<close>: block 0 holds the magic number and the inode
  bitmap, block 1 the block bitmap, blocks 3 to 45 the inodes (three per block), blocks from 50 the
  file data.  An inode is the C struct of \<open>params.h\<close>, 4368 bytes on x86-64, and is moved to and
  from the disk as these bytes.  \<open>None\<close> is an access outside a buffer.
\<close>

section \<open>Constants\<close>

definition MAGIC_NUM :: nat where "MAGIC_NUM = 6942069"
definition IMAP_SIZE :: nat where "IMAP_SIZE = 16"
definition BMAP_SIZE :: nat where "BMAP_SIZE = 512"
definition INODE_LIST_SIZE :: nat where "INODE_LIST_SIZE = 128"
definition BLOCK_LIST_SIZE :: nat where "BLOCK_LIST_SIZE = 4096"
definition D_BLOCK_START :: int where "D_BLOCK_START = 50"
definition SIZEOF_INODE :: nat where "SIZEOF_INODE = 4368"

section \<open>Bitmaps\<close>

definition set_map_bit :: "bytes \<Rightarrow> nat \<Rightarrow> nat \<Rightarrow> int \<Rightarrow> bytes" where
  "set_map_bit buf k n setting =
     (if setting = 1 then buf(k := buf k OR push_bit (n mod 8) 1)
      else buf(k := buf k AND NOT (push_bit (n mod 8) 1)))"

definition isBlockFree :: "disk \<Rightarrow> nat \<Rightarrow> int" where
  "isBlockFree d n = of_bool (bit (block_get d 1 (n div 8)) (n mod 8))"

definition setBlock :: "disk \<Rightarrow> int \<Rightarrow> int \<Rightarrow> disk option" where
  "setBlock d n setting =
     (if n < 0 \<or> BLOCK_SIZE \<le> nat n div 8 then None
      else Some (block_put d 1 (set_map_bit (block_get d 1) (nat n div 8) (nat n) setting)))"

definition isInodeFree :: "disk \<Rightarrow> nat \<Rightarrow> int" where
  "isInodeFree d n = of_bool (bit (block_get d 0 (4 + n div 8)) (n mod 8))"

definition setInode :: "disk \<Rightarrow> int \<Rightarrow> int \<Rightarrow> disk option" where
  "setInode d n setting =
     (if n < 0 \<or> BLOCK_SIZE \<le> 4 + nat n div 8 then None
      else Some (block_put d 0 (set_map_bit (block_get d 0) (4 + nat n div 8) (nat n) setting)))"

section \<open>Inodes\<close>

text \<open>\<open>pad\<close> is the two bytes of padding between \<open>path\<close> and \<open>mode\<close>, copied with the struct.\<close>

record inode =
  inode_id :: int
  path :: bytes
  pad :: bytes
  mode :: uint32
  isize :: int
  data :: "nat \<Rightarrow> int"
  hardlinks :: int

definition int32_at :: "bytes \<Rightarrow> addr \<Rightarrow> int" where
  "int32_at m a = sint (of_nat (load_le m a 4) :: uint32)"

definition decode_inode :: "bytes \<Rightarrow> addr \<Rightarrow> inode" where
  "decode_inode m a = \<lparr>
     inode_id = sint (of_nat (load_le m a 2) :: 16 word),
     path = (\<lambda>i. if i < 256 then m (a + 2 + i) else 0),
     pad = (\<lambda>i. if i < 2 then m (a + 258 + i) else 0),
     mode = load32 m (a + 260),
     isize = int32_at m (a + 264),
     data = (\<lambda>i. if i < 1024 then int32_at m (a + 268 + 4 * i) else 0),
     hardlinks = int32_at m (a + 4364)\<rparr>"

text \<open>Byte \<open>j\<close> of a C integer, and byte \<open>k\<close> of the struct.\<close>

definition int_byte :: "int \<Rightarrow> nat \<Rightarrow> byte" where
  "int_byte v j = of_nat (unat (word_of_int v :: uint32) div 256 ^ j)"

definition inode_byte :: "inode \<Rightarrow> nat \<Rightarrow> byte" where
  "inode_byte nd k =
     (if k < 2 then int_byte (inode_id nd) k
      else if k < 258 then path nd (k - 2)
      else if k < 260 then pad nd (k - 258)
      else if k < 264 then of_nat (unat (mode nd) div 256 ^ (k - 260))
      else if k < 268 then int_byte (isize nd) (k - 264)
      else if k < 4364 then int_byte (data nd ((k - 268) div 4)) ((k - 268) mod 4)
      else int_byte (hardlinks nd) (k - 4364))"

definition numPerBlock :: nat where
  "numPerBlock = BLOCK_SIZE div SIZEOF_INODE"

definition readInode :: "disk \<Rightarrow> nat \<Rightarrow> inode" where
  "readInode d n =
     decode_inode (block_get d (3 + n div numPerBlock)) ((n mod numPerBlock) * SIZEOF_INODE)"

definition writeInode :: "disk \<Rightarrow> inode \<Rightarrow> disk option" where
  "writeInode d nd =
     (if inode_id nd < 0 then None
      else let n = nat (inode_id nd);
               b = 3 + n div numPerBlock;
               lo = (n mod numPerBlock) * SIZEOF_INODE;
               buf = block_get d b
           in Some (block_put d b
                (\<lambda>x. if lo \<le> x \<and> x < lo + SIZEOF_INODE then inode_byte nd (x - lo) else buf x)))"

text \<open>
  \<open>strcmp(path, in.path) == 0\<close>: the comparison runs over the struct's bytes from the path field on
  (an unterminated path runs into the fields behind it), up to the end of the struct.
\<close>

function streq_from :: "bytes \<Rightarrow> inode \<Rightarrow> nat \<Rightarrow> bool" where
  "streq_from p nd i =
     (if i < SIZEOF_INODE - 2
      then p i = inode_byte nd (2 + i) \<and> (p i = 0 \<or> streq_from p nd (Suc i))
      else False)"
  by pat_completeness auto
termination
  by (relation "measure (\<lambda>(p, nd, i). SIZEOF_INODE - i)") (auto simp: SIZEOF_INODE_def)

declare streq_from.simps [simp del]

definition strcmp_eq :: "bytes \<Rightarrow> inode \<Rightarrow> bool" where
  "strcmp_eq p nd = streq_from p nd 0"

definition uninit_inode :: "disk \<Rightarrow> string \<Rightarrow> inode" where
  "uninit_inode d site = decode_inode (junk d site) 0"

definition checkiNodePathName :: "disk \<Rightarrow> bytes \<Rightarrow> inode" where
  "checkiNodePathName d p =
     (case first_from (\<lambda>i. isInodeFree d i = 0 \<and> strcmp_eq p (readInode d i)) 0 INODE_LIST_SIZE of
        Some i \<Rightarrow> readInode d i
      | None \<Rightarrow> (uninit_inode d ''badresult'')\<lparr>inode_id := -1\<rparr>)"

record stat =
  st_mode :: uint32
  st_nlink :: int
  st_size :: int
  st_blocks :: int
  st_ino :: int
  st_ctime :: int
  st_mtime :: int
  st_atime :: int

definition fillStatBuff :: "int \<Rightarrow> stat \<Rightarrow> inode \<Rightarrow> stat" where
  "fillStatBuff now statbuf iNode = statbuf\<lparr>
     st_mode := mode iNode, st_nlink := hardlinks iNode, st_size := isize iNode,
     st_blocks := c_div (isize iNode) (int BLOCK_SIZE) + 1, st_ino := inode_id iNode,
     st_ctime := now, st_mtime := now, st_atime := now\<rparr>"

definition checkIfInit :: "disk \<Rightarrow> int" where
  "checkIfInit d = (if load_le (block_get d 0) 0 4 = MAGIC_NUM then 1 else 0)"

definition setFileInit :: "disk \<Rightarrow> disk" where
  "setFileInit d = block_put d 0 (store_le (junk d ''setFileInit'') 0 4 MAGIC_NUM)"

definition findNextOpenBlock :: "disk \<Rightarrow> int" where
  "findNextOpenBlock d =
     (case first_from (\<lambda>i. isBlockFree d i = 1) 0 BLOCK_LIST_SIZE of Some i \<Rightarrow> int i | None \<Rightarrow> -1)"

section \<open>What a step leaves alone\<close>

text \<open>Only the blocks of \<open>S\<close> may differ.\<close>

definition same_except :: "nat set \<Rightarrow> disk \<Rightarrow> disk \<Rightarrow> bool" where
  "same_except S d d' \<longleftrightarrow> disk_ok d' \<and> junk d' = junk d \<and>
     (\<forall>c i. c < MAX_BLOCKS \<and> c \<notin> S \<and> i < BLOCK_SIZE \<longrightarrow> block_get d' c i = block_get d c i)"

lemma same_except_refl: "disk_ok d \<Longrightarrow> same_except S d d"
  by (simp add: same_except_def)

lemma same_except_mono: "same_except S d d' \<Longrightarrow> S \<subseteq> T \<Longrightarrow> same_except T d d'"
  by (auto simp: same_except_def)

lemma same_except_trans:
  "same_except S d d' \<Longrightarrow> same_except T d' d'' \<Longrightarrow> same_except (S \<union> T) d d''"
  by (simp add: same_except_def)

lemma same_except_ok: "same_except S d d' \<Longrightarrow> disk_ok d'"
  by (simp add: same_except_def)

lemma junk_block_put [simp]: "junk (block_put d b buf) = junk d"
  by (simp add: block_put_def block_write_def Let_def)

lemma block_put_same_except:
  "disk_ok d \<Longrightarrow> b < MAX_BLOCKS \<Longrightarrow> same_except {b} d (block_put d b buf)"
  by (auto simp: same_except_def blk.ok_wr blk.rd_wr_other)

lemma isBlockFree_frame:
  "same_except S d d' \<Longrightarrow> 1 \<notin> S \<Longrightarrow> n < BLOCK_LIST_SIZE \<Longrightarrow> isBlockFree d' n = isBlockFree d n"
  by (simp add: same_except_def isBlockFree_def BLOCK_LIST_SIZE_def BLOCK_SIZE_def MAX_BLOCKS_def)

lemma isInodeFree_frame:
  "same_except S d d' \<Longrightarrow> 0 \<notin> S \<Longrightarrow> n < INODE_LIST_SIZE \<Longrightarrow> isInodeFree d' n = isInodeFree d n"
  by (simp add: same_except_def isInodeFree_def INODE_LIST_SIZE_def BLOCK_SIZE_def MAX_BLOCKS_def)

lemma checkIfInit_frame: "same_except S d d' \<Longrightarrow> 0 \<notin> S \<Longrightarrow> checkIfInit d' = checkIfInit d"
proof -
  assume h: "same_except S d d'" "0 \<notin> S"
  have "load_le (block_get d' 0) 0 4 = load_le (block_get d 0) 0 4"
    by (rule load_le_cong) (use h in \<open>auto simp: same_except_def BLOCK_SIZE_def MAX_BLOCKS_def\<close>)
  then show ?thesis by (simp add: checkIfInit_def)
qed

lemma decode_inode_cong:
  assumes "\<And>k. k < SIZEOF_INODE \<Longrightarrow> m (a + k) = m' (a' + k)"
  shows "decode_inode m a = decode_inode m' a'"
proof -
  have ld: "load_le m (a + k) n = load_le m' (a' + k) n" if "k + n \<le> SIZEOF_INODE" for k n
    using that
  proof (induction n arbitrary: k)
    case (Suc n)
    then show ?case using Suc.IH [of "Suc k"] assms [of k] by simp
  qed simp
  have "load_le m a 2 = load_le m' a' 2" using ld [of 0 2] by (simp add: SIZEOF_INODE_def)
  moreover have "m (a + 2 + i) = m' (a' + 2 + i)" if "i < 256" for i
    using assms [of "2 + i"] that by (simp add: SIZEOF_INODE_def)
  moreover have "m (a + 258 + i) = m' (a' + 258 + i)" if "i < 2" for i
    using assms [of "258 + i"] that by (simp add: SIZEOF_INODE_def add.assoc)
  moreover have "load_le m (a + 268 + 4 * i) 4 = load_le m' (a' + 268 + 4 * i) 4" if "i < 1024" for i
    using ld [of "268 + 4 * i" 4] that by (simp add: SIZEOF_INODE_def add.assoc)
  moreover have "load_le m (a + k) 4 = load_le m' (a' + k) 4" if "k \<in> {260, 264, 4364}" for k
    using ld [of k 4] that by (auto simp: SIZEOF_INODE_def)
  ultimately show ?thesis by (auto simp: decode_inode_def int32_at_def load32_def)
qed

lemma numPerBlock_3: "numPerBlock = 3"
  by (simp add: numPerBlock_def BLOCK_SIZE_def SIZEOF_INODE_def)

text \<open>Where inode \<open>n\<close> lives: a slot of a block between 3 and 45.\<close>

lemma inode_slot:
  assumes "n < INODE_LIST_SIZE"
  shows "3 + n div numPerBlock < 46" "3 + n div numPerBlock < MAX_BLOCKS"
    "k < SIZEOF_INODE \<Longrightarrow> (n mod numPerBlock) * SIZEOF_INODE + k < BLOCK_SIZE"
proof -
  show "3 + n div numPerBlock < 46" using assms by (simp add: numPerBlock_3 INODE_LIST_SIZE_def)
  then show "3 + n div numPerBlock < MAX_BLOCKS" by (simp add: MAX_BLOCKS_def)
  have "n mod 3 < 3" by simp
  then show "k < SIZEOF_INODE \<Longrightarrow> (n mod numPerBlock) * SIZEOF_INODE + k < BLOCK_SIZE"
    by (simp add: numPerBlock_3 BLOCK_SIZE_def SIZEOF_INODE_def)
qed

lemma readInode_frame:
  assumes "same_except S d d'" "\<And>b. b \<in> S \<Longrightarrow> b < 3 \<or> 46 \<le> b" "n < INODE_LIST_SIZE"
  shows "readInode d' n = readInode d n"
proof -
  have "3 + n div numPerBlock \<notin> S" using assms(2) inode_slot(1) [OF assms(3)] by fastforce
  then show ?thesis
    unfolding readInode_def using assms(1) inode_slot [OF assms(3)]
    by (intro decode_inode_cong) (auto simp: same_except_def)
qed

section \<open>The bitmaps\<close>

text \<open>
  The contract of a free map: \<open>free d n\<close> tells whether unit \<open>n\<close> is free, \<open>put d n s\<close> marks it.
  First-free allocation over any such map returns a unit nobody has, and only that one changes.
\<close>

locale free_map =
  fixes N :: nat
    and ok :: "'d \<Rightarrow> bool"
    and free :: "'d \<Rightarrow> nat \<Rightarrow> bool"
    and put :: "'d \<Rightarrow> nat \<Rightarrow> bool \<Rightarrow> 'd"
  assumes free_put: "ok d \<Longrightarrow> n < N \<Longrightarrow> k < N \<Longrightarrow> free (put d n s) k = (if k = n then s else free d k)"
    and ok_put: "ok d \<Longrightarrow> n < N \<Longrightarrow> ok (put d n s)"
begin

definition free_units where "free_units d = {n. n < N \<and> free d n}"

lemma finite_free_units: "finite (free_units d)"
  by (simp add: free_units_def)

lemma claim_first:
  assumes "ok d" "first_from (free d) 0 N = Some n"
  shows "n \<in> free_units d" "free_units (put d n False) = free_units d - {n}"
    "Suc (card (free_units (put d n False))) = card (free_units d)"
proof -
  have n: "n < N" "free d n" using assms(2) by (auto simp: first_from_Some)
  then show m: "n \<in> free_units d" by (simp add: free_units_def)
  show e: "free_units (put d n False) = free_units d - {n}"
    using free_put [OF assms(1) n(1)] by (auto simp: free_units_def split: if_splits)
  show "Suc (card (free_units (put d n False))) = card (free_units d)"
    unfolding e by (rule card.remove [OF finite_free_units m, symmetric])
qed

lemma none_free: "first_from (free d) 0 N = None \<longleftrightarrow> free_units d = {}"
  by (auto simp: first_from_None free_units_def)

end

lemma bit_or_byte: "bit (w OR push_bit k 1) j = (bit w j \<or> j = k)" if "k < 8" "j < 8" for w :: byte
  using that by (auto simp: bit_simps)

lemma bit_and_not_byte: "bit (w AND NOT (push_bit k 1)) j = (bit w j \<and> j \<noteq> k)" if "k < 8" "j < 8" for w :: byte
  using that by (auto simp: bit_simps)

text \<open>Bit \<open>m\<close> of a map kept from byte \<open>base\<close> of a block, after bit \<open>n\<close> was set there.\<close>

lemma map_bit_after_set:
  assumes "disk_ok d" "b < MAX_BLOCKS" "base + m div 8 < BLOCK_SIZE"
  shows "bit (block_get (block_put d b (set_map_bit (block_get d b) (base + n div 8) n s)) b (base + m div 8)) (m mod 8)
    = (if m = n then s = 1 else bit (block_get d b (base + m div 8)) (m mod 8))"
proof -
  have same: "m = n \<longleftrightarrow> m div 8 = n div 8 \<and> m mod 8 = n mod 8"
    by (metis div_mult_mod_eq)
  have lt: "n mod 8 < 8" "m mod 8 < 8" by simp_all
  show ?thesis
    using blk.rmw_byte [OF assms(1,2,2,3)] bit_or_byte [OF lt] bit_and_not_byte [OF lt]
    by (auto simp: set_map_bit_def same)
qed

definition mark_block :: "disk \<Rightarrow> nat \<Rightarrow> bool \<Rightarrow> disk" where
  "mark_block d n s = block_put d 1 (set_map_bit (block_get d 1) (n div 8) n (of_bool s))"

definition mark_inode :: "disk \<Rightarrow> nat \<Rightarrow> bool \<Rightarrow> disk" where
  "mark_inode d n s = block_put d 0 (set_map_bit (block_get d 0) (4 + n div 8) n (of_bool s))"

lemma setBlock_in_range:
  "n < BLOCK_LIST_SIZE \<Longrightarrow> setBlock d (int n) (of_bool s) = Some (mark_block d n s)"
  by (simp add: setBlock_def mark_block_def BLOCK_LIST_SIZE_def BLOCK_SIZE_def)

lemma setInode_in_range:
  "n < INODE_LIST_SIZE \<Longrightarrow> setInode d (int n) (of_bool s) = Some (mark_inode d n s)"
  by (simp add: setInode_def mark_inode_def INODE_LIST_SIZE_def BLOCK_SIZE_def)

lemmas setBlock_marks = setBlock_in_range [where s = False, simplified] setBlock_in_range [where s = True, simplified]
lemmas setInode_marks = setInode_in_range [where s = False, simplified] setInode_in_range [where s = True, simplified]

lemma map_block_lt: "0 < MAX_BLOCKS" "1 < MAX_BLOCKS"
  by (simp_all add: MAX_BLOCKS_def)

lemma mark_block_same_except: "disk_ok d \<Longrightarrow> same_except {1} d (mark_block d n s)"
  unfolding mark_block_def by (intro block_put_same_except map_block_lt)

lemma mark_inode_same_except: "disk_ok d \<Longrightarrow> same_except {0} d (mark_inode d n s)"
  unfolding mark_inode_def by (intro block_put_same_except map_block_lt)

interpretation bmap: free_map BLOCK_LIST_SIZE disk_ok "\<lambda>d n. isBlockFree d n = 1" mark_block
proof
  fix d n k s assume h: "disk_ok d" "n < BLOCK_LIST_SIZE" "k < BLOCK_LIST_SIZE"
  then have "k div 8 < BLOCK_SIZE" by (simp add: BLOCK_LIST_SIZE_def BLOCK_SIZE_def)
  then show "(isBlockFree (mark_block d n s) k = 1) = (if k = n then s else isBlockFree d k = 1)"
    using map_bit_after_set [OF h(1) map_block_lt(2), of 0 k n "of_bool s"]
    by (simp add: isBlockFree_def mark_block_def del: One_nat_def)
qed (use mark_block_same_except same_except_ok in blast)

interpretation imap: free_map INODE_LIST_SIZE disk_ok "\<lambda>d n. isInodeFree d n = 1" mark_inode
proof
  fix d n k s assume h: "disk_ok d" "n < INODE_LIST_SIZE" "k < INODE_LIST_SIZE"
  then have "4 + k div 8 < BLOCK_SIZE" by (simp add: INODE_LIST_SIZE_def BLOCK_SIZE_def)
  then show "(isInodeFree (mark_inode d n s) k = 1) = (if k = n then s else isInodeFree d k = 1)"
    using map_bit_after_set [OF h(1) map_block_lt(1), of 4 k n "of_bool s"]
    by (simp add: isInodeFree_def mark_inode_def)
qed (use mark_inode_same_except same_except_ok in blast)

lemma isBlockFree_01: "isBlockFree d n = 0 \<longleftrightarrow> isBlockFree d n \<noteq> 1"
  by (simp add: isBlockFree_def)

lemma isInodeFree_01: "isInodeFree d n = 0 \<longleftrightarrow> isInodeFree d n \<noteq> 1"
  by (simp add: isInodeFree_def)

lemma mark_inode_keeps_magic: "disk_ok d \<Longrightarrow> n < INODE_LIST_SIZE \<Longrightarrow> checkIfInit (mark_inode d n s) = checkIfInit d"
proof -
  assume h: "disk_ok d" "n < INODE_LIST_SIZE"
  have "load_le (block_get (mark_inode d n s) 0) 0 4 = load_le (block_get d 0) 0 4"
  proof (rule load_le_cong)
    fix x :: nat assume "x < 0 + 4"
    then show "block_get (mark_inode d n s) 0 x = block_get d 0 x"
      using blk.rmw_byte [OF h(1) map_block_lt(1,1), of x "4 + n div 8"]
      by (simp add: mark_inode_def set_map_bit_def BLOCK_SIZE_def)
  qed
  then show ?thesis by (simp add: checkIfInit_def)
qed

lemma findNextOpenBlock_cases:
  assumes "disk_ok d"
  obtains "findNextOpenBlock d = -1" "bmap.free_units d = {}"
  | n where "findNextOpenBlock d = int n" "n < BLOCK_LIST_SIZE" "isBlockFree d n = 1"
      "first_from (\<lambda>i. isBlockFree d i = 1) 0 BLOCK_LIST_SIZE = Some n"
  using bmap.none_free [of d]
  by (cases "first_from (\<lambda>i. isBlockFree d i = 1) 0 BLOCK_LIST_SIZE")
    (auto simp: findNextOpenBlock_def first_from_Some)

section \<open>Inodes on the disk\<close>

text \<open>The values a C struct of this type can hold.\<close>

definition inode_ok :: "inode \<Rightarrow> bool" where
  "inode_ok nd \<longleftrightarrow> - (2 ^ 15) \<le> inode_id nd \<and> inode_id nd < 2 ^ 15 \<and>
     c_int (isize nd) = isize nd \<and> c_int (hardlinks nd) = hardlinks nd \<and>
     (\<forall>i. c_int (data nd i) = data nd i) \<and>
     (\<forall>i \<ge> 256. path nd i = 0) \<and> (\<forall>i \<ge> 2. pad nd i = 0) \<and> (\<forall>i \<ge> 1024. data nd i = 0)"

lemma c_int_sint [simp]: "c_int (sint (w :: uint32)) = sint w"
  by (simp add: c_int_def)

lemma c_int_0 [simp]: "c_int 0 = 0"
  by (simp add: c_int_def)

lemma decode_inode_ok: "inode_ok (decode_inode m a)"
proof -
  have "- (2 ^ 15) \<le> sint w \<and> sint w < 2 ^ 15" for w :: "16 word"
    using sint_greater_eq [of w] sint_less [of w] by simp
  then show ?thesis by (simp add: inode_ok_def decode_inode_def int32_at_def)
qed

lemma int_bytes_load:
  assumes "\<And>j. j < 4 \<Longrightarrow> m (a + j) = int_byte v j" "c_int v = v"
  shows "int32_at m a = v"
proof -
  have "load_le m a 4 = unat (word_of_int v :: uint32) mod 256 ^ 4"
    by (rule load_le_spelled) (use assms(1) in \<open>simp add: int_byte_def\<close>)
  also have "\<dots> = unat (word_of_int v :: uint32)"
    using unsigned_less [of "word_of_int v :: uint32", where ?'a = nat] by simp
  finally show ?thesis using assms(2) by (simp add: int32_at_def c_int_def)
qed

lemma id_bytes_load:
  assumes "\<And>j. j < 2 \<Longrightarrow> m (a + j) = int_byte v j" "- (2 ^ 15) \<le> v" "v < 2 ^ 15"
  shows "sint (of_nat (load_le m a 2) :: 16 word) = v"
proof -
  have "load_le m a 2 = unat (word_of_int v :: uint32) mod 256 ^ 2"
    by (rule load_le_spelled) (use assms(1) in \<open>simp add: int_byte_def\<close>)
  also have "\<dots> = nat (v mod 2 ^ 32 mod 2 ^ 16)"
    by (simp add: unat_word_of_int32 nat_mod_distrib)
  also have "v mod 2 ^ 32 mod 2 ^ 16 = v mod 2 ^ 16"
    by (rule mod_mod_cancel) simp
  finally have "of_nat (load_le m a 2) = (word_of_int (v mod 2 ^ 16) :: 16 word)"
    by simp
  also have "\<dots> = word_of_int v"
    by (simp add: word_of_int_eq_iff take_bit_eq_mod)
  finally have "of_nat (load_le m a 2) = (word_of_int v :: 16 word)" .
  then show ?thesis using assms(2,3) by (simp add: signed_of_int signed_take_bit_int_eq_self)
qed

lemma mode_bytes_load:
  assumes "\<And>j. j < 4 \<Longrightarrow> m (a + j) = of_nat (unat w div 256 ^ j)"
  shows "load32 m a = w"
proof -
  have "load_le m a 4 = unat w mod 256 ^ 4" by (rule load_le_spelled) (rule assms)
  moreover have "unat w < 256 ^ 4" using unsigned_less [of w, where ?'a = nat] by simp
  ultimately show ?thesis by (simp add: load32_def)
qed

lemma inode_byte_fields:
  "j < 2 \<Longrightarrow> inode_byte nd j = int_byte (inode_id nd) j"
  "j < 256 \<Longrightarrow> inode_byte nd (2 + j) = path nd j"
  "j < 2 \<Longrightarrow> inode_byte nd (258 + j) = pad nd j"
  "j < 4 \<Longrightarrow> inode_byte nd (260 + j) = of_nat (unat (mode nd) div 256 ^ j)"
  "j < 4 \<Longrightarrow> inode_byte nd (264 + j) = int_byte (isize nd) j"
  "i < 1024 \<Longrightarrow> j < 4 \<Longrightarrow> inode_byte nd (268 + 4 * i + j) = int_byte (data nd i) j"
  "j < 4 \<Longrightarrow> inode_byte nd (4364 + j) = int_byte (hardlinks nd) j"
  by (simp_all add: inode_byte_def)

text \<open>Copying a struct out as bytes and back in gives the struct.\<close>

lemma decode_encoded:
  assumes "inode_ok nd" "\<And>k. k < SIZEOF_INODE \<Longrightarrow> m (a + k) = inode_byte nd k"
  shows "decode_inode m a = nd"
proof -
  note b = assms(2) [unfolded SIZEOF_INODE_def]
  note ok = assms(1) [unfolded inode_ok_def]
  have "sint (of_nat (load_le m a 2) :: 16 word) = inode_id nd"
    by (rule id_bytes_load) (use b ok inode_byte_fields(1) in auto)
  moreover have "load32 m (a + 260) = mode nd"
    by (rule mode_bytes_load) (use b inode_byte_fields(4) [of _ nd] in \<open>simp add: add.assoc\<close>)
  moreover have "int32_at m (a + 264) = isize nd"
    by (rule int_bytes_load) (use b ok inode_byte_fields(5) [of _ nd] in \<open>simp_all add: add.assoc\<close>)
  moreover have "int32_at m (a + 4364) = hardlinks nd"
    by (rule int_bytes_load) (use b ok inode_byte_fields(7) [of _ nd] in \<open>simp_all add: add.assoc\<close>)
  moreover have "(if i < 1024 then int32_at m (a + 268 + 4 * i) else 0) = data nd i" for i
  proof (cases "i < 1024")
    case True
    then have "m (a + 268 + 4 * i + j) = int_byte (data nd i) j" if "j < 4" for j
      using that b [of "268 + 4 * i + j"] inode_byte_fields(6) [of i j nd] by (simp add: add.assoc)
    then have "int32_at m (a + 268 + 4 * i) = data nd i" using ok by (intro int_bytes_load) auto
    then show ?thesis using True by simp
  qed (use ok in auto)
  moreover have "(if i < 256 then m (a + 2 + i) else 0) = path nd i" for i
    using b [of "2 + i"] inode_byte_fields(2) [of i nd] ok by (auto simp: add.assoc)
  moreover have "(if i < 2 then m (a + 258 + i) else 0) = pad nd i" for i
    using b [of "258 + i"] inode_byte_fields(3) [of i nd] ok by (auto simp: add.assoc)
  ultimately show ?thesis by (simp add: decode_inode_def)
qed

lemma readInode_ok: "inode_ok (readInode d n)"
  by (simp add: readInode_def decode_inode_ok)

lemma writeInode_some:
  assumes "inode_id nd = int n" "n < INODE_LIST_SIZE" "disk_ok d"
  obtains d' where "writeInode d nd = Some d'" "same_except {3 + n div numPerBlock} d d'"
  using assms inode_slot(2) [OF assms(2)]
  by (auto simp: writeInode_def Let_def intro: block_put_same_except)

text \<open>After an inode is written, its slot reads back as written and the other 127 as before.\<close>

lemma readInode_writeInode:
  assumes "writeInode d nd = Some d'" "inode_ok nd" "inode_id nd = int n" "n < INODE_LIST_SIZE"
    "disk_ok d" "k < INODE_LIST_SIZE"
  shows "readInode d' k = (if k = n then nd else readInode d k)"
proof -
  let ?b = "\<lambda>n. 3 + n div numPerBlock" and ?lo = "\<lambda>n. (n mod numPerBlock) * SIZEOF_INODE"
  have d': "block_get d' (?b k) i = (if ?b k = ?b n \<and> ?lo n \<le> i \<and> i < ?lo n + SIZEOF_INODE
      then inode_byte nd (i - ?lo n) else block_get d (?b k) i)" if "i < BLOCK_SIZE" for i
    using assms(1,3) that
      blk.rmw_range [OF assms(5) inode_slot(2) [OF assms(4)] inode_slot(2) [OF assms(6)], of i "?lo n" "?lo n + SIZEOF_INODE" "\<lambda>x. inode_byte nd (x - ?lo n)"]
    by (auto simp: writeInode_def Let_def)
  show ?thesis
  proof (cases "k = n")
    case True
    then show ?thesis
      using d' inode_slot(3) [OF assms(6)] by (auto simp: readInode_def intro!: decode_encoded assms(2))
  next
    case False
    then have "k mod 3 \<noteq> n mod 3" if "k div 3 = n div 3" using that by (metis div_mult_mod_eq)
    then have "\<not> (?b k = ?b n \<and> ?lo n \<le> ?lo k + j \<and> ?lo k + j < ?lo n + SIZEOF_INODE)"
      if "j < SIZEOF_INODE" for j
      using that by (auto simp: numPerBlock_3 SIZEOF_INODE_def)
    then have "decode_inode (block_get d' (?b k)) (?lo k) = decode_inode (block_get d (?b k)) (?lo k)"
      using d' inode_slot(3) [OF assms(6)] by (intro decode_inode_cong) auto
    then show ?thesis using False by (simp add: readInode_def)
  qed
qed

end
