(* ===== verification/SfsOps.thy ===== *)
theory SfsOps
  imports SfsLayout "HOL-Library.Monad_Syntax"
begin

text \<open>
  The FUSE handlers of \<open>assignment3/src/sfs.c\<close>, whole: every read and write of the disk, every
  early return, in the order of the code.  A path and a user buffer are functions from offsets to
  bytes; \<open>None\<close> is an access outside an array (undefined in C).  The result of \<open>open\<close>, the clock,
  \<open>fcntl\<close> and FUSE's \<open>filler\<close> callback are arguments.
\<close>

section \<open>Mounting\<close>

definition S_IFDIR :: uint32 where "S_IFDIR = 16384"
definition ENOENT :: int where "ENOENT = 2"
definition EBADF :: int where "EBADF = 9"
definition EFAULT :: int where "EFAULT = 14"

definition root_inode :: "disk \<Rightarrow> inode" where
  "root_inode d = (let root = uninit_inode d ''root'' in
     root\<lparr>inode_id := 0, path := (path root)(0 := 47, 1 := 0), mode := S_IFDIR OR 502,
          isize := 0, hardlinks := 2\<rparr>)"

definition sfs_init :: "int \<Rightarrow> disk \<Rightarrow> disk option" where
  "sfs_init fd d = do {
     d \<leftarrow> disk_open fd d;
     if checkIfInit d = 1 then Some d
     else do {
       let d = setFileInit d;
       let buf = (\<lambda>i. if 4 \<le> i \<and> i < 4 + IMAP_SIZE then 0xFF else block_get d 0 i);
       let d = block_put d 0 buf;
       let d = block_put d 1 (\<lambda>i. if i < BMAP_SIZE then 0xFF else junk d ''bmbuf'' i);
       d \<leftarrow> setInode d 0 0;
       writeInode d (root_inode d)
     }
   }"

definition sfs_destroy :: "disk \<Rightarrow> disk" where
  "sfs_destroy d = disk_close d"

section \<open>Attributes, create, unlink, open, release\<close>

definition is_root_path :: "bytes \<Rightarrow> bool" where
  "is_root_path p \<longleftrightarrow> p 0 = 47 \<and> p 1 = 0"

definition sfs_getattr :: "int \<Rightarrow> disk \<Rightarrow> bytes \<Rightarrow> stat \<Rightarrow> int \<times> stat" where
  "sfs_getattr now d p statbuf =
     (if is_root_path p then (0, statbuf\<lparr>st_mode := S_IFDIR OR 511, st_nlink := 2\<rparr>)
      else let n = checkiNodePathName d p
           in if inode_id n \<noteq> -1 then (0, fillStatBuff now statbuf n)
              else (- ENOENT, statbuf))"

text \<open>\<open>fh\<close> is the 64-bit file handle of \<open>struct fuse_file_info\<close>.\<close>

definition sfs_create :: "disk \<Rightarrow> bytes \<Rightarrow> uint32 \<Rightarrow> 64 word \<Rightarrow> (int \<times> disk \<times> 64 word) option" where
  "sfs_create d p md fh =
     (case first_from (\<lambda>i. isInodeFree d i = 1) 0 INODE_LIST_SIZE of
        None \<Rightarrow> Some (0, d, fh)
      | Some i \<Rightarrow> do {
          d \<leftarrow> setInode d (int i) 0;
          let nd = (readInode d i)\<lparr>inode_id := int i, isize := 0, mode := md, hardlinks := 1,
                     path := (\<lambda>k. if k < 256 then p k else 0)\<rparr>;
          let nd = nd\<lparr>data := (data nd)(0 := findNextOpenBlock d)\<rparr>;
          if data nd 0 = -1 then Some (-1, d, fh)
          else do {
            d \<leftarrow> setBlock d (data nd 0) 0;
            d \<leftarrow> writeInode d nd;
            Some (0, d, word_of_int (inode_id nd))
          }
        })"

text \<open>Indexing the 1024 entries of \<open>data\<close>.\<close>

definition data_at :: "inode \<Rightarrow> int \<Rightarrow> int option" where
  "data_at nd b = (if 0 \<le> b \<and> b < 1024 then Some (data nd (nat b)) else None)"

definition set_data :: "inode \<Rightarrow> int \<Rightarrow> int \<Rightarrow> inode option" where
  "set_data nd b v =
     (if 0 \<le> b \<and> b < 1024 then Some (nd\<lparr>data := (data nd)(nat b := v)\<rparr>) else None)"

function unlink_blocks :: "disk \<Rightarrow> inode \<Rightarrow> nat \<Rightarrow> disk option" where
  "unlink_blocks d nd i =
     (if int i \<le> c_div (isize nd) (int BLOCK_SIZE) + 1
      then case data_at nd (int i) of
             None \<Rightarrow> None
           | Some b \<Rightarrow> (case setBlock d b 1 of None \<Rightarrow> None | Some d' \<Rightarrow> unlink_blocks d' nd (Suc i))
      else Some d)"
  by pat_completeness auto
termination
  by (relation "measure (\<lambda>(d, nd, i). 1024 - i)") (auto simp: data_at_def split: if_splits)

declare unlink_blocks.simps [simp del]

definition sfs_unlink :: "disk \<Rightarrow> bytes \<Rightarrow> (int \<times> disk) option" where
  "sfs_unlink d p =
     (let nd = checkiNodePathName d p
      in if inode_id nd = -1 then Some (-1, d)
         else do {
           let nd = nd\<lparr>hardlinks := c_int (hardlinks nd - 2)\<rparr>;
           d \<leftarrow> (if hardlinks nd < 1 then unlink_blocks d nd 0 else Some d);
           d \<leftarrow> setInode d (inode_id nd) 1;
           Some (0, d)
         })"

definition sfs_open :: "(64 word \<Rightarrow> int) \<Rightarrow> disk \<Rightarrow> bytes \<Rightarrow> 64 word \<Rightarrow> int \<times> 64 word" where
  "sfs_open fcntl_getfl d p fh =
     (if fcntl_getfl fh = -1 then (-1, fh)
      else case first_from (\<lambda>i. isInodeFree d i = 0 \<and> strcmp_eq p (readInode d i)) 0 INODE_LIST_SIZE of
             Some i \<Rightarrow> (0, of_nat i)
           | None \<Rightarrow> (-1, fh))"

definition sfs_release :: "disk \<Rightarrow> bytes \<Rightarrow> 64 word \<Rightarrow> int \<times> 64 word" where
  "sfs_release d p fh = (if inode_id (checkiNodePathName d p) = -1 then (-1, fh) else (0, -1))"

section \<open>Read\<close>

definition data_read :: "disk \<Rightarrow> int \<Rightarrow> bytes \<Rightarrow> bytes" where
  "data_read d b buf = snd (block_read d (c_int (D_BLOCK_START + b)) buf)"

definition data_write :: "disk \<Rightarrow> int \<Rightarrow> bytes \<Rightarrow> disk" where
  "data_write d b buf = snd (block_write d (c_int (D_BLOCK_START + b)) buf)"

function read_from :: "disk \<Rightarrow> inode \<Rightarrow> nat \<Rightarrow> nat \<Rightarrow> int \<Rightarrow> nat \<Rightarrow> bytes \<Rightarrow> bytes \<Rightarrow> (int \<times> bytes) option" where
  "read_from d nd sz i blk chr diskbuf buf =
     (if i < sz then
        let buf = buf(i := diskbuf chr); chr = chr + 1
        in if chr mod BLOCK_SIZE = 0
           then case data_at nd (blk + 1) of
                  None \<Rightarrow> None
                | Some b \<Rightarrow> read_from d nd sz (Suc i) (blk + 1) 0 (data_read d b diskbuf) buf
           else read_from d nd sz (Suc i) blk chr diskbuf buf
      else Some (int i, buf))"
  by pat_completeness auto
termination
  by (relation "measure (\<lambda>(d, nd, sz, i, _). sz - i)") auto

declare read_from.simps [simp del]

definition sfs_read :: "disk \<Rightarrow> bytes \<Rightarrow> bytes \<Rightarrow> nat \<Rightarrow> int \<Rightarrow> (int \<times> bytes) option" where
  "sfs_read d p buf sz offset =
     (let nd = checkiNodePathName d p
      in if inode_id nd = -1 then Some (- EBADF, buf)
         else if offset > isize nd then Some (- EFAULT, buf)
         else if sz = 0 then Some (0, buf)
         else if offset < 0 then None
         else do {
           let buf = (\<lambda>k. if k < sz then 0 else buf k);
           let blk = c_int (c_div offset (int BLOCK_SIZE));
           let chr = nat (offset mod int BLOCK_SIZE);
           b \<leftarrow> data_at nd blk;
           read_from d nd sz 0 blk chr (data_read d b (junk d ''diskbuf'')) buf
         })"

section \<open>Write\<close>

text \<open>\<open>Ret\<close> is an early return, \<open>Cont\<close> the state with which the loop goes on.\<close>

datatype 'a flow = Ret int disk | Cont 'a

text \<open>The \<open>while (blk > blksOwned)\<close> loop.\<close>

function write_hole :: "disk \<Rightarrow> inode \<Rightarrow> int \<Rightarrow> int \<Rightarrow> (disk \<times> inode) flow option" where
  "write_hole d nd blk blksOwned =
     (if blk > blksOwned then
        let nextBlk = findNextOpenBlock d
        in if nextBlk = -1 then Some (Ret (-1) d)
           else case set_data nd (blksOwned + 1) nextBlk of
                  None \<Rightarrow> None
                | Some nd' \<Rightarrow> (case setBlock d nextBlk 0 of
                    None \<Rightarrow> None | Some d' \<Rightarrow> write_hole d' nd' blk (blksOwned + 1))
      else Some (Cont (d, nd)))"
  by pat_completeness auto
termination
  by (relation "measure (\<lambda>(d, nd, blk, own). nat (1024 - own))") (auto simp: set_data_def split: if_splits)

declare write_hole.simps [simp del]

text \<open>What the loop body does to the size: \<open>bytesWritten\<close> bytes are in \<open>diskbuf\<close> so far.\<close>

definition grow_file :: "disk \<Rightarrow> inode \<Rightarrow> int \<Rightarrow> nat \<Rightarrow> bytes \<Rightarrow> int \<Rightarrow> (disk \<times> inode) flow option" where
  "grow_file d nd blk chr diskbuf bytesWritten =
     (if int chr + blk * int BLOCK_SIZE > isize nd then
        let nd = nd\<lparr>isize := c_int (isize nd + 1)\<rparr>
        in if isize nd mod int BLOCK_SIZE = 0 then
             if isize nd = 16777216 then do {
               b \<leftarrow> data_at nd blk;
               d \<leftarrow> writeInode (data_write d b diskbuf) nd;
               Some (Ret bytesWritten d)
             }
             else let nbl = findNextOpenBlock d
                  in if nbl = -1 then Some (Ret (-1) d)
                     else do {
                       nd \<leftarrow> set_data nd (blk + 1) nbl;
                       d \<leftarrow> setBlock d nbl 0;
                       Some (Cont (d, nd))
                     }
           else Some (Cont (d, nd))
      else Some (Cont (d, nd)))"

function write_from :: "disk \<Rightarrow> inode \<Rightarrow> nat \<Rightarrow> bytes \<Rightarrow> nat \<Rightarrow> int \<Rightarrow> nat \<Rightarrow> bytes \<Rightarrow> (int \<times> disk) option" where
  "write_from d nd sz buf i blk chr diskbuf =
     (if i < sz then
        let diskbuf = diskbuf(chr := buf i); chr = chr + 1
        in case grow_file d nd blk chr diskbuf (int (Suc i)) of
             None \<Rightarrow> None
           | Some (Ret r d) \<Rightarrow> Some (r, d)
           | Some (Cont (d, nd)) \<Rightarrow>
               if chr mod BLOCK_SIZE = 0
               then case data_at nd blk of
                      None \<Rightarrow> None
                    | Some b \<Rightarrow>
                        let d = data_write d b diskbuf
                        in (case data_at nd (blk + 1) of
                              None \<Rightarrow> None
                            | Some b' \<Rightarrow>
                                write_from d nd sz buf (Suc i) (blk + 1) 0 (data_read d b' diskbuf))
               else write_from d nd sz buf (Suc i) blk chr diskbuf
      else do {
        b \<leftarrow> data_at nd blk;
        d \<leftarrow> writeInode (data_write d b diskbuf) nd;
        Some (int i, d)
      })"
  by pat_completeness auto
termination
  by (relation "measure (\<lambda>(d, nd, sz, buf, i, _). sz - i)") auto

declare write_from.simps [simp del]

definition sfs_write :: "disk \<Rightarrow> bytes \<Rightarrow> bytes \<Rightarrow> nat \<Rightarrow> int \<Rightarrow> 64 word \<Rightarrow> (int \<times> disk) option" where
  "sfs_write d p buf sz offset fh =
     (let nd = checkiNodePathName d p
      in if inode_id nd = -1 then Some (- EBADF, d)
         else if fh = -1 then Some (- EBADF, d)
         else if sz = 0 then Some (0, d)
         else if offset < 0 then None
         else let blk = c_int (c_div offset (int BLOCK_SIZE));
                  chr = nat (offset mod int BLOCK_SIZE);
                  blksOwned = c_div (isize nd) (int BLOCK_SIZE) + 1
              in (case write_hole d nd blk blksOwned of
                    None \<Rightarrow> None
                  | Some (Ret r d) \<Rightarrow> Some (r, d)
                  | Some (Cont (d, nd)) \<Rightarrow> do {
                      b \<leftarrow> data_at nd blk;
                      write_from d nd sz buf 0 blk chr (data_read d b (junk d ''diskbuf''))
                    }))"

section \<open>Directories\<close>

text \<open>
  \<open>filler\<close> is FUSE's callback, with the state it keeps; its answer is only logged.
\<close>

function readdir_from :: "disk \<Rightarrow> ('s \<Rightarrow> bytes \<Rightarrow> int \<times> 's) \<Rightarrow> 's \<Rightarrow> nat \<Rightarrow> 's" where
  "readdir_from d filler s i =
     (if i < INODE_LIST_SIZE then
        if isInodeFree d i = 0
        then let nd = readInode d i; filename = (\<lambda>k. if k < 255 then path nd (1 + k) else 0)
             in readdir_from d filler (snd (filler s filename)) (Suc i)
        else readdir_from d filler s (Suc i)
      else s)"
  by pat_completeness auto
termination
  by (relation "measure (\<lambda>(d, f, s, i). INODE_LIST_SIZE - i)") auto

declare readdir_from.simps [simp del]

definition sfs_readdir :: "disk \<Rightarrow> ('s \<Rightarrow> bytes \<Rightarrow> int \<times> 's) \<Rightarrow> 's \<Rightarrow> int \<times> 's" where
  "sfs_readdir d filler s = (0, readdir_from d filler s 1)"

definition sfs_mkdir :: "disk \<Rightarrow> bytes \<Rightarrow> uint32 \<Rightarrow> int \<times> disk" where
  "sfs_mkdir d p md = (0, d)"

definition sfs_rmdir :: "disk \<Rightarrow> bytes \<Rightarrow> int \<times> disk" where
  "sfs_rmdir d p = (0, d)"

definition sfs_opendir :: "disk \<Rightarrow> bytes \<Rightarrow> 64 word \<Rightarrow> int \<times> disk \<times> 64 word" where
  "sfs_opendir d p fh = (0, d, fh)"

definition sfs_releasedir :: "disk \<Rightarrow> bytes \<Rightarrow> 64 word \<Rightarrow> int \<times> disk \<times> 64 word" where
  "sfs_releasedir d p fh = (0, d, fh)"

end
