(* ===== verification/SfsFiles.thy ===== *)
theory SfsFiles
  imports SfsOps
begin

text \<open>
  What the file system promises: the invariant \<open>sfs_ok\<close> of a mounted disk (the inode and block maps
  cover what the files use, and no two files share a block), the contents of a file as a function of
  its offsets, and the proofs that the handlers keep the one and change the other as they should.
\<close>

section \<open>Abstract view\<close>

definition lookup :: "disk \<Rightarrow> bytes \<Rightarrow> nat option" where
  "lookup d p = first_from (\<lambda>i. isInodeFree d i = 0 \<and> strcmp_eq p (readInode d i)) 0 INODE_LIST_SIZE"

definition MAX_FILE :: int where
  "MAX_FILE = 16777216"

text \<open>How many blocks a file owns: one more than its whole blocks, as long as \<open>data\<close> has room.\<close>

definition nblocks :: "inode \<Rightarrow> nat" where
  "nblocks nd = min 1024 (nat (isize nd) div BLOCK_SIZE + 1)"

definition blk_of :: "inode \<Rightarrow> nat \<Rightarrow> nat" where
  "blk_of nd j = nat (data nd j)"

definition blocks_of :: "inode \<Rightarrow> nat set" where
  "blocks_of nd = blk_of nd ` {..<nblocks nd}"

definition file_byte :: "disk \<Rightarrow> inode \<Rightarrow> nat \<Rightarrow> byte" where
  "file_byte d nd k = block_get d (50 + blk_of nd (k div BLOCK_SIZE)) (k mod BLOCK_SIZE)"

text \<open>A file whose blocks are real, marked used, and all different.\<close>

definition owns_blocks :: "disk \<Rightarrow> inode \<Rightarrow> nat \<Rightarrow> bool" where
  "owns_blocks d nd k \<longleftrightarrow>
     (\<forall>j < k. 0 \<le> data nd j \<and> blk_of nd j < BLOCK_LIST_SIZE \<and> isBlockFree d (blk_of nd j) = 0) \<and>
     inj_on (blk_of nd) {..<k}"

definition file_ok :: "disk \<Rightarrow> inode \<Rightarrow> bool" where
  "file_ok d nd \<longleftrightarrow> 0 \<le> isize nd \<and> isize nd \<le> MAX_FILE \<and> owns_blocks d nd (nblocks nd)"

text \<open>The used inodes apart from the root directory are the files.\<close>

definition is_file :: "disk \<Rightarrow> nat \<Rightarrow> bool" where
  "is_file d i \<longleftrightarrow> 0 < i \<and> i < INODE_LIST_SIZE \<and> isInodeFree d i = 0"

definition terminated :: "bytes \<Rightarrow> bool" where
  "terminated p \<longleftrightarrow> (\<exists>i < 256. p i = 0)"

definition sfs_ok :: "disk \<Rightarrow> bool" where
  "sfs_ok d \<longleftrightarrow> disk_ok d \<and> checkIfInit d = 1 \<and> isInodeFree d 0 = 0 \<and>
     inode_id (readInode d 0) = 0 \<and>
     (\<forall>i < INODE_LIST_SIZE. isInodeFree d i = 0 \<longrightarrow> terminated (path (readInode d i))) \<and>
     (\<forall>i. is_file d i \<longrightarrow> inode_id (readInode d i) = int i \<and> file_ok d (readInode d i)) \<and>
     (\<forall>i k. is_file d i \<and> is_file d k \<and> i \<noteq> k \<longrightarrow>
        blocks_of (readInode d i) \<inter> blocks_of (readInode d k) = {})"

text \<open>Blocks of all files but \<open>n\<close>.\<close>

definition other_blocks :: "disk \<Rightarrow> nat \<Rightarrow> nat set" where
  "other_blocks d n = (\<Union>i \<in> {i. is_file d i \<and> i \<noteq> n}. blocks_of (readInode d i))"

section \<open>Frames\<close>

text \<open>
  A step on behalf of file \<open>n\<close>: other inodes, both the bit and the contents, and the data blocks
  in \<open>X\<close> are as before, and no used block became free.
\<close>

definition frame :: "nat \<Rightarrow> nat set \<Rightarrow> disk \<Rightarrow> disk \<Rightarrow> bool" where
  "frame n X d d' \<longleftrightarrow> disk_ok d' \<and> junk d' = junk d \<and> checkIfInit d' = checkIfInit d \<and>
     (\<forall>k < INODE_LIST_SIZE. k \<noteq> n \<longrightarrow> isInodeFree d' k = isInodeFree d k \<and> readInode d' k = readInode d k) \<and>
     (\<forall>b < BLOCK_LIST_SIZE. isBlockFree d b = 0 \<longrightarrow> isBlockFree d' b = 0) \<and>
     (\<forall>b \<in> X. \<forall>i < BLOCK_SIZE. b < BLOCK_LIST_SIZE \<longrightarrow> block_get d' (50 + b) i = block_get d (50 + b) i)"

lemma frame_refl: "disk_ok d \<Longrightarrow> frame n X d d"
  by (simp add: frame_def)

lemma frame_trans: "frame n X d d' \<Longrightarrow> frame n X d' d'' \<Longrightarrow> frame n X d d''"
  by (simp add: frame_def)

lemma data_block_lt: "b < BLOCK_LIST_SIZE \<Longrightarrow> 50 + b < MAX_BLOCKS"
  by (simp add: BLOCK_LIST_SIZE_def MAX_BLOCKS_def)

lemma data_read_eq:
  assumes "disk_ok d" "b < BLOCK_LIST_SIZE" "i < BLOCK_SIZE"
  shows "data_read d (int b) buf i = block_get d (50 + b) i"
proof -
  have "c_int (D_BLOCK_START + int b) = int (50 + b)"
    using assms(2) c_int_nat [of "50 + b"] by (simp add: D_BLOCK_START_def BLOCK_LIST_SIZE_def)
  moreover have "snd (block_read d (int (50 + b)) buf) i = block_get d (50 + b) i"
    using assms block_off_nat [OF data_block_lt [OF assms(2)]] whole_blocks [of "file_len d" "50 + b"]
    by (auto simp: block_get_def block_read_def disk_ok_def Let_def min_def)
  ultimately show ?thesis by (simp add: data_read_def)
qed

lemma data_write_eq: "b < BLOCK_LIST_SIZE \<Longrightarrow> data_write d (int b) buf = block_put d (50 + b) buf"
  using c_int_nat [of "50 + b"]
  by (simp add: data_write_def block_put_def D_BLOCK_START_def BLOCK_LIST_SIZE_def)

text \<open>The three kinds of writes a handler makes.\<close>

lemma frame_mark_block:
  assumes "disk_ok d" "b < BLOCK_LIST_SIZE"
  shows "frame n X d (mark_block d b False)"
proof -
  note s = mark_block_same_except [OF assms(1), of b False]
  have "isBlockFree (mark_block d b False) k = 0" if "k < BLOCK_LIST_SIZE" "isBlockFree d k = 0" for k
    using bmap.free_put [OF assms that(1), of False] that(2) isBlockFree_01 by auto
  moreover have "block_get (mark_block d b False) (50 + c) i = block_get d (50 + c) i"
    if "c < BLOCK_LIST_SIZE" "i < BLOCK_SIZE" for c i
    using s that data_block_lt by (simp add: same_except_def)
  ultimately show ?thesis
    using s isInodeFree_frame [OF s] readInode_frame [OF s] checkIfInit_frame [OF s]
    by (auto simp: frame_def same_except_def)
qed

lemma frame_data_write:
  assumes "disk_ok d" "b < BLOCK_LIST_SIZE" "b \<notin> X"
  shows "frame n X d (data_write d (int b) buf)"
proof -
  note s = block_put_same_except [OF assms(1) data_block_lt [OF assms(2)], of buf]
  have "block_get (block_put d (50 + b) buf) (50 + c) i = block_get d (50 + c) i"
    if "c < BLOCK_LIST_SIZE" "c \<in> X" "i < BLOCK_SIZE" for c i
  proof -
    have "50 + c \<noteq> 50 + b" using that(2) assms(3) by auto
    then show ?thesis using s that(3) data_block_lt [OF that(1)] by (simp add: same_except_def)
  qed
  then show ?thesis
    using s isInodeFree_frame [OF s] readInode_frame [OF s] checkIfInit_frame [OF s] isBlockFree_frame [OF s]
    by (auto simp: frame_def same_except_def data_write_eq [OF assms(2)])
qed

lemma frame_writeInode:
  assumes "disk_ok d" "inode_id nd = int n" "n < INODE_LIST_SIZE" "inode_ok nd" "writeInode d nd = Some d'"
  shows "frame n X d d'" "readInode d' n = nd" "isInodeFree d' n = isInodeFree d n"
    "\<And>b. b < BLOCK_LIST_SIZE \<Longrightarrow> isBlockFree d' b = isBlockFree d b"
    "\<And>b i. b < BLOCK_LIST_SIZE \<Longrightarrow> i < BLOCK_SIZE \<Longrightarrow> block_get d' (50 + b) i = block_get d (50 + b) i"
proof -
  obtain d'' where "writeInode d nd = Some d''" and s: "same_except {3 + n div numPerBlock} d d''"
    using writeInode_some assms(1-3) by metis
  then have s: "same_except {3 + n div numPerBlock} d d'" using assms(5) by simp
  have lt: "3 + n div numPerBlock < 46" using inode_slot(1) [OF assms(3)] .
  note rd = readInode_writeInode [OF assms(5,4,2,3,1)]
  show "readInode d' n = nd" using rd [OF assms(3)] by simp
  show "isInodeFree d' n = isInodeFree d n" using isInodeFree_frame [OF s _ assms(3)] by simp
  show bf: "isBlockFree d' b = isBlockFree d b" if "b < BLOCK_LIST_SIZE" for b
    using isBlockFree_frame [OF s _ that] by simp
  show db: "block_get d' (50 + b) i = block_get d (50 + b) i" if "b < BLOCK_LIST_SIZE" "i < BLOCK_SIZE" for b i
    using s lt that data_block_lt [OF that(1)] by (auto simp: same_except_def)
  show "frame n X d d'"
    using s rd bf db isInodeFree_frame [OF s] checkIfInit_frame [OF s] by (auto simp: frame_def same_except_def)
qed

section \<open>The write loop\<close>

text \<open>
  The state of the loop of \<open>sfs_write\<close>: the disk and the in-memory copy of inode \<open>n\<close>, whose
  blocks are its own and none of those in \<open>X\<close>.
\<close>

definition wst :: "nat set \<Rightarrow> nat \<Rightarrow> disk \<Rightarrow> inode \<Rightarrow> bool" where
  "wst X n d nd \<longleftrightarrow> disk_ok d \<and> inode_ok nd \<and> inode_id nd = int n \<and> n < INODE_LIST_SIZE \<and>
     file_ok d nd \<and> blocks_of nd \<inter> X = {} \<and> (\<forall>b \<in> X. b < BLOCK_LIST_SIZE \<and> isBlockFree d b = 0)"

text \<open>What the file reads as while block \<open>blk\<close> is in the buffer \<open>db\<close>.\<close>

definition vbyte :: "disk \<Rightarrow> inode \<Rightarrow> nat \<Rightarrow> bytes \<Rightarrow> nat \<Rightarrow> byte" where
  "vbyte d nd blk db k = (if k div BLOCK_SIZE = blk then db (k mod BLOCK_SIZE) else file_byte d nd k)"

lemma BLOCK_SIZE_pos [simp]: "0 < BLOCK_SIZE"
  by (simp add: BLOCK_SIZE_def)

lemma wst_block:
  assumes "wst X n d nd" "j < nblocks nd"
  shows "data_at nd (int j) = Some (int (blk_of nd j))" "blk_of nd j < BLOCK_LIST_SIZE"
    "isBlockFree d (blk_of nd j) = 0" "blk_of nd j \<notin> X"
proof -
  have "0 \<le> data nd j" "j < 1024" and r: "blk_of nd j < BLOCK_LIST_SIZE" "isBlockFree d (blk_of nd j) = 0"
    using assms by (auto simp: wst_def file_ok_def owns_blocks_def nblocks_def)
  then show "data_at nd (int j) = Some (int (blk_of nd j))" by (simp add: data_at_def blk_of_def)
  show "blk_of nd j < BLOCK_LIST_SIZE" "isBlockFree d (blk_of nd j) = 0" by fact+
  show "blk_of nd j \<notin> X" using assms by (auto simp: wst_def blocks_of_def)
qed

lemma nblocks_small: "0 \<le> isize nd \<Longrightarrow> isize nd < MAX_FILE \<Longrightarrow> nblocks nd = nat (isize nd) div BLOCK_SIZE + 1"
  by (simp add: nblocks_def MAX_FILE_def BLOCK_SIZE_def min_def) linarith

lemma in_nblocks:
  assumes "0 \<le> isize nd" "isize nd \<le> MAX_FILE" "k < nat (isize nd)"
  shows "k div BLOCK_SIZE < nblocks nd"
proof -
  have "k div BLOCK_SIZE \<le> nat (isize nd) div BLOCK_SIZE" using assms by (intro div_le_mono) simp
  moreover have "k < 16777216" using assms by (simp add: MAX_FILE_def)
  then have "k div BLOCK_SIZE < 1024" by (simp add: BLOCK_SIZE_def)
  ultimately show ?thesis by (simp add: nblocks_def)
qed

text \<open>Writing the buffer back to its block.\<close>

lemma flush_block:
  fixes db :: bytes
  assumes "wst X n d nd" "blk < nblocks nd"
  defines "d' \<equiv> data_write d (int (blk_of nd blk)) db"
  shows "wst X n d' nd" "frame n X d d'" "readInode d' n = readInode d n" "isInodeFree d' n = isInodeFree d n"
    "\<And>b. b < BLOCK_LIST_SIZE \<Longrightarrow> isBlockFree d' b = isBlockFree d b"
    "\<And>k. k div BLOCK_SIZE < nblocks nd \<Longrightarrow> file_byte d' nd k = vbyte d nd blk db k"
proof -
  have ok: "disk_ok d" and n: "n < INODE_LIST_SIZE" using assms(1) by (auto simp: wst_def)
  note b = wst_block [OF assms(1,2)]
  have d': "d' = block_put d (50 + blk_of nd blk) db" by (simp add: d'_def data_write_eq b)
  have s: "same_except {50 + blk_of nd blk} d d'"
    unfolding d' by (rule block_put_same_except [OF ok data_block_lt [OF b(2)]])
  show fr: "frame n X d d'" unfolding d'_def by (rule frame_data_write [OF ok b(2,4)])
  show bf: "isBlockFree d' b = isBlockFree d b" if "b < BLOCK_LIST_SIZE" for b
    using isBlockFree_frame [OF s _ that] by simp
  show "readInode d' n = readInode d n" using readInode_frame [OF s _ n] by simp
  show "isInodeFree d' n = isInodeFree d n" using isInodeFree_frame [OF s _ n] by simp
  show "wst X n d' nd" using assms(1) s bf by (auto simp: wst_def same_except_def file_ok_def owns_blocks_def)
  show "file_byte d' nd k = vbyte d nd blk db k" if k: "k div BLOCK_SIZE < nblocks nd" for k
  proof -
    have inj: "blk_of nd blk = blk_of nd (k div BLOCK_SIZE) \<longleftrightarrow> k div BLOCK_SIZE = blk"
      using assms(1,2) k by (auto simp: wst_def file_ok_def owns_blocks_def inj_on_def)
    show ?thesis
      using blk.rd_wr_same [OF ok data_block_lt [OF b(2)], of "k mod BLOCK_SIZE" db]
        blk.rd_wr_other [OF ok data_block_lt [OF b(2)] data_block_lt [OF wst_block(2) [OF assms(1) k]], of "k mod BLOCK_SIZE" db]
      by (cases "k div BLOCK_SIZE = blk") (auto simp: file_byte_def vbyte_def d' inj)
  qed
qed

text \<open>The end of the loop: the buffer goes to its block, the inode to its slot.\<close>

lemma finish_write:
  assumes "wst X n d nd" "blk < nblocks nd"
  obtains d' where
    "(do { b \<leftarrow> data_at nd (int blk); d \<leftarrow> writeInode (data_write d b db) nd; Some (f d) }) = Some (f d')"
    "wst X n d' nd" "frame n X d d'" "readInode d' n = nd" "isInodeFree d' n = isInodeFree d n"
    "\<And>k. k div BLOCK_SIZE < nblocks nd \<Longrightarrow> file_byte d' nd k = vbyte d nd blk db k"
proof -
  let ?d = "data_write d (int (blk_of nd blk)) db"
  note fl = flush_block [OF assms, where db = db]
  have ok: "disk_ok ?d" "inode_id nd = int n" "n < INODE_LIST_SIZE" "inode_ok nd" using fl(1) by (auto simp: wst_def)
  obtain d' where w: "writeInode ?d nd = Some d'" using writeInode_some [OF ok(2,3,1)] by metis
  note wi = frame_writeInode [OF ok w]
  have "wst X n d' nd" using fl(1) wi(1,4) by (auto simp: wst_def frame_def file_ok_def owns_blocks_def)
  moreover have "file_byte d' nd k = file_byte ?d nd k" if "k div BLOCK_SIZE < nblocks nd" for k
    using wi(5) [OF wst_block(2) [OF assms(1) that]] by (simp add: file_byte_def)
  ultimately show thesis
    using that [of d'] w wst_block(1) [OF assms] fl wi frame_trans [OF fl(2) wi(1)] by simp
qed

text \<open>
  The loop went on after position \<open>pos\<close> was written: the size covers it, and a block was taken if
  the size reached a block boundary.
\<close>

definition advanced :: "nat set \<Rightarrow> nat \<Rightarrow> disk \<Rightarrow> inode \<Rightarrow> nat \<Rightarrow> disk \<Rightarrow> inode \<Rightarrow> bool" where
  "advanced X n d nd pos d1 nd1 \<longleftrightarrow>
     wst X n d1 nd1 \<and> frame n X d d1 \<and> isize nd1 = max (isize nd) (int (Suc pos)) \<and>
     isize nd1 < MAX_FILE \<and> nd1 = nd\<lparr>isize := isize nd1, data := data nd1\<rparr> \<and>
     readInode d1 n = readInode d n \<and> isInodeFree d1 n = isInodeFree d n \<and>
     card (bmap.free_units d) = card (bmap.free_units d1) + (nblocks nd1 - nblocks nd) \<and>
     nblocks nd \<le> nblocks nd1"

definition grown :: "nat set \<Rightarrow> nat \<Rightarrow> disk \<Rightarrow> inode \<Rightarrow> nat \<Rightarrow> disk \<Rightarrow> inode \<Rightarrow> bool" where
  "grown X n d nd pos d1 nd1 \<longleftrightarrow> advanced X n d nd pos d1 nd1 \<and>
     (\<forall>k. k div BLOCK_SIZE < nblocks nd \<longrightarrow> file_byte d1 nd1 k = file_byte d nd k)"

lemma next_size:
  assumes "isize nd = int pos" "isize nd < MAX_FILE"
  shows "c_int (isize nd + 1) = int (Suc pos)" "Suc pos \<le> 16777216"
proof -
  show le: "Suc pos \<le> 16777216" using assms by (simp add: MAX_FILE_def)
  have "isize nd + 1 = int (Suc pos)" using assms by simp
  then show "c_int (isize nd + 1) = int (Suc pos)" using c_int_nat [of "Suc pos"] le by (simp del: of_nat_Suc)
qed

lemma grown_within:
  assumes "wst X n d nd" "int (Suc pos) \<le> isize nd" "isize nd < MAX_FILE"
  shows "grown X n d nd pos d nd"
  using assms frame_refl by (auto simp: grown_def advanced_def wst_def)

lemma grown_in_block:
  assumes "wst X n d nd" "isize nd = int pos" "isize nd < MAX_FILE" "Suc pos mod BLOCK_SIZE \<noteq> 0"
  shows "grown X n d nd pos d (nd\<lparr>isize := int (Suc pos)\<rparr>)"
proof -
  let ?nd = "nd\<lparr>isize := int (Suc pos)\<rparr>"
  have "Suc pos \<noteq> 16777216" using assms(4) by (auto simp: BLOCK_SIZE_def)
  then have lt: "Suc pos < 16777216" using next_size(2) [OF assms(2,3)] by simp
  have "Suc pos div BLOCK_SIZE = pos div BLOCK_SIZE" using assms(4) by (simp add: div_Suc)
  then have nb: "nblocks ?nd = nblocks nd" using assms(2) by (simp add: nblocks_def del: of_nat_Suc)
  have bo: "blk_of ?nd = blk_of nd" by (simp add: blk_of_def fun_eq_iff)
  have "inode_ok ?nd" using assms(1) lt c_int_nat [of "Suc pos"] by (simp add: wst_def inode_ok_def del: of_nat_Suc)
  then have "wst X n d ?nd"
    using assms(1) lt nb bo by (auto simp: wst_def file_ok_def owns_blocks_def blocks_of_def MAX_FILE_def)
  moreover have "file_byte d ?nd k = file_byte d nd k" for k by (simp add: file_byte_def bo del: of_nat_Suc)
  ultimately show ?thesis
    using assms(1,2) lt nb frame_refl by (auto simp: grown_def advanced_def wst_def MAX_FILE_def)
qed

lemma free_used_apart: "isBlockFree d b = 1 \<Longrightarrow> isBlockFree d c = 0 \<Longrightarrow> b \<noteq> c"
  by auto

lemma grown_new_block:
  assumes "wst X n d nd" "isize nd = int pos" "Suc pos < 16777216" "Suc pos mod BLOCK_SIZE = 0"
    and fb: "first_from (\<lambda>i. isBlockFree d i = 1) 0 BLOCK_LIST_SIZE = Some b"
  defines "nd1 \<equiv> nd\<lparr>isize := int (Suc pos), data := (data nd)(Suc (pos div BLOCK_SIZE) := int b)\<rparr>"
  shows "grown X n d nd pos (mark_block d b False) nd1"
proof -
  let ?j = "Suc (pos div BLOCK_SIZE)" and ?d = "mark_block d b False"
  have ok: "disk_ok d" and b: "b < BLOCK_LIST_SIZE" "isBlockFree d b = 1" and n: "n < INODE_LIST_SIZE"
    using assms(1) fb by (auto simp: wst_def first_from_Some)
  have sm: "isize nd < MAX_FILE" "0 \<le> isize nd" using assms(2,3) by (auto simp: MAX_FILE_def)
  have nb: "nblocks nd = ?j" using nblocks_small [OF sm(2,1)] assms(2) by simp
  have nb1: "nblocks nd1 = Suc ?j"
    using nblocks_small [of nd1] assms(3,4) by (simp add: nd1_def MAX_FILE_def div_Suc del: of_nat_Suc)
  have j: "?j < 1024" using nb1 by (auto simp: nblocks_def)
  have bo: "blk_of nd1 i = (if i = ?j then b else blk_of nd i)" for i by (simp add: blk_of_def nd1_def)
  have dn: "data nd1 i = (if i = ?j then int b else data nd i)" for i by (simp add: nd1_def)
  have used: "isBlockFree ?d c = (if c = b then 0 else isBlockFree d c)" if "c < BLOCK_LIST_SIZE" for c
    using bmap.free_put [OF ok b(1) that, of False] isBlockFree_01 [of d c] isBlockFree_01 [of ?d c] by (auto split: if_splits)
  have own: "0 \<le> data nd i" "blk_of nd i < BLOCK_LIST_SIZE" "isBlockFree d (blk_of nd i) = 0" "blk_of nd i \<noteq> b" "blk_of nd i \<notin> X"
    if "i < ?j" for i
    using that assms(1) nb b(2) by (auto simp: wst_def file_ok_def owns_blocks_def blocks_of_def)
  have "owns_blocks ?d nd1 (Suc ?j)"
  proof -
    have "inj_on (blk_of nd) {..<?j}" using assms(1) nb by (simp add: wst_def file_ok_def owns_blocks_def)
    then have "inj_on (blk_of nd1) {..<?j}" by (rule inj_on_cong [THEN iffD1, rotated]) (simp add: bo)
    moreover have "b \<notin> blk_of nd1 ` {..<?j}" using own(4) by (force simp: bo)
    ultimately have "inj_on (blk_of nd1) {..<Suc ?j}" unfolding lessThan_Suc [of ?j] by (auto simp: bo)
    then show ?thesis using own b used by (auto simp: owns_blocks_def bo dn less_Suc_eq [of _ ?j])
  qed
  moreover have "inode_ok nd1"
    using assms(1,3) j b(1) c_int_nat [of "Suc pos"] c_int_nat [of b]
    by (simp add: wst_def inode_ok_def nd1_def BLOCK_LIST_SIZE_def del: of_nat_Suc)
  moreover have "b \<notin> X" using assms(1) b(2) by (auto simp: wst_def)
  then have "blocks_of nd1 \<inter> X = {}" using own(5) by (auto simp: blocks_of_def nb1 bo less_Suc_eq)
  ultimately have "wst X n ?d nd1"
    using assms(1,3) frame_mark_block [OF ok b(1), of n X] used nb1
    by (auto simp: wst_def file_ok_def nd1_def MAX_FILE_def frame_def)
  moreover have "file_byte ?d nd1 k = file_byte d nd k" if "k div BLOCK_SIZE < nblocks nd" for k
    using that nb own(2) [of "k div BLOCK_SIZE"] mark_block_same_except [OF ok, of b False] data_block_lt [of "blk_of nd (k div BLOCK_SIZE)"]
    by (simp add: file_byte_def bo same_except_def)
  ultimately show ?thesis
    using frame_mark_block [OF ok b(1), of n X] assms(2,3) bmap.claim_first(3) [OF ok fb] nb nb1
      readInode_frame [OF mark_block_same_except [OF ok] _ n] isInodeFree_frame [OF mark_block_same_except [OF ok] _ n]
    by (auto simp: grown_def advanced_def MAX_FILE_def nd1_def)
qed

text \<open>The file reaches its largest size: buffer and inode are written and the call returns.\<close>

lemma grow_full:
  assumes w: "wst X n d nd" and eq: "isize nd = int pos" "pos = 16777215" and blk: "pos = blk * BLOCK_SIZE + chr"
    and chr: "chr < BLOCK_SIZE"
  obtains d1 where "grow_file d nd (int blk) (Suc chr) db wr = Some (Ret wr d1)"
      "wst X n d1 (nd\<lparr>isize := MAX_FILE\<rparr>)" "frame n X d d1" "readInode d1 n = nd\<lparr>isize := MAX_FILE\<rparr>"
      "isInodeFree d1 n = isInodeFree d n"
      "\<And>k. k div BLOCK_SIZE < 1024 \<Longrightarrow> file_byte d1 (nd\<lparr>isize := MAX_FILE\<rparr>) k = vbyte d nd blk db k"
proof -
  let ?nd = "nd\<lparr>isize := MAX_FILE\<rparr>"
  have "pos div BLOCK_SIZE = blk" "pos mod BLOCK_SIZE = chr" using blk chr by simp_all
  then have bc: "blk = 1023" "chr = 16383" using eq(2) by (simp_all add: BLOCK_SIZE_def)
  have nb: "nblocks nd = 1024" "nblocks ?nd = 1024"
    using eq by (simp_all add: nblocks_def MAX_FILE_def BLOCK_SIZE_def)
  have bo: "blk_of ?nd = blk_of nd" by (simp add: blk_of_def fun_eq_iff)
  have "inode_ok ?nd" using w by (auto simp: wst_def inode_ok_def MAX_FILE_def c_int_id)
  then have w': "wst X n d ?nd"
    using w nb bo by (auto simp: wst_def file_ok_def owns_blocks_def blocks_of_def MAX_FILE_def)
  obtain d1 where d1: "(do { b \<leftarrow> data_at ?nd (int blk); d \<leftarrow> writeInode (data_write d b db) ?nd; Some (Ret wr d) }) = Some (Ret wr d1 :: (disk \<times> inode) flow)"
    "wst X n d1 ?nd" "frame n X d d1" "readInode d1 n = ?nd" "isInodeFree d1 n = isInodeFree d n"
    "\<And>k. k div BLOCK_SIZE < nblocks ?nd \<Longrightarrow> file_byte d1 ?nd k = vbyte d ?nd blk db k"
    using finish_write [OF w', of blk db "Ret wr"] nb bc by auto
  have "c_int (isize nd + 1) = MAX_FILE" using eq c_int_nat [of 16777216] by (simp add: MAX_FILE_def)
  then have "grow_file d nd (int blk) (Suc chr) db wr = Some (Ret wr d1)"
    using d1(1) eq bc unfolding grow_file_def by (simp add: BLOCK_SIZE_def MAX_FILE_def)
  moreover have "vbyte d ?nd blk db k = vbyte d nd blk db k" for k by (simp add: vbyte_def file_byte_def bo)
  ultimately show thesis using d1 nb by (intro that [of d1]) auto
qed

text \<open>What one pass through the size update can do.\<close>

lemma grow_file_cases:
  assumes w: "wst X n d nd" and lt: "isize nd < MAX_FILE" and le: "int pos \<le> isize nd"
    and pos: "pos = blk * BLOCK_SIZE + chr" "chr < BLOCK_SIZE"
  obtains d1 nd1 where "grow_file d nd (int blk) (Suc chr) db wr = Some (Cont (d1, nd1))" "grown X n d nd pos d1 nd1"
  | "grow_file d nd (int blk) (Suc chr) db wr = Some (Ret (-1) d)" "bmap.free_units d = {}"
      "isize nd = int pos" "Suc pos mod BLOCK_SIZE = 0" "Suc pos < 16777216"
  | "isize nd = int pos" "pos = 16777215"
proof -
  have cond: "int (Suc chr) + int blk * int BLOCK_SIZE > isize nd \<longleftrightarrow> isize nd = int pos"
    using le pos(1) by simp linarith
  have ok: "disk_ok d" using w by (auto simp: wst_def)
  have dv: "pos div BLOCK_SIZE = blk" using pos by simp
  consider "isize nd \<noteq> int pos" | "isize nd = int pos" "Suc pos mod BLOCK_SIZE \<noteq> 0"
    | "isize nd = int pos" "Suc pos mod BLOCK_SIZE = 0" "Suc pos < 16777216" | "isize nd = int pos" "pos = 16777215"
    using next_size(2) lt by fastforce
  then show thesis
  proof cases
    case 1
    then have "grow_file d nd (int blk) (Suc chr) db wr = Some (Cont (d, nd))"
      using cond by (simp add: grow_file_def)
    moreover have "grown X n d nd pos d nd" using 1 le lt by (intro grown_within [OF w]) auto
    ultimately show thesis by (rule that(1))
  next
    case 4
    then show thesis by (rule that(3))
  next
    case 2
    have "int (Suc pos) mod int BLOCK_SIZE \<noteq> 0" using 2(2) by (metis of_nat_0_eq_iff of_nat_mod)
    then have "grow_file d nd (int blk) (Suc chr) db wr = Some (Cont (d, nd\<lparr>isize := int (Suc pos)\<rparr>))"
      using 2 cond next_size(1) [OF 2(1) lt] by (simp add: grow_file_def)
    then show thesis using grown_in_block [OF w 2(1) lt 2(2)] by (rule that(1))
  next
    case 3
    have "int (Suc pos) mod int BLOCK_SIZE = 0" using 3(2) by (metis of_nat_0_eq_iff of_nat_mod)
    then have gf: "grow_file d nd (int blk) (Suc chr) db wr = (let nbl = findNextOpenBlock d
        in if nbl = -1 then Some (Ret (-1) d)
           else do { nd \<leftarrow> set_data (nd\<lparr>isize := int (Suc pos)\<rparr>) (int blk + 1) nbl; d \<leftarrow> setBlock d nbl 0; Some (Cont (d, nd)) })"
      using 3 cond next_size(1) [OF 3(1) lt] by (simp add: grow_file_def del: of_nat_Suc)
    show thesis
    proof (cases rule: findNextOpenBlock_cases [OF ok])
      case 1
      then show thesis using 3 by (intro that(2)) (simp_all add: gf)
    next
      case (2 b)
      let ?nd = "nd\<lparr>isize := int (Suc pos), data := (data nd)(Suc (pos div BLOCK_SIZE) := int b)\<rparr>"
      have g: "grown X n d nd pos (mark_block d b False) ?nd" by (rule grown_new_block [OF w 3(1,3,2) 2(4)])
      have "Suc pos div BLOCK_SIZE < 1024" using 3(3) by (simp add: BLOCK_SIZE_def)
      then have "pos div BLOCK_SIZE < 1023" using 3(2) by (simp add: div_Suc)
      then have "set_data (nd\<lparr>isize := int (Suc pos)\<rparr>) (int blk + 1) (int b) = Some ?nd"
        using dv by (simp add: set_data_def nat_add_distrib)
      then have "grow_file d nd (int blk) (Suc chr) db wr = Some (Cont (mark_block d b False, ?nd))"
        using 2 by (simp add: gf setBlock_marks)
      then show thesis using g by (rule that(1))
    qed
  qed
qed

text \<open>
  What the loop leaves, from position \<open>pos\<close> of a file that reads as \<open>vb\<close>, with bytes \<open>i\<close> to
  \<open>sz\<close> of the user buffer still to be written.
\<close>

definition write_post ::
  "nat set \<Rightarrow> nat \<Rightarrow> disk \<Rightarrow> inode \<Rightarrow> (nat \<Rightarrow> byte) \<Rightarrow> nat \<Rightarrow> bytes \<Rightarrow> nat \<Rightarrow> nat \<Rightarrow> int \<Rightarrow> disk \<Rightarrow> bool" where
  "write_post X n d nd vb pos buf i sz r d' \<longleftrightarrow>
     frame n X d d' \<and> isInodeFree d' n = isInodeFree d n \<and>
     (if r = -1 then readInode d' n = readInode d n \<and>
        card (bmap.free_units d) < max (nat (isize nd)) (pos + (sz - i)) div BLOCK_SIZE - nat (isize nd) div BLOCK_SIZE
      else let nd' = readInode d' n in
        int i \<le> r \<and> r \<le> int sz \<and> (r = int sz \<or> isize nd' = MAX_FILE) \<and> wst X n d' nd' \<and>
        isize nd' = max (isize nd) (int pos + (r - int i)) \<and>
        nd' = nd\<lparr>isize := isize nd', data := data nd'\<rparr> \<and>
        (\<forall>k < nat (isize nd'). file_byte d' nd' k =
           (if pos \<le> k \<and> k < pos + nat (r - int i) then buf (i + (k - pos)) else vb k)))"

lemma write_post_step:
  assumes a: "advanced X n d nd pos d1 nd1" and p: "write_post X n d1 nd1 vb1 (Suc pos) buf (Suc i) sz r d'"
    and i: "i < sz" and le: "int pos \<le> isize nd" "isize nd < MAX_FILE"
    and vb: "vb1 pos = buf i" "\<And>k. k < nat (isize nd) \<Longrightarrow> k \<noteq> pos \<Longrightarrow> vb1 k = vb k"
  shows "write_post X n d nd vb pos buf i sz r d'"
proof (cases "r = -1")
  case True
  have s1: "isize nd1 = max (isize nd) (int (Suc pos))" "0 \<le> isize nd1" "0 \<le> isize nd" "isize nd1 < MAX_FILE"
    and fr: "frame n X d d1" "readInode d1 n = readInode d n" "isInodeFree d1 n = isInodeFree d n"
    and cd: "card (bmap.free_units d) = card (bmap.free_units d1) + (nblocks nd1 - nblocks nd)" "nblocks nd \<le> nblocks nd1"
    using a le unfolding advanced_def by linarith+
  have nb: "nblocks nd = nat (isize nd) div BLOCK_SIZE + 1" "nblocks nd1 = nat (isize nd1) div BLOCK_SIZE + 1"
    using s1 nblocks_small le by auto
  have m: "max (nat (isize nd1)) (Suc pos + (sz - Suc i)) = max (nat (isize nd)) (pos + (sz - i))"
    using s1(1) i le(1) by (simp add: max_def) linarith
  have sub: "c < k - a \<Longrightarrow> c' = c + (a + 1 - (b + 1)) \<Longrightarrow> b + 1 \<le> a + 1 \<Longrightarrow> c' < k - b" for a b c c' k :: nat
    by arith
  have "card (bmap.free_units d1) < max (nat (isize nd)) (pos + (sz - i)) div BLOCK_SIZE - nat (isize nd1) div BLOCK_SIZE"
    using True p unfolding write_post_def m by simp
  then have "card (bmap.free_units d) < max (nat (isize nd)) (pos + (sz - i)) div BLOCK_SIZE - nat (isize nd) div BLOCK_SIZE"
    using cd unfolding nb by (rule sub)
  then show ?thesis using True p fr frame_trans [OF fr(1)] by (simp add: write_post_def)
next
  case False
  let ?nd = "readInode d' n"
  have q: "int (Suc i) \<le> r" "r \<le> int sz" "r = int sz \<or> isize ?nd = MAX_FILE" "wst X n d' ?nd"
      "isize ?nd = max (isize nd1) (int (Suc pos) + (r - int (Suc i)))" "?nd = nd1\<lparr>isize := isize ?nd, data := data ?nd\<rparr>"
      "\<And>k. k < nat (isize ?nd) \<Longrightarrow> file_byte d' ?nd k =
        (if Suc pos \<le> k \<and> k < Suc pos + nat (r - int (Suc i)) then buf (Suc i + (k - Suc pos)) else vb1 k)"
    using p unfolding write_post_def Let_def if_not_P [OF False] by blast+
  have s1: "isize nd1 = max (isize nd) (int (Suc pos))" "nd1 = nd\<lparr>isize := isize nd1, data := data nd1\<rparr>"
    "frame n X d d1" "isInodeFree d1 n = isInodeFree d n"
    using a unfolding advanced_def by blast+
  have sz: "isize ?nd = max (isize nd) (int pos + (r - int i))" using q(1,5) s1(1) by simp
  have nd: "?nd = nd\<lparr>isize := isize ?nd, data := data ?nd\<rparr>" by (subst q(6), subst s1(2)) simp
  have "file_byte d' ?nd k = (if pos \<le> k \<and> k < pos + nat (r - int i) then buf (i + (k - pos)) else vb k)"
    if k: "k < nat (isize ?nd)" for k
  proof -
    consider "k = pos" | "pos < k" "k < pos + nat (r - int i)" | "k < pos \<or> pos + nat (r - int i) \<le> k" "k \<noteq> pos"
      by linarith
    then show ?thesis
    proof cases
      case 3
      then have "k < nat (isize nd)" using k sz le(1) q(1) by linarith
      then show ?thesis using q(1) q(7) [OF k] vb(2) 3 by auto
    qed (use q(1) q(7) [OF k] vb(1) in \<open>auto simp: Suc_diff_Suc\<close>)
  qed
  then show ?thesis
    using False p q(1-4) sz nd frame_trans [OF s1(3)] s1(4) by (simp add: write_post_def Let_def)
qed

lemma write_post_done:
  assumes "wst X n d nd" "isize nd < MAX_FILE" "int pos \<le> isize nd" "blk < nblocks nd"
  obtains d' where
    "(do { b \<leftarrow> data_at nd (int blk); d \<leftarrow> writeInode (data_write d b db) nd; Some (int sz, d) }) = Some (int sz, d')"
    "write_post X n d nd (vbyte d nd blk db) pos buf sz sz (int sz) d'"
proof -
  obtain d' where d': "(do { b \<leftarrow> data_at nd (int blk); d \<leftarrow> writeInode (data_write d b db) nd; Some (int sz, d) }) = Some (int sz, d')"
    "wst X n d' nd" "frame n X d d'" "readInode d' n = nd" "isInodeFree d' n = isInodeFree d n"
    "\<And>k. k div BLOCK_SIZE < nblocks nd \<Longrightarrow> file_byte d' nd k = vbyte d nd blk db k"
    using finish_write [OF assms(1,4), of db "Pair (int sz)"] by metis
  moreover have "file_byte d' nd k = vbyte d nd blk db k" if "k < nat (isize nd)" for k
    using that d'(6) in_nblocks [of nd k] assms(2,3) by simp
  ultimately show thesis using assms(3) by (intro that [of d']) (auto simp: write_post_def)
qed

lemma write_post_full:
  assumes w: "wst X n d nd" and eq: "isize nd = int pos" "pos = 16777215" and blk: "pos = blk * BLOCK_SIZE + chr"
    and chr: "chr < BLOCK_SIZE" and i: "i < sz"
  obtains d' where "grow_file d nd (int blk) (Suc chr) (db(chr := buf i)) (int (Suc i)) = Some (Ret (int (Suc i)) d')"
    "write_post X n d nd (vbyte d nd blk db) pos buf i sz (int (Suc i)) d'"
proof -
  let ?nd = "nd\<lparr>isize := MAX_FILE\<rparr>" and ?db = "db(chr := buf i)"
  obtain d' where d': "grow_file d nd (int blk) (Suc chr) ?db (int (Suc i)) = Some (Ret (int (Suc i)) d')"
      "wst X n d' ?nd" "frame n X d d'" "readInode d' n = ?nd" "isInodeFree d' n = isInodeFree d n"
      "\<And>k. k div BLOCK_SIZE < 1024 \<Longrightarrow> file_byte d' ?nd k = vbyte d nd blk ?db k"
    using grow_full [OF w eq blk chr] by metis
  have "vbyte d nd blk ?db k = (if k = pos then buf i else vbyte d nd blk db k)" for k
    using blk chr by (auto simp: vbyte_def)
  then have fb: "file_byte d' ?nd k = (if k = pos then buf i else vbyte d nd blk db k)" if "k \<le> pos" for k
    using d'(6) [of k] that eq(2) by (simp add: BLOCK_SIZE_def)
  have "write_post X n d nd (vbyte d nd blk db) pos buf i sz (int (Suc i)) d'"
    unfolding write_post_def Let_def d'(4) using d'(2,3,5) fb eq i by (auto simp: MAX_FILE_def)
  then show thesis using d'(1) by (intro that)
qed

lemma block_of_size:
  assumes "isize nd < MAX_FILE" "int (blk * BLOCK_SIZE) \<le> isize nd"
  shows "blk < nblocks nd"
proof -
  have "blk * BLOCK_SIZE \<le> nat (isize nd)" using assms(2) by linarith
  then have "blk \<le> nat (isize nd) div BLOCK_SIZE" by (simp add: less_eq_div_iff_mult_less_eq)
  then show ?thesis using nblocks_small [of nd] assms by simp
qed

text \<open>A full buffer is flushed and the next block loaded.\<close>

lemma next_block:
  fixes db :: bytes
  assumes w: "wst X n d nd" and lt: "isize nd < MAX_FILE" and le: "int (Suc blk * BLOCK_SIZE) \<le> isize nd"
  defines "d2 \<equiv> data_write d (int (blk_of nd blk)) db"
  shows "wst X n d2 nd" "frame n X d d2" "readInode d2 n = readInode d n"
    "isInodeFree d2 n = isInodeFree d n" "bmap.free_units d2 = bmap.free_units d"
    "\<And>k. k < nat (isize nd) \<Longrightarrow>
      vbyte d2 nd (Suc blk) (data_read d2 (int (blk_of nd (Suc blk))) db) k = vbyte d nd blk db k"
proof -
  have s0: "0 \<le> isize nd" using w by (simp add: wst_def file_ok_def)
  have b: "Suc blk < nblocks nd" by (rule block_of_size [OF lt le])
  have b0: "blk < nblocks nd" using b by simp
  note fl = flush_block [OF w b0, where db = db, folded d2_def]
  show w2: "wst X n d2 nd" and "frame n X d d2" "readInode d2 n = readInode d n" "isInodeFree d2 n = isInodeFree d n"
    by (fact fl)+
  show "bmap.free_units d2 = bmap.free_units d" using fl(5) by (auto simp: bmap.free_units_def)
  have ok2: "disk_ok d2" using w2 by (simp add: wst_def)
  have "vbyte d2 nd (Suc blk) (data_read d2 (int (blk_of nd (Suc blk))) db) k = file_byte d2 nd k" for k
    using data_read_eq [OF ok2 wst_block(2) [OF w b], of "k mod BLOCK_SIZE" db]
    by (auto simp: vbyte_def file_byte_def)
  then show "vbyte d2 nd (Suc blk) (data_read d2 (int (blk_of nd (Suc blk))) db) k = vbyte d nd blk db k"
    if "k < nat (isize nd)" for k
    using fl(6) in_nblocks [OF s0 _ that] lt by simp
qed

text \<open>One iteration that goes on: the next state, and what the file reads as there.\<close>

lemma write_iteration:
  assumes w: "wst X n d nd" and lt: "isize nd < MAX_FILE" and le: "int pos \<le> isize nd"
    and pos: "pos = blk * BLOCK_SIZE + chr" "chr < BLOCK_SIZE" and i: "i < sz"
    and g: "grow_file d nd (int blk) (Suc chr) (db(chr := buf i)) (int (Suc i)) = Some (Cont (d1, nd1))"
      "grown X n d nd pos d1 nd1"
  obtains d2 blk2 chr2 db2 where
    "write_from d nd sz buf i (int blk) chr db = write_from d2 nd1 sz buf (Suc i) (int blk2) chr2 db2"
    "advanced X n d nd pos d2 nd1" "Suc pos = blk2 * BLOCK_SIZE + chr2" "chr2 < BLOCK_SIZE"
    "vbyte d2 nd1 blk2 db2 pos = buf i"
    "\<And>k. k < nat (isize nd) \<Longrightarrow> k \<noteq> pos \<Longrightarrow> vbyte d2 nd1 blk2 db2 k = vbyte d nd blk db k"
proof -
  let ?db = "db(chr := buf i)"
  have adv: "advanced X n d nd pos d1 nd1" and fb: "\<And>k. k div BLOCK_SIZE < nblocks nd \<Longrightarrow> file_byte d1 nd1 k = file_byte d nd k"
    using g(2) by (auto simp: grown_def)
  have w1: "wst X n d1 nd1" and lt1: "isize nd1 < MAX_FILE" and s1: "isize nd1 = max (isize nd) (int (Suc pos))"
    using adv unfolding advanced_def by blast+
  have v1: "vbyte d1 nd1 blk ?db k = (if k = pos then buf i else vbyte d nd blk db k)" if "k = pos \<or> k < nat (isize nd)" for k
    using that fb [of k] in_nblocks [of nd k] lt le pos by (auto simp: vbyte_def)
  show thesis
  proof (cases "Suc chr = BLOCK_SIZE")
    case False
    then have ch: "Suc chr < BLOCK_SIZE" "Suc chr mod BLOCK_SIZE \<noteq> 0" using pos(2) by simp_all
    then have "write_from d nd sz buf i (int blk) chr db = write_from d1 nd1 sz buf (Suc i) (int blk) (Suc chr) ?db"
      using i g(1) by (subst write_from.simps) (simp add: Let_def)
    then show thesis using adv ch(1) pos(1) v1 by (intro that [of d1 blk "Suc chr" ?db]) auto
  next
    case True
    have le2: "int (Suc blk * BLOCK_SIZE) \<le> isize nd1" and sp: "Suc pos = Suc blk * BLOCK_SIZE + 0"
      using s1 pos(1) True by auto
    let ?d2 = "data_write d1 (int (blk_of nd1 blk)) ?db"
    let ?db2 = "data_read ?d2 (int (blk_of nd1 (Suc blk))) ?db"
    note nx = next_block [OF w1 lt1 le2, where db = ?db] and nb = block_of_size [OF lt1 le2]
    have "data_at nd1 (int blk) = Some (int (blk_of nd1 blk))" "data_at nd1 (int blk + 1) = Some (int (blk_of nd1 (Suc blk)))"
      using wst_block(1) [OF w1, of blk] wst_block(1) [OF w1 nb] nb by (simp_all add: add.commute)
    then have "write_from d nd sz buf i (int blk) chr db = write_from ?d2 nd1 sz buf (Suc i) (int (Suc blk)) 0 ?db2"
      using True i g(1) by (subst write_from.simps) (simp add: Let_def add.commute)
    moreover have "advanced X n d nd pos ?d2 nd1"
      using adv nx frame_trans [OF _ nx(2)] unfolding advanced_def by metis
    moreover have "vbyte ?d2 nd1 (Suc blk) ?db2 k = vbyte d1 nd1 blk ?db k" if "k = pos \<or> k < nat (isize nd)" for k
      by (rule nx(6)) (use that s1 le in linarith)
    ultimately show thesis
      using sp v1 by (intro that [of ?d2 "Suc blk" 0 ?db2]) auto
  qed
qed

lemma write_from_correct:
  assumes "wst X n d nd" "isize nd < MAX_FILE" "int pos \<le> isize nd" "pos = blk * BLOCK_SIZE + chr"
    "chr < BLOCK_SIZE" "i \<le> sz"
  shows "\<exists>r d'. write_from d nd sz buf i (int blk) chr db = Some (r, d') \<and>
    write_post X n d nd (vbyte d nd blk db) pos buf i sz r d'"
  using assms
proof (induction "sz - i" arbitrary: d nd i blk chr db pos)
  case 0
  have b: "blk < nblocks nd" using 0(4,5) by (intro block_of_size 0(3)) simp
  obtain d' where "(do { b \<leftarrow> data_at nd (int blk); d \<leftarrow> writeInode (data_write d b db) nd; Some (int sz, d) }) = Some (int sz, d')"
    "write_post X n d nd (vbyte d nd blk db) pos buf sz sz (int sz) d'"
    by (rule write_post_done [OF 0(2,3,4) b])
  moreover have "i = sz" using 0(1,7) by simp
  ultimately show ?case by (subst write_from.simps) auto
next
  case (Suc m)
  note w = Suc.prems(1) and lt = Suc.prems(2) and le = Suc.prems(3) and pos = Suc.prems(4,5)
  have i: "i < sz" using Suc.hyps(2) by simp
  show ?case
  proof (cases rule: grow_file_cases [OF w lt le pos, of "db(chr := buf i)" "int (Suc i)", case_names cont nospace full])
    case (cont d1 nd1)
    obtain d2 blk2 chr2 db2 where it:
      "write_from d nd sz buf i (int blk) chr db = write_from d2 nd1 sz buf (Suc i) (int blk2) chr2 db2"
      and adv: "advanced X n d nd pos d2 nd1" and p2: "Suc pos = blk2 * BLOCK_SIZE + chr2" "chr2 < BLOCK_SIZE"
      and vb: "vbyte d2 nd1 blk2 db2 pos = buf i"
        "\<And>k. k < nat (isize nd) \<Longrightarrow> k \<noteq> pos \<Longrightarrow> vbyte d2 nd1 blk2 db2 k = vbyte d nd blk db k"
      using write_iteration [where db = db and buf = buf, OF w lt le pos i cont] by metis
    have "wst X n d2 nd1" "isize nd1 < MAX_FILE" "int (Suc pos) \<le> isize nd1"
      using adv unfolding advanced_def by linarith+
    moreover have "m = sz - Suc i" "Suc i \<le> sz" using Suc.hyps(2) by simp_all
    ultimately obtain r d' where "write_from d2 nd1 sz buf (Suc i) (int blk2) chr2 db2 = Some (r, d')"
        "write_post X n d2 nd1 (vbyte d2 nd1 blk2 db2) (Suc pos) buf (Suc i) sz r d'"
      using Suc.hyps(1) p2 by blast
    then show ?thesis
      using it vb write_post_step [OF adv _ i le lt, where vb = "vbyte d nd blk db" and ?vb1.0 = "vbyte d2 nd1 blk2 db2"] by auto
  next
    case nospace
    have s: "nat (isize nd) = pos" "Suc pos div BLOCK_SIZE = Suc (pos div BLOCK_SIZE)" using nospace by (simp_all add: div_Suc)
    have "Suc pos div BLOCK_SIZE \<le> (pos + (sz - i)) div BLOCK_SIZE" using i by (intro div_le_mono) simp
    then have "pos div BLOCK_SIZE < (pos + (sz - i)) div BLOCK_SIZE" using s(2) by simp
    then have "write_post X n d nd (vbyte d nd blk db) pos buf i sz (-1) d"
      using nospace s w by (simp add: write_post_def frame_refl wst_def max_def)
    then show ?thesis using nospace(1) i by (subst write_from.simps) (simp add: Let_def)
  next
    case full
    obtain d' where "grow_file d nd (int blk) (Suc chr) (db(chr := buf i)) (int (Suc i)) = Some (Ret (int (Suc i)) d')"
      "write_post X n d nd (vbyte d nd blk db) pos buf i sz (int (Suc i)) d'"
      by (rule write_post_full [OF w full pos i])
    then show ?thesis using i by (subst write_from.simps) (auto simp: Let_def)
  qed
qed

end
