(* ===== verification/SfsCorrect.thy ===== *)
theory SfsCorrect
  imports SfsFiles
begin

text \<open>
  The handlers of the file system against the abstract view: names, contents, the invariant.
\<close>

section \<open>Names\<close>

text \<open>Two C strings are equal.\<close>

definition same_str :: "bytes \<Rightarrow> bytes \<Rightarrow> bool" where
  "same_str p q \<longleftrightarrow> (\<exists>n. p n = 0 \<and> q n = 0 \<and> (\<forall>j < n. p j = q j \<and> p j \<noteq> 0))"

lemma streq_from_iff:
  assumes "path nd z = 0" "z < 256" "i \<le> z"
  shows "streq_from p nd i \<longleftrightarrow> (\<exists>n \<ge> i. n \<le> z \<and> p n = 0 \<and> path nd n = 0 \<and> (\<forall>j. i \<le> j \<and> j < n \<longrightarrow> p j = path nd j \<and> p j \<noteq> 0))"
  using assms(3)
proof (induction "z - i" arbitrary: i)
  case 0
  then have "i = z" by simp
  then show ?case
    using assms inode_byte_fields(2) [of i nd] by (subst streq_from.simps) (auto simp: SIZEOF_INODE_def)
next
  case (Suc m)
  have b: "inode_byte nd (2 + i) = path nd i" using Suc assms(2) by (intro inode_byte_fields(2)) simp
  have split: "i \<le> j \<longleftrightarrow> j = i \<or> Suc i \<le> j" for j by auto
  have IH: "streq_from p nd (Suc i) \<longleftrightarrow> (\<exists>n \<ge> Suc i. n \<le> z \<and> p n = 0 \<and> path nd n = 0 \<and> (\<forall>j. Suc i \<le> j \<and> j < n \<longrightarrow> p j = path nd j \<and> p j \<noteq> 0))"
    using Suc by auto
  have "streq_from p nd i \<longleftrightarrow> p i = path nd i \<and> (p i = 0 \<or> streq_from p nd (Suc i))"
    using Suc assms(2) b by (subst streq_from.simps) (simp add: SIZEOF_INODE_def)
  then show ?case
  proof (cases "p i = path nd i \<and> p i \<noteq> 0")
    case True
    then show ?thesis using \<open>streq_from p nd i \<longleftrightarrow> _\<close> unfolding IH split by (auto intro: Suc_leD)
  next
    case False
    then show ?thesis using \<open>streq_from p nd i \<longleftrightarrow> _\<close> Suc.prems by (auto simp: le_less)
  qed
qed

lemma strcmp_eq_iff:
  assumes "terminated (path nd)"
  shows "strcmp_eq p nd \<longleftrightarrow> same_str p (path nd)"
proof -
  obtain z where z: "z < 256" "path nd z = 0" using assms by (auto simp: terminated_def)
  have "n \<le> z" if "\<forall>j < n. p j = path nd j \<and> p j \<noteq> 0" for n
    using that z(2) by (metis not_le)
  then show ?thesis using streq_from_iff [OF z(2,1), of 0 p] by (auto simp: strcmp_eq_def same_str_def)
qed

lemma same_str_sym: "same_str p q \<Longrightarrow> same_str q p"
  unfolding same_str_def by metis

lemma same_str_trans:
  assumes "same_str p q" "same_str q r"
  shows "same_str p r"
proof -
  obtain n m where n: "p n = 0" "q n = 0" "\<forall>j < n. p j = q j \<and> p j \<noteq> 0"
    and m: "q m = 0" "r m = 0" "\<forall>j < m. q j = r j \<and> q j \<noteq> 0"
    using assms by (auto simp: same_str_def)
  then have "n = m" by (metis linorder_neqE_nat)
  then show ?thesis using n m by (auto simp: same_str_def)
qed

lemma lookup_alt:
  assumes "sfs_ok d"
  shows "lookup d p = first_from (\<lambda>i. isInodeFree d i = 0 \<and> same_str p (path (readInode d i))) 0 INODE_LIST_SIZE"
  unfolding lookup_def by (rule first_from_cong) (use assms strcmp_eq_iff in \<open>auto simp: sfs_ok_def\<close>)

lemma checkiNodePathName_Some: "lookup d p = Some i \<Longrightarrow> checkiNodePathName d p = readInode d i"
  by (simp add: checkiNodePathName_def lookup_def)

lemma checkiNodePathName_None: "lookup d p = None \<Longrightarrow> inode_id (checkiNodePathName d p) = -1"
  by (simp add: checkiNodePathName_def lookup_def)

lemma lookup_used: "lookup d p = Some i \<Longrightarrow> i < INODE_LIST_SIZE \<and> isInodeFree d i = 0"
  by (simp add: lookup_def first_from_Some)

lemma lookup_file:
  assumes "sfs_ok d" "lookup d p = Some i"
  shows "inode_id (checkiNodePathName d p) = int i"
  using assms lookup_used [OF assms(2)] checkiNodePathName_Some [OF assms(2)]
  by (cases "i = 0") (auto simp: sfs_ok_def is_file_def)

section \<open>Contents\<close>

definition contents :: "disk \<Rightarrow> nat \<Rightarrow> byte list" where
  "contents d i = (let nd = readInode d i in map (file_byte d nd) [0..<nat (isize nd)])"

definition overwrite :: "byte list \<Rightarrow> nat \<Rightarrow> byte list \<Rightarrow> byte list" where
  "overwrite xs off bs = take off xs @ bs @ drop (off + length bs) xs"

lemma length_overwrite: "off \<le> length xs \<Longrightarrow> length (overwrite xs off bs) = max (length xs) (off + length bs)"
  by (simp add: overwrite_def)

lemma nth_overwrite:
  assumes "off \<le> length xs" "k < max (length xs) (off + length bs)"
  shows "overwrite xs off bs ! k = (if off \<le> k \<and> k < off + length bs then bs ! (k - off) else xs ! k)"
  using assms by (auto simp: overwrite_def nth_append less_max_iff_disj)

lemma contents_frame:
  assumes "sfs_ok d" "frame n (other_blocks d n) d d'" "is_file d i" "i \<noteq> n"
  shows "contents d' i = contents d i"
proof -
  let ?nd = "readInode d i"
  have i: "i < INODE_LIST_SIZE" using assms(3) by (simp add: is_file_def)
  have fo: "file_ok d ?nd" using assms(1,3) by (simp add: sfs_ok_def)
  have nd: "readInode d' i = ?nd" using assms(2,4) i by (simp add: frame_def)
  have "file_byte d' ?nd k = file_byte d ?nd k" if "k < nat (isize ?nd)" for k
  proof -
    have j: "k div BLOCK_SIZE < nblocks ?nd" using fo that by (intro in_nblocks) (auto simp: file_ok_def)
    then have "blk_of ?nd (k div BLOCK_SIZE) \<in> other_blocks d n" "blk_of ?nd (k div BLOCK_SIZE) < BLOCK_LIST_SIZE"
      using assms(3,4) fo by (auto simp: other_blocks_def blocks_of_def file_ok_def owns_blocks_def)
    then show ?thesis using assms(2) by (simp add: file_byte_def frame_def)
  qed
  then show ?thesis by (simp add: contents_def nd Let_def)
qed

lemma is_file_frame:
  "frame n X d d' \<Longrightarrow> i \<noteq> n \<Longrightarrow> is_file d' i = is_file d i"
  by (auto simp: is_file_def frame_def)

lemma file_ok_frame: "frame n X d d' \<Longrightarrow> file_ok d nd \<Longrightarrow> file_ok d' nd"
  by (auto simp: frame_def file_ok_def owns_blocks_def)

text \<open>A step on behalf of file \<open>n\<close> keeps the invariant when it leaves \<open>n\<close> itself in order.\<close>

lemma sfs_ok_step:
  assumes ok: "sfs_ok d" and fr: "frame n (other_blocks d n) d d'" and n: "0 < n"
    and used: "is_file d' n \<Longrightarrow> inode_id (readInode d' n) = int n \<and> file_ok d' (readInode d' n) \<and>
      terminated (path (readInode d' n)) \<and> blocks_of (readInode d' n) \<inter> other_blocks d n = {}"
  shows "sfs_ok d'"
proof -
  have old: "inode_id (readInode d i) = int i \<and> file_ok d (readInode d i)" if "is_file d i" for i
    using ok that by (simp add: sfs_ok_def)
  have sm: "readInode d' i = readInode d i" if "i \<noteq> n" "is_file d i" for i
    using fr that by (simp add: frame_def is_file_def)
  have each: "inode_id (readInode d' i) = int i \<and> file_ok d' (readInode d' i)" if "is_file d' i" for i
    using that used old sm file_ok_frame [OF fr] is_file_frame [OF fr] by (cases "i = n") auto
  have away: "blocks_of (readInode d' i) \<inter> blocks_of (readInode d' n) = {}" if "is_file d i" "i \<noteq> n" "is_file d' n" for i
    using that used sm by (fastforce simp: other_blocks_def)
  have disj: "blocks_of (readInode d' i) \<inter> blocks_of (readInode d' k) = {}"
    if "is_file d' i" "is_file d' k" "i \<noteq> k" for i k
  proof -
    consider "i = n" | "k = n" | "i \<noteq> n" "k \<noteq> n" by blast
    then show ?thesis
    proof cases
      case 3
      then have "is_file d i" "is_file d k" using that is_file_frame [OF fr] by auto
      then show ?thesis using sm 3 ok that(3) by (simp add: sfs_ok_def)
    qed (use that away is_file_frame [OF fr] in auto)
  qed
  have tm: "terminated (path (readInode d' i))" if "i < INODE_LIST_SIZE" "isInodeFree d' i = 0" for i
    using that used n fr ok by (cases "i = n") (auto simp: frame_def sfs_ok_def is_file_def)
  have "INODE_LIST_SIZE > 0" by (simp add: INODE_LIST_SIZE_def)
  then have "isInodeFree d' 0 = 0" "inode_id (readInode d' 0) = 0" "disk_ok d'" "checkIfInit d' = 1"
    using fr ok n by (auto simp: frame_def sfs_ok_def)
  then show ?thesis using each disj tm by (simp add: sfs_ok_def)
qed

lemma file_wst:
  assumes "sfs_ok d" "is_file d n"
  shows "wst (other_blocks d n) n d (readInode d n)"
proof -
  have "blocks_of (readInode d n) \<inter> other_blocks d n = {}"
    using assms unfolding sfs_ok_def other_blocks_def by blast
  moreover have "b < BLOCK_LIST_SIZE \<and> isBlockFree d b = 0" if b: "b \<in> other_blocks d n" for b
  proof -
    obtain i where "is_file d i" "b \<in> blocks_of (readInode d i)" using b by (auto simp: other_blocks_def)
    moreover then have "file_ok d (readInode d i)" using assms(1) by (simp add: sfs_ok_def)
    ultimately show ?thesis by (auto simp: file_ok_def owns_blocks_def blocks_of_def)
  qed
  ultimately show ?thesis
    using assms readInode_ok by (auto simp: wst_def sfs_ok_def is_file_def)
qed

section \<open>Write\<close>

lemma sfs_write_run:
  assumes "sfs_ok d" "lookup d p = Some n" "0 < n" "fh \<noteq> -1" "0 < sz"
    "int off \<le> isize (readInode d n)" "isize (readInode d n) < MAX_FILE"
  obtains r d' where "sfs_write d p buf sz (int off) fh = Some (r, d')"
    "write_post (other_blocks d n) n d (readInode d n) (file_byte d (readInode d n)) off buf 0 sz r d'"
proof -
  let ?nd = "readInode d n" and ?b = "off div BLOCK_SIZE"
  have fl: "is_file d n" using lookup_used [OF assms(2)] assms(3) by (simp add: is_file_def)
  note w = file_wst [OF assms(1) fl]
  have s0: "0 \<le> isize ?nd" using assms(6) by linarith
  have "int (?b * BLOCK_SIZE) \<le> isize ?nd"
    using assms(6) div_times_less_eq_dividend [of off BLOCK_SIZE] by linarith
  then have b: "?b < nblocks ?nd" by (rule block_of_size [OF assms(7)])
  have cd: "c_div (int off) (int BLOCK_SIZE) = int ?b" by simp
  have "?b < 1024" using b by (simp add: nblocks_def)
  then have ci: "c_int (int ?b) = int ?b" by (intro c_int_nat) simp
  have "int ?b \<le> c_div (isize ?nd) (int BLOCK_SIZE) + 1"
  proof -
    have "c_div (isize ?nd) (int BLOCK_SIZE) = int (nat (isize ?nd) div BLOCK_SIZE)"
      using c_div_nat [of "nat (isize ?nd)" BLOCK_SIZE] s0 by simp
    then show ?thesis using b nblocks_small [OF s0 assms(7)] by simp
  qed
  then have hole: "write_hole d ?nd (int ?b) (c_div (isize ?nd) (int BLOCK_SIZE) + 1) = Some (Cont (d, ?nd))"
    by (simp add: write_hole.simps)
  let ?db = "data_read d (int (blk_of ?nd ?b)) (junk d ''diskbuf'')"
  have md: "nat (int off mod int BLOCK_SIZE) = off mod BLOCK_SIZE" by (simp flip: of_nat_mod)
  have run: "sfs_write d p buf sz (int off) fh = write_from d ?nd sz buf 0 (int ?b) (off mod BLOCK_SIZE) ?db"
    using assms(4,5) lookup_file [OF assms(1,2)] wst_block(1) [OF w b]
    by (simp add: sfs_write_def Let_def cd ci md checkiNodePathName_Some [OF assms(2)] hole)
  obtain r d' where r: "write_from d ?nd sz buf 0 (int ?b) (off mod BLOCK_SIZE) ?db = Some (r, d')"
    "write_post (other_blocks d n) n d ?nd (vbyte d ?nd ?b ?db) off buf 0 sz r d'"
    using write_from_correct [OF w assms(7,6), of ?b "off mod BLOCK_SIZE" 0 sz buf ?db] by auto
  have "vbyte d ?nd ?b ?db = file_byte d ?nd"
  proof
    fix k
    have "disk_ok d" using w by (simp add: wst_def)
    then show "vbyte d ?nd ?b ?db k = file_byte d ?nd k"
      using data_read_eq [OF _ wst_block(2) [OF w b], of d "k mod BLOCK_SIZE"] by (auto simp: vbyte_def file_byte_def)
  qed
  then show thesis using r run by (intro that [of r d']) simp_all
qed

lemma lookup_cong:
  assumes "sfs_ok d" "sfs_ok d'"
    "\<And>i. i < INODE_LIST_SIZE \<Longrightarrow> isInodeFree d' i = isInodeFree d i \<and> path (readInode d' i) = path (readInode d i)"
  shows "lookup d' q = lookup d q"
  unfolding lookup_alt [OF assms(1)] lookup_alt [OF assms(2)] by (rule first_from_cong) (use assms(3) in auto)

lemma contents_nth: "k < nat (isize (readInode d n)) \<Longrightarrow> contents d n ! k = file_byte d (readInode d n) k"
  by (simp add: contents_def Let_def)

lemma length_contents: "length (contents d n) = nat (isize (readInode d n))"
  by (simp add: contents_def Let_def)

text \<open>What the caller of \<open>write\<close> sees, whatever the outcome.\<close>

lemma write_post_view:
  assumes ok: "sfs_ok d" and fl: "is_file d n"
    and p: "write_post (other_blocks d n) n d (readInode d n) (file_byte d (readInode d n)) off buf 0 sz r d'"
  shows "sfs_ok d'" "\<And>k. is_file d' k = is_file d k" "\<And>q. lookup d' q = lookup d q"
    "\<And>k. is_file d k \<Longrightarrow> k \<noteq> n \<Longrightarrow> contents d' k = contents d k"
    "\<And>k. k < INODE_LIST_SIZE \<Longrightarrow> path (readInode d' k) = path (readInode d k)"
proof -
  let ?X = "other_blocks d n"
  have fr: "frame n ?X d d'" and im: "isInodeFree d' n = isInodeFree d n" using p by (auto simp: write_post_def)
  have n: "0 < n" "n < INODE_LIST_SIZE" using fl by (auto simp: is_file_def)
  have good: "wst ?X n d' (readInode d' n) \<and> path (readInode d' n) = path (readInode d n)"
  proof (cases "r = -1")
    case True
    then have same: "readInode d' n = readInode d n" using p by (simp add: write_post_def)
    have "frame n ?X d d'" by fact
    then show ?thesis
      using file_wst [OF ok fl] file_ok_frame [OF fr] unfolding same by (auto simp: wst_def frame_def)
  next
    case False
    then have "wst ?X n d' (readInode d' n)"
      and "readInode d' n = (readInode d n)\<lparr>isize := isize (readInode d' n), data := data (readInode d' n)\<rparr>"
      using p unfolding write_post_def Let_def by metis+
    moreover from this(2) have "path (readInode d' n) = path (readInode d n)" by (metis inode.ext_inject inode.surjective inode.update_convs)
    ultimately show ?thesis by blast
  qed
  have "terminated (path (readInode d n))" using ok fl by (simp add: sfs_ok_def is_file_def)
  then show ok': "sfs_ok d'"
    using good by (intro sfs_ok_step [OF ok fr n(1)]) (auto simp: wst_def)
  show "is_file d' k = is_file d k" for k
    using is_file_frame [OF fr] im by (cases "k = n") (auto simp: is_file_def)
  show "contents d' k = contents d k" if "is_file d k" "k \<noteq> n" for k
    by (rule contents_frame [OF ok fr that])
  show pa: "path (readInode d' k) = path (readInode d k)" if "k < INODE_LIST_SIZE" for k
    using fr good that by (cases "k = n") (auto simp: frame_def)
  show "lookup d' q = lookup d q" for q
    using fr im pa by (intro lookup_cong [OF ok ok']) (auto simp: frame_def)
qed

lemma write_post_contents:
  assumes "write_post X n d (readInode d n) (file_byte d (readInode d n)) off buf 0 sz r d'" "r \<noteq> -1"
    "int off \<le> isize (readInode d n)" "isize (readInode d n) < MAX_FILE" "int (off + sz) \<le> MAX_FILE"
  shows "r = int sz" "contents d' n = overwrite (contents d n) off (map buf [0..<sz])"
proof -
  let ?nd = "readInode d n" and ?nd' = "readInode d' n"
  have q: "0 \<le> r" "r \<le> int sz" "r = int sz \<or> isize ?nd' = MAX_FILE" "isize ?nd' = max (isize ?nd) (int off + r)"
    "\<And>k. k < nat (isize ?nd') \<Longrightarrow> file_byte d' ?nd' k = (if off \<le> k \<and> k < off + nat r then buf (k - off) else file_byte d ?nd k)"
    using assms(1,2) by (auto simp: write_post_def Let_def)
  show r: "r = int sz" using q(2,3,4) assms(4,5) by linarith
  have len: "nat (isize ?nd') = max (nat (isize ?nd)) (off + sz)" using q(4) r assms(3) by linarith
  have o: "off \<le> length (contents d n)" using assms(3) by (simp add: length_contents)
  show "contents d' n = overwrite (contents d n) off (map buf [0..<sz])"
  proof (rule nth_equalityI)
    show "length (contents d' n) = length (overwrite (contents d n) off (map buf [0..<sz]))"
      using len o by (simp add: length_overwrite length_contents)
    fix k assume "k < length (contents d' n)"
    then have k: "k < nat (isize ?nd')" by (simp add: length_contents)
    have "k < nat (isize ?nd)" if "\<not> (off \<le> k \<and> k < off + sz)" using that k len assms(3) by linarith
    then show "contents d' n ! k = overwrite (contents d n) off (map buf [0..<sz]) ! k"
      using q(5) [OF k] k len o r
      by (subst nth_overwrite) (auto simp: contents_nth length_contents)
  qed
qed

section \<open>Read\<close>

lemma read_from_correct:
  assumes "pos = blk * BLOCK_SIZE + chr" "chr < BLOCK_SIZE" "(pos + (sz - i)) div BLOCK_SIZE < 1024" "i \<le> sz"
    and "file_ok d nd" "disk_ok d"
    and "blk < nblocks nd \<Longrightarrow> \<forall>j < BLOCK_SIZE. db j = block_get d (50 + blk_of nd blk) j"
  shows "\<exists>buf'. read_from d nd sz i (int blk) chr db buf = Some (int sz, buf') \<and>
    (\<forall>k. k < i \<or> sz \<le> k \<longrightarrow> buf' k = buf k) \<and>
    (\<forall>k. i \<le> k \<and> k < sz \<and> pos + (k - i) < nat (isize nd) \<longrightarrow> buf' k = file_byte d nd (pos + (k - i)))"
  using assms(1-4,7)
proof (induction "sz - i" arbitrary: i pos blk chr db buf)
  case 0
  then show ?case by (subst read_from.simps) auto
next
  case (Suc m)
  have i: "i < sz" using Suc.hyps(2) by simp
  let ?buf = "buf(i := db chr)"
  have here: "db chr = file_byte d nd pos" if "pos < nat (isize nd)"
    using that Suc.prems(1,2,5) in_nblocks [of nd pos] assms(5) by (simp add: file_byte_def file_ok_def)
  have "Suc pos + (sz - Suc i) = pos + (sz - i)" using i by simp
  then have rest: "m = sz - Suc i" "Suc i \<le> sz" "(Suc pos + (sz - Suc i)) div BLOCK_SIZE < 1024"
    using Suc.hyps(2) Suc.prems(3) i by (simp_all only:)
  obtain blk' chr' db' where nx: "read_from d nd sz i (int blk) chr db buf = read_from d nd sz (Suc i) (int blk') chr' db' ?buf"
    "Suc pos = blk' * BLOCK_SIZE + chr'" "chr' < BLOCK_SIZE"
    "blk' < nblocks nd \<Longrightarrow> \<forall>j < BLOCK_SIZE. db' j = block_get d (50 + blk_of nd blk') j"
  proof (cases "Suc chr = BLOCK_SIZE")
    case False
    then show thesis using i Suc.prems(1,2,5) by (intro that [of blk "Suc chr" db]) (auto simp: read_from.simps [of _ _ _ i])
  next
    case True
    have sp: "Suc pos = Suc blk * BLOCK_SIZE" using True Suc.prems(1) by simp
    have "Suc pos div BLOCK_SIZE \<le> (Suc pos + (sz - Suc i)) div BLOCK_SIZE" by (intro div_le_mono) simp
    then have "Suc blk < 1024" using rest(3) sp by simp
    then have at: "data_at nd (int blk + 1) = Some (data nd (Suc blk))" by (simp add: data_at_def nat_add_distrib)
    have own: "data nd (Suc blk) = int (blk_of nd (Suc blk))" "blk_of nd (Suc blk) < BLOCK_LIST_SIZE" if "Suc blk < nblocks nd"
      using that assms(5) by (auto simp: file_ok_def owns_blocks_def blk_of_def)
    show thesis
      using i True sp at own data_read_eq [OF assms(6) own(2)]
      by (intro that [of "Suc blk" 0 "data_read d (data nd (Suc blk)) db"])
        (auto simp: read_from.simps [of _ _ _ i] add.commute)
  qed
  obtain buf' where b: "read_from d nd sz (Suc i) (int blk') chr' db' ?buf = Some (int sz, buf')"
    "\<forall>k. k < Suc i \<or> sz \<le> k \<longrightarrow> buf' k = ?buf k"
    "\<forall>k. Suc i \<le> k \<and> k < sz \<and> Suc pos + (k - Suc i) < nat (isize nd) \<longrightarrow> buf' k = file_byte d nd (Suc pos + (k - Suc i))"
    using Suc.hyps(1) [OF rest(1) nx(2,3) rest(3,2) nx(4)] by blast
  have "buf' k = file_byte d nd (pos + (k - i))" if "i \<le> k" "k < sz" "pos + (k - i) < nat (isize nd)" for k
    using that b(2,3) here i by (cases "k = i") (auto simp: Suc_diff_Suc)
  then show ?case using nx(1) b(1,2) i by auto
qed

lemma sfs_read_run:
  assumes "sfs_ok d" "lookup d p = Some n" "0 < n" "0 < sz"
    "int off \<le> isize (readInode d n)" "int (off + sz) < MAX_FILE"
  obtains buf' where "sfs_read d p buf sz (int off) = Some (int sz, buf')"
    "\<And>k. sz \<le> k \<Longrightarrow> buf' k = buf k"
    "\<And>k. k < sz \<Longrightarrow> off + k < length (contents d n) \<Longrightarrow> buf' k = contents d n ! (off + k)"
proof -
  let ?nd = "readInode d n" and ?b = "off div BLOCK_SIZE"
  have fl: "is_file d n" using lookup_used [OF assms(2)] assms(3) by (simp add: is_file_def)
  then have ok: "disk_ok d" "file_ok d ?nd" using assms(1) by (auto simp: sfs_ok_def)
  have "off + sz < 1024 * BLOCK_SIZE" using assms(6) by (simp add: MAX_FILE_def BLOCK_SIZE_def)
  then have lim: "(off + (sz - 0)) div BLOCK_SIZE < 1024" by (simp add: less_mult_imp_div_less)
  have "?b \<le> (off + (sz - 0)) div BLOCK_SIZE" by (intro div_le_mono) simp
  then have b: "?b < 1024" using lim by simp
  have ci: "c_int (int ?b) = int ?b" using b by (intro c_int_nat) simp
  have md: "nat (int off mod int BLOCK_SIZE) = off mod BLOCK_SIZE" by (simp flip: of_nat_mod)
  have at: "data_at ?nd (int ?b) = Some (data ?nd ?b)" using b by (simp add: data_at_def)
  let ?db = "data_read d (data ?nd ?b) (junk d ''diskbuf'')" and ?buf = "\<lambda>k. if k < sz then 0 else buf k"
  have run: "sfs_read d p buf sz (int off) = read_from d ?nd sz 0 (int ?b) (off mod BLOCK_SIZE) ?db ?buf"
    using assms(4,5) lookup_file [OF assms(1,2)]
    by (simp add: sfs_read_def Let_def checkiNodePathName_Some [OF assms(2)] ci md at)
  have db: "\<forall>j < BLOCK_SIZE. ?db j = block_get d (50 + blk_of ?nd ?b) j" if "?b < nblocks ?nd"
  proof -
    have "data ?nd ?b = int (blk_of ?nd ?b)" "blk_of ?nd ?b < BLOCK_LIST_SIZE"
      using that ok(2) by (auto simp: file_ok_def owns_blocks_def blk_of_def)
    then show ?thesis using data_read_eq [OF ok(1)] by simp
  qed
  have "off = ?b * BLOCK_SIZE + off mod BLOCK_SIZE" by simp
  from read_from_correct [OF this _ lim _ ok(2,1) db, of ?buf]
  obtain buf' where "read_from d ?nd sz 0 (int ?b) (off mod BLOCK_SIZE) ?db ?buf = Some (int sz, buf')"
    "\<forall>k. k < 0 \<or> sz \<le> k \<longrightarrow> buf' k = ?buf k"
    "\<forall>k. 0 \<le> k \<and> k < sz \<and> off + (k - 0) < nat (isize ?nd) \<longrightarrow> buf' k = file_byte d ?nd (off + (k - 0))" by auto
  then show thesis using run by (intro that [of buf']) (auto simp: contents_nth length_contents)
qed

section \<open>Create\<close>

lemma frame_mark_inode:
  assumes "disk_ok d" "n < INODE_LIST_SIZE"
  shows "frame n X d (mark_inode d n s)"
proof -
  note sx = mark_inode_same_except [OF assms(1), of n s]
  have "isInodeFree (mark_inode d n s) k = isInodeFree d k" if "k < INODE_LIST_SIZE" "k \<noteq> n" for k
    using imap.free_put [OF assms that(1), of s] that(2) isInodeFree_01 by (auto simp: isInodeFree_def)
  moreover have "block_get (mark_inode d n s) (50 + b) i = block_get d (50 + b) i" if "b < BLOCK_LIST_SIZE" "i < BLOCK_SIZE" for b i
    using sx that data_block_lt by (simp add: same_except_def)
  ultimately show ?thesis
    using sx isBlockFree_frame [OF sx] readInode_frame [OF sx] mark_inode_keeps_magic [OF assms]
    by (auto simp: frame_def same_except_def)
qed

lemma isInodeFree_mark:
  "disk_ok d \<Longrightarrow> n < INODE_LIST_SIZE \<Longrightarrow> isInodeFree (mark_inode d n s) n = of_bool s"
  using imap.free_put [of d n n s] isInodeFree_01 [of "mark_inode d n s" n] by (cases s) auto

lemma findNextOpenBlock_frame:
  assumes "same_except S d d'" "1 \<notin> S"
  shows "findNextOpenBlock d' = findNextOpenBlock d"
    "first_from (\<lambda>i. isBlockFree d' i = 1) 0 BLOCK_LIST_SIZE = first_from (\<lambda>i. isBlockFree d i = 1) 0 BLOCK_LIST_SIZE"
proof -
  show "first_from (\<lambda>i. isBlockFree d' i = 1) 0 BLOCK_LIST_SIZE = first_from (\<lambda>i. isBlockFree d i = 1) 0 BLOCK_LIST_SIZE"
    by (rule first_from_cong) (simp add: isBlockFree_frame [OF assms])
  then show "findNextOpenBlock d' = findNextOpenBlock d" by (simp add: findNextOpenBlock_def)
qed

text \<open>The inode a successful \<open>create\<close> writes into slot \<open>i\<close>, with first block \<open>b\<close>.\<close>

definition created :: "inode \<Rightarrow> nat \<Rightarrow> bytes \<Rightarrow> uint32 \<Rightarrow> nat \<Rightarrow> inode" where
  "created old i p md b = old\<lparr>inode_id := int i, isize := 0, mode := md, hardlinks := 1,
     path := (\<lambda>k. if k < 256 then p k else 0), data := (data old)(0 := int b)\<rparr>"

lemma created_ok:
  assumes "inode_ok old" "i < INODE_LIST_SIZE" "b < BLOCK_LIST_SIZE"
  shows "inode_ok (created old i p md b)"
  using assms c_int_nat [of 1] c_int_nat [of b]
  by (simp add: inode_ok_def created_def INODE_LIST_SIZE_def BLOCK_LIST_SIZE_def)

lemma created_blocks:
  "nblocks (created old i p md b) = 1" "blocks_of (created old i p md b) = {b}" "blk_of (created old i p md b) 0 = b"
  by (auto simp: nblocks_def blocks_of_def blk_of_def created_def)

lemma terminated_created: "terminated p \<Longrightarrow> terminated (path (created old i p md b))"
  by (auto simp: terminated_def created_def)

lemma same_str_prefix:
  assumes "same_str q p" "p z = 0" "\<And>k. k \<le> z \<Longrightarrow> p' k = p k"
  shows "same_str q p'"
proof -
  obtain n where n: "q n = 0" "p n = 0" "\<forall>j < n. q j = p j \<and> q j \<noteq> 0" using assms(1) by (auto simp: same_str_def)
  then have "n \<le> z" using assms(2) by (metis not_le)
  then have "p' n = 0" "\<forall>j < n. q j = p' j \<and> q j \<noteq> 0" using n assms(3) by auto
  then show ?thesis using n(1) by (auto simp: same_str_def)
qed

lemma same_str_created: "terminated p \<Longrightarrow> same_str q (path (created old i p md b)) = same_str q p"
proof -
  assume "terminated p"
  then obtain z where z: "z < 256" "p z = 0" by (auto simp: terminated_def)
  let ?p = "\<lambda>k. if k < 256 then p k else 0"
  have "same_str q p \<Longrightarrow> same_str q ?p" by (rule same_str_prefix [of q p z]) (use z in auto)
  moreover have "same_str q ?p \<Longrightarrow> same_str q p" by (rule same_str_prefix [of q ?p z]) (use z in auto)
  ultimately show ?thesis by (auto simp: created_def)
qed

lemma sfs_create_run:
  assumes ok: "disk_ok d"
    and fi: "first_from (\<lambda>i. isInodeFree d i = 1) 0 INODE_LIST_SIZE = Some i"
    and fb: "first_from (\<lambda>b. isBlockFree d b = 1) 0 BLOCK_LIST_SIZE = Some b"
  obtains d' where "sfs_create d p md fh = Some (0, d', of_nat i)" "frame i X d d'"
    "readInode d' i = created (readInode d i) i p md b" "isInodeFree d' i = 0"
    "\<And>c. c < BLOCK_LIST_SIZE \<Longrightarrow> isBlockFree d' c = (if c = b then 0 else isBlockFree d c)"
proof -
  have i: "i < INODE_LIST_SIZE" and b: "b < BLOCK_LIST_SIZE" using fi fb by (auto simp: first_from_Some)
  let ?d1 = "mark_inode d i False" and ?nd = "created (readInode d i) i p md b"
  let ?d2 = "mark_block ?d1 b False"
  note s1 = mark_inode_same_except [OF ok, of i False]
  have ok1: "disk_ok ?d1" by (rule same_except_ok [OF s1])
  note s2 = mark_block_same_except [OF ok1, of b False]
  have ok2: "disk_ok ?d2" by (rule same_except_ok [OF s2])
  have nb: "findNextOpenBlock ?d1 = int b" using findNextOpenBlock_frame(1) [OF s1] fb by (simp add: findNextOpenBlock_def)
  have rd: "readInode ?d1 i = readInode d i" using readInode_frame [OF s1 _ i] by simp
  have id: "inode_id ?nd = int i" by (simp add: created_def)
  obtain d' where w: "writeInode ?d2 ?nd = Some d'" using writeInode_some [OF id i ok2] by metis
  note wi = frame_writeInode [OF ok2 id i created_ok [OF readInode_ok i b] w]
  have run: "sfs_create d p md fh = Some (0, d', of_nat i)"
    using w nb rd i b by (simp add: sfs_create_def fi setInode_marks setBlock_marks created_def Let_def)
  have "frame i X d d'"
    by (rule frame_trans [OF frame_mark_inode [OF ok i] frame_trans [OF frame_mark_block [OF ok1 b] wi(1)]])
  moreover have "isInodeFree d' i = 0"
    using wi(3) isInodeFree_frame [OF s2 _ i] isInodeFree_mark [OF ok i, of False] by simp
  moreover have "isBlockFree d' c = (if c = b then 0 else isBlockFree d c)" if "c < BLOCK_LIST_SIZE" for c
    using wi(4) [OF that] bmap.free_put [OF ok1 b that, of False] isBlockFree_frame [OF s1 _ that] by (auto simp: isBlockFree_def)
  ultimately show thesis using run wi(2) by (intro that) auto
qed

lemma create_view:
  assumes ok: "sfs_ok d" and p: "terminated p"
    and fi: "first_from (\<lambda>i. isInodeFree d i = 1) 0 INODE_LIST_SIZE = Some i"
    and fb: "first_from (\<lambda>b. isBlockFree d b = 1) 0 BLOCK_LIST_SIZE = Some b"
  obtains d' where "sfs_create d p md fh = Some (0, d', of_nat i)" "sfs_ok d'"
    "\<not> is_file d i" "\<And>k. is_file d' k \<longleftrightarrow> k = i \<or> is_file d k" "contents d' i = []"
    "readInode d' i = created (readInode d i) i p md b"
    "\<And>k. is_file d k \<Longrightarrow> contents d' k = contents d k \<and> readInode d' k = readInode d k"
    "frame i (other_blocks d i) d d'"
    "\<And>c. c < BLOCK_LIST_SIZE \<Longrightarrow> isBlockFree d' c = (if c = b then 0 else isBlockFree d c)"
proof -
  have dok: "disk_ok d" using ok by (simp add: sfs_ok_def)
  have i: "i < INODE_LIST_SIZE" "isInodeFree d i = 1" using fi by (auto simp: first_from_Some)
  then have i0: "0 < i" using ok by (cases i) (auto simp: sfs_ok_def)
  have b: "b < BLOCK_LIST_SIZE" "isBlockFree d b = 1" using fb by (auto simp: first_from_Some)
  obtain d' where d': "sfs_create d p md fh = Some (0, d', of_nat i)" "frame i (other_blocks d i) d d'"
    "readInode d' i = created (readInode d i) i p md b" "isInodeFree d' i = 0"
    "\<And>c. c < BLOCK_LIST_SIZE \<Longrightarrow> isBlockFree d' c = (if c = b then 0 else isBlockFree d c)"
    using sfs_create_run [OF dok fi fb] by metis
  have nf: "\<not> is_file d i" using i by (simp add: is_file_def)
  have "b \<notin> other_blocks d i"
  proof
    assume "b \<in> other_blocks d i"
    then obtain k where "is_file d k" "b \<in> blocks_of (readInode d k)" by (auto simp: other_blocks_def)
    then have "isBlockFree d b = 0" using ok by (auto simp: sfs_ok_def file_ok_def owns_blocks_def blocks_of_def)
    then show False using b by simp
  qed
  moreover have "file_ok d' (readInode d' i)"
    using d'(3,5) b(1) created_blocks [of "readInode d i" i p md b]
    by (simp add: file_ok_def owns_blocks_def inj_on_def) (simp add: created_def MAX_FILE_def)
  ultimately have "sfs_ok d'"
    using d'(3) p created_blocks(2) terminated_created
    by (intro sfs_ok_step [OF ok d'(2) i0]) (simp_all add: created_def)
  moreover have "is_file d' k \<longleftrightarrow> k = i \<or> is_file d k" for k
    using is_file_frame [OF d'(2)] d'(4) i i0 by (cases "k = i") (auto simp: is_file_def)
  moreover have "contents d' i = []" by (simp add: contents_def d'(3) created_def)
  moreover have "contents d' k = contents d k \<and> readInode d' k = readInode d k" if "is_file d k" for k
    using contents_frame [OF ok d'(2) that] that nf d'(2) by (auto simp: frame_def is_file_def)
  ultimately show thesis using d'(1-3,5) nf by (intro that)
qed

lemma lookup_after_create:
  assumes ok: "sfs_ok d" "sfs_ok d'" and p: "terminated p" and none: "lookup d p = None"
    and i: "i < INODE_LIST_SIZE" "isInodeFree d i = 1" "isInodeFree d' i = 0"
    and nd: "readInode d' i = created old i p md b" and fr: "frame i X d d'"
  shows "lookup d' q = (if same_str q p then Some i else lookup d q)"
proof -
  have here: "same_str q (path (readInode d' i)) = same_str q p" using nd same_str_created [OF p] by simp
  have there: "isInodeFree d' j = isInodeFree d j \<and> readInode d' j = readInode d j" if "j < INODE_LIST_SIZE" "j \<noteq> i" for j
    using fr that by (simp add: frame_def)
  show ?thesis
  proof (cases "same_str q p")
    case False
    then have "first_from (\<lambda>j. isInodeFree d' j = 0 \<and> same_str q (path (readInode d' j))) 0 INODE_LIST_SIZE =
        first_from (\<lambda>j. isInodeFree d j = 0 \<and> same_str q (path (readInode d j))) 0 INODE_LIST_SIZE"
      using here there i by (intro first_from_cong) (metis zero_neq_one)
    then show ?thesis using False lookup_alt [OF ok(1)] lookup_alt [OF ok(2)] by simp
  next
    case True
    have "\<not> (isInodeFree d j = 0 \<and> same_str q (path (readInode d j)))" if "j < INODE_LIST_SIZE" for j
      using none that True same_str_trans [OF same_str_sym [OF True]] unfolding lookup_alt [OF ok(1)]
      by (auto simp: first_from_None)
    then have "\<not> (isInodeFree d' j = 0 \<and> same_str q (path (readInode d' j)))" if "j < i" for j
      using there that i(1) by fastforce
    then have "lookup d' q = Some i"
      using True here i unfolding lookup_alt [OF ok(2)] by (simp add: first_from_Some)
    then show ?thesis using True by simp
  qed
qed

section \<open>Mount\<close>

lemma root_inode_ok: "inode_ok (root_inode d)" "inode_id (root_inode d) = 0" "terminated (path (root_inode d))"
  using decode_inode_ok [of "junk d ''root''" 0] c_int_nat [of 2]
  by (auto simp: inode_ok_def root_inode_def Let_def uninit_inode_def terminated_def intro!: exI [of _ 1])

lemma setFileInit_magic:
  assumes "disk_ok d"
  shows "disk_ok (setFileInit d)" "same_except {0} d (setFileInit d)" "j < 4 \<Longrightarrow> block_get (setFileInit d) 0 j = of_nat (MAGIC_NUM div 256 ^ j)"
proof -
  show s: "same_except {0} d (setFileInit d)" unfolding setFileInit_def by (rule block_put_same_except [OF assms map_block_lt(1)])
  then show "disk_ok (setFileInit d)" by (rule same_except_ok)
  show "j < 4 \<Longrightarrow> block_get (setFileInit d) 0 j = of_nat (MAGIC_NUM div 256 ^ j)"
    using blk.rd_wr_same [OF assms map_block_lt(1), of j]
    by (simp add: setFileInit_def store_le_apply BLOCK_SIZE_def)
qed

text \<open>The disk once both maps are initialised, before the root inode is entered.\<close>

definition format_maps :: "disk \<Rightarrow> disk" where
  "format_maps d = (let d = setFileInit d;
       buf = (\<lambda>i. if 4 \<le> i \<and> i < 4 + IMAP_SIZE then 0xFF else block_get d 0 i);
       d = block_put d 0 buf
     in block_put d 1 (\<lambda>i. if i < BMAP_SIZE then 0xFF else junk d ''bmbuf'' i))"

lemma bit_FF: "n < 8 \<Longrightarrow> bit (0xFF :: byte) n"
proof -
  assume "n < 8"
  moreover have e: "(0xFF :: byte) = mask 8" by (simp add: mask_eq_exp_minus_1)
  ultimately show ?thesis unfolding e bit_mask_iff by simp
qed

lemma format_maps_effect:
  assumes ok: "disk_ok d"
  shows "same_except {0, 1} d (format_maps d)" "checkIfInit (format_maps d) = 1"
    "k < INODE_LIST_SIZE \<Longrightarrow> isInodeFree (format_maps d) k = 1"
    "b < BLOCK_LIST_SIZE \<Longrightarrow> isBlockFree (format_maps d) b = 1"
proof -
  let ?d1 = "setFileInit d"
  let ?buf = "\<lambda>i. if 4 \<le> i \<and> i < 4 + IMAP_SIZE then 0xFF else block_get ?d1 0 i"
  let ?d2 = "block_put ?d1 0 ?buf"
  note i1 = setFileInit_magic [OF ok]
  have s2: "same_except {0} ?d1 ?d2" by (rule block_put_same_except [OF i1(1) map_block_lt(1)])
  have ok2: "disk_ok ?d2" by (rule same_except_ok [OF s2])
  have d3: "format_maps d = block_put ?d2 1 (\<lambda>i. if i < BMAP_SIZE then 0xFF else junk ?d2 ''bmbuf'' i)"
    by (simp add: format_maps_def Let_def)
  have s3: "same_except {1} ?d2 (format_maps d)" unfolding d3 by (rule block_put_same_except [OF ok2 map_block_lt(2)])
  show "same_except {0, 1} d (format_maps d)"
    using same_except_trans [OF same_except_trans [OF i1(2) s2] s3] by (simp add: insert_commute)
  have b0: "block_get (format_maps d) 0 j = ?buf j" if "j < BLOCK_SIZE" for j
    using s3 that blk.rd_wr_same [OF i1(1) map_block_lt(1) that] map_block_lt(1) by (simp add: same_except_def)
  have b1: "block_get (format_maps d) 1 j = 0xFF" if "j < BMAP_SIZE" for j
  proof -
    have "j < BLOCK_SIZE" using that by (simp add: BMAP_SIZE_def BLOCK_SIZE_def)
    then show ?thesis using blk.rd_wr_same [OF ok2 map_block_lt(2)] that unfolding d3 by simp
  qed
  have "load_le (block_get (format_maps d) 0) 0 4 = MAGIC_NUM mod 256 ^ 4"
    by (rule load_le_spelled) (use b0 i1(3) in \<open>simp add: BLOCK_SIZE_def\<close>)
  then show "checkIfInit (format_maps d) = 1" by (simp add: checkIfInit_def MAGIC_NUM_def)
  show "isInodeFree (format_maps d) k = 1" if "k < INODE_LIST_SIZE"
  proof -
    have "k div 8 < 16" using that by (simp add: INODE_LIST_SIZE_def)
    then have "block_get (format_maps d) 0 (4 + k div 8) = 0xFF"
      using b0 [of "4 + k div 8"] by (simp only: BLOCK_SIZE_def IMAP_SIZE_def) simp
    then show ?thesis using bit_FF by (simp add: isInodeFree_def)
  qed
  show "isBlockFree (format_maps d) b = 1" if "b < BLOCK_LIST_SIZE"
    using that b1 [of "b div 8"] bit_FF by (simp add: isBlockFree_def BLOCK_LIST_SIZE_def BMAP_SIZE_def)
qed

lemma sfs_init_run:
  assumes op: "disk_open fd d = Some d0" and ok: "disk_ok d0" and new: "checkIfInit d0 \<noteq> 1"
  obtains d' where "sfs_init fd d = Some d'" "sfs_ok d'" "\<And>k. \<not> is_file d' k"
    "\<And>k. k < INODE_LIST_SIZE \<Longrightarrow> isInodeFree d' k = (if k = 0 then 0 else 1)"
    "\<And>b. b < BLOCK_LIST_SIZE \<Longrightarrow> isBlockFree d' b = 1"
    "readInode d' 0 = root_inode (mark_inode (format_maps d0) 0 False)"
    "\<And>k. 0 < k \<Longrightarrow> k < INODE_LIST_SIZE \<Longrightarrow> readInode d' k = readInode d0 k"
proof -
  let ?d3 = "format_maps d0" and ?N = INODE_LIST_SIZE
  let ?d4 = "mark_inode ?d3 0 False"
  let ?root = "root_inode ?d4"
  note f = format_maps_effect [OF ok]
  have ok3: "disk_ok ?d3" by (rule same_except_ok [OF f(1)])
  have N: "0 < ?N" by (simp add: INODE_LIST_SIZE_def)
  note s4 = mark_inode_same_except [OF ok3, of 0 False]
  have ok4: "disk_ok ?d4" by (rule same_except_ok [OF s4])
  have id: "inode_id ?root = int 0" using root_inode_ok(2) by simp
  obtain d' where w: "writeInode ?d4 ?root = Some d'" using writeInode_some [OF id N ok4] by metis
  note wi = frame_writeInode [OF ok4 id N root_inode_ok(1) w] and fr4 = frame_mark_inode [OF ok3 N, of "{}" False]
  have run: "sfs_init fd d = Some d'"
    using op new w setInode_marks(1) [OF N] by (simp add: sfs_init_def format_maps_def Let_def)
  have im: "isInodeFree d' k = (if k = 0 then 0 else 1)" if "k < ?N" for k
    using that wi(1,3) fr4 f(3) isInodeFree_mark [OF ok3 N, of False] by (auto simp: frame_def)
  have bm: "isBlockFree d' b = 1" if "b < BLOCK_LIST_SIZE" for b
    using wi(4) [OF that] isBlockFree_frame [OF s4 _ that] f(4) [OF that] by simp
  have nf: "\<not> is_file d' k" for k using im [of k] by (auto simp: is_file_def)
  have rd: "readInode d' k = readInode d0 k" if "0 < k" "k < ?N" for k
  proof -
    have "readInode ?d4 k = readInode ?d3 k" by (rule readInode_frame [OF s4 _ that(2)]) auto
    moreover have "readInode ?d3 k = readInode d0 k" by (rule readInode_frame [OF f(1) _ that(2)]) auto
    ultimately show ?thesis using that wi(1) by (simp add: frame_def)
  qed
  have "sfs_ok d'"
    using wi(1,2) nf im [OF N] root_inode_ok mark_inode_keeps_magic [OF ok3 N] f(2) im
    by (auto simp: sfs_ok_def frame_def split: if_splits)
  then show thesis using run im bm nf wi(2) rd by (intro that)
qed

section \<open>Unlink\<close>

lemma unlink_blocks_run:
  assumes "disk_ok d" "c_div (isize nd) (int BLOCK_SIZE) + 1 = int k" "k < 1024" "i \<le> Suc k"
    "\<And>j. i \<le> j \<Longrightarrow> j \<le> k \<Longrightarrow> 0 \<le> data nd j \<and> blk_of nd j < BLOCK_LIST_SIZE"
  shows "\<exists>d'. unlink_blocks d nd i = Some d' \<and> same_except {1} d d' \<and>
    (\<forall>b < BLOCK_LIST_SIZE. isBlockFree d' b = (if b \<in> blk_of nd ` {i..k} then 1 else isBlockFree d b))"
  using assms
proof (induction "Suc k - i" arbitrary: i d)
  case 0
  then have "unlink_blocks d nd i = Some d" by (subst unlink_blocks.simps) simp
  then show ?case using 0 by (auto intro: same_except_refl)
next
  case (Suc m)
  let ?b = "blk_of nd i"
  have ik: "i \<le> k" and at: "data_at nd (int i) = Some (int ?b)" and b: "?b < BLOCK_LIST_SIZE"
    using Suc by (auto simp: data_at_def blk_of_def)
  have m: "m = Suc k - Suc i" using Suc.hyps(2) by simp
  let ?d = "mark_block d ?b True"
  note s = mark_block_same_except [OF Suc.prems(1), of ?b True]
  obtain d' where d': "unlink_blocks ?d nd (Suc i) = Some d'" "same_except {1} ?d d'"
    "\<forall>c < BLOCK_LIST_SIZE. isBlockFree d' c = (if c \<in> blk_of nd ` {Suc i..k} then 1 else isBlockFree ?d c)"
    using Suc.hyps(1) [OF m same_except_ok [OF s] Suc.prems(2,3)] Suc.prems(5) ik by auto
  have "isBlockFree ?d c = (if c = ?b then 1 else isBlockFree d c)" if "c < BLOCK_LIST_SIZE" for c
    using bmap.free_put [OF Suc.prems(1) b that, of True] by (auto simp: isBlockFree_def)
  moreover have "{i..k} = insert i {Suc i..k}" using ik by auto
  ultimately have "\<forall>c < BLOCK_LIST_SIZE. isBlockFree d' c = (if c \<in> blk_of nd ` {i..k} then 1 else isBlockFree d c)"
    using d'(3) by auto
  moreover have "unlink_blocks d nd i = Some d'"
    using at d'(1) ik Suc.prems(2) setBlock_marks(2) [OF b] by (subst unlink_blocks.simps) simp
  ultimately show ?case using same_except_trans [OF s d'(2)] by auto
qed

end
