(* ===== verification/SfsProps.thy ===== *)
theory SfsProps
  imports SfsCorrect
begin

text \<open>
  The contract of the file system as a store of byte sequences, its client lemmas, and the
  properties of the handlers.  A small mounted disk with two empty files serves the witnesses.
\<close>

section \<open>Files as byte sequences\<close>

text \<open>
  \<open>put d p off bs\<close> writes at an offset within the file, \<open>get d p off sz\<close> reads; \<open>lim\<close> bounds
  the size of a file.
\<close>

locale byte_files =
  fixes ok :: "'d \<Rightarrow> bool"
    and file_of :: "'d \<Rightarrow> 'p \<Rightarrow> nat option"
    and cont :: "'d \<Rightarrow> nat \<Rightarrow> byte list"
    and put :: "'d \<Rightarrow> 'p \<Rightarrow> nat \<Rightarrow> byte list \<Rightarrow> 'd option"
    and get :: "'d \<Rightarrow> 'p \<Rightarrow> nat \<Rightarrow> nat \<Rightarrow> byte list option"
    and lim :: nat
  assumes put_ok: "ok d \<Longrightarrow> file_of d p = Some n \<Longrightarrow> bs \<noteq> [] \<Longrightarrow> off \<le> length (cont d n) \<Longrightarrow>
      length (cont d n) < lim \<Longrightarrow> off + length bs < lim \<Longrightarrow> put d p off bs = Some d' \<Longrightarrow>
      ok d' \<and> cont d' n = overwrite (cont d n) off bs \<and> (\<forall>q. file_of d' q = file_of d q) \<and>
      (\<forall>q k. file_of d q = Some k \<and> k \<noteq> n \<longrightarrow> cont d' k = cont d k)"
    and get_ok: "ok d \<Longrightarrow> file_of d p = Some n \<Longrightarrow> 0 < sz \<Longrightarrow> off + sz \<le> length (cont d n) \<Longrightarrow>
      off + sz < lim \<Longrightarrow> get d p off sz = Some (take sz (drop off (cont d n)))"

text \<open>A client that appends chunk after chunk, keeping track of the offset itself.\<close>

fun append_all :: "('d \<Rightarrow> 'p \<Rightarrow> nat \<Rightarrow> byte list \<Rightarrow> 'd option) \<Rightarrow> 'd \<Rightarrow> 'p \<Rightarrow> nat \<Rightarrow> byte list list \<Rightarrow> 'd option" where
  "append_all put d p off [] = Some d"
| "append_all put d p off (c # cs) =
     (case put d p off c of None \<Rightarrow> None | Some d' \<Rightarrow> append_all put d' p (off + length c) cs)"

context byte_files
begin

lemma put_get:
  assumes "ok d" "file_of d p = Some n" "bs \<noteq> []" "off \<le> length (cont d n)" "length (cont d n) < lim"
    "off + length bs < lim" "put d p off bs = Some d'"
  shows "get d' p off (length bs) = Some bs"
proof -
  note p = put_ok [OF assms]
  have "length (cont d' n) \<ge> off + length bs" using p assms(4) by (simp add: length_overwrite)
  then have "get d' p off (length bs) = Some (take (length bs) (drop off (cont d' n)))"
    using p assms by (intro get_ok) auto
  then show ?thesis using p assms(4) by (simp add: overwrite_def)
qed

lemma put_get_other:
  assumes "ok d" "file_of d p = Some n" "bs \<noteq> []" "off \<le> length (cont d n)" "length (cont d n) < lim"
    "off + length bs < lim" "put d p off bs = Some d'" "file_of d q = Some k" "k \<noteq> n"
    "0 < sz" "o2 + sz \<le> length (cont d k)" "o2 + sz < lim"
  shows "get d' q o2 sz = get d q o2 sz"
proof -
  note p = put_ok [OF assms(1-7)]
  have "cont d' k = cont d k" "file_of d' q = Some k" "ok d'" using p assms(8,9) by auto
  then show ?thesis using get_ok [of d' q k sz o2] get_ok [of d q k sz o2] assms by simp
qed

lemma append_all_contents:
  assumes "ok d" "file_of d p = Some n" "\<forall>c \<in> set cs. c \<noteq> []" "length (cont d n) + length (concat cs) < lim"
    "append_all put d p (length (cont d n)) cs = Some d'"
  shows "cont d' n = cont d n @ concat cs \<and> ok d' \<and>
    (\<forall>q. file_of d' q = file_of d q) \<and> (\<forall>q k. file_of d q = Some k \<and> k \<noteq> n \<longrightarrow> cont d' k = cont d k)"
  using assms
proof (induction cs arbitrary: d)
  case Nil
  then show ?case by simp
next
  case (Cons c cs)
  obtain d1 where d1: "put d p (length (cont d n)) c = Some d1" "append_all put d1 p (length (cont d n) + length c) cs = Some d'"
    using Cons.prems(5) by (auto split: option.splits)
  have q: "ok d1" "cont d1 n = cont d n @ c" "\<forall>q. file_of d1 q = file_of d q"
      "\<forall>q k. file_of d q = Some k \<and> k \<noteq> n \<longrightarrow> cont d1 k = cont d k"
    using put_ok [OF Cons.prems(1,2) _ _ _ _ d1(1)] Cons.prems(3,4) by (auto simp: overwrite_def)
  have "cont d' n = cont d1 n @ concat cs \<and> ok d' \<and>
    (\<forall>q. file_of d' q = file_of d1 q) \<and> (\<forall>q k. file_of d1 q = Some k \<and> k \<noteq> n \<longrightarrow> cont d' k = cont d1 k)"
    using Cons.prems q d1(2) by (intro Cons.IH) auto
  then show ?case using q by simp metis
qed

end

section \<open>sfs.c provides it\<close>

definition file_of :: "disk \<Rightarrow> bytes \<Rightarrow> nat option" where
  "file_of d p = (case lookup d p of Some n \<Rightarrow> if n = 0 then None else Some n | None \<Rightarrow> None)"

definition user_buf :: "byte list \<Rightarrow> bytes" where
  "user_buf bs = (\<lambda>i. if i < length bs then bs ! i else 0)"

definition file_put :: "disk \<Rightarrow> bytes \<Rightarrow> nat \<Rightarrow> byte list \<Rightarrow> disk option" where
  "file_put d p off bs =
     (case sfs_write d p (user_buf bs) (length bs) (int off) 0 of
        Some (r, d') \<Rightarrow> if r = int (length bs) then Some d' else None
      | None \<Rightarrow> None)"

definition file_get :: "disk \<Rightarrow> bytes \<Rightarrow> nat \<Rightarrow> nat \<Rightarrow> byte list option" where
  "file_get d p off sz =
     (case sfs_read d p (\<lambda>_. 0) sz (int off) of
        Some (r, buf) \<Rightarrow> if r = int sz then Some (map buf [0..<sz]) else None
      | None \<Rightarrow> None)"

lemma file_of_Some: "file_of d p = Some n \<longleftrightarrow> lookup d p = Some n \<and> 0 < n"
  by (auto simp: file_of_def split: option.splits)

lemma is_file_of: "file_of d p = Some n \<Longrightarrow> is_file d n"
  using lookup_used by (auto simp: file_of_Some is_file_def)

lemma map_user_buf: "map (user_buf bs) [0..<length bs] = bs"
  by (rule nth_equalityI) (auto simp: user_buf_def)

lemma file_size:
  assumes "sfs_ok d" "is_file d n"
  shows "isize (readInode d n) = int (length (contents d n))"
proof -
  have "file_ok d (readInode d n)" using assms by (simp add: sfs_ok_def)
  then show ?thesis by (simp add: length_contents file_ok_def)
qed

interpretation sfs: byte_files sfs_ok file_of contents file_put file_get 16777216
proof
  fix d p n bs off d'
  assume ok: "sfs_ok d" and f: "file_of d p = Some n" and bs: "bs \<noteq> []" and le: "off \<le> length (contents d n)"
    and lim: "length (contents d n) < 16777216" "off + length bs < 16777216" and put: "file_put d p off bs = Some d'"
  have lk: "lookup d p = Some n" "0 < n" and fl: "is_file d n" using f is_file_of by (auto simp: file_of_Some)
  have sz: "int off \<le> isize (readInode d n)" "isize (readInode d n) < MAX_FILE"
    using file_size [OF ok fl] le lim by (simp_all add: MAX_FILE_def)
  have sz2: "int (off + length bs) \<le> MAX_FILE" using lim by (simp add: MAX_FILE_def)
  obtain r d2 where r: "sfs_write d p (user_buf bs) (length bs) (int off) 0 = Some (r, d2)"
    "write_post (other_blocks d n) n d (readInode d n) (file_byte d (readInode d n)) off (user_buf bs) 0 (length bs) r d2"
    using sfs_write_run [OF ok lk(1,2) _ _ sz, of 0 "length bs" "user_buf bs"] bs by auto
  then have e: "r = int (length bs)" "d2 = d'" using put by (auto simp: file_put_def split: if_splits)
  note v = write_post_view [OF ok fl r(2)]
  have "contents d' n = overwrite (contents d n) off bs"
    using write_post_contents(2) [OF r(2) _ sz sz2] e bs by (simp add: map_user_buf)
  moreover have "file_of d' q = file_of d q" for q using v(3) e by (simp add: file_of_def)
  moreover have "contents d' k = contents d k" if "file_of d q = Some k" "k \<noteq> n" for q k
    using v(4) [OF is_file_of [OF that(1)] that(2)] e by simp
  ultimately show "sfs_ok d' \<and> contents d' n = overwrite (contents d n) off bs \<and> (\<forall>q. file_of d' q = file_of d q) \<and>
      (\<forall>q k. file_of d q = Some k \<and> k \<noteq> n \<longrightarrow> contents d' k = contents d k)"
    using v(1) e by blast
next
  fix d p n sz off
  assume ok: "sfs_ok d" and f: "file_of d p = Some n" and "0 < sz" and le: "off + sz \<le> length (contents d n)"
    and lim: "off + sz < 16777216"
  have lk: "lookup d p = Some n" "0 < n" and fl: "is_file d n" using f is_file_of by (auto simp: file_of_Some)
  have s: "int off \<le> isize (readInode d n)" "int (off + sz) < MAX_FILE"
    using file_size [OF ok fl] le lim by (simp_all add: MAX_FILE_def)
  obtain buf where "sfs_read d p (\<lambda>_. 0) sz (int off) = Some (int sz, buf)"
    "\<And>k. k < sz \<Longrightarrow> off + k < length (contents d n) \<Longrightarrow> buf k = contents d n ! (off + k)"
    using sfs_read_run [OF ok lk \<open>0 < sz\<close> s, of "\<lambda>_. 0"] by metis
  then show "file_get d p off sz = Some (take sz (drop off (contents d n)))"
    using le by (auto simp: file_get_def intro!: nth_equalityI)
qed

section \<open>A mounted disk with two files\<close>

text \<open>An empty host file; \<open>/a\<close> and \<open>/b\<close> are created on it after the mount.\<close>

definition blank :: disk where
  "blank = \<lparr>diskfile = -1, fd_open = False, file_len = 0, file_bytes = (\<lambda>_. 0), junk = (\<lambda>_ _. 0)\<rparr>"

definition demo_path :: "byte \<Rightarrow> bytes" where
  "demo_path c = (\<lambda>i. if i = 0 then 47 else if i = 1 then c else 0)"

abbreviation path_a :: bytes where "path_a \<equiv> demo_path 97"
abbreviation path_b :: bytes where "path_b \<equiv> demo_path 98"

definition demo0 :: disk where
  "demo0 = the (sfs_init 3 blank)"

definition demo1 :: disk where
  "demo1 = fst (snd (the (sfs_create demo0 path_a 33188 0)))"

definition demo2 :: disk where
  "demo2 = fst (snd (the (sfs_create demo1 path_b 33188 0)))"

lemma demo_open:
  obtains d where "disk_open 3 blank = Some d" "disk_ok d" "checkIfInit d \<noteq> 1" "\<And>n. n < INODE_LIST_SIZE \<Longrightarrow> readInode d n = decode_inode (\<lambda>_. 0) 0"
proof -
  let ?d = "blank\<lparr>diskfile := 3, fd_open := True\<rparr>"
  have ok: "disk_ok ?d" by (simp add: disk_ok_def blank_def)
  have z: "block_get ?d b i = 0" if "b < MAX_BLOCKS" "i < BLOCK_SIZE" for b i
    using block_get_eq [OF ok that] by (simp add: blank_def)
  have "load_le (block_get ?d 0) 0 4 = 0 mod 256 ^ 4"
    by (rule load_le_spelled) (simp add: z map_block_lt BLOCK_SIZE_def)
  then have "checkIfInit ?d \<noteq> 1" by (simp add: checkIfInit_def MAGIC_NUM_def)
  moreover have "readInode ?d n = decode_inode (\<lambda>_. 0) 0" if "n < INODE_LIST_SIZE" for n
    unfolding readInode_def by (rule decode_inode_cong) (simp add: z inode_slot [OF that])
  moreover have "disk_open 3 blank = Some ?d" by (simp add: disk_open_def blank_def)
  ultimately show thesis using ok by (intro that) auto
qed

lemma demo0_facts:
  "sfs_init 3 blank = Some demo0" "sfs_ok demo0" "\<not> is_file demo0 k"
  "k < INODE_LIST_SIZE \<Longrightarrow> isInodeFree demo0 k = (if k = 0 then 0 else 1)"
  "b < BLOCK_LIST_SIZE \<Longrightarrow> isBlockFree demo0 b = 1"
  "0 < k \<Longrightarrow> k < INODE_LIST_SIZE \<Longrightarrow> readInode demo0 k = decode_inode (\<lambda>_. 0) 0"
  "path (readInode demo0 0) 0 = 47 \<and> path (readInode demo0 0) 1 = 0"
proof -
  obtain d where d: "disk_open 3 blank = Some d" "disk_ok d" "checkIfInit d \<noteq> 1"
    "\<And>n. n < INODE_LIST_SIZE \<Longrightarrow> readInode d n = decode_inode (\<lambda>_. 0) 0"
    using demo_open by blast
  obtain d' where d': "sfs_init 3 blank = Some d'" "sfs_ok d'" "\<And>k. \<not> is_file d' k"
    "\<And>k. k < INODE_LIST_SIZE \<Longrightarrow> isInodeFree d' k = (if k = 0 then 0 else 1)"
    "\<And>b. b < BLOCK_LIST_SIZE \<Longrightarrow> isBlockFree d' b = 1"
    "readInode d' 0 = root_inode (mark_inode (format_maps d) 0 False)"
    "\<And>k. 0 < k \<Longrightarrow> k < INODE_LIST_SIZE \<Longrightarrow> readInode d' k = readInode d k"
    using sfs_init_run [OF d(1-3)] by blast
  have e: "demo0 = d'" using d'(1) by (simp add: demo0_def)
  show "sfs_init 3 blank = Some demo0" "sfs_ok demo0" "\<not> is_file demo0 k"
    "k < INODE_LIST_SIZE \<Longrightarrow> isInodeFree demo0 k = (if k = 0 then 0 else 1)"
    "b < BLOCK_LIST_SIZE \<Longrightarrow> isBlockFree demo0 b = 1"
    "0 < k \<Longrightarrow> k < INODE_LIST_SIZE \<Longrightarrow> readInode demo0 k = decode_inode (\<lambda>_. 0) 0"
    using d' d(4) e by auto
  show "path (readInode demo0 0) 0 = 47 \<and> path (readInode demo0 0) 1 = 0"
    using d'(6) by (simp add: e root_inode_def Let_def)
qed

lemma demo_path_terminated: "terminated (demo_path c)"
  unfolding terminated_def by (rule exI [of _ 2]) (simp add: demo_path_def)

lemma same_demo_path: "c \<noteq> 0 \<Longrightarrow> e \<noteq> 0 \<Longrightarrow> same_str (demo_path c) (demo_path e) \<longleftrightarrow> c = e"
proof -
  assume h: "c \<noteq> 0" "e \<noteq> 0"
  have "c = e" if s: "same_str (demo_path c) (demo_path e)"
  proof -
    obtain n where n: "demo_path c n = 0" "\<forall>j < n. demo_path c j = demo_path e j" using s unfolding same_str_def by blast
    then have "1 < n" using h by (auto simp: demo_path_def split: if_splits)
    then show ?thesis using n(2) by (auto simp: demo_path_def)
  qed
  moreover have "same_str (demo_path c) (demo_path c)"
    unfolding same_str_def using h by (intro exI [of _ 2]) (auto simp: demo_path_def less_2_cases_iff)
  ultimately show ?thesis by auto
qed

lemma root_not_demo: "c \<noteq> 0 \<Longrightarrow> p 0 = 47 \<Longrightarrow> p 1 = 0 \<Longrightarrow> \<not> same_str (demo_path c) p"
proof
  assume h: "c \<noteq> 0" "p 0 = 47" "p 1 = 0" and "same_str (demo_path c) p"
  then obtain n where n: "demo_path c n = 0" "\<forall>j < n. demo_path c j = p j" unfolding same_str_def by blast
  then have "1 < n" using h by (auto simp: demo_path_def split: if_splits)
  then have "demo_path c 1 = p 1" using n(2) by blast
  then show False using h by (simp add: demo_path_def)
qed

lemma demo0_lookup: "c \<noteq> 0 \<Longrightarrow> lookup demo0 (demo_path c) = None"
  unfolding lookup_alt [OF demo0_facts(2)] using root_not_demo demo0_facts(4,7)
  by (auto simp: first_from_None)

lemma first_is_Some: "k < n \<Longrightarrow> P k \<Longrightarrow> (\<And>j. j < k \<Longrightarrow> \<not> P j) \<Longrightarrow> first_from P 0 n = Some k"
  by (simp add: first_from_Some)

text \<open>\<open>create\<close> on a disk where the inode and the block are known.\<close>

lemma demo_create:
  assumes "sfs_ok d" "c \<noteq> 0" "lookup d (demo_path c) = None"
    "first_from (\<lambda>i. isInodeFree d i = 1) 0 INODE_LIST_SIZE = Some i" "first_from (\<lambda>b. isBlockFree d b = 1) 0 BLOCK_LIST_SIZE = Some b"
  obtains d' where "sfs_create d (demo_path c) md fh = Some (0, d', of_nat i)" "sfs_ok d'"
    "\<And>q. lookup d' q = (if same_str q (demo_path c) then Some i else lookup d q)"
    "readInode d' i = created (readInode d i) i (demo_path c) md b" "frame i (other_blocks d i) d d'"
    "contents d' i = []" "\<And>k. is_file d' k \<longleftrightarrow> k = i \<or> is_file d k"
    "\<And>c. c < BLOCK_LIST_SIZE \<Longrightarrow> isBlockFree d' c = (if c = b then 0 else isBlockFree d c)"
proof -
  obtain d' where d': "sfs_create d (demo_path c) md fh = Some (0, d', of_nat i)" "sfs_ok d'"
    "\<not> is_file d i" "\<And>k. is_file d' k \<longleftrightarrow> k = i \<or> is_file d k" "contents d' i = []"
    "readInode d' i = created (readInode d i) i (demo_path c) md b" "frame i (other_blocks d i) d d'"
    "\<And>c. c < BLOCK_LIST_SIZE \<Longrightarrow> isBlockFree d' c = (if c = b then 0 else isBlockFree d c)"
    using create_view [OF assms(1) demo_path_terminated assms(4,5), where md = md and fh = fh] by metis
  have "isInodeFree d' i = 0" using d'(4) [of i] by (simp add: is_file_def)
  moreover have "i < INODE_LIST_SIZE" "isInodeFree d i = 1" using assms(4) by (auto simp: first_from_Some)
  ultimately show thesis
    using d' lookup_after_create [OF assms(1) d'(2) demo_path_terminated assms(3) _ _ _ d'(6,7)] by (intro that) auto
qed

lemma list_sizes_pos: "0 < INODE_LIST_SIZE" "1 < INODE_LIST_SIZE" "2 < INODE_LIST_SIZE" "0 < BLOCK_LIST_SIZE" "1 < BLOCK_LIST_SIZE"
  by (simp_all add: INODE_LIST_SIZE_def BLOCK_LIST_SIZE_def)

lemma demo_char: "(97 :: byte) \<noteq> 0" "(98 :: byte) \<noteq> 0"
  by simp_all

lemma demo1_facts:
  "sfs_create demo0 path_a 33188 0 = Some (0, demo1, 1)" "sfs_ok demo1" "lookup demo1 path_a = Some 1"
  "lookup demo1 path_b = None" "readInode demo1 1 = created (decode_inode (\<lambda>_. 0) 0) 1 path_a 33188 0"
  "contents demo1 1 = []" "k < INODE_LIST_SIZE \<Longrightarrow> isInodeFree demo1 k = (if k \<le> 1 then 0 else 1)"
  "1 < k \<Longrightarrow> k < INODE_LIST_SIZE \<Longrightarrow> readInode demo1 k = decode_inode (\<lambda>_. 0) 0"
  "is_file demo1 k \<longleftrightarrow> k = 1" "b < BLOCK_LIST_SIZE \<Longrightarrow> isBlockFree demo1 b = (if b = 0 then 0 else 1)"
proof -
  have ff: "first_from (\<lambda>i. isInodeFree demo0 i = 1) 0 INODE_LIST_SIZE = Some 1"
    "first_from (\<lambda>b. isBlockFree demo0 b = 1) 0 BLOCK_LIST_SIZE = Some 0"
    using demo0_facts(4,5) list_sizes_pos by (auto intro!: first_is_Some)
  obtain d' where d': "sfs_create demo0 path_a 33188 0 = Some (0, d', of_nat 1)" "sfs_ok d'"
    "\<And>q. lookup d' q = (if same_str q path_a then Some 1 else lookup demo0 q)"
    "readInode d' 1 = created (readInode demo0 1) 1 path_a 33188 0" "frame 1 (other_blocks demo0 1) demo0 d'"
    "contents d' 1 = []" "\<And>k. is_file d' k \<longleftrightarrow> k = 1 \<or> is_file demo0 k"
    "\<And>c. c < BLOCK_LIST_SIZE \<Longrightarrow> isBlockFree d' c = (if c = 0 then 0 else isBlockFree demo0 c)"
    using demo_create [OF demo0_facts(2) demo_char(1) demo0_lookup [OF demo_char(1)] ff, where md = 33188 and fh = 0] by metis
  have e: "demo1 = d'" using d'(1) by (simp add: demo1_def)
  have "isInodeFree d' 1 = 0" using d'(7) [of 1] by (simp add: is_file_def)
  then show "k < INODE_LIST_SIZE \<Longrightarrow> isInodeFree demo1 k = (if k \<le> 1 then 0 else 1)"
    using d'(5) demo0_facts(4) [of k] by (cases "k = 1") (auto simp: e frame_def)
  show "1 < k \<Longrightarrow> k < INODE_LIST_SIZE \<Longrightarrow> readInode demo1 k = decode_inode (\<lambda>_. 0) 0"
    using d'(5) demo0_facts(6) [of k] by (simp add: e frame_def)
  show "sfs_create demo0 path_a 33188 0 = Some (0, demo1, 1)" "sfs_ok demo1" "contents demo1 1 = []" "is_file demo1 k \<longleftrightarrow> k = 1"
    "b < BLOCK_LIST_SIZE \<Longrightarrow> isBlockFree demo1 b = (if b = 0 then 0 else 1)"
    using d'(1,2,6-8) demo0_facts(3,5) by (simp_all add: e)
  show "readInode demo1 1 = created (decode_inode (\<lambda>_. 0) 0) 1 path_a 33188 0"
    using d'(4) demo0_facts(6) [of 1] list_sizes_pos by (simp add: e)
  show "lookup demo1 path_a = Some 1" "lookup demo1 path_b = None"
    using d'(3) same_demo_path [of 97 97] same_demo_path [of 98 97] demo0_lookup [of 98] by (simp_all add: e)
qed

lemma demo2_facts:
  "sfs_create demo1 path_b 33188 0 = Some (0, demo2, 2)" "sfs_ok demo2" "lookup demo2 path_a = Some 1"
  "lookup demo2 path_b = Some 2" "readInode demo2 1 = created (decode_inode (\<lambda>_. 0) 0) 1 path_a 33188 0"
  "readInode demo2 2 = created (decode_inode (\<lambda>_. 0) 0) 2 path_b 33188 1"
  "contents demo2 2 = []" "contents demo2 1 = []" "is_file demo2 k \<longleftrightarrow> k = 1 \<or> k = 2"
proof -
  have ff: "first_from (\<lambda>i. isInodeFree demo1 i = 1) 0 INODE_LIST_SIZE = Some 2"
    "first_from (\<lambda>b. isBlockFree demo1 b = 1) 0 BLOCK_LIST_SIZE = Some 1"
    using demo1_facts(7,10) list_sizes_pos by (auto intro!: first_is_Some)
  obtain d' where d': "sfs_create demo1 path_b 33188 0 = Some (0, d', of_nat 2)" "sfs_ok d'"
    "\<And>q. lookup d' q = (if same_str q path_b then Some 2 else lookup demo1 q)"
    "readInode d' 2 = created (readInode demo1 2) 2 path_b 33188 1" "frame 2 (other_blocks demo1 2) demo1 d'"
    "contents d' 2 = []" "\<And>k. is_file d' k \<longleftrightarrow> k = 2 \<or> is_file demo1 k"
    using demo_create [OF demo1_facts(2) demo_char(2) demo1_facts(4) ff, where md = 33188 and fh = 0] by metis
  have e: "demo2 = d'" using d'(1) by (simp add: demo2_def)
  have one: "readInode d' 1 = readInode demo1 1" using d'(5) list_sizes_pos by (simp add: frame_def)
  show "sfs_create demo1 path_b 33188 0 = Some (0, demo2, 2)" "sfs_ok demo2" "contents demo2 2 = []"
    "is_file demo2 k \<longleftrightarrow> k = 1 \<or> k = 2"
    using d'(1,2,6,7) demo1_facts(9) by (auto simp: e)
  show "readInode demo2 2 = created (decode_inode (\<lambda>_. 0) 0) 2 path_b 33188 1"
    using d'(4) demo1_facts(8) [of 2] list_sizes_pos by (simp add: e)
  show r1: "readInode demo2 1 = created (decode_inode (\<lambda>_. 0) 0) 1 path_a 33188 0"
    using one demo1_facts(5) by (simp add: e)
  show "contents demo2 1 = []" unfolding contents_def r1 by (simp add: created_def)
  show "lookup demo2 path_a = Some 1" "lookup demo2 path_b = Some 2"
    using d'(3) same_demo_path [of 98 98] same_demo_path [of 97 98] demo1_facts(3) by (simp_all add: e)
qed

section \<open>Unlink\<close>

lemma sfs_unlink_run:
  fixes d p n
  defines "nd \<equiv> readInode d n"
  defines "k \<equiv> nat (isize nd) div BLOCK_SIZE + 1"
  assumes ok: "sfs_ok d" and lk: "lookup d p = Some n" "0 < n" and h: "0 \<le> hardlinks nd" "hardlinks nd \<le> 2"
    and sz: "isize nd < MAX_FILE - int BLOCK_SIZE" and ex: "0 \<le> data nd k" "blk_of nd k < BLOCK_LIST_SIZE"
  obtains d' where "sfs_unlink d p = Some (0, d')" "same_except {0, 1} d d'" "isInodeFree d' n = 1"
    "\<And>i. i < INODE_LIST_SIZE \<Longrightarrow> i \<noteq> n \<Longrightarrow> isInodeFree d' i = isInodeFree d i" "checkIfInit d' = checkIfInit d"
    "\<And>b. b < BLOCK_LIST_SIZE \<Longrightarrow> isBlockFree d' b = (if b \<in> blocks_of nd \<or> b = blk_of nd k then 1 else isBlockFree d b)"
proof -
  have fl: "is_file d n" using lk lookup_used by (simp add: is_file_def)
  then have n: "n < INODE_LIST_SIZE" and dok: "disk_ok d" and fo: "file_ok d nd" and id: "inode_id nd = int n"
    using ok by (auto simp: is_file_def sfs_ok_def nd_def)
  have s0: "0 \<le> isize nd" and lt: "isize nd < MAX_FILE" using fo sz by (auto simp: file_ok_def)
  have nb: "nblocks nd = k" using nblocks_small [OF s0 lt] by (simp add: k_def)
  have "nat (isize nd) < 1023 * BLOCK_SIZE" using sz s0 by (simp add: MAX_FILE_def BLOCK_SIZE_def nat_less_iff)
  then have k: "k < 1024" using less_mult_imp_div_less [of "nat (isize nd)" 1023 BLOCK_SIZE] by (simp add: k_def)
  let ?nd = "nd\<lparr>hardlinks := c_int (hardlinks nd - 2)\<rparr>"
  have bo: "blk_of ?nd = blk_of nd" by (simp add: blk_of_def fun_eq_iff)
  have c: "c_div (isize ?nd) (int BLOCK_SIZE) + 1 = int k"
    using c_div_nat [of "nat (isize nd)" BLOCK_SIZE] s0 by (simp add: k_def)
  have own: "0 \<le> data ?nd j \<and> blk_of ?nd j < BLOCK_LIST_SIZE" if "j \<le> k" for j
    using that ex fo nb unfolding bo by (cases "j = k") (auto simp: file_ok_def owns_blocks_def)
  obtain d1 where d1: "unlink_blocks d ?nd 0 = Some d1" "same_except {1} d d1"
    "\<forall>b < BLOCK_LIST_SIZE. isBlockFree d1 b = (if b \<in> blk_of ?nd ` {0..k} then 1 else isBlockFree d b)"
    using unlink_blocks_run [OF dok c k, of 0] own by auto
  have ok1: "disk_ok d1" by (rule same_except_ok [OF d1(2)])
  let ?d = "mark_inode d1 n True"
  note s = mark_inode_same_except [OF ok1, of n True]
  have "c_int (hardlinks nd - 2) = hardlinks nd - 2" using h by (intro c_int_id) auto
  then have run: "sfs_unlink d p = Some (0, ?d)"
    using checkiNodePathName_Some [OF lk(1)] id h d1(1) setInode_marks(2) [OF n] by (simp add: sfs_unlink_def nd_def Let_def)
  have bl: "blk_of ?nd ` {0..k} = insert (blk_of nd k) (blocks_of nd)"
    unfolding bo blocks_of_def nb by (auto simp: le_less image_iff)
  have "isInodeFree ?d i = isInodeFree d i" if "i < INODE_LIST_SIZE" "i \<noteq> n" for i
    using imap.free_put [OF ok1 n that(1), of True] that(2) isInodeFree_frame [OF d1(2) _ that(1)] by (auto simp: isInodeFree_def)
  moreover have "isBlockFree ?d b = (if b \<in> blocks_of nd \<or> b = blk_of nd k then 1 else isBlockFree d b)" if "b < BLOCK_LIST_SIZE" for b
    using isBlockFree_frame [OF s _ that] d1(3) that unfolding bl by auto
  moreover have "checkIfInit ?d = checkIfInit d"
    using mark_inode_keeps_magic [OF ok1 n] checkIfInit_frame [OF d1(2)] by simp
  moreover have "isInodeFree ?d n = 1" using isInodeFree_mark [OF ok1 n, of True] by simp
  moreover have "same_except {0, 1} d ?d" using same_except_trans [OF d1(2) s] by (simp add: insert_commute)
  ultimately show thesis using run by (intro that [of ?d])
qed

section \<open>Reachable disks\<close>

text \<open>
  Mounts of a fresh disk followed by calls of the handlers that change it: any create that reports
  success, any write that starts within the file, any unlink whose extra block entry (the one behind
  the last block of the file, which the code frees too) is not a block of another file.
\<close>

inductive sfs_reach :: "disk \<Rightarrow> bool" where
  mount: "disk_open fd d = Some d0 \<Longrightarrow> disk_ok d0 \<Longrightarrow> checkIfInit d0 \<noteq> 1 \<Longrightarrow> sfs_init fd d = Some d' \<Longrightarrow> sfs_reach d'"
| creates: "sfs_reach d \<Longrightarrow> terminated p \<Longrightarrow> sfs_create d p md fh = Some (0, d', fh') \<Longrightarrow> sfs_reach d'"
| writes: "sfs_reach d \<Longrightarrow> file_of d p = Some n \<Longrightarrow> off \<le> length (contents d n) \<Longrightarrow> length (contents d n) < 16777216 \<Longrightarrow>
    sfs_write d p buf sz (int off) fh = Some (r, d') \<Longrightarrow> sfs_reach d'"
| unlinks: "sfs_reach d \<Longrightarrow> file_of d p = Some n \<Longrightarrow> 0 \<le> hardlinks (readInode d n) \<Longrightarrow> hardlinks (readInode d n) \<le> 2 \<Longrightarrow>
    length (contents d n) + BLOCK_SIZE < 16777216 \<Longrightarrow>
    0 \<le> data (readInode d n) (length (contents d n) div BLOCK_SIZE + 1) \<Longrightarrow>
    blk_of (readInode d n) (length (contents d n) div BLOCK_SIZE + 1) \<notin> other_blocks d n \<Longrightarrow>
    blk_of (readInode d n) (length (contents d n) div BLOCK_SIZE + 1) < BLOCK_LIST_SIZE \<Longrightarrow>
    sfs_unlink d p = Some (r, d') \<Longrightarrow> sfs_reach d'"

lemma create_keeps_ok:
  assumes ok: "sfs_ok d" and p: "terminated p" and run: "sfs_create d p md fh = Some (0, d', fh')"
  shows "sfs_ok d'"
proof (cases "first_from (\<lambda>i. isInodeFree d i = 1) 0 INODE_LIST_SIZE")
  case None
  then show ?thesis using run ok by (simp add: sfs_create_def)
next
  case (Some i)
  have dok: "disk_ok d" and i: "i < INODE_LIST_SIZE" using ok Some by (auto simp: sfs_ok_def first_from_Some)
  note s = mark_inode_same_except [OF dok, of i False]
  show ?thesis
  proof (cases rule: findNextOpenBlock_cases [OF dok])
    case 1
    then show ?thesis
      using run findNextOpenBlock_frame(1) [OF s] by (simp add: sfs_create_def Some setInode_marks i Let_def)
  next
    case (2 b)
    then show ?thesis using create_view [OF ok p Some 2(4), where md = md and fh = fh] run by (metis option.inject prod.inject)
  qed
qed

lemma write_keeps_ok:
  assumes ok: "sfs_ok d" and f: "file_of d p = Some n" and off: "off \<le> length (contents d n)" "length (contents d n) < 16777216"
    and run: "sfs_write d p buf sz (int off) fh = Some (r, d')"
  shows "sfs_ok d'"
proof (cases "fh = -1 \<or> sz = 0")
  case True
  then show ?thesis
    using run ok f lookup_file [OF ok, of p n] by (auto simp: sfs_write_def Let_def file_of_Some split: if_splits)
next
  case False
  have lk: "lookup d p = Some n" "0 < n" and fl: "is_file d n" using f is_file_of by (auto simp: file_of_Some)
  have sz: "int off \<le> isize (readInode d n)" "isize (readInode d n) < MAX_FILE"
    using file_size [OF ok fl] off by (simp_all add: MAX_FILE_def)
  obtain r2 d2 where "sfs_write d p buf sz (int off) fh = Some (r2, d2)"
    "write_post (other_blocks d n) n d (readInode d n) (file_byte d (readInode d n)) off buf 0 sz r2 d2"
    using sfs_write_run [OF ok lk _ _ sz, of fh sz buf] False by auto
  then show ?thesis using run write_post_view(1) [OF ok fl] by auto
qed

lemma unlink_keeps_ok:
  fixes d n
  defines "k \<equiv> length (contents d n) div BLOCK_SIZE + 1" and "nd \<equiv> readInode d n"
  assumes ok: "sfs_ok d" and f: "file_of d p = Some n" and h: "0 \<le> hardlinks nd" "hardlinks nd \<le> 2"
    and sz: "length (contents d n) + BLOCK_SIZE < 16777216"
    and ex: "0 \<le> data nd k" "blk_of nd k < BLOCK_LIST_SIZE" "blk_of nd k \<notin> other_blocks d n"
  obtains d' where "sfs_unlink d p = Some (0, d')" "sfs_ok d'" "\<And>i. is_file d' i \<longleftrightarrow> is_file d i \<and> i \<noteq> n"
    "\<And>i. is_file d' i \<Longrightarrow> contents d' i = contents d i"
    "\<And>b. b \<in> blocks_of nd \<Longrightarrow> isBlockFree d' b = 1"
    "\<And>i. i < INODE_LIST_SIZE \<Longrightarrow> readInode d' i = readInode d i" "\<And>i. i < INODE_LIST_SIZE \<Longrightarrow> isInodeFree d' i = (if i = n then 1 else isInodeFree d i)"
proof -
  have lk: "lookup d p = Some n" "0 < n" and fl: "is_file d n" using f is_file_of by (auto simp: file_of_Some)
  have kk: "k = nat (isize nd) div BLOCK_SIZE + 1" by (simp add: k_def nd_def length_contents)
  have sz': "isize nd < MAX_FILE - int BLOCK_SIZE" using file_size [OF ok fl] sz by (simp add: nd_def MAX_FILE_def)
  obtain d' where d': "sfs_unlink d p = Some (0, d')" "same_except {0, 1} d d'" "isInodeFree d' n = 1"
    "\<And>i. i < INODE_LIST_SIZE \<Longrightarrow> i \<noteq> n \<Longrightarrow> isInodeFree d' i = isInodeFree d i" "checkIfInit d' = checkIfInit d"
    "\<And>b. b < BLOCK_LIST_SIZE \<Longrightarrow> isBlockFree d' b = (if b \<in> blocks_of nd \<or> b = blk_of nd k then 1 else isBlockFree d b)"
    using sfs_unlink_run [OF ok lk, folded nd_def, OF h sz'] ex(1,2) unfolding kk by metis
  have rd: "readInode d' i = readInode d i" if "i < INODE_LIST_SIZE" for i
    by (rule readInode_frame [OF d'(2) _ that]) auto
  have fi: "is_file d' i \<longleftrightarrow> is_file d i \<and> i \<noteq> n" for i
    using d'(3) d'(4) [of i] by (cases "i = n") (auto simp: is_file_def)
  have keep: "isBlockFree d' b = isBlockFree d b" if "is_file d i" "i \<noteq> n" "b \<in> blocks_of (readInode d i)" "b < BLOCK_LIST_SIZE" for i b
  proof -
    have "b \<notin> blocks_of nd" using that fl ok unfolding sfs_ok_def nd_def by blast
    moreover have "b \<noteq> blk_of nd k" using that ex(3) by (auto simp: other_blocks_def)
    ultimately show ?thesis using d'(6) [OF that(4)] by simp
  qed
  have old: "file_ok d (readInode d i)" "inode_id (readInode d i) = int i" if "is_file d i" for i
    using ok that by (auto simp: sfs_ok_def)
  have fo: "file_ok d' (readInode d i)" if "is_file d i" "i \<noteq> n" for i
    using old(1) [OF that(1)] keep [OF that] by (auto simp: file_ok_def owns_blocks_def blocks_of_def)
  have z: "isInodeFree d' 0 = isInodeFree d 0" "0 < INODE_LIST_SIZE" using d'(4) [of 0] lk(2) list_sizes_pos by auto
  have lt: "i < INODE_LIST_SIZE" if "is_file d i" for i using that by (simp add: is_file_def)
  have tm: "terminated (path (readInode d' i))" if "i < INODE_LIST_SIZE" "isInodeFree d' i = 0" for i
    using that rd d'(3,4) ok by (cases "i = n") (auto simp: sfs_ok_def)
  have ok': "sfs_ok d'"
    using ok d'(2,5) z tm fi fo old rd lt by (auto simp: sfs_ok_def same_except_def)
  have "contents d' i = contents d i" if "is_file d' i" for i
  proof -
    have i: "is_file d i" "i \<noteq> n" using that fi by auto
    have "file_byte d' (readInode d i) j = file_byte d (readInode d i) j" if "j < nat (isize (readInode d i))" for j
    proof -
      have "blk_of (readInode d i) (j div BLOCK_SIZE) < BLOCK_LIST_SIZE"
        using old(1) [OF i(1)] in_nblocks [of "readInode d i" j] that by (auto simp: file_ok_def owns_blocks_def)
      then show ?thesis using d'(2) data_block_lt by (simp add: file_byte_def same_except_def)
    qed
    then show ?thesis by (simp add: contents_def rd [OF lt [OF i(1)]] Let_def)
  qed
  moreover have "isBlockFree d' b = 1" if "b \<in> blocks_of nd" for b
    using that d'(6) [of b] old(1) [OF fl] by (auto simp: nd_def blocks_of_def file_ok_def owns_blocks_def)
  moreover have "isInodeFree d' i = (if i = n then 1 else isInodeFree d i)" if "i < INODE_LIST_SIZE" for i using that d'(3,4) by simp
  ultimately show thesis using d'(1) ok' fi rd by (intro that)
qed

section \<open>Properties\<close>

text \<open>
  C2. Whatever sequence of creates, writes and unlinks (as listed in \<open>sfs_reach\<close>) follows the first
  mount, the disk stays consistent: every file's blocks are real data blocks marked used, its own
  inode is in its slot, and no block belongs to two files.
\<close>

theorem sfs_reach_consistent:
  assumes "sfs_reach d"
  shows "sfs_ok d"
  using assms
proof (induction rule: sfs_reach.induct)
  case (mount fd d d0 d')
  obtain d2 where "sfs_init fd d = Some d2" "sfs_ok d2" by (rule sfs_init_run [OF mount(1-3)]) (rule that)
  then show ?case using mount(4) by simp
next
  case (creates d p md fh d' fh')
  show ?case by (rule create_keeps_ok [OF creates.IH creates.hyps(2,3)])
next
  case (writes d p n off buf sz fh r d')
  show ?case by (rule write_keeps_ok [OF writes.IH writes.hyps(2-5)])
next
  case (unlinks d p n r d')
  obtain d2 where "sfs_unlink d p = Some (0, d2)" "sfs_ok d2"
    by (rule unlink_keeps_ok [OF unlinks.IH unlinks.hyps(2-6,8,7)]) (rule that)
  then show ?case using unlinks.hyps(9) by simp
qed

theorem sfs_reach_consistent_witness: "sfs_reach demo2 \<and> sfs_ok demo2"
proof -
  obtain d where d: "disk_open 3 blank = Some d" "disk_ok d" "checkIfInit d \<noteq> 1" using demo_open by blast
  have "sfs_reach demo0" by (rule sfs_reach.mount [OF d demo0_facts(1)])
  then have "sfs_reach demo1" by (rule sfs_reach.creates [OF _ demo_path_terminated demo1_facts(1)])
  then have "sfs_reach demo2" by (rule sfs_reach.creates [OF _ demo_path_terminated demo2_facts(1)])
  then show ?thesis using sfs_reach_consistent by blast
qed

text \<open>
  C9. \<open>sfs_write\<close> at an offset within a file that does not take it past the maximal size always
  returns; it either overwrites exactly the bytes asked for (extending the file where needed) and
  reports their number, or reports -1 because there were fewer free blocks than the longer file
  needs.  In both cases the disk stays consistent, every name still denotes the same file and every
  other file keeps its contents.
\<close>

theorem sfs_write_refines:
  assumes "sfs_ok d" "file_of d p = Some n" "fh \<noteq> -1" "0 < sz" "off \<le> length (contents d n)"
    "length (contents d n) < 16777216" "off + sz \<le> 16777216"
  shows "\<exists>r d'. sfs_write d p buf sz (int off) fh = Some (r, d') \<and> sfs_ok d' \<and>
    (\<forall>q. lookup d' q = lookup d q) \<and> (\<forall>k. is_file d k \<and> k \<noteq> n \<longrightarrow> contents d' k = contents d k) \<and>
    (if r = -1
     then card {b. b < BLOCK_LIST_SIZE \<and> isBlockFree d b = 1} <
       max (length (contents d n)) (off + sz) div BLOCK_SIZE - length (contents d n) div BLOCK_SIZE
     else r = int sz \<and> contents d' n = overwrite (contents d n) off (map buf [0..<sz]))"
proof -
  have lk: "lookup d p = Some n" "0 < n" and fl: "is_file d n" using assms(2) is_file_of by (auto simp: file_of_Some)
  have sz: "int off \<le> isize (readInode d n)" "isize (readInode d n) < MAX_FILE" "int (off + sz) \<le> MAX_FILE"
    using file_size [OF assms(1) fl] assms(5-7) by (simp_all add: MAX_FILE_def)
  obtain r d' where r: "sfs_write d p buf sz (int off) fh = Some (r, d')"
    "write_post (other_blocks d n) n d (readInode d n) (file_byte d (readInode d n)) off buf 0 sz r d'"
    by (rule sfs_write_run [OF assms(1) lk assms(3,4) sz(1,2)])
  note v = write_post_view [OF assms(1) fl r(2)]
  have "card {b. b < BLOCK_LIST_SIZE \<and> isBlockFree d b = 1} <
      max (length (contents d n)) (off + sz) div BLOCK_SIZE - length (contents d n) div BLOCK_SIZE" if "r = -1"
    using r(2) that by (simp add: write_post_def bmap.free_units_def length_contents)
  then show ?thesis using r(1) v write_post_contents [OF r(2) _ sz] by auto
qed

theorem sfs_write_refines_witness:
  "\<exists>r d'. sfs_write demo2 path_a (\<lambda>i. of_nat i) 3 (int 0) 0 = Some (r, d') \<and> sfs_ok d' \<and>
    (\<forall>q. lookup d' q = lookup demo2 q) \<and> (\<forall>k. is_file demo2 k \<and> k \<noteq> 1 \<longrightarrow> contents d' k = contents demo2 k) \<and>
    r = 3 \<and> contents d' 1 = [0, 1, 2]"
proof -
  have "file_of demo2 path_a = Some 1" using demo2_facts(3) by (simp add: file_of_Some)
  note t = sfs_write_refines [OF demo2_facts(2) this, of 0 3 0 "\<lambda>i. of_nat i"]
  have "(3::nat) div BLOCK_SIZE = 0" by (simp add: BLOCK_SIZE_def)
  then obtain r d' where "sfs_write demo2 path_a (\<lambda>i. of_nat i) 3 (int 0) 0 = Some (r, d')" "sfs_ok d'"
    "\<forall>q. lookup d' q = lookup demo2 q" "\<forall>k. is_file demo2 k \<and> k \<noteq> 1 \<longrightarrow> contents d' k = contents demo2 k"
    "r = 3" "contents d' 1 = overwrite [] 0 (map of_nat [0..<3])"
    using t demo2_facts(8) by (auto split: if_splits)
  then show ?thesis by (auto simp: overwrite_def upt_rec)
qed

text \<open>
  C15. \<open>sfs_read\<close> within a file returns the number of bytes asked for and those bytes of the file,
  across block boundaries; the rest of the caller's buffer is untouched.
\<close>

theorem sfs_read_correct:
  assumes "sfs_ok d" "file_of d p = Some n" "0 < sz" "off + sz \<le> length (contents d n)" "off + sz < 16777216"
  shows "\<exists>buf'. sfs_read d p buf sz (int off) = Some (int sz, buf') \<and>
    map buf' [0..<sz] = take sz (drop off (contents d n)) \<and> (\<forall>k \<ge> sz. buf' k = buf k)"
proof -
  have lk: "lookup d p = Some n" "0 < n" and fl: "is_file d n" using assms(2) is_file_of by (auto simp: file_of_Some)
  have s: "int off \<le> isize (readInode d n)" "int (off + sz) < MAX_FILE"
    using file_size [OF assms(1) fl] assms(4,5) by (simp_all add: MAX_FILE_def)
  obtain buf' where "sfs_read d p buf sz (int off) = Some (int sz, buf')" "\<And>k. sz \<le> k \<Longrightarrow> buf' k = buf k"
    "\<And>k. k < sz \<Longrightarrow> off + k < length (contents d n) \<Longrightarrow> buf' k = contents d n ! (off + k)"
    by (rule sfs_read_run [OF assms(1) lk assms(3) s, where buf = buf]) (rule that)
  then show ?thesis using assms(4) by (intro exI [of _ buf']) (auto intro!: nth_equalityI)
qed

text \<open>A disk on which \<open>/a\<close> holds three bytes.\<close>

definition demo3 :: disk where
  "demo3 = the (file_put demo2 path_a 0 [10, 20, 30])"

lemma demo2_file: "file_of demo2 path_a = Some 1" "file_of demo2 path_b = Some 2"
  using demo2_facts(3,4) by (simp_all add: file_of_Some)

lemma demo3_put: "file_put demo2 path_a 0 [10, 20, 30] = Some demo3"
proof -
  have lk: "lookup demo2 path_a = Some 1" "0 < (1::nat)" and fl: "is_file demo2 1"
    using demo2_facts(3,9) by simp_all
  have s: "isize (readInode demo2 1) = 0" using file_size [OF demo2_facts(2) fl] demo2_facts(8) by simp
  let ?b = "user_buf [10, 20, 30]"
  have z: "int 0 \<le> isize (readInode demo2 1)" "isize (readInode demo2 1) < MAX_FILE" "int (0 + 3) \<le> MAX_FILE"
    using s by (simp_all add: MAX_FILE_def)
  have fh: "(0 :: 64 word) \<noteq> -1" "0 < (3::nat)" by simp_all
  obtain r d' where r: "sfs_write demo2 path_a ?b 3 (int 0) 0 = Some (r, d')"
    "write_post (other_blocks demo2 1) 1 demo2 (readInode demo2 1) (file_byte demo2 (readInode demo2 1)) 0 ?b 0 3 r d'"
    by (rule sfs_write_run [OF demo2_facts(2) lk fh z(1,2)])
  have "r \<noteq> -1" using r(2) s by (auto simp: write_post_def BLOCK_SIZE_def)
  then have "r = 3" using write_post_contents(1) [OF r(2) _ z] by simp
  then have "file_put demo2 path_a 0 [10, 20, 30] = Some d'"
    using r(1) by (simp add: file_put_def numeral_3_eq_3)
  then show ?thesis by (simp add: demo3_def)
qed

lemma demo3_facts: "sfs_ok demo3" "contents demo3 1 = [10, 20, 30]" "file_of demo3 q = file_of demo2 q"
proof -
  note t = sfs.put_ok [OF demo2_facts(2) demo2_file(1) _ _ _ _ demo3_put]
  show "sfs_ok demo3" "contents demo3 1 = [10, 20, 30]" "file_of demo3 q = file_of demo2 q"
    using t demo2_facts(8) by (auto simp: overwrite_def)
qed

theorem sfs_read_correct_witness:
  "\<exists>buf'. sfs_read demo3 path_a (\<lambda>_. 7) 2 (int 1) = Some (int 2, buf') \<and> map buf' [0..<2] = [20, 30]"
  using sfs_read_correct [OF demo3_facts(1), of path_a 1 2 1 "\<lambda>_. 7"] demo3_facts(2,3) demo2_file(1) by auto

text \<open>
  Appending chunk after chunk through \<open>sfs_write\<close> (each at the offset the client has reached)
  yields the old contents followed by the chunks, whatever their sizes and however they straddle
  blocks; other files keep their contents.
\<close>

theorem sfs_append_chunks:
  assumes "sfs_ok d" "file_of d p = Some n" "\<forall>c \<in> set cs. c \<noteq> []"
    "length (contents d n) + length (concat cs) < 16777216"
    "append_all file_put d p (length (contents d n)) cs = Some d'"
  shows "contents d' n = contents d n @ concat cs \<and> sfs_ok d' \<and>
    (\<forall>q k. file_of d q = Some k \<and> k \<noteq> n \<longrightarrow> contents d' k = contents d k)"
  using sfs.append_all_contents [OF assms] by blast

theorem sfs_append_chunks_witness:
  "append_all file_put demo2 path_a (length (contents demo2 1)) [[10, 20, 30]] = Some demo3 \<and>
   contents demo3 1 = contents demo2 1 @ concat [[10, 20, 30]]"
  using sfs_append_chunks [OF demo2_facts(2) demo2_file(1), of "[[10, 20, 30]]" demo3] demo3_put demo2_facts(8) by simp

text \<open>
  C19. What is written is what a read of the same range returns, and a read of another file returns
  what it did before.
\<close>

theorem sfs_write_read_back:
  assumes "sfs_ok d" "file_of d p = Some n" "bs \<noteq> []" "off \<le> length (contents d n)" "length (contents d n) < 16777216"
    "off + length bs < 16777216" "file_put d p off bs = Some d'"
  shows "file_get d' p off (length bs) = Some bs \<and>
    (\<forall>q k sz o2. file_of d q = Some k \<and> k \<noteq> n \<and> 0 < sz \<and> o2 + sz \<le> length (contents d k) \<and> o2 + sz < 16777216 \<longrightarrow>
      file_get d' q o2 sz = file_get d q o2 sz)"
  using sfs.put_get [OF assms] sfs.put_get_other [OF assms] by blast

theorem sfs_write_read_back_witness: "file_get demo3 path_a 0 (length [10, 20, 30 :: byte]) = Some [10, 20, 30]"
  using sfs_write_read_back [OF demo2_facts(2) demo2_file(1) _ _ _ _ demo3_put] demo2_facts(8) by simp

text \<open>
  \<open>sfs_read\<close> never stops at the end of the file: from any offset up to the size it reports as
  many bytes as were asked for, also when the file does not have them.
\<close>

theorem sfs_read_ignores_eof:
  assumes "sfs_ok d" "file_of d p = Some n" "0 < sz" "off \<le> length (contents d n)" "off + sz < 16777216"
  shows "\<exists>buf'. sfs_read d p buf sz (int off) = Some (int sz, buf')"
proof -
  have lk: "lookup d p = Some n" "0 < n" and fl: "is_file d n" using assms(2) is_file_of by (auto simp: file_of_Some)
  have s: "int off \<le> isize (readInode d n)" "int (off + sz) < MAX_FILE"
    using file_size [OF assms(1) fl] assms(4,5) by (simp_all add: MAX_FILE_def)
  show ?thesis by (rule sfs_read_run [OF assms(1) lk assms(3) s, where buf = buf]) blast
qed

theorem sfs_read_ignores_eof_witness:
  "contents demo2 1 = [] \<and> (\<exists>buf'. sfs_read demo2 path_a (\<lambda>_. 7) 100 (int 0) = Some (int 100, buf'))"
  using sfs_read_ignores_eof [OF demo2_facts(2) demo2_file(1), of 100 0 "\<lambda>_. 7"] demo2_facts(8) by simp

text \<open>
  C25. When an inode and a block are free, \<open>sfs_create\<close> of a new name makes exactly one new file: the
  lowest free inode, empty, one hard link, the given mode, with the lowest free block as its first;
  afterwards that name, and no other, denotes it, every other file is as before and the disk stays
  consistent.
\<close>

theorem sfs_create_new_file:
  assumes "sfs_ok d" "terminated p" "lookup d p = None"
    "first_from (\<lambda>i. isInodeFree d i = 1) 0 INODE_LIST_SIZE = Some i" "findNextOpenBlock d = int b"
  shows "\<exists>d'. sfs_create d p md fh = Some (0, d', of_nat i) \<and> sfs_ok d' \<and> contents d' i = [] \<and>
    (\<forall>k. is_file d' k \<longleftrightarrow> k = i \<or> is_file d k) \<and> mode (readInode d' i) = md \<and> hardlinks (readInode d' i) = 1 \<and>
    blocks_of (readInode d' i) = {b} \<and>
    (\<forall>c < BLOCK_LIST_SIZE. isBlockFree d' c = (if c = b then 0 else isBlockFree d c)) \<and>
    (\<forall>k. is_file d k \<longrightarrow> contents d' k = contents d k \<and> readInode d' k = readInode d k) \<and>
    (\<forall>q. lookup d' q = (if same_str q p then Some i else lookup d q))"
proof -
  have fb: "first_from (\<lambda>b. isBlockFree d b = 1) 0 BLOCK_LIST_SIZE = Some b"
    using assms(5) by (auto simp: findNextOpenBlock_def split: option.splits)
  obtain d' where d': "sfs_create d p md fh = Some (0, d', of_nat i)" "sfs_ok d'"
    "\<not> is_file d i" "\<And>k. is_file d' k \<longleftrightarrow> k = i \<or> is_file d k" "contents d' i = []"
    "readInode d' i = created (readInode d i) i p md b"
    "\<And>k. is_file d k \<Longrightarrow> contents d' k = contents d k \<and> readInode d' k = readInode d k"
    "frame i (other_blocks d i) d d'"
    "\<And>c. c < BLOCK_LIST_SIZE \<Longrightarrow> isBlockFree d' c = (if c = b then 0 else isBlockFree d c)"
    by (rule create_view [OF assms(1,2,4) fb, where md = md and fh = fh]) (rule that)
  have i: "i < INODE_LIST_SIZE" "isInodeFree d i = 1" using assms(4) by (auto simp: first_from_Some)
  have "isInodeFree d' i = 0" using d'(4) [of i] by (simp add: is_file_def)
  then have "lookup d' q = (if same_str q p then Some i else lookup d q)" for q
    by (rule lookup_after_create [OF assms(1) d'(2) assms(2,3) i _ d'(6,8)])
  moreover have "mode (readInode d' i) = md" "hardlinks (readInode d' i) = 1" unfolding d'(6) by (simp_all add: created_def)
  moreover have "blocks_of (readInode d' i) = {b}" unfolding d'(6) by (rule created_blocks(2))
  ultimately show ?thesis using d'(1,2,4,5,7,9) by blast
qed

lemma demo1_next: "first_from (\<lambda>i. isInodeFree demo1 i = 1) 0 INODE_LIST_SIZE = Some 2" "findNextOpenBlock demo1 = int 1"
proof -
  show "first_from (\<lambda>i. isInodeFree demo1 i = 1) 0 INODE_LIST_SIZE = Some 2"
    using demo1_facts(7) list_sizes_pos by (auto intro!: first_is_Some)
  have "first_from (\<lambda>b. isBlockFree demo1 b = 1) 0 BLOCK_LIST_SIZE = Some 1"
    using demo1_facts(10) list_sizes_pos by (auto intro!: first_is_Some)
  then show "findNextOpenBlock demo1 = int 1" by (simp add: findNextOpenBlock_def)
qed

theorem sfs_create_new_file_witness:
  "\<exists>d'. sfs_create demo1 path_b 420 5 = Some (0, d', of_nat 2) \<and> sfs_ok d' \<and> contents d' 2 = [] \<and>
    lookup d' path_b = Some 2 \<and> lookup d' path_a = Some 1"
proof -
  note t = sfs_create_new_file [OF demo1_facts(2) demo_path_terminated demo1_facts(4) demo1_next, of 420 5]
  have "same_str path_b path_b" "\<not> same_str path_a path_b" using same_demo_path by simp_all
  then show ?thesis using t demo1_facts(3) by auto
qed

text \<open>
  When no block is free, \<open>sfs_create\<close> answers -1 but keeps the inode it has taken: the slot is
  marked used although nothing was written to it, so one inode is lost with every failed create.
\<close>

theorem sfs_create_leaks_inode:
  assumes "sfs_ok d" "first_from (\<lambda>i. isInodeFree d i = 1) 0 INODE_LIST_SIZE = Some i" "findNextOpenBlock d = -1"
  shows "\<exists>d'. sfs_create d p md fh = Some (-1, d', fh) \<and> isInodeFree d' i = 0 \<and> readInode d' i = readInode d i \<and>
    card {k. k < INODE_LIST_SIZE \<and> isInodeFree d' k = 1} + 1 = card {k. k < INODE_LIST_SIZE \<and> isInodeFree d k = 1}"
proof -
  have ok: "disk_ok d" and i: "i < INODE_LIST_SIZE" using assms(1,2) by (auto simp: sfs_ok_def first_from_Some)
  note s = mark_inode_same_except [OF ok, of i False]
  have "sfs_create d p md fh = Some (-1, mark_inode d i False, fh)"
    using assms(3) findNextOpenBlock_frame(1) [OF s] by (simp add: sfs_create_def assms(2) setInode_marks i Let_def)
  moreover have "readInode (mark_inode d i False) i = readInode d i" using readInode_frame [OF s _ i] by simp
  moreover have "isInodeFree (mark_inode d i False) i = 0" using isInodeFree_mark [OF ok i, of False] by simp
  ultimately show ?thesis
    using imap.claim_first(3) [OF ok assms(2)] by (intro exI [of _ "mark_inode d i False"]) (simp add: imap.free_units_def)
qed

definition demo_full :: disk where
  "demo_full = block_put demo0 1 (\<lambda>_. 0)"

lemma demo_full_facts:
  "sfs_ok demo_full" "first_from (\<lambda>i. isInodeFree demo_full i = 1) 0 INODE_LIST_SIZE = Some 1" "findNextOpenBlock demo_full = -1"
proof -
  have ok: "disk_ok demo0" using demo0_facts(2) by (simp add: sfs_ok_def)
  have s: "same_except {1} demo0 demo_full" unfolding demo_full_def by (rule block_put_same_except [OF ok map_block_lt(2)])
  have im: "isInodeFree demo_full k = (if k = 0 then 0 else 1)" if "k < INODE_LIST_SIZE" for k
    using isInodeFree_frame [OF s _ that] demo0_facts(4) [OF that] by simp
  then show "first_from (\<lambda>i. isInodeFree demo_full i = 1) 0 INODE_LIST_SIZE = Some 1"
    using list_sizes_pos by (auto intro!: first_is_Some)
  have rd: "readInode demo_full k = readInode demo0 k" if "k < INODE_LIST_SIZE" for k
    using readInode_frame [OF s _ that] by simp
  have "\<not> is_file demo_full k" for k using im [of k] by (auto simp: is_file_def)
  then show "sfs_ok demo_full"
    using demo0_facts(2) same_except_ok [OF s] checkIfInit_frame [OF s] im rd demo0_facts(4) list_sizes_pos
    by (simp add: sfs_ok_def)
  have "isBlockFree demo_full b = 0" if "b < BLOCK_LIST_SIZE" for b
  proof -
    have "b div 8 < BLOCK_SIZE" using that by (simp add: BLOCK_LIST_SIZE_def BLOCK_SIZE_def)
    then show ?thesis unfolding isBlockFree_def demo_full_def using blk.rd_wr_same [OF ok map_block_lt(2)] by simp
  qed
  then have "first_from (\<lambda>b. isBlockFree demo_full b = 1) 0 BLOCK_LIST_SIZE = None" by (simp add: first_from_None)
  then show "findNextOpenBlock demo_full = -1" by (simp add: findNextOpenBlock_def)
qed

theorem sfs_create_leaks_inode_witness:
  "\<exists>d'. sfs_create demo_full path_a 420 5 = Some (-1, d', 5) \<and> isInodeFree d' 1 = 0"
  using sfs_create_leaks_inode [OF demo_full_facts, of path_a 420 5] by blast

lemma diskfile_block_put [simp]: "diskfile (block_put d b buf) = diskfile d"
  by (simp add: block_put_def block_write_def Let_def)

lemma sfs_init_keeps_fd: "sfs_init fd d = Some d' \<Longrightarrow> 0 \<le> diskfile d'"
  by (auto simp: sfs_init_def disk_open_def setFileInit_def setInode_def writeInode_def Let_def
      split: if_splits option.splits Option.bind_splits)

text \<open>
  C26. Mounting a disk that does not carry the magic number formats it: the result is a consistent
  empty file system with all 4096 blocks and 127 inodes free, inode 0 the root directory, and the
  blocks outside the maps and inode 0 as they were.  The next mount finds the magic number and
  changes nothing.
\<close>

theorem sfs_init_formats:
  assumes "disk_open fd d = Some d0" "disk_ok d0" "checkIfInit d0 \<noteq> 1"
  shows "\<exists>d'. sfs_init fd d = Some d' \<and> sfs_ok d' \<and> (\<forall>k. \<not> is_file d' k) \<and>
    (\<forall>k < INODE_LIST_SIZE. isInodeFree d' k = (if k = 0 then 0 else 1)) \<and>
    (\<forall>b < BLOCK_LIST_SIZE. isBlockFree d' b = 1) \<and>
    mode (readInode d' 0) = S_IFDIR OR 502 \<and> hardlinks (readInode d' 0) = 2 \<and> isize (readInode d' 0) = 0 \<and>
    sfs_init fd' d' = Some d'"
proof -
  obtain d' where d': "sfs_init fd d = Some d'" "sfs_ok d'" "\<And>k. \<not> is_file d' k"
    "\<And>k. k < INODE_LIST_SIZE \<Longrightarrow> isInodeFree d' k = (if k = 0 then 0 else 1)"
    "\<And>b. b < BLOCK_LIST_SIZE \<Longrightarrow> isBlockFree d' b = 1"
    "readInode d' 0 = root_inode (mark_inode (format_maps d0) 0 False)"
    by (rule sfs_init_run [OF assms]) (rule that)
  have "mode (readInode d' 0) = S_IFDIR OR 502" "hardlinks (readInode d' 0) = 2" "isize (readInode d' 0) = 0"
    unfolding d'(6) by (simp_all add: root_inode_def Let_def)
  moreover have "sfs_init fd' d' = Some d'"
    using d'(2) sfs_init_keeps_fd [OF d'(1)] by (simp add: sfs_init_def disk_open_def sfs_ok_def)
  ultimately show ?thesis using d'(1-5) by blast
qed

theorem sfs_init_formats_witness: "\<exists>d'. sfs_init 3 blank = Some d' \<and> sfs_ok d' \<and> (\<forall>b < BLOCK_LIST_SIZE. isBlockFree d' b = 1)"
proof -
  obtain d where "disk_open 3 blank = Some d" "disk_ok d" "checkIfInit d \<noteq> 1" using demo_open by blast
  from sfs_init_formats [OF this] show ?thesis by blast
qed

text \<open>
  C27. Unlinking a file frees its inode and all its blocks; when the extra block entry the loop also
  frees (it runs one past the blocks of the file) does not belong to another file, the disk stays
  consistent and the other files keep their contents.
\<close>

theorem sfs_unlink_removes:
  assumes "sfs_ok d" "file_of d p = Some n" "0 \<le> hardlinks (readInode d n)" "hardlinks (readInode d n) \<le> 2"
    "length (contents d n) + BLOCK_SIZE < 16777216"
    "0 \<le> data (readInode d n) (length (contents d n) div BLOCK_SIZE + 1)"
    "blk_of (readInode d n) (length (contents d n) div BLOCK_SIZE + 1) < BLOCK_LIST_SIZE"
    "blk_of (readInode d n) (length (contents d n) div BLOCK_SIZE + 1) \<notin> other_blocks d n"
  shows "\<exists>d'. sfs_unlink d p = Some (0, d') \<and> sfs_ok d' \<and> (\<forall>i. is_file d' i \<longleftrightarrow> is_file d i \<and> i \<noteq> n) \<and>
    (\<forall>i. is_file d' i \<longrightarrow> contents d' i = contents d i) \<and> (\<forall>b \<in> blocks_of (readInode d n). isBlockFree d' b = 1)"
  by (rule unlink_keeps_ok [OF assms]) blast

lemma created_extra:
  "length (contents d n) = 0 \<Longrightarrow> readInode d n = created (decode_inode (\<lambda>_. 0) 0) n p md b \<Longrightarrow>
    hardlinks (readInode d n) = 1 \<and> data (readInode d n) (length (contents d n) div BLOCK_SIZE + 1) = 0 \<and>
    blk_of (readInode d n) (length (contents d n) div BLOCK_SIZE + 1) = 0"
proof -
  have "load_le (\<lambda>_. 0) 272 4 = (0 :: nat)" by (simp add: eval_nat_numeral)
  then show "length (contents d n) = 0 \<Longrightarrow> readInode d n = created (decode_inode (\<lambda>_. 0) 0) n p md b \<Longrightarrow>
    hardlinks (readInode d n) = 1 \<and> data (readInode d n) (length (contents d n) div BLOCK_SIZE + 1) = 0 \<and>
    blk_of (readInode d n) (length (contents d n) div BLOCK_SIZE + 1) = 0"
    by (simp add: created_def blk_of_def decode_inode_def int32_at_def)
qed

theorem sfs_unlink_removes_witness:
  "\<exists>d'. sfs_unlink demo1 path_a = Some (0, d') \<and> sfs_ok d' \<and> \<not> is_file d' 1 \<and> isBlockFree d' 0 = 1"
proof -
  have f: "file_of demo1 path_a = Some 1" using demo1_facts(3) by (simp add: file_of_Some)
  have e: "length (contents demo1 1) = 0" using demo1_facts(6) by simp
  note x = created_extra [OF e demo1_facts(5)]
  have "other_blocks demo1 1 = {}" using demo1_facts(9) by (auto simp: other_blocks_def)
  moreover have "blocks_of (readInode demo1 1) = {0}" unfolding demo1_facts(5) by (rule created_blocks(2))
  ultimately show ?thesis
    using sfs_unlink_removes [OF demo1_facts(2) f] x e list_sizes_pos by (auto simp: BLOCK_SIZE_def)
qed

text \<open>
  C36. The loop of \<open>sfs_unlink\<close> runs one entry too far: when the entry behind the last block of the
  unlinked file happens to name a block of another file, that block is handed back to the free map
  while the other file still owns it, and the disk is no longer consistent.
\<close>

theorem sfs_unlink_frees_foreign_block:
  assumes "sfs_ok d" "file_of d p = Some n" "0 \<le> hardlinks (readInode d n)" "hardlinks (readInode d n) \<le> 2"
    "length (contents d n) + BLOCK_SIZE < 16777216"
    "0 \<le> data (readInode d n) (length (contents d n) div BLOCK_SIZE + 1)"
    "is_file d m" "m \<noteq> n" "blk_of (readInode d n) (length (contents d n) div BLOCK_SIZE + 1) = b" "b \<in> blocks_of (readInode d m)"
  shows "\<exists>d'. sfs_unlink d p = Some (0, d') \<and> is_file d' m \<and> b \<in> blocks_of (readInode d' m) \<and> isBlockFree d' b = 1 \<and> \<not> sfs_ok d'"
proof -
  let ?nd = "readInode d n"
  have lk: "lookup d p = Some n" "0 < n" and fl: "is_file d n" using assms(2) is_file_of by (auto simp: file_of_Some)
  have k: "length (contents d n) div BLOCK_SIZE + 1 = nat (isize ?nd) div BLOCK_SIZE + 1" by (simp add: length_contents)
  have sz: "isize ?nd < MAX_FILE - int BLOCK_SIZE" using file_size [OF assms(1) fl] assms(5) by (simp add: MAX_FILE_def)
  have b: "b < BLOCK_LIST_SIZE" using assms(1,7,10) by (auto simp: sfs_ok_def file_ok_def owns_blocks_def blocks_of_def)
  obtain d' where d': "sfs_unlink d p = Some (0, d')" "same_except {0, 1} d d'"
    "\<And>i. i < INODE_LIST_SIZE \<Longrightarrow> i \<noteq> n \<Longrightarrow> isInodeFree d' i = isInodeFree d i"
    "\<And>c. c < BLOCK_LIST_SIZE \<Longrightarrow> isBlockFree d' c = (if c \<in> blocks_of ?nd \<or> c = b then 1 else isBlockFree d c)"
    by (rule sfs_unlink_run [OF assms(1) lk assms(3,4) sz assms(6) [unfolded k], unfolded assms(9) [unfolded k], OF b]) (rule that)
  have m: "m < INODE_LIST_SIZE" using assms(7) by (simp add: is_file_def)
  have rd: "readInode d' m = readInode d m" by (rule readInode_frame [OF d'(2) _ m]) auto
  have fm: "is_file d' m" using assms(7,8) d'(3) [OF m] by (simp add: is_file_def)
  have fr: "isBlockFree d' b = 1" using d'(4) [OF b] by simp
  have "\<not> sfs_ok d'"
    using fm fr rd assms(10) by (auto simp: sfs_ok_def file_ok_def owns_blocks_def blocks_of_def)
  then show ?thesis using d'(1) fm fr rd assms(10) by auto
qed

theorem sfs_unlink_frees_foreign_block_witness:
  "\<exists>d'. sfs_unlink demo2 path_b = Some (0, d') \<and> is_file d' 1 \<and> 0 \<in> blocks_of (readInode d' 1) \<and> isBlockFree d' 0 = 1 \<and> \<not> sfs_ok d'"
proof -
  have e: "length (contents demo2 2) = 0" using demo2_facts(7) by simp
  note x = created_extra [OF e demo2_facts(6)]
  have "0 \<in> blocks_of (readInode demo2 1)" unfolding demo2_facts(5) created_blocks(2) by simp
  moreover have "is_file demo2 1" using demo2_facts(9) by simp
  ultimately show ?thesis
    using sfs_unlink_frees_foreign_block [OF demo2_facts(2) demo2_file(2), of 1 0] x e by (simp add: BLOCK_SIZE_def)
qed

text \<open>
  C35. A name no inode has: every handler reports its error and leaves the disk, the caller's buffer
  and the file handle alone.
\<close>

theorem sfs_missing_file:
  assumes "lookup d p = None" "\<not> is_root_path p"
  shows "sfs_getattr now d p st = (- ENOENT, st) \<and> sfs_unlink d p = Some (-1, d) \<and> sfs_release d p fh = (-1, fh) \<and>
    sfs_open getfl d p fh = (-1, fh) \<and> sfs_read d p buf sz off = Some (- EBADF, buf) \<and>
    sfs_write d p buf sz off fh = Some (- EBADF, d)"
  using checkiNodePathName_None [OF assms(1)] assms
  by (simp add: sfs_getattr_def sfs_unlink_def sfs_release_def sfs_open_def sfs_read_def sfs_write_def lookup_def Let_def)

theorem sfs_missing_file_witness:
  "sfs_unlink demo1 path_b = Some (-1, demo1) \<and> sfs_read demo1 path_b (\<lambda>_. 7) 5 0 = Some (- EBADF, \<lambda>_. 7)"
proof -
  have "\<not> is_root_path path_b" by (simp add: is_root_path_def demo_path_def)
  from sfs_missing_file [OF demo1_facts(4) this] show ?thesis by blast
qed

lemma readdir_from_fold:
  "readdir_from d filler s i = fold (\<lambda>j s. snd (filler s (\<lambda>k. if k < 255 then path (readInode d j) (1 + k) else 0)))
     (filter (\<lambda>j. isInodeFree d j = 0) [i..<INODE_LIST_SIZE]) s"
proof (induction d filler s i rule: readdir_from.induct)
  case (1 d filler s i)
  show ?case
  proof (cases "i < INODE_LIST_SIZE")
    case True
    then have "[i..<INODE_LIST_SIZE] = i # [Suc i..<INODE_LIST_SIZE]" by (rule upt_conv_Cons)
    then show ?thesis using 1 True by (subst readdir_from.simps) (auto simp: Let_def)
  qed (subst readdir_from.simps, simp)
qed

text \<open>
  \<open>sfs_readdir\<close> hands the callback exactly the used inodes from 1 on, in their order, each with
  the 255 bytes behind the leading slash of its path, whatever the callback does.
\<close>

theorem sfs_readdir_lists:
  "sfs_readdir d filler s = (0, fold (\<lambda>j s. snd (filler s (\<lambda>k. if k < 255 then path (readInode d j) (1 + k) else 0)))
     (filter (is_file d) [1..<INODE_LIST_SIZE]) s)"
proof -
  have "filter (\<lambda>j. isInodeFree d j = 0) [1..<INODE_LIST_SIZE] = filter (is_file d) [1..<INODE_LIST_SIZE]"
    by (rule filter_cong) (auto simp: is_file_def)
  then show ?thesis by (simp add: sfs_readdir_def readdir_from_fold)
qed

text \<open>
  C31. An inode written to the disk reads back as written, field for field, and none of the other
  127 inodes, of which up to two share its block, changes.
\<close>

theorem inode_roundtrip:
  assumes "disk_ok d" "inode_ok nd" "inode_id nd = int n" "n < INODE_LIST_SIZE"
  shows "\<exists>d'. writeInode d nd = Some d' \<and> readInode d' n = nd \<and>
    (\<forall>k < INODE_LIST_SIZE. k \<noteq> n \<longrightarrow> readInode d' k = readInode d k)"
proof -
  obtain d' where w: "writeInode d nd = Some d'" using writeInode_some [OF assms(3,4,1)] by metis
  then show ?thesis using readInode_writeInode [OF w assms(2-4,1)] assms(4) by auto
qed

theorem inode_roundtrip_witness:
  "\<exists>d'. writeInode demo0 (created (readInode demo0 4) 4 path_a 420 17) = Some d' \<and>
    readInode d' 4 = created (readInode demo0 4) 4 path_a 420 17"
proof -
  have ok: "disk_ok demo0" using demo0_facts(2) by (simp add: sfs_ok_def)
  have lt: "4 < INODE_LIST_SIZE" "17 < BLOCK_LIST_SIZE" by (simp_all add: INODE_LIST_SIZE_def BLOCK_LIST_SIZE_def)
  have "inode_id (created (readInode demo0 4) 4 path_a 420 17) = int 4" by (simp add: created_def)
  from inode_roundtrip [OF ok created_ok [OF readInode_ok lt] this lt(1)] show ?thesis by blast
qed

text \<open>
  \<open>disk_close\<close> closes the descriptor but keeps its number, so after \<open>sfs_destroy\<close> a further
  \<open>disk_open\<close> does nothing and no block can be read or written any more.
\<close>

theorem disk_reopen_is_dead:
  assumes "diskfile d \<ge> 0"
  shows "\<exists>d'. disk_open fd (sfs_destroy d) = Some d' \<and> d' = sfs_destroy d \<and>
    (\<forall>b buf. fst (block_read d' b buf) = -1 \<and> block_write d' b buf = (-1, d'))"
  using assms by (simp add: sfs_destroy_def disk_close_def disk_open_def block_read_def block_write_def)

theorem disk_reopen_is_dead_witness:
  "\<exists>d'. disk_open 4 (sfs_destroy (blank\<lparr>diskfile := 3\<rparr>)) = Some d' \<and> (\<forall>b buf. fst (block_read d' b buf) = -1)"
  using disk_reopen_is_dead [of "blank\<lparr>diskfile := 3\<rparr>" 4] by auto

end
