(* ===== verification/SfsSession.thy ===== *)
theory SfsSession
  imports SfsProps
begin

text \<open>
  Sessions with the file system: the table \<open>sfs_oper\<close> of handlers that \<open>main\<close> hands to FUSE, a sequence of
  requests served through it, and the store the client sees, a map from names to byte sequences.
\<close>

section \<open>The table of handlers\<close>

text \<open>
  A request FUSE forwards, mounting and unmounting included (\<open>Init\<close> with what \<open>open\<close> answers): path, sizes, offsets and the caller's buffers are its arguments, \<open>fh\<close> is the
  handle FUSE keeps for an open file.
\<close>

datatype fuse_request =
    Init int
  | Destroy
  | Getattr bytes stat
  | Create bytes uint32 "64 word"
  | Unlink bytes
  | Open bytes "64 word"
  | Release bytes "64 word"
  | Read bytes bytes nat int
  | Write bytes bytes nat int "64 word"
  | Readdir
  | Mkdir bytes uint32
  | Rmdir bytes
  | Opendir bytes
  | Releasedir bytes

datatype fuse_reply =
    Done
  | Attr int stat
  | Handle int "64 word"
  | Status int
  | Data int "byte list"
  | Names int "bytes list"

text \<open>What the handlers get from outside: the clock, \<open>fcntl\<close>, FUSE's \<open>filler\<close>, and its own answer where no handler is set.\<close>

record fuse_env =
  clock :: int
  getfl :: "64 word \<Rightarrow> int"
  filler :: "bytes list \<Rightarrow> bytes \<Rightarrow> int \<times> bytes list"
  unset :: "fuse_request \<Rightarrow> fuse_reply"

fun sfs_oper :: "fuse_env \<Rightarrow> fuse_request \<Rightarrow> disk \<Rightarrow> (fuse_reply \<times> disk) option" where
  "sfs_oper e (Init fd) d = map_option (Pair Done) (sfs_init fd d)"
| "sfs_oper e Destroy d = Some (Done, sfs_destroy d)"
| "sfs_oper e (Getattr p st) d = (let (r, st') = sfs_getattr (clock e) d p st in Some (Attr r st', d))"
| "sfs_oper e (Create p md fh) d = map_option (\<lambda>(r, d', fh'). (Handle r fh', d')) (sfs_create d p md fh)"
| "sfs_oper e (Unlink p) d = map_option (\<lambda>(r, d'). (Status r, d')) (sfs_unlink d p)"
| "sfs_oper e (Open p fh) d = (let (r, fh') = sfs_open (getfl e) d p fh in Some (Handle r fh', d))"
| "sfs_oper e (Release p fh) d = (let (r, fh') = sfs_release d p fh in Some (Handle r fh', d))"
| "sfs_oper e (Read p buf sz off) d = map_option (\<lambda>(r, buf'). (Data r (map buf' [0..<sz]), d)) (sfs_read d p buf sz off)"
| "sfs_oper e (Write p buf sz off fh) d = map_option (\<lambda>(r, d'). (Status r, d')) (sfs_write d p buf sz off fh)"
| "sfs_oper e Readdir d = (let (r, ns) = sfs_readdir d (filler e) [] in Some (Names r ns, d))"
| "sfs_oper e r d = Some (unset e r, d)"

fun sfs_run :: "fuse_env \<Rightarrow> fuse_request list \<Rightarrow> disk \<Rightarrow> (fuse_reply list \<times> disk) option" where
  "sfs_run e [] d = Some ([], d)"
| "sfs_run e (r # rs) d =
     (case sfs_oper e r d of
        None \<Rightarrow> None
      | Some (a, d') \<Rightarrow> map_option (\<lambda>(as, d''). (a # as, d'')) (sfs_run e rs d'))"

section \<open>The store a client sees\<close>

type_synonym store = "bytes \<Rightarrow> byte list option"

definition files :: "disk \<Rightarrow> store" where
  "files d p = map_option (contents d) (file_of d p)"

text \<open>Names are C strings: an update is for all representations of the name.\<close>

definition store_put :: "bytes \<Rightarrow> byte list option \<Rightarrow> store \<Rightarrow> store" where
  "store_put p c F = (\<lambda>q. if same_str q p then c else F q)"

text \<open>What a client can tell of a reply: an error, a size, or bytes.\<close>

datatype answer = Code int | Size nat | Bytes "byte list"

fun observe :: "fuse_reply \<Rightarrow> answer" where
  "observe Done = Code 0"
| "observe (Attr r st) = (if r = 0 then Size (nat (st_size st)) else Code r)"
| "observe (Handle r fh) = Code r"
| "observe (Status r) = Code r"
| "observe (Data r bs) = (if r < 0 then Code r else Bytes bs)"
| "observe (Names r ns) = Code r"

text \<open>The specification of each request on the store.\<close>

fun store_step :: "fuse_request \<Rightarrow> store \<Rightarrow> answer \<times> store" where
  "store_step (Getattr p st) F = (case F p of None \<Rightarrow> (Code (- ENOENT), F) | Some c \<Rightarrow> (Size (length c), F))"
| "store_step (Create p md fh) F = (Code 0, store_put p (Some []) F)"
| "store_step (Unlink p) F = (case F p of None \<Rightarrow> (Code (- 1), F) | Some c \<Rightarrow> (Code 0, store_put p None F))"
| "store_step (Open p fh) F = (case F p of None \<Rightarrow> (Code (- 1), F) | Some c \<Rightarrow> (Code 0, F))"
| "store_step (Release p fh) F = (case F p of None \<Rightarrow> (Code (- 1), F) | Some c \<Rightarrow> (Code 0, F))"
| "store_step (Read p buf sz off) F =
     (case F p of
        None \<Rightarrow> (Code (- EBADF), F)
      | Some c \<Rightarrow> if off > int (length c) then (Code (- EFAULT), F) else (Bytes (take sz (drop (nat off) c)), F))"
| "store_step (Write p buf sz off fh) F =
     (case F p of
        None \<Rightarrow> (Code (- EBADF), F)
      | Some c \<Rightarrow> (Code (int sz), store_put p (Some (overwrite c (nat off) (map buf [0..<sz]))) F))"
| "store_step r F = (Code 0, F)"

fun store_run :: "fuse_request list \<Rightarrow> store \<Rightarrow> answer list \<times> store" where
  "store_run [] F = ([], F)"
| "store_run (r # rs) F = (let (a, F') = store_step r F; (as, F'') = store_run rs F' in (a # as, F''))"

text \<open>
  The requests the specification speaks about: not on the root directory; a create is of a new name and
  finds a free inode and a free block; a read does not go past the end of the file, unless it starts
  there; a write starts within the file, fits the largest file and finds the blocks it needs; an
  unlink does not free a block of another file (the loop of \<open>sfs_unlink\<close> frees one entry too many).
\<close>

definition plain :: "disk \<Rightarrow> bytes \<Rightarrow> bool" where
  "plain d p \<longleftrightarrow> \<not> is_root_path p \<and> lookup d p \<noteq> Some 0"

fun admits :: "fuse_env \<Rightarrow> disk \<Rightarrow> fuse_request \<Rightarrow> bool" where
  "admits e d (Getattr p st) \<longleftrightarrow> plain d p"
| "admits e d (Create p md fh) \<longleftrightarrow> terminated p \<and> lookup d p = None \<and> (\<exists>i < INODE_LIST_SIZE. isInodeFree d i = 1) \<and> (\<exists>b < BLOCK_LIST_SIZE. isBlockFree d b = 1)"
| "admits e d (Unlink p) \<longleftrightarrow> plain d p \<and> (\<forall>n. file_of d p = Some n \<longrightarrow>
     (let nd = readInode d n; k = length (contents d n) div BLOCK_SIZE + 1
      in 0 \<le> hardlinks nd \<and> hardlinks nd \<le> 2 \<and> length (contents d n) + BLOCK_SIZE < 16777216 \<and> 0 \<le> data nd k \<and> blk_of nd k < BLOCK_LIST_SIZE \<and> blk_of nd k \<notin> other_blocks d n))"
| "admits e d (Open p fh) \<longleftrightarrow> plain d p \<and> getfl e fh \<noteq> -1"
| "admits e d (Release p fh) \<longleftrightarrow> plain d p"
| "admits e d (Read p buf sz off) \<longleftrightarrow> plain d p \<and> 0 \<le> off \<and> (\<forall>n. file_of d p = Some n \<longrightarrow>
     off > int (length (contents d n)) \<or> sz = 0 \<or> (nat off + sz \<le> length (contents d n) \<and> nat off + sz < 16777216))"
| "admits e d (Write p buf sz off fh) \<longleftrightarrow> plain d p \<and> fh \<noteq> -1 \<and> 0 \<le> off \<and> (\<forall>n. file_of d p = Some n \<longrightarrow>
     nat off \<le> length (contents d n) \<and> length (contents d n) < 16777216 \<and> nat off + sz \<le> 16777216 \<and>
     max (length (contents d n)) (nat off + sz) div BLOCK_SIZE - length (contents d n) div BLOCK_SIZE \<le> card {b. b < BLOCK_LIST_SIZE \<and> isBlockFree d b = 1})"
| "admits e d r \<longleftrightarrow> False"

fun admitted :: "fuse_env \<Rightarrow> fuse_request list \<Rightarrow> disk \<Rightarrow> bool" where
  "admitted e [] d \<longleftrightarrow> True"
| "admitted e (r # rs) d \<longleftrightarrow> admits e d r \<and> (case sfs_oper e r d of None \<Rightarrow> True | Some (a, d') \<Rightarrow> admitted e rs d')"

section \<open>Names\<close>

text \<open>No two files have the same name: every file is the one its own name denotes.\<close>

definition named :: "disk \<Rightarrow> bool" where
  "named d \<longleftrightarrow> (\<forall>i. is_file d i \<longrightarrow> lookup d (path (readInode d i)) = Some i)"

lemma lookup_name:
  assumes "sfs_ok d" "lookup d p = Some n"
  shows "same_str p (path (readInode d n))"
  using assms by (simp add: lookup_alt first_from_Some)

lemma lookup_same:
  assumes "sfs_ok d" "same_str p q"
  shows "lookup d p = lookup d q"
  unfolding lookup_alt [OF assms(1)]
  by (rule first_from_cong) (use same_str_trans [OF assms(2)] same_str_trans [OF same_str_sym [OF assms(2)]] in blast)

lemma files_same: "sfs_ok d \<Longrightarrow> same_str q p \<Longrightarrow> files d q = files d p"
  using lookup_same [of d q p] by (simp add: files_def file_of_def)

lemma same_name:
  assumes ok: "sfs_ok d" and f: "file_of d p = Some n"
  shows "file_of d q = Some n \<longleftrightarrow> same_str q p"
proof
  assume "file_of d q = Some n"
  then have "same_str q (path (readInode d n))" "same_str p (path (readInode d n))" using f lookup_name [OF ok] by (simp_all add: file_of_Some)
  then show "same_str q p" by (rule same_str_trans [OF _ same_str_sym])
qed (use f lookup_same [OF ok, of q p] in \<open>simp add: file_of_Some\<close>)

lemma terminated_same: "terminated p \<Longrightarrow> same_str p p"
proof -
  assume "terminated p"
  then obtain z where "p z = 0" by (auto simp: terminated_def)
  then obtain n where "p n = 0" "\<forall>j < n. p j \<noteq> 0" using exists_least_iff [of "\<lambda>i. p i = 0"] by blast
  then show ?thesis unfolding same_str_def by blast
qed

lemma plain_cases:
  assumes p: "plain d p" and none: "lookup d p = None \<Longrightarrow> files d p = None \<Longrightarrow> thesis"
    and some: "\<And>n. file_of d p = Some n \<Longrightarrow> lookup d p = Some n \<Longrightarrow> files d p = Some (contents d n) \<Longrightarrow> is_file d n \<Longrightarrow> thesis"
  shows thesis
proof (cases "lookup d p")
  case None
  then show ?thesis by (intro none) (simp_all add: files_def file_of_def)
next
  case (Some n)
  then have f: "file_of d p = Some n" using p by (auto simp: plain_def file_of_Some)
  show ?thesis by (rule some [OF f Some _ is_file_of [OF f]]) (simp add: files_def f)
qed

section \<open>Each request\<close>

text \<open>A request is served as specified: the handler returns, the disk stays consistent, and reply and store are those of the specification.\<close>

definition serves :: "fuse_env \<Rightarrow> fuse_request \<Rightarrow> disk \<Rightarrow> bool" where
  "serves e r d \<longleftrightarrow> (\<exists>a d'. sfs_oper e r d = Some (a, d') \<and> sfs_ok d' \<and> named d' \<and> store_step r (files d) = (observe a, files d'))"

lemma serves_same:
  assumes "sfs_ok d" "named d" "sfs_oper e r d = Some (a, d)" "store_step r (files d) = (observe a, files d)"
  shows "serves e r d"
  using assms by (auto simp: serves_def)

lemma serves_create:
  assumes ok: "sfs_ok d" and nm: "named d" and a: "admits e d (Create p md fh)"
  shows "serves e (Create p md fh) d"
proof -
  have p: "terminated p" "lookup d p = None" using a by simp_all
  have "first_from (\<lambda>i. isInodeFree d i = 1) 0 INODE_LIST_SIZE \<noteq> None" "first_from (\<lambda>b. isBlockFree d b = 1) 0 BLOCK_LIST_SIZE \<noteq> None"
    using a unfolding first_from_None by simp_all
  then obtain i b where fi: "first_from (\<lambda>i. isInodeFree d i = 1) 0 INODE_LIST_SIZE = Some i" and fb: "first_from (\<lambda>b. isBlockFree d b = 1) 0 BLOCK_LIST_SIZE = Some b" by blast
  obtain d' where d': "sfs_create d p md fh = Some (0, d', of_nat i)" "sfs_ok d'" "\<not> is_file d i" "\<And>k. is_file d' k \<longleftrightarrow> k = i \<or> is_file d k" "contents d' i = []"
    "readInode d' i = created (readInode d i) i p md b" "\<And>k. is_file d k \<Longrightarrow> contents d' k = contents d k \<and> readInode d' k = readInode d k" "frame i (other_blocks d i) d d'"
    by (rule create_view [OF ok p(1) fi fb, where md = md and fh = fh]) (rule that)
  have i: "i < INODE_LIST_SIZE" "isInodeFree d i = 1" "isInodeFree d' i = 0" "0 < i" using fi d'(4) [of i] by (auto simp: first_from_Some is_file_def)
  have lk: "lookup d' q = (if same_str q p then Some i else lookup d q)" for q by (rule lookup_after_create [OF ok d'(2) p i(1-3) d'(6,8)])
  have "same_str (path (readInode d' i)) p"
    using same_str_created [OF p(1)] terminated_same [OF terminated_created [OF p(1)]] unfolding d'(6) by blast
  moreover have "\<not> same_str (path (readInode d k)) p" "lookup d (path (readInode d k)) = Some k" if "is_file d k" for k
    using nm that lookup_same [OF ok, of "path (readInode d k)" p] p(2) by (auto simp: named_def)
  ultimately have "named d'" using d'(4,7) lk unfolding named_def by metis
  moreover have "files d' q = store_put p (Some []) (files d) q" for q
  proof (cases "same_str q p")
    case True
    then show ?thesis using lk [of q] i(4) d'(5) by (simp add: files_def file_of_def store_put_def)
  next
    case False
    then have "file_of d' q = file_of d q" using lk [of q] by (simp add: file_of_def)
    then show ?thesis using False d'(7) is_file_of by (cases "file_of d q") (auto simp: files_def store_put_def)
  qed
  ultimately show ?thesis using d'(1,2) by (auto simp: serves_def fun_eq_iff)
qed

lemma serves_write:
  assumes ok: "sfs_ok d" and nm: "named d" and a: "admits e d (Write p buf sz off fh)"
  shows "serves e (Write p buf sz off fh) d"
proof -
  have pl: "plain d p" and fh: "fh \<noteq> -1" "0 \<le> off" using a by simp_all
  show ?thesis
  proof (rule plain_cases [OF pl])
    assume n: "lookup d p = None" "files d p = None"
    then show ?thesis using checkiNodePathName_None [OF n(1)] by (intro serves_same [OF ok nm, of e _ "Status (- EBADF)"]) (simp_all add: sfs_write_def Let_def)
  next
    fix n assume f: "file_of d p = Some n" "lookup d p = Some n" "files d p = Some (contents d n)" "is_file d n"
    have fits: "nat off \<le> length (contents d n)" "length (contents d n) < 16777216" "nat off + sz \<le> 16777216"
      "max (length (contents d n)) (nat off + sz) div BLOCK_SIZE - length (contents d n) div BLOCK_SIZE \<le> card {b. b < BLOCK_LIST_SIZE \<and> isBlockFree d b = 1}"
      using a f(1) by simp_all
    have id: "inode_id (readInode d n) = int n" "0 < n" using ok f(1,4) by (auto simp: sfs_ok_def file_of_Some)
    show ?thesis
    proof (cases "sz = 0")
      case True
      have "store_put p (Some (contents d n)) (files d) = files d" using files_same [OF ok, of _ p] f(3) by (auto simp: store_put_def fun_eq_iff)
      then show ?thesis using True fits(1) f(3) fh id checkiNodePathName_Some [OF f(2)]
        by (intro serves_same [OF ok nm, of e _ "Status 0"]) (simp_all add: sfs_write_def Let_def overwrite_def)
    next
      case False
      have sz: "int (nat off) \<le> isize (readInode d n)" "isize (readInode d n) < MAX_FILE" "int (nat off + sz) \<le> MAX_FILE"
        using file_size [OF ok f(4)] fits(1-3) unfolding MAX_FILE_def by linarith+
      obtain r d' where r: "sfs_write d p buf sz (int (nat off)) fh = Some (r, d')"
        "write_post (other_blocks d n) n d (readInode d n) (file_byte d (readInode d n)) (nat off) buf 0 sz r d'"
        by (rule sfs_write_run [OF ok f(2) id(2) fh(1) _ sz(1,2)]) (use False in auto)
      note v = write_post_view [OF ok f(4) r(2)]
      have "r \<noteq> -1" using r(2) fits(4) by (auto simp: write_post_def bmap.free_units_def length_contents)
      note c = write_post_contents [OF r(2) this sz]
      have fo: "file_of d' q = file_of d q" for q using v(3) by (simp add: file_of_def)
      have "named d'" using nm v(2,3,5) by (auto simp: named_def is_file_def)
      moreover have "files d' q = store_put p (Some (overwrite (contents d n) (nat off) (map buf [0..<sz]))) (files d) q" for q
        using same_name [OF ok f(1), of q] c(2) v(4) is_file_of [of d q] by (cases "file_of d q") (auto simp: files_def store_put_def fo)
      ultimately show ?thesis using r(1) c(1) v(1) fh(2) f(3) by (auto simp: serves_def fun_eq_iff)
    qed
  qed
qed

lemma serves_read:
  assumes ok: "sfs_ok d" and nm: "named d" and a: "admits e d (Read p buf sz off)"
  shows "serves e (Read p buf sz off) d"
proof -
  have pl: "plain d p" "0 \<le> off" using a by simp_all
  show ?thesis
  proof (rule plain_cases [OF pl(1)])
    assume n: "lookup d p = None" "files d p = None"
    have "EBADF > 0" by (simp add: EBADF_def)
    then show ?thesis using n checkiNodePathName_None [OF n(1)] by (intro serves_same [OF ok nm, of e _ "Data (- EBADF) (map buf [0..<sz])"]) (simp_all add: sfs_read_def Let_def)
  next
    fix n assume f: "file_of d p = Some n" "lookup d p = Some n" "files d p = Some (contents d n)" "is_file d n"
    have id: "inode_id (readInode d n) = int n" "0 < n" using ok f(1,4) by (auto simp: sfs_ok_def file_of_Some)
    note c = checkiNodePathName_Some [OF f(2)] and s = file_size [OF ok f(4)]
    have "EFAULT > 0" by (simp add: EFAULT_def)
    consider "off > int (length (contents d n))" | "off \<le> int (length (contents d n))" "sz = 0"
      | "off \<le> int (length (contents d n))" "0 < sz" "nat off + sz \<le> length (contents d n)" "nat off + sz < 16777216" using a f(1) by fastforce
    then show ?thesis
    proof cases
      case 1
      then show ?thesis using c s id f(3) \<open>EFAULT > 0\<close>
        by (intro serves_same [OF ok nm, of e _ "Data (- EFAULT) (map buf [0..<sz])"]) (simp_all add: sfs_read_def Let_def)
    next
      case 2
      then show ?thesis using c s id f(3) by (intro serves_same [OF ok nm, of e _ "Data 0 []"]) (simp_all add: sfs_read_def Let_def)
    next
      case 3
      have z: "int (nat off) \<le> isize (readInode d n)" "int (nat off + sz) < MAX_FILE" using s 3 unfolding MAX_FILE_def by linarith+
      obtain buf' where b: "sfs_read d p buf sz (int (nat off)) = Some (int sz, buf')"
        "\<And>k. k < sz \<Longrightarrow> nat off + k < length (contents d n) \<Longrightarrow> buf' k = contents d n ! (nat off + k)"
        by (rule sfs_read_run [OF ok f(2) id(2) 3(2) z, where buf = buf]) (rule that)
      have "map buf' [0..<sz] = take sz (drop (nat off) (contents d n))" using b(2) 3(3) by (intro nth_equalityI) auto
      then show ?thesis using b(1) 3(1) pl(2) f(3) by (intro serves_same [OF ok nm, of e _ "Data (int sz) (map buf' [0..<sz])"]) simp_all
    qed
  qed
qed

lemma serves_unlink:
  assumes ok: "sfs_ok d" and nm: "named d" and a: "admits e d (Unlink p)"
  shows "serves e (Unlink p) d"
proof -
  have pl: "plain d p" using a by simp
  show ?thesis
  proof (rule plain_cases [OF pl])
    assume n: "lookup d p = None" "files d p = None"
    then show ?thesis using checkiNodePathName_None [OF n(1)] by (intro serves_same [OF ok nm, of e _ "Status (- 1)"]) (simp_all add: sfs_unlink_def Let_def)
  next
    fix n assume f: "file_of d p = Some n" "lookup d p = Some n" "files d p = Some (contents d n)" "is_file d n"
    let ?k = "length (contents d n) div BLOCK_SIZE + 1" and ?nd = "readInode d n"
    have ex: "0 \<le> hardlinks ?nd" "hardlinks ?nd \<le> 2" "length (contents d n) + BLOCK_SIZE < 16777216" "0 \<le> data ?nd ?k" "blk_of ?nd ?k < BLOCK_LIST_SIZE" "blk_of ?nd ?k \<notin> other_blocks d n"
      using a f(1) by (simp_all add: Let_def)
    obtain d' where d': "sfs_unlink d p = Some (0, d')" "sfs_ok d'" "\<And>i. is_file d' i \<longleftrightarrow> is_file d i \<and> i \<noteq> n" "\<And>i. is_file d' i \<Longrightarrow> contents d' i = contents d i"
      "\<And>i. i < INODE_LIST_SIZE \<Longrightarrow> readInode d' i = readInode d i" "\<And>i. i < INODE_LIST_SIZE \<Longrightarrow> isInodeFree d' i = (if i = n then 1 else isInodeFree d i)"
      by (rule unlink_keeps_ok [OF ok f(1) ex]) (rule that)
    have lk: "lookup d' q = (if lookup d q = Some n then None else lookup d q)" for q
    proof -
      have other: "j = n" if "lookup d q = Some n" "j < INODE_LIST_SIZE" "isInodeFree d j = 0" "same_str q (path (readInode d j))" for j
      proof (cases "is_file d j")
        case True
        then show ?thesis using nm lookup_same [OF ok that(4)] that(1) by (simp add: named_def)
      next
        case False
        then have "j = 0" using that(2,3) by (simp add: is_file_def)
        then show ?thesis using that lookup_alt [OF ok, of q] by (auto simp: first_from_Some)
      qed
      show ?thesis
      proof (cases "lookup d q")
        case None
        then have "lookup d' q = None" using d'(5,6) by (auto simp: lookup_alt [OF ok] lookup_alt [OF d'(2)] first_from_None)
        then show ?thesis using None by simp
      next
        case (Some m)
        note m = Some [unfolded lookup_alt [OF ok] first_from_Some]
        show ?thesis
        proof (cases "m = n")
          case True
          then have "lookup d' q = None" using other Some d'(5,6) by (auto simp: lookup_alt [OF d'(2)] first_from_None)
          then show ?thesis using Some True by simp
        next
          case False
          then have "lookup d' q = Some m" using m d'(5,6) by (auto simp: lookup_alt [OF d'(2)] first_from_Some)
          then show ?thesis using Some False by simp
        qed
      qed
    qed
    have "named d'" using nm d'(3,5) lk by (auto simp: named_def is_file_def)
    moreover have "files d' q = store_put p None (files d) q" for q
    proof -
      have fo: "file_of d' q = (if file_of d q = Some n then None else file_of d q)" using lk [of q] f(1) by (auto simp: file_of_def split: option.splits)
      then show ?thesis using same_name [OF ok f(1), of q] d'(3,4) is_file_of [of d q] by (cases "file_of d q") (auto simp: files_def store_put_def)
    qed
    ultimately show ?thesis using d'(1,2) f(3) by (auto simp: serves_def fun_eq_iff)
  qed
qed

lemma serves_plain:
  assumes ok: "sfs_ok d" and nm: "named d" and pl: "plain d p"
  shows "serves e (Getattr p st) d" "serves e (Release p fh) d" "getfl e fh \<noteq> -1 \<Longrightarrow> serves e (Open p fh) d"
proof -
  have rt: "\<not> is_root_path p" using pl by (simp add: plain_def)
  show "serves e (Getattr p st) d"
  proof (rule plain_cases [OF pl])
    assume n: "lookup d p = None" "files d p = None"
    then show ?thesis using rt checkiNodePathName_None [OF n(1)] by (intro serves_same [OF ok nm, of e _ "Attr (- ENOENT) st"]) (simp_all add: sfs_getattr_def Let_def ENOENT_def)
  next
    fix n assume f: "file_of d p = Some n" "lookup d p = Some n" "files d p = Some (contents d n)" "is_file d n"
    have "inode_id (readInode d n) = int n" using ok f(4) by (simp add: sfs_ok_def)
    then show ?thesis using rt f(3) checkiNodePathName_Some [OF f(2)] file_size [OF ok f(4)]
      by (intro serves_same [OF ok nm, of e _ "Attr 0 (fillStatBuff (clock e) st (readInode d n))"]) (simp_all add: sfs_getattr_def Let_def fillStatBuff_def)
  qed
  show "serves e (Release p fh) d"
  proof (rule plain_cases [OF pl])
    assume n: "lookup d p = None" "files d p = None"
    then show ?thesis using checkiNodePathName_None [OF n(1)] by (intro serves_same [OF ok nm, of e _ "Handle (- 1) fh"]) (simp_all add: sfs_release_def)
  next
    fix n assume f: "file_of d p = Some n" "lookup d p = Some n" "files d p = Some (contents d n)" "is_file d n"
    have "inode_id (readInode d n) = int n" using ok f(4) by (simp add: sfs_ok_def)
    then show ?thesis using f(3) checkiNodePathName_Some [OF f(2)] by (intro serves_same [OF ok nm, of e _ "Handle 0 (- 1)"]) (simp_all add: sfs_release_def)
  qed
  show "serves e (Open p fh) d" if "getfl e fh \<noteq> -1"
  proof (rule plain_cases [OF pl])
    assume n: "lookup d p = None" "files d p = None"
    then show ?thesis using that by (intro serves_same [OF ok nm, of e _ "Handle (- 1) fh"]) (simp_all add: sfs_open_def lookup_def)
  next
    fix n assume f: "file_of d p = Some n" "lookup d p = Some n" "files d p = Some (contents d n)" "is_file d n"
    then show ?thesis using that by (intro serves_same [OF ok nm, of e _ "Handle 0 (of_nat n)"]) (simp_all add: sfs_open_def lookup_def)
  qed
qed

lemma serves_admitted:
  assumes "sfs_ok d" "named d" "admits e d r"
  shows "serves e r d"
proof (cases r)
  case (Create p md fh) then show ?thesis using serves_create assms by blast
next
  case (Unlink p) then show ?thesis using serves_unlink assms by blast
next
  case (Read p buf sz off) then show ?thesis using serves_read assms by blast
next
  case (Write p buf sz off fh) then show ?thesis using serves_write assms by blast
qed (use serves_plain [OF assms(1,2)] assms(3) in auto)

section \<open>Sessions\<close>

lemma session_refines:
  assumes "sfs_ok d" "named d" "admitted e rs d"
  shows "\<exists>as d'. sfs_run e rs d = Some (as, d') \<and> sfs_ok d' \<and> store_run rs (files d) = (map observe as, files d')"
  using assms
proof (induction rs arbitrary: d)
  case (Cons r rs)
  have "serves e r d" by (rule serves_admitted) (use Cons.prems in simp_all)
  then obtain a d1 where a: "sfs_oper e r d = Some (a, d1)" "sfs_ok d1" "named d1" "store_step r (files d) = (observe a, files d1)" by (auto simp: serves_def)
  obtain as d' where "sfs_run e rs d1 = Some (as, d')" "sfs_ok d'" "store_run rs (files d1) = (map observe as, files d')"
    using Cons.IH [OF a(2,3)] Cons.prems(3) a(1) by auto
  then show ?case using a by (intro exI [of _ "a # as"] exI [of _ d']) (simp add: Let_def)
qed simp

text \<open>
  C1. A session with the file system refines a map from names to byte sequences: after the mount of an
  unformatted disk, any sequence of requests that the table of handlers serves (attributes, creates,
  opens, releases, reads, writes and unlinks, each within the limits \<open>admits\<close> states) runs to its end, every
  reply is the one the specification gives for a store that starts empty, the files on the disk
  are those of the store, and the disk is consistent.
\<close>

theorem sfs_session_refines:
  assumes "disk_open fd d = Some d0" "disk_ok d0" "checkIfInit d0 \<noteq> 1" "sfs_init fd d = Some d1" "admitted e rs d1"
  shows "\<exists>as d'. sfs_run e rs d1 = Some (as, d') \<and> sfs_ok d' \<and> store_run rs (\<lambda>_. None) = (map observe as, files d')"
proof -
  obtain d2 where d2: "sfs_init fd d = Some d2" "sfs_ok d2" "\<And>k. \<not> is_file d2 k" by (rule sfs_init_run [OF assms(1-3)]) (rule that)
  have e: "d2 = d1" using d2(1) assms(4) by simp
  have "file_of d1 p = None" for p using d2(3) e is_file_of [of d1 p] by (cases "file_of d1 p") auto
  then have "files d1 = (\<lambda>_. None)" by (simp add: files_def fun_eq_iff)
  then show ?thesis using session_refines [OF _ _ assms(5)] d2(2,3) e by (simp add: named_def)
qed

text \<open>\<open>/a\<close> and \<open>/b\<close> are created, three bytes are written to \<open>/a\<close> and read back.\<close>

abbreviation demo_requests :: "fuse_request list" where
  "demo_requests \<equiv> [Create path_a 33188 0, Create path_b 33188 0, Write path_a (user_buf [10, 20, 30]) 3 0 0, Read path_a (\<lambda>_. 0) 3 0]"

abbreviation demo_env :: fuse_env where
  "demo_env \<equiv> \<lparr>clock = 0, getfl = (\<lambda>_. 0), filler = (\<lambda>ns n. (0, ns @ [n])), unset = (\<lambda>_. Status (- 38))\<rparr>"

lemma demo_admitted: "admitted e demo_requests demo0"
proof -
  have rt: "\<not> is_root_path path_a" by (simp add: is_root_path_def demo_path_def)
  have c: "lookup demo0 path_a = None" by (rule demo0_lookup) simp
  have f0: "\<exists>i < INODE_LIST_SIZE. isInodeFree demo0 i = 1" "\<exists>b < BLOCK_LIST_SIZE. isBlockFree demo0 b = 1"
    by (rule exI [of _ 1], use demo0_facts(4) [of 1] list_sizes_pos in simp) (rule exI [of _ 0], use demo0_facts(5) [of 0] list_sizes_pos in simp)
  have f1: "\<exists>i < INODE_LIST_SIZE. isInodeFree demo1 i = 1" "\<exists>b < BLOCK_LIST_SIZE. isBlockFree demo1 b = 1"
    by (rule exI [of _ 2], use demo1_facts(7) [of 2] list_sizes_pos in simp) (rule exI [of _ 1], use demo1_facts(10) [of 1] list_sizes_pos in simp)
  have w: "sfs_write demo2 path_a (user_buf [10, 20, 30]) 3 0 0 = Some (3, demo3)" using demo3_put by (auto simp: file_put_def numeral_3_eq_3 split: option.splits if_split_asm)
  have l3: "lookup demo3 path_a = Some 1" "file_of demo3 path_a = Some 1" using demo3_facts(3) [of path_a] demo2_file(1) by (simp_all add: file_of_Some)
  have a0: "admits e demo0 (Create path_a 33188 0)" using c f0 demo_path_terminated by simp
  have a1: "admits e demo1 (Create path_b 33188 0)" using demo1_facts(4) f1 demo_path_terminated by simp
  have a2: "admits e demo2 (Write path_a (user_buf [10, 20, 30]) 3 0 0)" using rt demo2_facts(3,8) demo2_file(1) by (simp add: plain_def BLOCK_SIZE_def)
  have a3: "admits e demo3 (Read path_a (\<lambda>_. 0) 3 0)" using rt l3 demo3_facts(2) by (simp add: plain_def)
  have o: "sfs_oper e (Create path_a 33188 0) demo0 = Some (Handle 0 1, demo1)" "sfs_oper e (Create path_b 33188 0) demo1 = Some (Handle 0 2, demo2)"
    "sfs_oper e (Write path_a (user_buf [10, 20, 30]) 3 0 0) demo2 = Some (Status 3, demo3)" using demo1_facts(1) demo2_facts(1) w by simp_all
  show ?thesis unfolding admitted.simps o option.case prod.case using a0 a1 a2 a3 by (simp split: option.split del: admits.simps sfs_oper.simps)
qed

theorem sfs_session_refines_witness:
  "\<exists>as d'. sfs_run demo_env demo_requests demo0 = Some (as, d') \<and> map observe as = [Code 0, Code 0, Code 3, Bytes [10, 20, 30]] \<and> files d' path_a = Some [10, 20, 30]"
proof -
  obtain d where d: "disk_open 3 blank = Some d" "disk_ok d" "checkIfInit d \<noteq> 1" using demo_open by blast
  have s: "same_str path_a path_a" "\<not> same_str path_a path_b" using same_demo_path [of 97 97] same_demo_path [of 97 98] by simp_all
  have u: "map (user_buf [10, 20, 30]) [0..<3] = [10, 20, 30]" using map_user_buf [of "[10, 20, 30]"] by (simp add: upt_rec)
  obtain as d' where r: "sfs_run demo_env demo_requests demo0 = Some (as, d')" "store_run demo_requests (\<lambda>_. None) = (map observe as, files d')"
    using sfs_session_refines [OF d demo0_facts(1) demo_admitted] by blast
  have "store_run demo_requests (\<lambda>_. None) = ([Code 0, Code 0, Code 3, Bytes [10, 20, 30]], store_put path_a (Some [10, 20, 30]) (store_put path_b (Some []) (store_put path_a (Some []) (\<lambda>_. None))))"
    using s u by (simp add: store_put_def overwrite_def)
  then have v: "map observe as = [Code 0, Code 0, Code 3, Bytes [10, 20, 30]]" "files d' = store_put path_a (Some [10, 20, 30]) (store_put path_b (Some []) (store_put path_a (Some []) (\<lambda>_. None)))"
    using r(2) by (simp_all only: prod.inject)
  have "files d' path_a = Some [10, 20, 30]" unfolding v(2) by (simp add: store_put_def s)
  then show ?thesis using r(1) v(1) by (intro exI conjI)
qed

end
