(* ===== verification/SfsLog.thy ===== *)
theory SfsLog
  imports Prelude
begin

text \<open>
  The log of the file system (\<open>log.c\<close>) and the start of the program (\<open>main\<close> of \<open>sfs.c\<close>).  The log is
  the text written so far.  Every dump of a structure is a heading and one line for each field, in
  the order of the code, formatted by the \<open>printf\<close> conversion the code names; an argument wider than
  its conversion is read at the width of the conversion.  A reader of the dump of a \<open>struct stat\<close> gives the
  structure back.
\<close>

section \<open>Conversions of printf\<close>

definition digit :: "nat \<Rightarrow> char" where
  "digit d = char_of (if d < 10 then 48 + d else 87 + d)"

function digits :: "nat \<Rightarrow> nat \<Rightarrow> string" where
  "digits b n = (if n < b \<or> b < 2 then [digit n] else digits b (n div b) @ [digit (n mod b)])"
  by pat_completeness auto
termination by (relation "measure snd") auto

declare digits.simps [simp del]

text \<open>Unsigned with at least \<open>w\<close> digits, as \<open>%08x\<close> and \<open>%05o\<close>, and signed, as \<open>%d\<close>.\<close>

definition show_u :: "nat \<Rightarrow> nat \<Rightarrow> nat \<Rightarrow> string" where
  "show_u b w n = replicate (w - length (digits b n)) (CHR ''0'') @ digits b n"

definition show_d :: "int \<Rightarrow> string" where
  "show_d i = (if i < 0 then CHR ''-'' # digits 10 (nat (- i)) else digits 10 (nat i))"

abbreviation show_int :: "'a::len word \<Rightarrow> string" where
  "show_int w \<equiv> show_d (sint (ucast w :: 32 word))"

abbreviation show_long :: "64 word \<Rightarrow> string" where
  "show_long w \<equiv> show_d (sint w)"

abbreviation show_x :: "'a::len word \<Rightarrow> string" where
  "show_x w \<equiv> show_u 16 8 (unat (ucast w :: 32 word))"

section \<open>Structures\<close>

record fuse_conn_info =
  proto_major :: "32 word"
  proto_minor :: "32 word"
  async_read :: "32 word"
  max_write :: "32 word"
  max_readahead :: "32 word"
  capable :: "32 word"
  want :: "32 word"

record fuse_file_info =
  fi_flags :: "32 word"
  fh_old :: "64 word"
  writepage :: "32 word"
  direct_io :: "1 word"
  keep_cache :: "1 word"
  fh :: "64 word"
  lock_owner :: "64 word"

record stat =
  st_dev :: "64 word"
  st_ino :: "64 word"
  st_mode :: "32 word"
  st_nlink :: "64 word"
  st_uid :: "32 word"
  st_gid :: "32 word"
  st_rdev :: "64 word"
  st_size :: "64 word"
  st_blksize :: "64 word"
  st_blocks :: "64 word"
  st_atime :: "64 word"
  st_mtime :: "64 word"
  st_ctime :: "64 word"

record statvfs =
  f_bsize :: "64 word"
  f_frsize :: "64 word"
  f_blocks :: "64 word"
  f_bfree :: "64 word"
  f_bavail :: "64 word"
  f_files :: "64 word"
  f_ffree :: "64 word"
  f_favail :: "64 word"
  f_fsid :: "64 word"
  f_flag :: "64 word"
  f_namemax :: "64 word"

record utimbuf =
  actime :: "64 word"
  modtime :: "64 word"

record sfs_state =
  logfile :: "64 word"
  diskfile :: string

record fuse_context =
  ctx_fuse :: "64 word"
  ctx_uid :: "32 word"
  ctx_gid :: "32 word"
  ctx_pid :: "32 word"
  private_data :: "64 word"
  ctx_state :: sfs_state
  ctx_umask :: "32 word"

section \<open>The log\<close>

text \<open>\<open>fopen\<close> with mode \<open>w\<close> leaves an empty file; where it fails the program ends.\<close>

definition log_open :: "bool \<Rightarrow> string option" where
  "log_open opened = (if opened then Some [] else None)"

definition log_msg :: "string \<Rightarrow> string \<Rightarrow> string" where
  "log_msg s log = log @ s"

definition log_struct :: "string \<times> string \<Rightarrow> string \<Rightarrow> string" where
  "log_struct = (\<lambda>(field, v). log_msg (''    '' @ field @ '' = '' @ v @ [CHR 0x0A]))"

definition log_fuse_context :: "fuse_context \<Rightarrow> string \<Rightarrow> string" where
  "log_fuse_context c log =
     fold log_struct
       [(''fuse'', show_x (ctx_fuse c)),
        (''uid'', show_int (ctx_uid c)),
        (''gid'', show_int (ctx_gid c)),
        (''pid'', show_int (ctx_pid c)),
        (''private_data'', show_x (private_data c)),
        (''logfile'', show_x (logfile (ctx_state c))),
        (''diskfile'', diskfile (ctx_state c)),
        (''umask'', show_u 8 5 (unat (ctx_umask c)))]
       (log_msg (''    context:'' @ [CHR 0x0A]) log)"

definition log_conn :: "fuse_conn_info \<Rightarrow> string \<Rightarrow> string" where
  "log_conn conn log =
     fold log_struct
       [(''proto_major'', show_int (proto_major conn)),
        (''proto_minor'', show_int (proto_minor conn)),
        (''async_read'', show_int (async_read conn)),
        (''max_write'', show_int (max_write conn)),
        (''max_readahead'', show_int (max_readahead conn)),
        (''capable'', show_x (capable conn)),
        (''want'', show_x (want conn))]
       (log_msg (''    conn:'' @ [CHR 0x0A]) log)"

definition log_fi :: "fuse_file_info \<Rightarrow> string \<Rightarrow> string" where
  "log_fi fi log =
     fold log_struct
       [(''flags'', ''0x'' @ show_x (fi_flags fi)),
        (''fh_old'', ''0x'' @ show_u 16 8 (unat (fh_old fi))),
        (''writepage'', show_int (writepage fi)),
        (''direct_io'', show_int (direct_io fi)),
        (''keep_cache'', show_int (keep_cache fi)),
        (''fh'', ''0x'' @ show_u 16 16 (unat (fh fi))),
        (''lock_owner'', ''0x'' @ show_u 16 16 (unat (lock_owner fi)))]
       (log_msg (''    fi:'' @ [CHR 0x0A]) log)"

definition log_stat :: "stat \<Rightarrow> string \<Rightarrow> string" where
  "log_stat si log =
     fold log_struct
       [(''st_dev'', show_long (st_dev si)),
        (''st_ino'', show_long (st_ino si)),
        (''st_mode'', ''0'' @ show_u 8 1 (unat (st_mode si))),
        (''st_nlink'', show_int (st_nlink si)),
        (''st_uid'', show_int (st_uid si)),
        (''st_gid'', show_int (st_gid si)),
        (''st_rdev'', show_long (st_rdev si)),
        (''st_size'', show_long (st_size si)),
        (''st_blksize'', show_long (st_blksize si)),
        (''st_blocks'', show_long (st_blocks si)),
        (''st_atime'', ''0x'' @ show_u 16 8 (unat (st_atime si))),
        (''st_mtime'', ''0x'' @ show_u 16 8 (unat (st_mtime si))),
        (''st_ctime'', ''0x'' @ show_u 16 8 (unat (st_ctime si)))]
       (log_msg (''    si:'' @ [CHR 0x0A]) log)"

definition log_statvfs :: "statvfs \<Rightarrow> string \<Rightarrow> string" where
  "log_statvfs sv log =
     fold log_struct
       [(''f_bsize'', show_long (f_bsize sv)),
        (''f_frsize'', show_long (f_frsize sv)),
        (''f_blocks'', show_long (f_blocks sv)),
        (''f_bfree'', show_long (f_bfree sv)),
        (''f_bavail'', show_long (f_bavail sv)),
        (''f_files'', show_long (f_files sv)),
        (''f_ffree'', show_long (f_ffree sv)),
        (''f_favail'', show_long (f_favail sv)),
        (''f_fsid'', show_long (f_fsid sv)),
        (''f_flag'', ''0x'' @ show_u 16 8 (unat (f_flag sv))),
        (''f_namemax'', show_long (f_namemax sv))]
       (log_msg (''    sv:'' @ [CHR 0x0A]) log)"

definition log_utime :: "utimbuf \<Rightarrow> string \<Rightarrow> string" where
  "log_utime buf log =
     fold log_struct
       [(''actime'', ''0x'' @ show_u 16 8 (unat (actime buf))),
        (''modtime'', ''0x'' @ show_u 16 8 (unat (modtime buf)))]
       (log_msg (''    buf:'' @ [CHR 0x0A]) log)"

section \<open>Reading a dump back\<close>

definition undigit :: "char \<Rightarrow> nat" where
  "undigit c = (if of_char c < (58 :: nat) then of_char c - 48 else of_char c - 87)"

definition read_u :: "nat \<Rightarrow> string \<Rightarrow> nat" where
  "read_u b s = foldl (\<lambda>a c. a * b + undigit c) 0 s"

definition read_d :: "string \<Rightarrow> int" where
  "read_d s = (if s \<noteq> [] \<and> hd s = CHR ''-'' then - int (read_u 10 (tl s)) else int (read_u 10 s))"

fun lines_of :: "string \<Rightarrow> string list" where
  "lines_of [] = []"
| "lines_of (c # cs) =
     (if c = CHR 0x0A then [] # lines_of cs
      else case lines_of cs of [] \<Rightarrow> [[c]] | l # ls \<Rightarrow> (c # l) # ls)"

definition line_value :: "string \<Rightarrow> string" where
  "line_value l = drop 2 (dropWhile (\<lambda>c. c \<noteq> CHR ''='') l)"

lemma digit_code: "d < 16 \<Longrightarrow> (of_char (digit d) :: nat) = (if d < 10 then 48 + d else 87 + d)"
  by (simp add: digit_def)

lemma undigit_digit: "d < 16 \<Longrightarrow> undigit (digit d) = d"
  by (simp add: undigit_def digit_code)

lemma read_u_append: "read_u b (s @ [c]) = read_u b s * b + undigit c"
  by (simp add: read_u_def)

lemma read_digits:
  assumes "2 \<le> b" "b \<le> 16"
  shows "read_u b (digits b n) = n"
  using assms
proof (induction b n rule: digits.induct)
  case (1 b n)
  show ?case
  proof (cases "n < b")
    case True
    then show ?thesis using "1.prems" by (subst digits.simps) (simp add: read_u_def undigit_digit)
  next
    case False
    then have ih: "read_u b (digits b (n div b)) = n div b" using "1.IH" "1.prems" by simp
    have "n mod b < 16" using "1.prems" mod_less_divisor [of b n] by linarith
    then have "read_u b (digits b n) = n div b * b + n mod b"
      using False "1.prems" ih by (subst digits.simps) (simp add: read_u_append undigit_digit)
    then show ?thesis by simp
  qed
qed

lemma read_zeros: "read_u b (replicate k (CHR ''0'') @ s) = read_u b s"
proof -
  have "foldl (\<lambda>a c. a * b + undigit c) 0 (replicate k (CHR ''0'')) = 0" by (induction k) (simp_all add: undigit_def)
  then show ?thesis by (simp add: read_u_def)
qed

lemma read_show_u: "2 \<le> b \<Longrightarrow> b \<le> 16 \<Longrightarrow> read_u b (show_u b w n) = n"
  by (simp add: show_u_def read_zeros read_digits)

text \<open>What a number is written with.\<close>

definition plain :: "char \<Rightarrow> bool" where
  "plain c \<longleftrightarrow> c \<noteq> CHR 0x0A \<and> c \<noteq> CHR ''=''"

lemma digit_ne: "d < 16 \<Longrightarrow> digit d \<noteq> CHR 0x0A \<and> digit d \<noteq> CHR ''='' \<and> digit d \<noteq> CHR ''-''"
  using digit_code [of d] by (auto split: if_split_asm)

lemma digits_chars: "2 \<le> b \<Longrightarrow> b \<le> 16 \<Longrightarrow> c \<in> set (digits b n) \<Longrightarrow> plain c \<and> c \<noteq> CHR ''-''"
proof (induction b n rule: digits.induct)
  case (1 b n)
  have "n mod b < 16" using "1.prems" mod_less_divisor [of b n] by linarith
  then show ?case
    using "1.IH" "1.prems" digit_ne [of n] digit_ne [of "n mod b"] by (cases "n < b") (auto simp: digits.simps [of b n] plain_def)
qed

lemma digits_not_Nil: "digits b n \<noteq> []"
  by (subst digits.simps) simp

lemma read_show_d: "read_d (show_d i) = i"
proof -
  have "hd (digits 10 (nat i)) \<noteq> CHR ''-''" using digits_chars [of 10 "hd (digits 10 (nat i))" "nat i"] digits_not_Nil hd_in_set by auto
  then show ?thesis using read_digits [of 10 "nat i"] read_digits [of 10 "nat (- i)"] by (simp add: read_d_def show_d_def digits_not_Nil)
qed

lemma show_plain: "list_all plain (show_d i)" "list_all plain (show_u 8 w n)" "list_all plain (show_u 16 w n)"
  using digits_chars [of 8 _ n] digits_chars [of 16 _ n] digits_chars [of 10] by (auto simp: show_u_def show_d_def list_all_iff) (simp_all add: plain_def)

text \<open>The lines of a dump are its fields.\<close>

lemma lines_line: "CHR 0x0A \<notin> set s \<Longrightarrow> lines_of (s @ CHR 0x0A # t) = s # lines_of t"
  by (induction s) auto

lemma value_line: "list_all plain field \<Longrightarrow> line_value (''    '' @ field @ '' = '' @ v) = v"
proof -
  assume "list_all plain field"
  then have "dropWhile (\<lambda>c. c \<noteq> CHR ''='') (''    '' @ field @ '' = '' @ v) = ''= '' @ v"
    by (induction field) (simp_all add: plain_def)
  then show ?thesis by (simp add: line_value_def)
qed

lemma fold_log: "fold log_struct fs log = log @ fold log_struct fs []"
proof (induction fs arbitrary: log)
  case (Cons x fs)
  show ?case using Cons [of "log_struct x log"] Cons [of "log_struct x []"] by (cases x) (simp add: log_struct_def log_msg_def)
qed simp

lemma fields_read:
  assumes "list_all (\<lambda>(field, v). list_all plain field \<and> list_all plain v) fs"
  shows "map line_value (lines_of (fold log_struct fs [])) = map snd fs"
  using assms
proof (induction fs)
  case (Cons x fs)
  obtain field v where x: "x = (field, v)" by (cases x)
  have p: "list_all plain field" "list_all plain v" using Cons.prems x by auto
  let ?l = "''    '' @ field @ '' = '' @ v"
  have n: "CHR 0x0A \<notin> set ?l" using p by (auto simp: list_all_iff plain_def)
  have "fold log_struct (x # fs) [] = ?l @ CHR 0x0A # fold log_struct fs []"
    using fold_log [of fs "log_struct x []"] x by (simp add: log_struct_def log_msg_def)
  then have "lines_of (fold log_struct (x # fs) []) = ?l # lines_of (fold log_struct fs [])" using lines_line [OF n] by simp
  then show ?case using Cons.IH Cons.prems x value_line [OF p(1), of v] by simp
qed simp

text \<open>A \<open>struct stat\<close> from the lines of its dump.\<close>

definition read_x :: "string \<Rightarrow> nat" where
  "read_x s = read_u 16 (drop 2 s)"

definition read_stat :: "string \<Rightarrow> stat option" where
  "read_stat s =
     (case map line_value (drop 1 (lines_of s)) of
        [dev, ino, mode, nlink, uid, gid, rdev, sz, blksize, blocks, atime, mtime, ctime] \<Rightarrow>
          Some \<lparr>st_dev = word_of_int (read_d dev), st_ino = word_of_int (read_d ino), st_mode = of_nat (read_u 8 mode), st_nlink = word_of_int (read_d nlink),
            st_uid = word_of_int (read_d uid), st_gid = word_of_int (read_d gid), st_rdev = word_of_int (read_d rdev), st_size = word_of_int (read_d sz),
            st_blksize = word_of_int (read_d blksize), st_blocks = word_of_int (read_d blocks), st_atime = of_nat (read_x atime), st_mtime = of_nat (read_x mtime),
            st_ctime = of_nat (read_x ctime)\<rparr>
      | _ \<Rightarrow> None)"

lemma read_x_show: "read_x (''0x'' @ show_u 16 w n) = n"
  by (simp add: read_x_def read_show_u)

lemma read_o_show: "read_u 8 (''0'' @ show_u 8 w n) = n"
  using read_zeros [of 8 1] by (simp add: read_show_u)

text \<open>
  C32. A dump of a \<open>struct stat\<close> can be read back: from the lines \<open>log_stat\<close> appends to a log every field is
  recovered, but for the number of links, of which \<open>%d\<close> shows the low 32 bits as a signed number.
\<close>

theorem log_stat_roundtrip:
  "log_stat si log = log @ log_stat si [] \<and> read_stat (log_stat si []) = Some (si\<lparr>st_nlink := scast (ucast (st_nlink si) :: 32 word)\<rparr>)"
proof -
  let ?h = "''    si:''"
  define fs where "fs = [(''st_dev'', show_long (st_dev si)), (''st_ino'', show_long (st_ino si)), (''st_mode'', ''0'' @ show_u 8 1 (unat (st_mode si))),
    (''st_nlink'', show_int (st_nlink si)), (''st_uid'', show_int (st_uid si)), (''st_gid'', show_int (st_gid si)), (''st_rdev'', show_long (st_rdev si)),
    (''st_size'', show_long (st_size si)), (''st_blksize'', show_long (st_blksize si)), (''st_blocks'', show_long (st_blocks si)),
    (''st_atime'', ''0x'' @ show_u 16 8 (unat (st_atime si))), (''st_mtime'', ''0x'' @ show_u 16 8 (unat (st_mtime si))),
    (''st_ctime'', ''0x'' @ show_u 16 8 (unat (st_ctime si)))]"
  have e: "log_stat si l = l @ ?h @ CHR 0x0A # fold log_struct fs []" for l
    unfolding log_stat_def fs_def [symmetric] using fold_log [of fs "log_msg (?h @ [CHR 0x0A]) l"] by (simp add: log_msg_def)
  have "list_all (\<lambda>(field, v). list_all plain field \<and> list_all plain v) fs"
    unfolding fs_def by (simp add: show_plain) (simp add: plain_def)
  then have v: "map line_value (lines_of (fold log_struct fs [])) = map snd fs" by (rule fields_read)
  have "lines_of (log_stat si []) = ?h # lines_of (fold log_struct fs [])" unfolding e using lines_line [of ?h] by simp
  then have "read_stat (log_stat si []) = Some (si\<lparr>st_nlink := scast (ucast (st_nlink si) :: 32 word)\<rparr>)"
    using v unfolding read_stat_def fs_def by (simp add: read_show_d read_x_show read_o_show del: append_Cons)
  then show ?thesis using e by simp
qed

section \<open>The start of the program\<close>

text \<open>
  What \<open>main\<close> comes to: the usage message and \<open>abort\<close>, an \<open>abort\<close> or an exit for want of memory or of the log,
  or the call of \<open>fuse_main\<close> with the disk file, the argument count, the arguments and the log.
\<close>

datatype main_outcome = Usage | Aborts | ExitFailure | FuseMain string nat "string option list" string

definition first_char :: "string \<Rightarrow> char" where
  "first_char s = (case s of [] \<Rightarrow> CHR 0x00 | c # _ \<Rightarrow> c)"

definition sfs_main :: "bool \<Rightarrow> bool \<Rightarrow> string list \<Rightarrow> main_outcome" where
  "sfs_main allocated opened argv =
     (let argc = length argv
      in if argc < 3 \<or> first_char (argv ! (argc - 2)) = CHR ''-'' \<or> first_char (argv ! (argc - 1)) = CHR ''-'' then Usage
         else if \<not> allocated then Aborts
         else let disk = argv ! (argc - 2);
                  av = map Some argv;
                  av = av[argc - 2 := av ! (argc - 1)];
                  av = av[argc - 1 := None]
              in case log_open opened of
                   None \<Rightarrow> ExitFailure
                 | Some log \<Rightarrow> FuseMain disk (argc - 1) av log)"

text \<open>The options and the mount point are passed on, the disk file is taken out, and the argument vector ends with a null pointer.\<close>

lemma sfs_main_mounts:
  assumes "first_char disk \<noteq> CHR ''-''" "first_char mnt \<noteq> CHR ''-''"
  shows "sfs_main True True (prog # opts @ [disk, mnt]) = FuseMain disk (length opts + 2) (map Some (prog # opts @ [mnt]) @ [None]) []"
  using assms by (simp add: sfs_main_def log_open_def Let_def nth_append list_update_append nth_Cons' list_update_code)

lemma sfs_main_usage: "length argv < 3 \<Longrightarrow> sfs_main a b argv = Usage"
  by (simp add: sfs_main_def)

end
