(* ===== verification/PtSched.thy ===== *)
theory PtSched
  imports Complex_Main PackedWords "HOL-Library.Monad_Syntax"
begin

text \<open>
  The thread scheduler of \<open>my_pthread/my_pthread.c\<close>: nodes, queues and thread descriptors are
  C structs on typed heaps (functions from addresses), linked by their pointer fields exactly as in
  the code.  \<open>None\<close> is a null dereference, an index outside \<open>runQ\<close>, or a loop that does not end.
  Addresses handed out by the library allocator are arguments; the allocator itself is modelled in
  \<open>LibHeap\<close>.  The clock, the kernel's interval timer and the bytes of uninitialised locals are part
  of the state.
\<close>

section \<open>Data\<close>

definition RUN_QUEUE_SIZE :: nat where "RUN_QUEUE_SIZE = 5"
definition QUANTA_TIME :: int where "QUANTA_TIME = 100"
definition CLOCKS_PER_SEC :: int where "CLOCKS_PER_SEC = 1000000"

datatype STATUS = NEUTRAL | YIELDING | EXITING | JOINING

record pthread =
  tid :: int
  isDead :: int
  exitArg :: addr
  pageNum :: int
  tnext :: addr

record node =
  threadID :: addr
  ut :: addr
  priority :: int
  timeCreated :: int
  runtime :: rat
  status :: STATUS
  joinee :: addr
  nnext :: addr

record queue =
  head :: addr
  rear :: addr
  priorityLevel :: int

record itimerval =
  int_sec :: int
  int_usec :: int
  val_sec :: int
  val_usec :: int

text \<open>
  \<open>joinHead\<close> and \<open>threadsHead\<close> are the heads of \<open>scd->joinList\<close> and \<open>scd->threads\<close>; \<open>ktimer\<close> is
  the kernel's timer; \<open>ctx\<close> the context \<open>swapcontext\<close> last switched to; \<open>prot i\<close> whether user page
  \<open>i\<close> is accessible; \<open>lib_room\<close> whether the library allocator has room for
  \<open>maintenance\<close>'s array (its answer is computed in \<open>PtLibrary\<close>).
\<close>

record sched =
  nodes :: "addr \<Rightarrow> node"
  queues :: "addr \<Rightarrow> queue"
  pthreads :: "addr \<Rightarrow> pthread"
  scd_up :: bool
  runQ :: "nat \<Rightarrow> addr"
  promotionQ :: "nat \<Rightarrow> addr"
  current :: addr
  termHandler :: addr
  cycles :: int
  timer :: itimerval
  joinHead :: addr
  threadsHead :: addr
  threadNum :: int
  start_time :: int
  mainPageNum :: int
  timerSet :: bool
  pages :: "uint32 list"
  prot :: "nat \<Rightarrow> bool"
  ctx :: addr
  now :: int
  ktimer :: itimerval
  zero_junk :: itimerval
  timer_junk :: itimerval
  lib_room :: bool

definition upd_node :: "addr \<Rightarrow> (node \<Rightarrow> node) \<Rightarrow> sched \<Rightarrow> sched" where
  "upd_node p f s = s\<lparr>nodes := (nodes s)(p := f (nodes s p))\<rparr>"

definition upd_queue :: "addr \<Rightarrow> (queue \<Rightarrow> queue) \<Rightarrow> sched \<Rightarrow> sched" where
  "upd_queue q f s = s\<lparr>queues := (queues s)(q := f (queues s q))\<rparr>"

definition upd_thread :: "addr \<Rightarrow> (pthread \<Rightarrow> pthread) \<Rightarrow> sched \<Rightarrow> sched" where
  "upd_thread t f s = s\<lparr>pthreads := (pthreads s)(t := f (pthreads s t))\<rparr>"

definition runQ_at :: "sched \<Rightarrow> int \<Rightarrow> addr option" where
  "runQ_at s i = (if 0 \<le> i \<and> i < int RUN_QUEUE_SIZE then Some (runQ s (nat i)) else None)"

section \<open>The timer\<close>

text \<open>\<open>setitimer\<close> refuses values outside its range and then changes nothing.\<close>

definition itimer_valid :: "itimerval \<Rightarrow> bool" where
  "itimer_valid v \<longleftrightarrow> 0 \<le> int_sec v \<and> 0 \<le> val_sec v \<and> 0 \<le> int_usec v \<and> int_usec v < 1000000 \<and>
     0 \<le> val_usec v \<and> val_usec v < 1000000"

definition setitimer :: "itimerval \<Rightarrow> sched \<Rightarrow> sched" where
  "setitimer v s = (if itimer_valid v then s\<lparr>ktimer := v\<rparr> else s)"

definition pause_timer :: "sched \<Rightarrow> sched" where
  "pause_timer s =
     (let zero = (zero_junk s)\<lparr>val_usec := 0\<rparr>
      in if itimer_valid zero then s\<lparr>timer := ktimer s, ktimer := zero\<rparr> else s)"

definition unpause_timer :: "sched \<Rightarrow> sched" where
  "unpause_timer s = setitimer (timer s) s"

text \<open>
  What every request to the library allocator does to the timer: \<open>myallocate\<close> and \<open>mydeallocate\<close>
  pause it and resume it once it has been started.
\<close>

definition lib_request :: "sched \<Rightarrow> sched" where
  "lib_request s = (if timerSet s then unpause_timer (pause_timer s) else s)"

section \<open>Queues\<close>

definition createNode :: "addr \<Rightarrow> addr \<Rightarrow> addr \<Rightarrow> sched \<Rightarrow> sched option" where
  "createNode newNode context thread s =
     (if newNode = NULL then None
      else Some ((lib_request s)\<lparr>nodes := (nodes s)(newNode := \<lparr>threadID = thread, ut = context, priority = 0,
             timeCreated = now s, runtime = 0, status = NEUTRAL, joinee = NULL, nnext = NULL\<rparr>)\<rparr>))"

partial_function (option) insertByTime_from :: "addr \<Rightarrow> addr \<Rightarrow> addr \<Rightarrow> addr \<Rightarrow> sched \<Rightarrow> sched option" where
  "insertByTime_from q newNode prev ptr s =
     (if ptr = NULL then
        let r = rear (queues s q)
        in if r = NULL then None
           else Some (upd_node newNode (nnext_update (\<lambda>_. NULL))
                  (upd_queue q (rear_update (\<lambda>_. newNode)) (upd_node r (nnext_update (\<lambda>_. newNode)) s)))
      else if runtime (nodes s newNode) > runtime (nodes s ptr) then
        if prev = NULL
        then Some (upd_queue q (head_update (\<lambda>_. newNode)) (upd_node newNode (nnext_update (\<lambda>_. ptr)) s))
        else Some (upd_node prev (nnext_update (\<lambda>_. newNode)) (upd_node newNode (nnext_update (\<lambda>_. ptr)) s))
      else insertByTime_from q newNode ptr (nnext (nodes s ptr)) s)"

definition insertByTime :: "addr \<Rightarrow> addr \<Rightarrow> sched \<Rightarrow> sched option" where
  "insertByTime q newNode s =
     (if q = NULL \<or> newNode = NULL then None
      else if head (queues s q) = NULL
      then Some (upd_node newNode (nnext_update (\<lambda>_. NULL))
             (upd_queue q (\<lambda>u. u\<lparr>head := newNode, rear := newNode\<rparr>) s))
      else insertByTime_from q newNode NULL (head (queues s q)) s)"

definition enQ :: "addr \<Rightarrow> addr \<Rightarrow> sched \<Rightarrow> sched option" where
  "enQ q newNode s =
     (if q = NULL \<or> newNode = NULL then None
      else let lvl = priorityLevel (queues s q); r = rear (queues s q)
      in if head (queues s q) = NULL
         then Some (upd_node newNode (\<lambda>n. n\<lparr>nnext := NULL, priority := lvl\<rparr>)
                (upd_queue q (\<lambda>u. u\<lparr>head := newNode, rear := newNode\<rparr>) s))
         else if r = NULL then None
         else let s = upd_node r (nnext_update (\<lambda>_. newNode)) s;
                  s = upd_queue q (rear_update (\<lambda>_. newNode)) s;
                  s = upd_node newNode (nnext_update (\<lambda>_. NULL)) s
              in Some (if status (nodes s newNode) \<noteq> YIELDING
                       then upd_node newNode (priority_update (\<lambda>_. lvl)) s else s))"

definition demoteNode :: "addr \<Rightarrow> sched \<Rightarrow> sched option" where
  "demoteNode demotee s =
     (if demotee = NULL then None
      else let p = priority (nodes s demotee);
               newPriority = (if p < int RUN_QUEUE_SIZE - 1 then p + 1 else p)
      in do { q \<leftarrow> runQ_at s newPriority; enQ q demotee s })"

definition deQ :: "addr \<Rightarrow> sched \<Rightarrow> (addr \<times> sched) option" where
  "deQ q s =
     (if q = NULL then None
      else let h = head (queues s q)
      in if h = NULL then Some (NULL, s)
         else let s = upd_queue q (head_update (\<lambda>_. nnext (nodes s h))) s;
                  s = upd_node h (nnext_update (\<lambda>_. NULL)) s;
                  s = (if head (queues s q) = NULL then upd_queue q (rear_update (\<lambda>_. NULL)) s else s)
              in Some (h, s))"

definition isQempty :: "sched \<Rightarrow> int \<times> sched" where
  "isQempty s =
     (let s = unpause_timer (pause_timer s)
      in (if \<exists>i \<in> set [0..<RUN_QUEUE_SIZE]. runQ s i = NULL then 1 else 0, s))"

function getNextNode_from :: "nat \<Rightarrow> sched \<Rightarrow> (addr \<times> sched) option" where
  "getNextNode_from i s =
     (if i < RUN_QUEUE_SIZE then
        if runQ s i = NULL then None
        else if head (queues s (runQ s i)) \<noteq> NULL then deQ (runQ s i) s
        else getNextNode_from (Suc i) s
      else Some (NULL, s))"
  by pat_completeness auto
termination
  by (relation "measure (\<lambda>(i, s). RUN_QUEUE_SIZE - i)") auto

declare getNextNode_from.simps [simp del]

definition getNextNode :: "sched \<Rightarrow> (addr \<times> sched) option" where
  "getNextNode s = getNextNode_from 0 s"

section \<open>Lists\<close>

partial_function (option) existsInList_from :: "int \<Rightarrow> addr \<Rightarrow> sched \<Rightarrow> int option" where
  "existsInList_from i ptr s =
     (if ptr = NULL then Some 0
      else if threadID (nodes s ptr) = NULL then None
      else if tid (pthreads s (threadID (nodes s ptr))) = i then Some 1
      else existsInList_from i (nnext (nodes s ptr)) s)"

definition existsInList :: "addr \<Rightarrow> sched \<Rightarrow> int option" where
  "existsInList thread s = existsInList_from (tid (pthreads s thread)) (joinHead s) s"

definition insertToList :: "addr \<Rightarrow> sched \<Rightarrow> sched option" where
  "insertToList newNode s =
     (if newNode = NULL then None
      else Some ((upd_node newNode (nnext_update (\<lambda>_. joinHead s)) s)\<lparr>joinHead := newNode\<rparr>))"

partial_function (option) removeFromList_from :: "int \<Rightarrow> addr \<Rightarrow> addr \<Rightarrow> sched \<Rightarrow> (addr \<times> sched) option" where
  "removeFromList_from i prev ptr s =
     (if ptr = NULL then Some (NULL, s)
      else if threadID (nodes s ptr) = NULL then None
      else if tid (pthreads s (threadID (nodes s ptr))) \<noteq> i
      then removeFromList_from i ptr (nnext (nodes s ptr)) s
      else if prev = NULL
      then Some (ptr, upd_node ptr (nnext_update (\<lambda>_. NULL)) (s\<lparr>joinHead := nnext (nodes s ptr)\<rparr>))
      else Some (ptr, upd_node ptr (nnext_update (\<lambda>_. NULL))
             (upd_node prev (nnext_update (\<lambda>_. nnext (nodes s ptr))) s)))"

definition removeFromList :: "addr \<Rightarrow> sched \<Rightarrow> (addr \<times> sched) option" where
  "removeFromList thread s =
     (if thread = NULL then None
      else removeFromList_from (tid (pthreads s thread)) NULL (joinHead s) s)"

definition addThread :: "addr \<Rightarrow> sched \<Rightarrow> sched option" where
  "addThread thread s =
     (if thread = NULL then None
      else Some ((upd_thread thread (tnext_update (\<lambda>_. threadsHead s)) s)\<lparr>threadsHead := thread\<rparr>))"

partial_function (option) threadDied_from :: "int \<Rightarrow> addr \<Rightarrow> sched \<Rightarrow> sched option" where
  "threadDied_from i ptr s =
     (if ptr = NULL then Some s
      else if tid (pthreads s ptr) = i then Some (upd_thread ptr (isDead_update (\<lambda>_. 1)) s)
      else threadDied_from i (tnext (pthreads s ptr)) s)"

definition threadDied :: "addr \<Rightarrow> sched \<Rightarrow> sched option" where
  "threadDied thread s =
     (if thread = NULL then None else threadDied_from (tid (pthreads s thread)) (threadsHead s) s)"

partial_function (option) existsInThreadList_from :: "int \<Rightarrow> addr \<Rightarrow> sched \<Rightarrow> int option" where
  "existsInThreadList_from i ptr s =
     (if ptr = NULL then Some 0
      else if tid (pthreads s ptr) = i then Some 1
      else existsInThreadList_from i (tnext (pthreads s ptr)) s)"

definition existsInThreadList :: "addr \<Rightarrow> sched \<Rightarrow> int option" where
  "existsInThreadList thread s = existsInThreadList_from (tid (pthreads s thread)) (threadsHead s) s"

section \<open>Maintenance\<close>

text \<open>The inner loop that empties \<open>runQ[i+1]\<close> into \<open>promotionQ[i]\<close>, counting.\<close>

partial_function (option) drain :: "int \<Rightarrow> nat \<Rightarrow> nat \<Rightarrow> sched \<Rightarrow> (nat \<times> sched) option" where
  "drain currTime i n s =
     (case deQ (runQ s (i + 1)) s of
        None \<Rightarrow> None
      | Some (ptr, s) \<Rightarrow>
          if ptr = NULL then Some (n, s)
          else (case insertByTime (promotionQ s i) ptr
                  (upd_node ptr (runtime_update (\<lambda>_. of_int (currTime - timeCreated (nodes s ptr)) / of_int CLOCKS_PER_SEC)) s) of
                  None \<Rightarrow> None
                | Some s \<Rightarrow> drain currTime i (Suc n) s))"

text \<open>\<open>k\<close> times: take the head of \<open>promotionQ[i]\<close>, if any, and append it to \<open>runQ[lvl]\<close>.\<close>

primrec promote :: "nat \<Rightarrow> nat \<Rightarrow> nat \<Rightarrow> sched \<Rightarrow> sched option" where
  "promote i lvl 0 s = Some s"
| "promote i lvl (Suc k) s =
     (case deQ (promotionQ s i) s of
        None \<Rightarrow> None
      | Some (ptr, s) \<Rightarrow>
          (case (if ptr \<noteq> NULL then enQ (runQ s lvl) ptr s else Some s) of
             None \<Rightarrow> None
           | Some s \<Rightarrow> promote i lvl k s))"

text \<open>The loop \<open>for (j = i + 2; j > 0; j--)\<close> for a queue that held \<open>c\<close> nodes.\<close>

primrec promote_levels :: "nat \<Rightarrow> nat \<Rightarrow> nat \<Rightarrow> sched \<Rightarrow> sched option" where
  "promote_levels i c 0 s = Some s"
| "promote_levels i c (Suc j) s =
     (case promote i j (if Suc j > 1 then c div (i + 2) else c - (c div (i + 2)) * (i + 1)) s of
        None \<Rightarrow> None
      | Some s \<Rightarrow> promote_levels i c j s)"

fun drain_all :: "int \<Rightarrow> nat list \<Rightarrow> sched \<Rightarrow> (nat list \<times> sched) option" where
  "drain_all t [] s = Some ([], s)"
| "drain_all t (i # is) s = do {
     (n, s) \<leftarrow> drain t i 0 s;
     (ns, s) \<leftarrow> drain_all t is s;
     Some (n # ns, s)
   }"

fun promote_all :: "(nat \<times> nat) list \<Rightarrow> sched \<Rightarrow> sched option" where
  "promote_all [] s = Some s"
| "promote_all ((i, c) # ics) s = do { s \<leftarrow> promote_levels i c (i + 2) s; promote_all ics s }"

definition maintenance :: "sched \<Rightarrow> sched option" where
  "maintenance s =
     (if \<not> lib_room s then None
      else do {
        (arr, s) \<leftarrow> drain_all (now s) [0..<RUN_QUEUE_SIZE - 1] (lib_request s);
        s \<leftarrow> promote_all (zip [0..<RUN_QUEUE_SIZE - 1] arr) s;
        Some (lib_request s)
      })"

section \<open>Scheduling\<close>

definition protectAllPages :: "int \<Rightarrow> sched \<Rightarrow> sched" where
  "protectAllPages t s =
     s\<lparr>prot := (\<lambda>i. if i < length (pages s) \<and> getPageThID (pages s ! i) = word_of_int t then False else prot s i)\<rparr>"

definition freePages :: "sched \<Rightarrow> sched" where
  "freePages s =
     (let t = tid (pthreads s (threadID (nodes s (current s))))
      in s\<lparr>prot := (\<lambda>i. if i < length (pages s) \<and> getPageThID (pages s ! i) = word_of_int t then True else prot s i),
           pages := map (\<lambda>pg. if getPageThID pg = word_of_int t then setPageIsF pg 1 else pg) (pages s)\<rparr>)"

text \<open>The loop over the join list when a thread with id \<open>i\<close> has died.\<close>

partial_function (option) wake :: "int \<Rightarrow> addr \<Rightarrow> sched \<Rightarrow> sched option" where
  "wake i jptr s =
     (if jptr = NULL then Some s
      else if joinee (nodes s jptr) = NULL then None
      else if tid (pthreads s (joinee (nodes s jptr))) = i
      then (case removeFromList (threadID (nodes s jptr)) s of
              None \<Rightarrow> None
            | Some (ret, s) \<Rightarrow>
                if ret = NULL then None
                else (case runQ_at s (priority (nodes s ret)) of
                        None \<Rightarrow> None
                      | Some q \<Rightarrow> (case enQ q ret s of None \<Rightarrow> None | Some s \<Rightarrow> wake i (joinHead s) s)))
      else wake i (nnext (nodes s jptr)) s)"

text \<open>What happens to the node that was running, by its status.\<close>

definition requeue :: "sched \<Rightarrow> sched option" where
  "requeue s =
     (let c = current s
      in if c = NULL then None
         else case status (nodes s c) of
           YIELDING \<Rightarrow> do {
             q \<leftarrow> runQ_at s (priority (nodes s c));
             s \<leftarrow> enQ q c s;
             Some (upd_node c (status_update (\<lambda>_. NEUTRAL)) s)
           }
         | EXITING \<Rightarrow> do {
             s \<leftarrow> threadDied (threadID (nodes s c)) s;
             s \<leftarrow> wake (tid (pthreads s (threadID (nodes s c)))) (joinHead s) s;
             Some (freePages s)
           }
         | JOINING \<Rightarrow> insertToList c s
         | NEUTRAL \<Rightarrow> demoteNode c s)"

definition dispatch :: "sched \<Rightarrow> sched option" where
  "dispatch s =
     (let justRun = current s
      in do {
        (nextNode, s) \<leftarrow> getNextNode s;
        if nextNode = NULL then Some s
        else let s = s\<lparr>current := nextNode\<rparr>;
                 s = s\<lparr>timer := (timer s)\<lparr>val_usec := QUANTA_TIME * 1000 * (priority (nodes s nextNode) + 1)\<rparr>\<rparr>;
                 s = setitimer (timer s) s;
                 t = threadID (nodes s nextNode); t' = threadID (nodes s justRun)
             in if t = NULL \<or> t' = NULL then None
                else if tid (pthreads s t) \<noteq> tid (pthreads s t')
                then Some ((protectAllPages (tid (pthreads s t')) s)\<lparr>ctx := ut (nodes s nextNode)\<rparr>)
                else Some s
      })"

definition schedule :: "sched \<Rightarrow> sched option" where
  "schedule s = do {
     let s = pause_timer s;
     let s = s\<lparr>cycles := cycles s + 1\<rparr>;
     s \<leftarrow> (if cycles s > 100 then maintenance (s\<lparr>cycles := 0\<rparr>) else Some s);
     s \<leftarrow> requeue s;
     dispatch s
   }"

definition timerHandler :: "sched \<Rightarrow> sched option" where
  "timerHandler s = schedule (s\<lparr>timer := (timer s)\<lparr>val_usec := 0\<rparr>\<rparr>)"

text \<open>\<open>scd->current->status = st\<close> between pausing and resuming the timer.\<close>

definition mark_current :: "STATUS \<Rightarrow> sched \<Rightarrow> sched option" where
  "mark_current st s =
     (let s = pause_timer s
      in if current s = NULL then None
         else Some (unpause_timer (upd_node (current s) (status_update (\<lambda>_. st)) s)))"

definition terminationHandler :: "sched \<Rightarrow> sched option" where
  "terminationHandler s = do { s \<leftarrow> mark_current EXITING s; schedule s }"

section \<open>The library's entry points\<close>

text \<open>\<open>a k\<close> is the address the \<open>k\<close>-th allocation of \<open>initialize\<close> returned.\<close>

definition alloc_fails :: "(nat \<Rightarrow> addr) \<Rightarrow> bool" where
  "alloc_fails a \<longleftrightarrow> (\<exists>k \<in> set [0..<18]. k \<noteq> 14 \<and> a k = NULL)"

definition init_queues :: "(nat \<Rightarrow> addr) \<Rightarrow> (addr \<Rightarrow> queue) \<Rightarrow> addr \<Rightarrow> queue" where
  "init_queues a f q =
     (if q \<in> set (map (\<lambda>i. a (2 * i + 1)) [0..<5])
      then \<lparr>head = NULL, rear = NULL, priorityLevel = int (the (find (\<lambda>i. a (2 * i + 1) = q) [0..<5]))\<rparr>
      else if q \<in> set (map (\<lambda>i. a (2 * i + 2)) [0..<4])
      then \<lparr>head = NULL, rear = NULL, priorityLevel = int (the (find (\<lambda>i. a (2 * i + 2) = q) [0..<4]))\<rparr>
      else f q)"

definition initialize :: "(nat \<Rightarrow> addr) \<Rightarrow> sched \<Rightarrow> sched option" where
  "initialize a s =
     (if alloc_fails a then None
      else do {
        let s = s\<lparr>scd_up := True, start_time := now s,
          runQ := (\<lambda>i. if i < 5 then a (2 * i + 1) else runQ s i),
          promotionQ := (\<lambda>i. if i < 4 then a (2 * i + 2) else promotionQ s i),
          queues := init_queues a (queues s),
          timer := timer_junk s, joinHead := NULL, threadsHead := NULL, threadNum := 2,
          termHandler := a 13, cycles := 0\<rparr>;
        let s = upd_thread (a 16) (\<lambda>t. t\<lparr>tid := 1, isDead := 0, exitArg := NULL, tnext := NULL, pageNum := mainPageNum s\<rparr>) s;
        s \<leftarrow> createNode (a 17) (a 15) (a 16) s;
        let s = s\<lparr>current := a 17, ctx := a 15, timerSet := True,
          timer := (timer s)\<lparr>val_usec := QUANTA_TIME * 1000\<rparr>\<rparr>;
        Some (setitimer (timer s) s)
      })"

text \<open>
  \<open>newCxt\<close>, \<open>stack\<close> and \<open>newNode\<close> are the addresses the three allocations of
  \<open>my_pthread_create\<close> returned (\<open>NULL\<close> for failure).
\<close>

definition my_pthread_create :: "(nat \<Rightarrow> addr) \<Rightarrow> addr \<Rightarrow> addr \<Rightarrow> addr \<Rightarrow> addr \<Rightarrow> sched \<Rightarrow> (int \<times> sched) option" where
  "my_pthread_create a newCxt stack newNode thread s = do {
     s \<leftarrow> (if scd_up s then Some s else initialize a s);
     let s = lib_request (pause_timer s);
     if newCxt = NULL then Some (1, unpause_timer s)
     else if stack = NULL then Some (1, unpause_timer (lib_request s))
     else if thread = NULL then None
     else do {
       let s = lib_request s;
       let s = upd_thread thread (\<lambda>t. t\<lparr>tid := threadNum s, isDead := 0, exitArg := NULL, pageNum := 0, tnext := NULL\<rparr>) s;
       let s = s\<lparr>threadNum := threadNum s + 1\<rparr>;
       s \<leftarrow> addThread thread s;
       s \<leftarrow> createNode newNode newCxt thread s;
       s \<leftarrow> enQ (runQ s 0) newNode s;
       Some (0, unpause_timer s)
     }
   }"

definition my_pthread_yield :: "sched \<Rightarrow> sched option" where
  "my_pthread_yield s =
     (if \<not> scd_up s then Some s else do { s \<leftarrow> mark_current YIELDING s; schedule s })"

definition my_pthread_exit :: "addr \<Rightarrow> sched \<Rightarrow> sched option" where
  "my_pthread_exit value_ptr s =
     (if \<not> scd_up s then Some s
      else let s = pause_timer s
      in if current s = NULL \<or> threadID (nodes s (current s)) = NULL then None
         else let s = upd_node (current s) (status_update (\<lambda>_. EXITING)) s;
                  s = upd_thread (threadID (nodes s (current s))) (exitArg_update (\<lambda>_. value_ptr)) s
              in schedule (unpause_timer s))"

text \<open>
  A join either returns at once (\<open>Returned\<close> the result and what \<open>*value_ptr\<close> gets) or gives up the
  processor; \<open>Waiting ptr\<close> is then the state after \<open>schedule\<close> and the joined thread, and
  \<open>join_resume\<close> the rest of the function, once the caller runs again.
\<close>

datatype join_result = Returned int "addr option" sched | Waiting addr sched

partial_function (option) find_thread :: "int \<Rightarrow> addr \<Rightarrow> sched \<Rightarrow> addr option" where
  "find_thread i ptr s =
     (if ptr = NULL then Some NULL
      else if tid (pthreads s ptr) = i then Some ptr
      else find_thread i (tnext (pthreads s ptr)) s)"

definition my_pthread_join :: "int \<Rightarrow> sched \<Rightarrow> join_result option" where
  "my_pthread_join i s =
     (if \<not> scd_up s then Some (Returned 1 None s)
      else let s = pause_timer s
      in do {
        ptr \<leftarrow> find_thread i (threadsHead s) s;
        if ptr = NULL then Some (Returned 1 None (unpause_timer s))
        else if isDead (pthreads s ptr) = 1 then Some (Returned 0 (Some (exitArg (pthreads s ptr))) (unpause_timer s))
        else if current s = NULL then None
        else do {
          s \<leftarrow> schedule (unpause_timer (upd_node (current s) (\<lambda>n. n\<lparr>status := JOINING, joinee := ptr\<rparr>) s));
          Some (Waiting ptr s)
        }
      })"

definition join_resume :: "addr \<Rightarrow> sched \<Rightarrow> int \<times> addr \<times> sched" where
  "join_resume ptr s = (0, exitArg (pthreads s ptr), unpause_timer (pause_timer s))"

end
