(* ===== verification/PtQueues.thy ===== *)
theory PtQueues
  imports PtSched
begin

text \<open>
  The pointer structures of the scheduler as lists: each run queue, promotion queue and the join
  list is a list of node addresses, no node is in two of them, and the queue operations are the list
  operations.  The locale \<open>fifo\<close> is the contract of a family of queues; the scheduler's queues are
  an interpretation.
\<close>

section \<open>Linked lists\<close>

fun llist :: "(addr \<Rightarrow> addr) \<Rightarrow> addr \<Rightarrow> addr list \<Rightarrow> bool" where
  "llist nx p [] \<longleftrightarrow> p = NULL"
| "llist nx p (x # xs) \<longleftrightarrow> p = x \<and> x \<noteq> NULL \<and> llist nx (nx x) xs"

lemma llist_cong [heap_simps]: "(\<And>x. x \<in> set xs \<Longrightarrow> nx x = nx' x) \<Longrightarrow> llist nx p xs = llist nx' p xs"
  by (induction xs arbitrary: p) auto

lemma llist_append:
  "llist nx p (xs @ [y]) \<Longrightarrow> n \<noteq> NULL \<Longrightarrow> n \<notin> set (xs @ [y]) \<Longrightarrow> distinct (xs @ [y]) \<Longrightarrow>
    llist (nx(y := n, n := NULL)) p (xs @ [y, n])"
proof (induction xs arbitrary: p)
  case Nil
  then show ?case by auto
next
  case (Cons x xs)
  then show ?case by auto
qed

lemma llist_Null: "llist nx NULL xs \<longleftrightarrow> xs = []"
  by (cases xs) auto

lemma llist_not_Null: "llist nx p xs \<Longrightarrow> NULL \<notin> set xs"
  by (induction xs arbitrary: p) auto

lemma llist_head: "llist nx p xs \<Longrightarrow> p \<noteq> NULL \<Longrightarrow> xs \<noteq> [] \<and> hd xs = p"
  by (cases xs) auto

text \<open>Where the rest of a list starts, and splicing a node in or out.\<close>

lemma llist_rest: "llist nx h (xs @ ys) \<Longrightarrow> llist nx (if xs = [] then h else nx (last xs)) ys"
proof (induction xs arbitrary: h)
  case (Cons x xs)
  then show ?case using Cons.IH [of "nx x"] by (cases xs) auto
qed simp

lemma llist_splice:
  assumes "llist nx h (xs @ ys)" "llist nx' r ys'" "\<And>x. x \<in> set (butlast xs) \<Longrightarrow> nx' x = nx x" "xs \<noteq> [] \<Longrightarrow> nx' (last xs) = r"
  shows "llist nx' (if xs = [] then r else h) (xs @ ys')"
  using assms
proof (induction xs arbitrary: h)
  case (Cons x xs)
  show ?case
  proof (cases "xs = []")
    case True
    then show ?thesis using Cons.prems by auto
  next
    case False
    then have "nx' x = nx x" using Cons.prems(3) by simp
    moreover have "llist nx' (nx x) (xs @ ys')" using Cons.IH [of "nx x"] Cons.prems False by simp
    ultimately show ?thesis using Cons.prems(1) by auto
  qed
qed simp

lemma llist_insert:
  assumes "llist nx h (xs @ ys)" "distinct (xs @ ys)" "n \<noteq> NULL" "n \<notin> set (xs @ ys)"
  defines "r \<equiv> (if xs = [] then h else nx (last xs))"
  shows "llist (\<lambda>x. if xs \<noteq> [] \<and> x = last xs then n else if x = n then r else nx x) (if xs = [] then n else h) (xs @ n # ys)"
proof (rule llist_splice [OF assms(1)])
  let ?nx = "\<lambda>x. if xs \<noteq> [] \<and> x = last xs then n else if x = n then r else nx x"
  have "llist ?nx r ys = llist nx r ys" by (rule llist_cong) (use assms(2,4) last_in_set in \<open>auto dest!: last_in_set\<close>)
  then show "llist ?nx n (n # ys)" using llist_rest [OF assms(1)] assms(3,4) last_in_set [of xs] by (auto simp: r_def)
  show "?nx x = nx x" if "x \<in> set (butlast xs)" for x
  proof -
    have "x \<noteq> last xs" using that assms(2) by (metis append_butlast_last_id butlast.simps(1) distinct_append disjoint_iff empty_iff list.set(1) list.set_intros(1))
    then show ?thesis using that assms(4) in_set_butlastD by fastforce
  qed
qed simp

lemma llist_delete:
  assumes "llist nx h (xs @ y # ys)" "distinct (xs @ y # ys)"
  shows "llist (\<lambda>x. if x = y then NULL else if xs \<noteq> [] \<and> x = last xs then nx y else nx x) (if xs = [] then nx y else h) (xs @ ys)"
proof (rule llist_splice [OF assms(1)])
  let ?nx = "\<lambda>x. if x = y then NULL else if xs \<noteq> [] \<and> x = last xs then nx y else nx x"
  have "llist nx (nx y) ys" using llist_rest [OF assms(1)] by simp
  moreover have "llist ?nx (nx y) ys = llist nx (nx y) ys" by (rule llist_cong) (use assms(2) in \<open>auto dest!: last_in_set\<close>)
  ultimately show "llist ?nx (nx y) ys" by simp
  show "?nx x = nx x" if "x \<in> set (butlast xs)" for x
  proof -
    have "x \<noteq> last xs" using that assms(2) by (metis append_butlast_last_id butlast.simps(1) distinct_append disjoint_iff empty_iff list.set(1) list.set_intros(1))
    then show ?thesis using that assms(2) in_set_butlastD by fastforce
  qed
  show "xs \<noteq> [] \<Longrightarrow> ?nx (last xs) = nx y" using assms(2) last_in_set [of xs] by auto
qed

section \<open>Queues\<close>

abbreviation nx_of :: "sched \<Rightarrow> addr \<Rightarrow> addr" where
  "nx_of s \<equiv> \<lambda>p. nnext (nodes s p)"

definition qlist :: "sched \<Rightarrow> addr \<Rightarrow> addr list \<Rightarrow> bool" where
  "qlist s q xs \<longleftrightarrow> q \<noteq> NULL \<and> llist (nx_of s) (head (queues s q)) xs \<and>
     rear (queues s q) = (if xs = [] then NULL else last xs)"

datatype place = Run nat | Prom nat | Join

fun qplace :: "place \<Rightarrow> bool" where
  "qplace (Run i) \<longleftrightarrow> i < RUN_QUEUE_SIZE"
| "qplace (Prom i) \<longleftrightarrow> Suc i < RUN_QUEUE_SIZE"
| "qplace Join \<longleftrightarrow> False"

fun qaddr :: "sched \<Rightarrow> place \<Rightarrow> addr" where
  "qaddr s (Run i) = runQ s i"
| "qaddr s (Prom i) = promotionQ s i"
| "qaddr s Join = NULL"

text \<open>\<open>L\<close> says which nodes are where.\<close>

type_synonym layout = "place \<Rightarrow> addr list"

definition apart :: "layout \<Rightarrow> bool" where
  "apart L \<longleftrightarrow> (\<forall>p. distinct (L p)) \<and> (\<forall>p p'. p \<noteq> p' \<longrightarrow> set (L p) \<inter> set (L p') = {}) \<and>
     (\<forall>p. \<not> qplace p \<and> p \<noteq> Join \<longrightarrow> L p = [])"

definition sys :: "sched \<Rightarrow> layout \<Rightarrow> bool" where
  "sys s L \<longleftrightarrow> apart L \<and> (\<forall>p. qplace p \<longrightarrow> qlist s (qaddr s p) (L p)) \<and>
     (\<forall>i < RUN_QUEUE_SIZE. priorityLevel (queues s (runQ s i)) = int i) \<and>
     (\<forall>p p'. qplace p \<and> qplace p' \<and> qaddr s p = qaddr s p' \<longrightarrow> p = p') \<and>
     llist (nx_of s) (joinHead s) (L Join)"

definition everyone :: "layout \<Rightarrow> addr set" where
  "everyone L = (\<Union>p. set (L p))"

text \<open>
  What the list operations leave alone: everything but link fields, queue ends and the priority of
  the node \<open>n\<close> that moves.
\<close>

definition moved :: "addr \<Rightarrow> sched \<Rightarrow> sched \<Rightarrow> bool" where
  "moved n s s' \<longleftrightarrow> s' = s\<lparr>nodes := nodes s', queues := queues s', joinHead := joinHead s'\<rparr> \<and>
     (\<forall>x. nodes s' x = (nodes s x)\<lparr>nnext := nnext (nodes s' x), priority := priority (nodes s' x)\<rparr>) \<and>
     (\<forall>x. x \<noteq> n \<and> x \<noteq> NULL \<longrightarrow> priority (nodes s' x) = priority (nodes s x))"

lemma upd_node_simps [simp]:
  "nodes (upd_node p f s) = (nodes s)(p := f (nodes s p))" "queues (upd_node p f s) = queues s"
  "pthreads (upd_node p f s) = pthreads s" "runQ (upd_node p f s) = runQ s" "promotionQ (upd_node p f s) = promotionQ s"
  "joinHead (upd_node p f s) = joinHead s" "current (upd_node p f s) = current s" "threadsHead (upd_node p f s) = threadsHead s"
  "now (upd_node p f s) = now s" "pages (upd_node p f s) = pages s" "timer (upd_node p f s) = timer s" "cycles (upd_node p f s) = cycles s"
  by (simp_all add: upd_node_def)

lemma upd_queue_simps [simp]:
  "queues (upd_queue p f s) = (queues s)(p := f (queues s p))" "nodes (upd_queue p f s) = nodes s"
  "pthreads (upd_queue p f s) = pthreads s" "runQ (upd_queue p f s) = runQ s" "promotionQ (upd_queue p f s) = promotionQ s"
  "joinHead (upd_queue p f s) = joinHead s" "current (upd_queue p f s) = current s" "threadsHead (upd_queue p f s) = threadsHead s"
  "now (upd_queue p f s) = now s"
  by (simp_all add: upd_queue_def)

lemma qaddr_cong: "runQ s' = runQ s \<Longrightarrow> promotionQ s' = promotionQ s \<Longrightarrow> qaddr s' p = qaddr s p"
  by (cases p) auto

lemma moved_same:
  assumes "moved n s s'"
  shows "runQ s' = runQ s" "promotionQ s' = promotionQ s" "pthreads s' = pthreads s" "current s' = current s"
    "threadsHead s' = threadsHead s" "now s' = now s" "lib_room s' = lib_room s" "cycles s' = cycles s" "timer s' = timer s"
    "pages s' = pages s" "qaddr s' p = qaddr s p"
    "threadID (nodes s' x) = threadID (nodes s x)" "status (nodes s' x) = status (nodes s x)"
    "joinee (nodes s' x) = joinee (nodes s x)" "runtime (nodes s' x) = runtime (nodes s x)"
    "timeCreated (nodes s' x) = timeCreated (nodes s x)" "ut (nodes s' x) = ut (nodes s x)"
    "x \<noteq> n \<Longrightarrow> x \<noteq> NULL \<Longrightarrow> priority (nodes s' x) = priority (nodes s x)"
proof -
  have e: "s' = s\<lparr>nodes := nodes s', queues := queues s', joinHead := joinHead s'\<rparr>"
    and x: "nodes s' x = (nodes s x)\<lparr>nnext := nnext (nodes s' x), priority := priority (nodes s' x)\<rparr>"
    using assms unfolding moved_def by blast+
  show rq: "runQ s' = runQ s" using arg_cong [OF e, of runQ] by simp
  show pq: "promotionQ s' = promotionQ s" using arg_cong [OF e, of promotionQ] by simp
  show "pthreads s' = pthreads s" using arg_cong [OF e, of pthreads] by simp
  show "current s' = current s" using arg_cong [OF e, of current] by simp
  show "threadsHead s' = threadsHead s" using arg_cong [OF e, of threadsHead] by simp
  show "now s' = now s" using arg_cong [OF e, of now] by simp
  show "lib_room s' = lib_room s" using arg_cong [OF e, of lib_room] by simp
  show "cycles s' = cycles s" using arg_cong [OF e, of cycles] by simp
  show "timer s' = timer s" using arg_cong [OF e, of timer] by simp
  show "pages s' = pages s" using arg_cong [OF e, of pages] by simp
  show "qaddr s' p = qaddr s p" using rq pq by (rule qaddr_cong)
  show "threadID (nodes s' x) = threadID (nodes s x)" using arg_cong [OF x, of threadID] by simp
  show "status (nodes s' x) = status (nodes s x)" using arg_cong [OF x, of status] by simp
  show "joinee (nodes s' x) = joinee (nodes s x)" using arg_cong [OF x, of joinee] by simp
  show "runtime (nodes s' x) = runtime (nodes s x)" using arg_cong [OF x, of runtime] by simp
  show "timeCreated (nodes s' x) = timeCreated (nodes s x)" using arg_cong [OF x, of timeCreated] by simp
  show "ut (nodes s' x) = ut (nodes s x)" using arg_cong [OF x, of ut] by simp
  show "x \<noteq> n \<Longrightarrow> x \<noteq> NULL \<Longrightarrow> priority (nodes s' x) = priority (nodes s x)" using assms unfolding moved_def by blast
qed

lemma moved_weaken: "moved NULL s s' \<Longrightarrow> moved n s s'"
  by (simp add: moved_def)

text \<open>One list changes, the nodes whose links change are in that list: the layout follows.\<close>

lemma sys_change:
  assumes s: "sys s L" and m: "moved n s s'" and p: "qplace p \<or> p = Join"
    and ap: "apart (L(p := xs))"
    and here: "qplace p \<Longrightarrow> qlist s' (qaddr s p) xs \<and> joinHead s' = joinHead s" "p = Join \<Longrightarrow> llist (nx_of s') (joinHead s') xs"
    and others: "\<And>q. q \<noteq> qaddr s p \<or> \<not> qplace p \<Longrightarrow> queues s' q = queues s q"
    and lvl: "priorityLevel (queues s' (qaddr s p)) = priorityLevel (queues s (qaddr s p))"
    and links: "\<And>p' x. p' \<noteq> p \<Longrightarrow> x \<in> set (L p') \<Longrightarrow> nnext (nodes s' x) = nnext (nodes s x)"
  shows "sys s' (L(p := xs))"
proof -
  note ms = moved_same [OF m]
  have q: "qlist s' (qaddr s' p') ((L(p := xs)) p')" if "qplace p'" for p'
  proof (cases "p' = p")
    case True
    then show ?thesis using here(1) that by (simp add: ms)
  next
    case False
    have "qaddr s p' \<noteq> qaddr s p \<or> \<not> qplace p" using s that False by (auto simp: sys_def)
    then have "queues s' (qaddr s p') = queues s (qaddr s p')" by (rule others)
    moreover have "qlist s (qaddr s p') (L p')" using s that by (simp add: sys_def)
    moreover have "llist (nx_of s') h (L p') = llist (nx_of s) h (L p')" for h
      using links [OF False] by (intro llist_cong) simp
    ultimately show ?thesis using False by (simp add: qlist_def ms)
  qed
  have j: "llist (nx_of s') (joinHead s') ((L(p := xs)) Join)"
  proof (cases "p = Join")
    case True
    then show ?thesis using here(2) by simp
  next
    case False
    then have "llist (nx_of s') h (L Join) = llist (nx_of s) h (L Join)" for h
      using links [of Join] by (intro llist_cong) simp
    then show ?thesis using False p here(1) s by (simp add: sys_def)
  qed
  have "priorityLevel (queues s' (runQ s i)) = priorityLevel (queues s (runQ s i))" for i
    using others [of "runQ s i"] lvl by (cases "runQ s i = qaddr s p") auto
  then show ?thesis using s q j ap by (simp add: sys_def ms)
qed

section \<open>The queue operations on the layout\<close>

lemma apart_append: "apart L \<Longrightarrow> qplace p \<or> p = Join \<Longrightarrow> n \<notin> everyone L \<Longrightarrow> apart (L(p := L p @ [n]))"
  by (auto simp: apart_def everyone_def)

lemma apart_cons: "apart L \<Longrightarrow> qplace p \<or> p = Join \<Longrightarrow> n \<notin> everyone L \<Longrightarrow> apart (L(p := n # L p))"
  by (auto simp: apart_def everyone_def)

lemma apart_elsewhere: "apart L \<Longrightarrow> x \<in> set (L p) \<Longrightarrow> x \<in> set (L p') \<Longrightarrow> p' = p"
  unfolding apart_def by blast

lemma apart_shrink:
  assumes "apart L" "distinct zs" "set zs \<subseteq> set (L p)"
  shows "apart (L(p := zs))"
proof -
  have sub: "set ((L(p := zs)) q) \<subseteq> set (L q)" for q using assms(3) by simp
  show ?thesis unfolding apart_def
  proof (intro conjI allI impI)
    fix q
    show "distinct ((L(p := zs)) q)" using assms(1,2) by (simp add: apart_def)
    show "(L(p := zs)) q = []" if "\<not> qplace q \<and> q \<noteq> Join" using sub [of q] assms(1) that by (simp add: apart_def)
  next
    fix q q' :: place assume "q \<noteq> q'"
    then have "set (L q) \<inter> set (L q') = {}" using assms(1) by (simp add: apart_def)
    then show "set ((L(p := zs)) q) \<inter> set ((L(p := zs)) q') = {}" using sub [of q] sub [of q'] by blast
  qed
qed

lemma apart_remove:
  assumes "apart L" "L p = xs @ x # ys"
  shows "apart (L(p := xs @ ys))"
proof -
  have "distinct (xs @ x # ys)" using assms unfolding apart_def by metis
  then show ?thesis using assms(2) by (intro apart_shrink [OF assms(1)]) auto
qed

lemma everyone_split: "everyone L = set (L p) \<union> (\<Union>p' \<in> - {p}. set (L p'))"
  by (auto simp: everyone_def)

lemma everyone_upd: "everyone (L(p := xs)) = set xs \<union> (\<Union>p' \<in> - {p}. set (L p'))"
  by (auto simp: everyone_def split: if_splits)

lemma everyone_append: "everyone (L(p := L p @ [n])) = insert n (everyone L)"
  by (auto simp: everyone_def split: if_splits)

lemma everyone_cons: "everyone (L(p := n # L p)) = insert n (everyone L)"
  by (auto simp: everyone_def split: if_splits)

lemma everyone_remove:
  assumes "apart L" "L p = xs @ x # ys"
  shows "everyone (L(p := xs @ ys)) = everyone L - {x}" "x \<in> everyone L"
proof -
  have d: "distinct (xs @ x # ys)" using assms unfolding apart_def by metis
  have "x \<notin> set (L p')" if "p' \<noteq> p" for p' using apart_elsewhere [OF assms(1), of x p p'] assms(2) that by auto
  then have "x \<notin> (\<Union>p' \<in> - {p}. set (L p'))" by auto
  then show "everyone (L(p := xs @ ys)) = everyone L - {x}"
    using d unfolding everyone_upd everyone_split [of L p] assms(2) by auto
  show "x \<in> everyone L" using assms(2) by (auto simp: everyone_def intro!: exI [of _ p])
qed

lemma in_everyone: "x \<in> set (L p) \<Longrightarrow> x \<in> everyone L"
  by (auto simp: everyone_def)

lemma sys_apart: "sys s L \<Longrightarrow> apart L"
  by (simp add: sys_def)

lemma sys_qlist: "sys s L \<Longrightarrow> qplace p \<Longrightarrow> qlist s (qaddr s p) (L p)"
  by (simp add: sys_def)

lemma sys_Null: "sys s L \<Longrightarrow> NULL \<notin> everyone L"
proof
  assume s: "sys s L" and "NULL \<in> everyone L"
  then obtain p where p: "NULL \<in> set (L p)" by (auto simp: everyone_def)
  then have "qplace p \<or> p = Join" using sys_apart [OF s] by (cases "qplace p \<or> p = Join") (auto simp: apart_def)
  then obtain h where "llist (nx_of s) h (L p)" using s by (auto simp: sys_def qlist_def)
  then show False using p llist_not_Null by blast
qed

lemma enQ_sys:
  assumes s: "sys s L" and p: "qplace p" and n: "n \<noteq> NULL" "n \<notin> everyone L"
  obtains s' where "enQ (qaddr s p) n s = Some s'" "sys s' (L(p := L p @ [n]))" "moved n s s'"
    "priority (nodes s' n) = (if status (nodes s n) = YIELDING \<and> L p \<noteq> [] then priority (nodes s n) else priorityLevel (queues s (qaddr s p)))"
proof -
  let ?q = "qaddr s p"
  note ql = sys_qlist [OF s p]
  have q: "?q \<noteq> NULL" using ql by (simp add: qlist_def)
  note ap = apart_append [OF sys_apart [OF s] disjI1 [OF p] n(2)]
  have notin: "n \<notin> set (L p')" for p' using n(2) by (auto simp: everyone_def)
  show thesis
  proof (cases "L p = []")
    case True
    then have h: "head (queues s ?q) = NULL" using ql by (simp add: qlist_def)
    let ?s = "upd_node n (\<lambda>m. m\<lparr>nnext := NULL, priority := priorityLevel (queues s ?q)\<rparr>) (upd_queue ?q (\<lambda>u. u\<lparr>head := n, rear := n\<rparr>) s)"
    have m: "moved n s ?s" by (simp add: moved_def upd_node_def upd_queue_def)
    have "sys ?s (L(p := L p @ [n]))"
      by (rule sys_change [OF s m disjI1 [OF p] ap]) (use p True n q notin in \<open>auto simp: qlist_def\<close>)
    moreover have "enQ ?q n s = Some ?s" using q n(1) h by (simp add: enQ_def Let_def)
    ultimately show thesis using m True by (intro that) auto
  next
    case False
    then obtain ys y where L: "L p = ys @ [y]" by (metis rev_exhaust)
    have "llist (nx_of s) (head (queues s ?q)) (ys @ [y])" "rear (queues s ?q) = y" using ql L by (auto simp: qlist_def)
    moreover from this(1) have "head (queues s ?q) \<noteq> NULL" using llist_Null [of "nx_of s" "ys @ [y]"] by (metis snoc_eq_iff_butlast)
    ultimately have h: "head (queues s ?q) \<noteq> NULL" "rear (queues s ?q) = y" "llist (nx_of s) (head (queues s ?q)) (ys @ [y])"
      by simp_all
    have y: "y \<noteq> NULL" "y \<noteq> n" using llist_not_Null [OF h(3)] L notin [of p] by auto
    let ?f = "\<lambda>m :: node. m\<lparr>nnext := NULL, priority := (if status m \<noteq> YIELDING then priorityLevel (queues s ?q) else priority m)\<rparr>"
    let ?s = "upd_node n ?f (upd_queue ?q (rear_update (\<lambda>_. n)) (upd_node y (nnext_update (\<lambda>_. n)) s))"
    have run: "enQ ?q n s = Some ?s"
      using q n(1) h(1,2) y by (auto simp: enQ_def Let_def upd_node_def upd_queue_def fun_eq_iff)
    have m: "moved n s ?s" using y by (simp add: moved_def upd_node_def upd_queue_def)
    have "distinct (ys @ [y])" using sys_apart [OF s] L by (metis apart_def)
    then have "llist ((nx_of s)(y := n, n := NULL)) (head (queues s ?q)) (ys @ [y, n])"
      using llist_append [OF h(3) n(1)] notin [of p] L by simp
    moreover have "nx_of ?s = (nx_of s)(y := n, n := NULL)" using y by (simp add: fun_eq_iff)
    ultimately have ql': "qlist ?s ?q (L p @ [n])" using q L by (simp add: qlist_def)
    have links: "nnext (nodes ?s x) = nnext (nodes s x)" if "p' \<noteq> p" "x \<in> set (L p')" for p' x
    proof -
      have "x \<noteq> y" using that L sys_apart [OF s] unfolding apart_def by (metis IntI emptyE in_set_conv_decomp)
      moreover have "x \<noteq> n" using notin that by blast
      ultimately show ?thesis by simp
    qed
    have "sys ?s (L(p := L p @ [n]))"
      by (rule sys_change [OF s m disjI1 [OF p] ap]) (use p ql' links in auto)
    then show thesis using run m False y by (intro that) auto
  qed
qed

lemma deQ_empty: "sys s L \<Longrightarrow> qplace p \<Longrightarrow> L p = [] \<Longrightarrow> deQ (qaddr s p) s = Some (NULL, s)"
  using sys_qlist [of s L p] by (simp add: qlist_def deQ_def)

lemma deQ_sys:
  assumes s: "sys s L" and p: "qplace p" and L: "L p = x # xs"
  obtains s' where "deQ (qaddr s p) s = Some (x, s')" "sys s' (L(p := xs))" "moved NULL s s'"
proof -
  let ?q = "qaddr s p"
  have q: "?q \<noteq> NULL" and h: "head (queues s ?q) = x" "x \<noteq> NULL" "llist (nx_of s) (nnext (nodes s x)) xs"
    and r: "rear (queues s ?q) = last (x # xs)"
    using sys_qlist [OF s p] L by (auto simp: qlist_def)
  let ?h = "nnext (nodes s x)"
  let ?s = "upd_node x (nnext_update (\<lambda>_. NULL)) (upd_queue ?q (\<lambda>u. u\<lparr>head := ?h, rear := (if ?h = NULL then NULL else rear u)\<rparr>) s)"
  have run: "deQ ?q s = Some (x, ?s)"
    using q h by (auto simp: deQ_def Let_def upd_node_def upd_queue_def fun_eq_iff)
  have m: "moved NULL s ?s" by (simp add: moved_def upd_node_def upd_queue_def)
  note ap = apart_remove [OF sys_apart [OF s], of p "[]" x xs, simplified, OF L]
  have nx: "x \<notin> set xs" using sys_apart [OF s] L by (metis apart_def distinct.simps(2))
  have "llist (nx_of ?s) ?h xs = llist (nx_of s) ?h xs" by (rule llist_cong) (use nx in auto)
  then have ql: "qlist ?s ?q xs" using q h r llist_Null by (cases xs) (auto simp: qlist_def)
  have links: "nnext (nodes ?s y) = nnext (nodes s y)" if "p' \<noteq> p" "y \<in> set (L p')" for p' y
  proof -
    have "y \<noteq> x" using that L sys_apart [OF s] unfolding apart_def by (metis IntI emptyE list.set_intros(1))
    then show ?thesis by simp
  qed
  have "sys ?s (L(p := xs))" by (rule sys_change [OF s m disjI1 [OF p] ap]) (use p ql links in auto)
  then show thesis using run m by (intro that)
qed

section \<open>Ordered insertion\<close>

definition ins_by :: "(addr \<Rightarrow> rat) \<Rightarrow> addr \<Rightarrow> addr list \<Rightarrow> addr list" where
  "ins_by rt n xs = takeWhile (\<lambda>x. \<not> rt x < rt n) xs @ n # dropWhile (\<lambda>x. \<not> rt x < rt n) xs"

lemma ins_by_simps [simp]:
  "ins_by rt n [] = [n]"
  "ins_by rt n (x # xs) = (if rt x < rt n then n # x # xs else x # ins_by rt n xs)"
  by (simp_all add: ins_by_def)

lemma set_ins_by [simp]: "set (ins_by rt n xs) = insert n (set xs)"
  by (induction xs) auto

lemma length_ins_by [simp]: "length (ins_by rt n xs) = Suc (length xs)"
  by (induction xs) auto

text \<open>Longest running first, and stable.\<close>

lemma sorted_ins_by:
  "sorted_wrt (\<lambda>x y. rt y \<le> rt x) xs \<Longrightarrow> sorted_wrt (\<lambda>x y. rt y \<le> rt x) (ins_by rt n xs)"
  by (induction xs) auto

lemma apart_insert:
  assumes "apart L" "qplace p \<or> p = Join" "L p = xs @ ys" "n \<notin> everyone L"
  shows "apart (L(p := xs @ n # ys))"
proof -
  have "distinct (xs @ ys)" using assms(1,3) by (metis apart_def)
  moreover have "n \<notin> set (xs @ ys)" using assms(3,4) in_everyone by metis
  ultimately have d: "distinct (xs @ n # ys)" by auto
  have n: "n \<notin> set (L q)" for q using assms(4) by (auto simp: everyone_def)
  show ?thesis unfolding apart_def
  proof (intro conjI allI impI)
    fix q
    show "distinct ((L(p := xs @ n # ys)) q)" using assms(1) d by (simp add: apart_def)
    show "(L(p := xs @ n # ys)) q = []" if "\<not> qplace q \<and> q \<noteq> Join" using assms(1,2) that by (auto simp: apart_def)
  next
    fix q q' :: place assume q: "q \<noteq> q'"
    have "set (L q) \<inter> set (L q') = {}" using assms(1) q by (simp add: apart_def)
    then show "set ((L(p := xs @ n # ys)) q) \<inter> set ((L(p := xs @ n # ys)) q') = {}"
      using q n [of q] n [of q'] assms(3) by (cases "q = p"; cases "q' = p") auto
  qed
qed

text \<open>One node is linked in between \<open>xs\<close> and \<open>ys\<close>; \<open>s'\<close> has the new links and the new ends.\<close>

lemma sys_insert:
  assumes s: "sys s L" and p: "qplace p" and L: "L p = xs @ ys" and n: "n \<noteq> NULL" "n \<notin> everyone L" and m: "moved NULL s s'"
    and nx: "\<And>x. nnext (nodes s' x) = (if xs \<noteq> [] \<and> x = last xs then n
        else if x = n then (if xs = [] then head (queues s (qaddr s p)) else nnext (nodes s (last xs))) else nnext (nodes s x))"
    and q: "queues s' = (queues s)(qaddr s p := (queues s (qaddr s p))\<lparr>head := (if xs = [] then n else head (queues s (qaddr s p))),
        rear := (if ys = [] then n else rear (queues s (qaddr s p)))\<rparr>)"
    and jh: "joinHead s' = joinHead s"
  shows "sys s' (L(p := xs @ n # ys))"
proof -
  let ?q = "qaddr s p"
  have ql: "?q \<noteq> NULL" "llist (nx_of s) (head (queues s ?q)) (xs @ ys)" "rear (queues s ?q) = (if xs @ ys = [] then NULL else last (xs @ ys))"
    using sys_qlist [OF s p] L by (auto simp: qlist_def)
  have d: "distinct (xs @ ys)" using sys_apart [OF s] L by (metis apart_def)
  have nin: "n \<notin> set (xs @ ys)" using n(2) L by (metis in_everyone)
  have "nx_of s' = (\<lambda>x. if xs \<noteq> [] \<and> x = last xs then n
      else if x = n then (if xs = [] then head (queues s ?q) else nnext (nodes s (last xs))) else nnext (nodes s x))"
    by (rule ext) (rule nx)
  then have "llist (nx_of s') (if xs = [] then n else head (queues s ?q)) (xs @ n # ys)"
    using llist_insert [OF ql(2) d n(1) nin] by simp
  then have "qlist s' ?q (xs @ n # ys)" using ql(1,3) q by (auto simp: qlist_def)
  moreover have "nnext (nodes s' x) = nnext (nodes s x)" if "p' \<noteq> p" "x \<in> set (L p')" for p' x
  proof -
    have "x \<noteq> n" using that(2) n(2) in_everyone by metis
    moreover have "x \<notin> set xs" using that L apart_elsewhere [OF sys_apart [OF s], of x p p'] by auto
    ultimately show ?thesis using nx last_in_set by metis
  qed
  moreover have "apart (L(p := xs @ n # ys))" by (rule apart_insert [OF sys_apart [OF s] disjI1 [OF p] L n(2)])
  ultimately show ?thesis
    using p q jh by (intro sys_change [OF s m disjI1 [OF p]]) auto
qed

lemma insertByTime_from_sys:
  assumes s: "sys s L" and p: "qplace p" and n: "n \<noteq> NULL" "n \<notin> everyone L"
  shows "L p = xs @ ys \<Longrightarrow> xs @ ys \<noteq> [] \<Longrightarrow>
    ptr = (if ys = [] then NULL else hd ys) \<Longrightarrow> prev = (if xs = [] then NULL else last xs) \<Longrightarrow>
    \<exists>s'. insertByTime_from (qaddr s p) n prev ptr s = Some s' \<and>
      sys s' (L(p := xs @ ins_by (\<lambda>x. runtime (nodes s x)) n ys)) \<and> moved NULL s s'"
proof (induction ys arbitrary: xs ptr prev)
  let ?q = "qaddr s p" and ?rt = "\<lambda>x. runtime (nodes s x)"
  note ql = sys_qlist [OF s p, unfolded qlist_def]
  case Nil
  then have r: "rear (queues s ?q) = last xs" "xs \<noteq> []" using ql by auto
  then have "last xs \<in> everyone L" using Nil(1) in_everyone [of "last xs" L p] by simp
  then have y: "last xs \<noteq> NULL" "last xs \<noteq> n" using sys_Null [OF s] n(2) by metis+
  let ?s = "upd_node n (nnext_update (\<lambda>_. NULL)) (upd_queue ?q (rear_update (\<lambda>_. n)) (upd_node (last xs) (nnext_update (\<lambda>_. n)) s))"
  have m: "moved NULL s ?s" using y by (simp add: moved_def upd_node_def upd_queue_def)
  have "nnext (nodes s (last xs)) = NULL"
    using llist_rest [of "nx_of s" "head (queues s ?q)" xs "[]"] ql Nil(1) r(2) by simp
  then have "sys ?s (L(p := xs @ n # []))"
    using r y Nil(1) by (intro sys_insert [OF s p _ n m]) (auto simp: fun_eq_iff)
  then show ?case using m Nil r y n(1) by (subst insertByTime_from.simps) (simp add: Let_def)
next
  let ?q = "qaddr s p" and ?rt = "\<lambda>x. runtime (nodes s x)"
  note ql = sys_qlist [OF s p, unfolded qlist_def]
  case (Cons y ys)
  have rest: "llist (nx_of s) (if xs = [] then head (queues s ?q) else nnext (nodes s (last xs))) (y # ys)"
    using llist_rest ql Cons.prems(1) by fastforce
  then have y: "y \<noteq> NULL" "(if xs = [] then head (queues s ?q) else nnext (nodes s (last xs))) = y" by auto
  have z: "last xs \<noteq> NULL" "last xs \<noteq> n" if "xs \<noteq> []"
  proof -
    have "last xs \<in> everyone L" using that Cons.prems(1) in_everyone [of "last xs" L p] by simp
    then show "last xs \<noteq> NULL" "last xs \<noteq> n" using sys_Null [OF s] n(2) by metis+
  qed
  show ?case
  proof (cases "?rt y < ?rt n")
    case True
    let ?s = "if xs = [] then upd_queue ?q (head_update (\<lambda>_. n)) (upd_node n (nnext_update (\<lambda>_. y)) s)
      else upd_node (last xs) (nnext_update (\<lambda>_. n)) (upd_node n (nnext_update (\<lambda>_. y)) s)"
    have run: "insertByTime_from ?q n prev ptr s = Some ?s"
      using True Cons.prems y(1) z n(1) by (cases "xs = []"; subst insertByTime_from.simps) (simp_all add: Let_def)
    have m: "moved NULL s ?s" by (auto simp: moved_def upd_node_def upd_queue_def)
    have "sys ?s (L(p := xs @ n # y # ys))"
      using y z Cons.prems(1) by (intro sys_insert [OF s p _ n m]) (auto simp: fun_eq_iff)
    moreover have e: "ins_by ?rt n (y # ys) = n # y # ys" using True by simp
    ultimately show ?thesis using run m unfolding e by blast
  next
    case False
    have "nnext (nodes s y) = (if ys = [] then NULL else hd ys)" using rest by (cases ys) auto
    moreover have "insertByTime_from ?q n prev ptr s = insertByTime_from ?q n y (nnext (nodes s y)) s"
      using False Cons.prems y(1) by (subst insertByTime_from.simps) (simp add: Let_def)
    ultimately show ?thesis using Cons.IH [of "xs @ [y]"] Cons.prems False by simp
  qed
qed

lemma insertByTime_sys:
  assumes s: "sys s L" and p: "qplace p" and n: "n \<noteq> NULL" "n \<notin> everyone L"
  obtains s' where "insertByTime (qaddr s p) n s = Some s'"
    "sys s' (L(p := ins_by (\<lambda>x. runtime (nodes s x)) n (L p)))" "moved NULL s s'"
proof (cases "L p = []")
  case True
  let ?q = "qaddr s p"
  have q: "?q \<noteq> NULL" "head (queues s ?q) = NULL" using sys_qlist [OF s p] True by (auto simp: qlist_def)
  let ?s = "upd_node n (nnext_update (\<lambda>_. NULL)) (upd_queue ?q (\<lambda>u. u\<lparr>head := n, rear := n\<rparr>) s)"
  have m: "moved NULL s ?s" by (simp add: moved_def upd_node_def upd_queue_def)
  have "sys ?s (L(p := [] @ n # []))" using q True by (intro sys_insert [OF s p _ n m]) (auto simp: fun_eq_iff)
  then show thesis using m q n(1) True by (intro that) (auto simp: insertByTime_def)
next
  case False
  have q: "qaddr s p \<noteq> NULL" "head (queues s (qaddr s p)) = hd (L p)" "hd (L p) \<noteq> NULL"
    using sys_qlist [OF s p] False by (auto simp: qlist_def neq_Nil_conv)
  then show thesis
    using insertByTime_from_sys [OF s p n, of "[]" "L p" "hd (L p)" NULL] False n(1) that by (auto simp: insertByTime_def)
qed

end
