(* ===== verification/PtFifo.thy ===== *)
theory PtFifo
  imports PtQueues
begin

text \<open>
  A family of first-in first-out queues as an interface (\<open>fifo\<close>), the client facts about it, its
  implementation by \<open>enQ\<close> and \<open>deQ\<close>, and on top of it what \<open>maintenance\<close> does to the run queues.
\<close>

section \<open>The interface\<close>

text \<open>
  \<open>rep s L\<close>: in state \<open>s\<close> the queues hold the items \<open>L\<close>.  \<open>good\<close> are the items that may be
  enqueued, \<open>same\<close> relates states that agree on everything but the queues.
\<close>

locale fifo =
  fixes rep :: "'s \<Rightarrow> ('p \<Rightarrow> 'a list) \<Rightarrow> bool"
    and valid :: "'p \<Rightarrow> bool"
    and good :: "'s \<Rightarrow> 'a \<Rightarrow> bool"
    and nil :: 'a
    and enq :: "'p \<Rightarrow> 'a \<Rightarrow> 's \<Rightarrow> 's option"
    and deq :: "'p \<Rightarrow> 's \<Rightarrow> ('a \<times> 's) option"
    and same :: "'s \<Rightarrow> 's \<Rightarrow> bool"
  assumes enq_ok: "rep s L \<Longrightarrow> valid p \<Longrightarrow> good s x \<Longrightarrow> (\<And>p'. x \<notin> set (L p')) \<Longrightarrow>
      \<exists>s'. enq p x s = Some s' \<and> rep s' (L(p := L p @ [x])) \<and> same s s'"
    and deq_nil: "rep s L \<Longrightarrow> valid p \<Longrightarrow> L p = [] \<Longrightarrow> deq p s = Some (nil, s)"
    and deq_ok: "rep s L \<Longrightarrow> valid p \<Longrightarrow> L p = x # xs \<Longrightarrow>
      \<exists>s'. deq p s = Some (x, s') \<and> rep s' (L(p := xs)) \<and> same s s'"
    and rep_good: "rep s L \<Longrightarrow> x \<in> set (L p) \<Longrightarrow> x \<noteq> nil \<and> good s x"
    and rep_apart: "rep s L \<Longrightarrow> x \<in> set (L p) \<Longrightarrow> x \<in> set (L p') \<Longrightarrow> p' = p"
    and rep_distinct: "rep s L \<Longrightarrow> distinct (L p)"
    and same_good: "same s s' \<Longrightarrow> good s x \<Longrightarrow> good s' x"
    and same_refl: "same s s"
    and same_trans: "same s s' \<Longrightarrow> same s' s'' \<Longrightarrow> same s s''"

text \<open>Three clients: enqueue a list, dequeue \<open>k\<close> times, move up to \<open>k\<close> items to another queue.\<close>

fun enq_all :: "('p \<Rightarrow> 'a \<Rightarrow> 's \<Rightarrow> 's option) \<Rightarrow> 'p \<Rightarrow> 'a list \<Rightarrow> 's \<Rightarrow> 's option" where
  "enq_all enq p [] s = Some s"
| "enq_all enq p (x # xs) s = (case enq p x s of None \<Rightarrow> None | Some s \<Rightarrow> enq_all enq p xs s)"

primrec deq_times :: "('p \<Rightarrow> 's \<Rightarrow> ('a \<times> 's) option) \<Rightarrow> 'p \<Rightarrow> nat \<Rightarrow> 's \<Rightarrow> ('a list \<times> 's) option" where
  "deq_times deq p 0 s = Some ([], s)"
| "deq_times deq p (Suc k) s =
     (case deq p s of None \<Rightarrow> None
      | Some (x, s) \<Rightarrow> (case deq_times deq p k s of None \<Rightarrow> None | Some (xs, s) \<Rightarrow> Some (x # xs, s)))"

primrec transfer :: "'a \<Rightarrow> ('p \<Rightarrow> 'a \<Rightarrow> 's \<Rightarrow> 's option) \<Rightarrow> ('p \<Rightarrow> 's \<Rightarrow> ('a \<times> 's) option) \<Rightarrow> 'p \<Rightarrow> 'p \<Rightarrow> nat \<Rightarrow> 's \<Rightarrow> 's option" where
  "transfer nil enq deq p p' 0 s = Some s"
| "transfer nil enq deq p p' (Suc k) s =
     (case deq p s of None \<Rightarrow> None
      | Some (x, s) \<Rightarrow>
          (case (if x \<noteq> nil then enq p' x s else Some s) of None \<Rightarrow> None | Some s \<Rightarrow> transfer nil enq deq p p' k s))"

context fifo
begin

lemma enq_all_ok:
  assumes "rep s L" "valid p" "distinct xs" "\<forall>x \<in> set xs. good s x \<and> (\<forall>p'. x \<notin> set (L p'))"
  shows "\<exists>s'. enq_all enq p xs s = Some s' \<and> rep s' (L(p := L p @ xs)) \<and> same s s'"
  using assms
proof (induction xs arbitrary: s L)
  case Nil
  then show ?case using same_refl by simp
next
  case (Cons x xs)
  obtain s1 where s1: "enq p x s = Some s1" "rep s1 (L(p := L p @ [x]))" "same s s1"
    using enq_ok [OF Cons.prems(1,2), of x] Cons.prems(4) by auto
  have "\<forall>y \<in> set xs. good s1 y \<and> (\<forall>p'. y \<notin> set ((L(p := L p @ [x])) p'))"
    using Cons.prems(3,4) same_good [OF s1(3)] by auto
  then obtain s2 where "enq_all enq p xs s1 = Some s2" "rep s2 (L(p := L p @ x # xs))" "same s1 s2"
    using Cons.IH [OF s1(2) Cons.prems(2)] Cons.prems(3) by (auto simp del: fun_upd_apply simp: fun_upd_same)
  then show ?case using s1(1) same_trans [OF s1(3)] by (auto simp del: fun_upd_apply)
qed

lemma deq_times_ok:
  assumes "rep s L" "valid p" "L p = xs @ ys"
  shows "\<exists>s'. deq_times deq p (length xs) s = Some (xs, s') \<and> rep s' (L(p := ys)) \<and> same s s'"
  using assms
proof (induction xs arbitrary: s L)
  case Nil
  then have "L(p := ys) = L" by auto
  then show ?case using Nil same_refl by simp
next
  case (Cons x xs)
  obtain s1 where s1: "deq p s = Some (x, s1)" "rep s1 (L(p := xs @ ys))" "same s s1"
    using deq_ok [OF Cons.prems(1,2), of x "xs @ ys"] Cons.prems(3) by auto
  obtain s2 where "deq_times deq p (length xs) s1 = Some (xs, s2)" "rep s2 (L(p := ys))" "same s1 s2"
    using Cons.IH [OF s1(2) Cons.prems(2)] unfolding fun_upd_upd fun_upd_same by blast
  then show ?case using s1(1) same_trans [OF s1(3)] by (auto simp del: fun_upd_apply)
qed

text \<open>First in, first out.\<close>

lemma fifo_order:
  assumes "rep s L" "valid p" "distinct xs" "\<forall>x \<in> set xs. good s x \<and> (\<forall>p'. x \<notin> set (L p'))" "L p = ys"
  shows "\<exists>s1 s2. enq_all enq p xs s = Some s1 \<and> deq_times deq p (length ys + length xs) s1 = Some (ys @ xs, s2) \<and>
    rep s2 (L(p := []))"
proof -
  obtain s1 where s1: "enq_all enq p xs s = Some s1" "rep s1 (L(p := L p @ xs))" using enq_all_ok [OF assms(1-4)] by blast
  obtain s2 where "deq_times deq p (length (ys @ xs)) s1 = Some (ys @ xs, s2)" "rep s2 (L(p := []))"
    using deq_times_ok [OF s1(2) assms(2), of "ys @ xs" "[]"] assms(5) by auto
  then show ?thesis using s1(1) by auto
qed

lemma transfer_ok:
  assumes "rep s L" "valid p" "valid p'" "p \<noteq> p'"
  shows "\<exists>s'. transfer nil enq deq p p' k s = Some s' \<and> rep s' (L(p := drop k (L p), p' := L p' @ take k (L p))) \<and> same s s'"
  using assms(1)
proof (induction k arbitrary: s L)
  case 0
  have "L(p := drop 0 (L p), p' := L p' @ take 0 (L p)) = L" by auto
  then show ?case using 0 same_refl by simp
next
  case (Suc k)
  show ?case
  proof (cases "L p")
    case Nil
    then have e: "L(p := drop j (L p), p' := L p' @ take j (L p)) = L" for j by auto
    obtain s' where "transfer nil enq deq p p' k s = Some s'" "rep s' L" "same s s'"
      using Suc.IH [OF Suc.prems] unfolding e by blast
    then show ?thesis using deq_nil [OF Suc.prems assms(2) Nil] unfolding e by simp
  next
    case (Cons x xs)
    obtain s1 where s1: "deq p s = Some (x, s1)" "rep s1 (L(p := xs))" "same s s1" using deq_ok [OF Suc.prems assms(2) Cons] by blast
    have x: "x \<noteq> nil" "good s1 x" using rep_good [OF Suc.prems, of x p] same_good [OF s1(3)] Cons by auto
    have "x \<notin> set ((L(p := xs)) q)" for q
      using rep_apart [OF Suc.prems, of x p q] rep_distinct [OF Suc.prems, of p] Cons by auto
    then obtain s2 where s2: "enq p' x s1 = Some s2" "rep s2 (L(p := xs, p' := L p' @ [x]))" "same s1 s2"
      using enq_ok [OF s1(2) assms(3) x(2)] assms(4) by auto
    have e: "(L(p := xs, p' := L p' @ [x]))(p := drop k xs, p' := (L p' @ [x]) @ take k xs) =
        L(p := drop (Suc k) (L p), p' := L p' @ take (Suc k) (L p))" using Cons by (auto simp: fun_eq_iff)
    from Suc.IH [OF s2(2)] obtain s3 where "transfer nil enq deq p p' k s2 = Some s3"
      "rep s3 (L(p := drop (Suc k) (L p), p' := L p' @ take (Suc k) (L p)))" "same s2 s3"
      using assms(4) e by (auto simp del: fun_upd_apply simp: fun_upd_same fun_upd_other)
    then show ?thesis using s1(1) s2(1) x(1) same_trans [OF s1(3) same_trans [OF s2(3)]] by (auto simp del: fun_upd_apply)
  qed
qed

end

section \<open>The scheduler's queues implement it\<close>

text \<open>States that agree on all but links, queue ends, priorities, the cached run times and the timer.\<close>

definition shuffled :: "addr \<Rightarrow> sched \<Rightarrow> sched \<Rightarrow> bool" where
  "shuffled c s s' \<longleftrightarrow> s' = s\<lparr>nodes := nodes s', queues := queues s', joinHead := joinHead s', timer := timer s', ktimer := ktimer s'\<rparr> \<and>
     (\<forall>x. nodes s' x = (nodes s x)\<lparr>nnext := nnext (nodes s' x), priority := priority (nodes s' x), runtime := runtime (nodes s' x)\<rparr>) \<and>
     (c \<noteq> NULL \<longrightarrow> priority (nodes s' c) = priority (nodes s c))"

lemma moved_shuffled:
  assumes m: "moved n s s'" and n: "n \<noteq> c \<or> c = NULL"
  shows "shuffled c s s'"
proof -
  have "nodes s' x = (nodes s x)\<lparr>nnext := nnext (nodes s' x), priority := priority (nodes s' x), runtime := runtime (nodes s' x)\<rparr>" for x
    using moved_same(12-17) [OF m, of x] by (intro node.equality) simp_all
  moreover have "c \<noteq> NULL \<longrightarrow> priority (nodes s' c) = priority (nodes s c)" using n moved_same(18) [OF m, of c] by (metis)
  moreover have "s' = s\<lparr>nodes := nodes s', queues := queues s', joinHead := joinHead s', timer := timer s', ktimer := ktimer s'\<rparr>"
  proof -
    have e: "s' = s\<lparr>nodes := nodes s', queues := queues s', joinHead := joinHead s'\<rparr>" using m unfolding moved_def by blast
    have "timer s' = timer s" "ktimer s' = ktimer s" using arg_cong [OF e, of timer] arg_cong [OF e, of ktimer] by simp_all
    then show ?thesis by (subst e) simp
  qed
  ultimately show ?thesis unfolding shuffled_def by blast
qed

lemma moved_shuffled_NULL: "moved NULL s s' \<Longrightarrow> shuffled c s s'"
  by (rule moved_shuffled) auto

lemma shuffled_same:
  assumes "shuffled c s s'"
  shows "runQ s' = runQ s" "promotionQ s' = promotionQ s" "pthreads s' = pthreads s" "current s' = current s"
    "threadsHead s' = threadsHead s" "now s' = now s" "lib_room s' = lib_room s" "cycles s' = cycles s"
    "threadID (nodes s' x) = threadID (nodes s x)" "status (nodes s' x) = status (nodes s x)"
    "joinee (nodes s' x) = joinee (nodes s x)" "timeCreated (nodes s' x) = timeCreated (nodes s x)" "ut (nodes s' x) = ut (nodes s x)"
    "pages s' = pages s" "scd_up s' = scd_up s" "threadNum s' = threadNum s" "timerSet s' = timerSet s"
    "c \<noteq> NULL \<Longrightarrow> priority (nodes s' c) = priority (nodes s c)"
proof -
  have e: "s' = s\<lparr>nodes := nodes s', queues := queues s', joinHead := joinHead s', timer := timer s', ktimer := ktimer s'\<rparr>"
    and x: "nodes s' x = (nodes s x)\<lparr>nnext := nnext (nodes s' x), priority := priority (nodes s' x), runtime := runtime (nodes s' x)\<rparr>"
    using assms unfolding shuffled_def by blast+
  show "runQ s' = runQ s" using arg_cong [OF e, of runQ] by simp
  show "promotionQ s' = promotionQ s" using arg_cong [OF e, of promotionQ] by simp
  show "pthreads s' = pthreads s" using arg_cong [OF e, of pthreads] by simp
  show "current s' = current s" using arg_cong [OF e, of current] by simp
  show "threadsHead s' = threadsHead s" using arg_cong [OF e, of threadsHead] by simp
  show "now s' = now s" using arg_cong [OF e, of now] by simp
  show "lib_room s' = lib_room s" using arg_cong [OF e, of lib_room] by simp
  show "cycles s' = cycles s" using arg_cong [OF e, of cycles] by simp
  show "pages s' = pages s" using arg_cong [OF e, of pages] by simp
  show "scd_up s' = scd_up s" using arg_cong [OF e, of scd_up] by simp
  show "threadNum s' = threadNum s" using arg_cong [OF e, of threadNum] by simp
  show "timerSet s' = timerSet s" using arg_cong [OF e, of timerSet] by simp
  show "threadID (nodes s' x) = threadID (nodes s x)" using arg_cong [OF x, of threadID] by simp
  show "status (nodes s' x) = status (nodes s x)" using arg_cong [OF x, of status] by simp
  show "joinee (nodes s' x) = joinee (nodes s x)" using arg_cong [OF x, of joinee] by simp
  show "timeCreated (nodes s' x) = timeCreated (nodes s x)" using arg_cong [OF x, of timeCreated] by simp
  show "ut (nodes s' x) = ut (nodes s x)" using arg_cong [OF x, of ut] by simp
  show "c \<noteq> NULL \<Longrightarrow> priority (nodes s' c) = priority (nodes s c)" using assms unfolding shuffled_def by blast
qed

lemma shuffled_refl: "shuffled c s s"
  by (simp add: shuffled_def)

lemma shuffled_trans:
  assumes "shuffled c s s'" "shuffled c s' s''"
  shows "shuffled c s s''"
proof -
  note a = assms(1) [unfolded shuffled_def] and b = assms(2) [unfolded shuffled_def]
  have "nodes s'' x = (nodes s x)\<lparr>nnext := nnext (nodes s'' x), priority := priority (nodes s'' x), runtime := runtime (nodes s'' x)\<rparr>" for x
    using shuffled_same(9-13) [OF assms(1), of x] shuffled_same(9-13) [OF assms(2), of x] by (intro node.equality) simp_all
  moreover have "s'' = s\<lparr>nodes := nodes s'', queues := queues s'', joinHead := joinHead s'', timer := timer s'', ktimer := ktimer s''\<rparr>"
  proof -
    have "s'' = s'\<lparr>nodes := nodes s'', queues := queues s'', joinHead := joinHead s'', timer := timer s'', ktimer := ktimer s''\<rparr>" using b by blast
    also have "\<dots> = (s\<lparr>nodes := nodes s', queues := queues s', joinHead := joinHead s', timer := timer s', ktimer := ktimer s'\<rparr>)\<lparr>nodes := nodes s'', queues := queues s'', joinHead := joinHead s'', timer := timer s'', ktimer := ktimer s''\<rparr>"
      using a by (metis (no_types, lifting))
    finally show ?thesis by simp
  qed
  moreover have "c \<noteq> NULL \<longrightarrow> priority (nodes s'' c) = priority (nodes s c)" using a b by metis
  ultimately show ?thesis by (simp add: shuffled_def)
qed

text \<open>\<open>c\<close> is a node that is kept out of the queues (\<open>NULL\<close> for none).\<close>

definition good_node :: "addr \<Rightarrow> sched \<Rightarrow> addr \<Rightarrow> bool" where
  "good_node c s x \<longleftrightarrow> x \<noteq> NULL \<and> x \<noteq> c \<and> status (nodes s x) \<noteq> YIELDING \<and> threadID (nodes s x) \<noteq> NULL \<and>
     (status (nodes s x) = JOINING \<longrightarrow> joinee (nodes s x) \<noteq> NULL)"

definition waits_ok :: "sched \<Rightarrow> addr \<Rightarrow> bool" where
  "waits_ok s x \<longleftrightarrow> 0 \<le> priority (nodes s x) \<and> priority (nodes s x) < int RUN_QUEUE_SIZE \<and> joinee (nodes s x) \<noteq> NULL"

definition qsys :: "addr \<Rightarrow> sched \<Rightarrow> layout \<Rightarrow> bool" where
  "qsys c s L \<longleftrightarrow> sys s L \<and> (\<forall>p. \<forall>x \<in> set (L p). good_node c s x) \<and>
     (\<forall>i. \<forall>x \<in> set (L (Run i)). priority (nodes s x) = int i) \<and> (\<forall>x \<in> set (L Join). waits_ok s x)"

lemma good_node_moved: "moved n s s' \<Longrightarrow> good_node c s' x = good_node c s x"
  by (simp add: good_node_def moved_same)

lemma qsys_moved:
  assumes q: "qsys c s L" and s: "sys s' L'" and m: "moved n s s'"
    and old: "\<And>p x. x \<in> set (L' p) \<Longrightarrow> x \<in> set (L p) \<or> x = n"
    and gone: "\<And>p. n \<notin> set (L p)"
    and new: "\<And>p. n \<in> set (L' p) \<Longrightarrow> good_node c s n" "\<And>i. n \<in> set (L' (Run i)) \<Longrightarrow> priority (nodes s' n) = int i"
      "n \<in> set (L' Join) \<Longrightarrow> waits_ok s' n"
  shows "qsys c s' L'"
proof -
  note mv = moved_same [OF m]
  have nn: "x \<noteq> NULL" if "x \<in> set (L' p)" for p x using sys_Null [OF s] that in_everyone by metis
  have "good_node c s' x" if "x \<in> set (L' p)" for p x
    using old [OF that] new(1) that q by (auto simp: good_node_moved [OF m] qsys_def)
  moreover have "priority (nodes s' x) = int i" if "x \<in> set (L' (Run i))" for i x
    using old [OF that] new(2) that q gone nn [OF that] mv(18) [of x] by (cases "x = n") (auto simp: qsys_def)
  moreover have "waits_ok s' x" if "x \<in> set (L' Join)" for x
    using old [OF that] new(3) that q gone nn [OF that] mv(18) [of x] mv(14) [of x] by (cases "x = n") (auto simp: qsys_def waits_ok_def)
  ultimately show ?thesis using s by (simp add: qsys_def)
qed

lemma enQ_qsys:
  assumes q: "qsys c s L" and p: "qplace p" and g: "good_node c s x" and new: "\<And>p'. x \<notin> set (L p')"
  obtains s' where "enQ (qaddr s p) x s = Some s'" "qsys c s' (L(p := L p @ [x]))" "moved x s s'"
proof -
  have x: "x \<noteq> NULL" "x \<notin> everyone L" "sys s L" using g new q by (auto simp: good_node_def everyone_def qsys_def)
  obtain s' where s': "enQ (qaddr s p) x s = Some s'" "sys s' (L(p := L p @ [x]))" "moved x s s'"
    "priority (nodes s' x) = (if status (nodes s x) = YIELDING \<and> L p \<noteq> [] then priority (nodes s x) else priorityLevel (queues s (qaddr s p)))"
    by (rule enQ_sys [OF x(3) p x(1,2)])
  have pr: "priority (nodes s' x) = int i" if "p = Run i" for i
    using s'(4) g that p x(3) by (simp add: good_node_def sys_def)
  have "qsys c s' (L(p := L p @ [x]))"
  proof (rule qsys_moved [OF q s'(2,3)])
    show "priority (nodes s' x) = int i" if "x \<in> set ((L(p := L p @ [x])) (Run i))" for i
      using that new [of "Run i"] pr [of i] by (cases "p = Run i") auto
    show "x \<in> set ((L(p := L p @ [x])) Join) \<Longrightarrow> waits_ok s' x" using new [of Join] p by (cases "p = Join") auto
  qed (use g new in \<open>auto split: if_splits\<close>)
  then show thesis using s' by (intro that)
qed

lemma deQ_qsys:
  assumes q: "qsys c s L" and p: "qplace p" and L: "L p = x # xs"
  obtains s' where "deQ (qaddr s p) s = Some (x, s')" "qsys c s' (L(p := xs))" "moved NULL s s'"
proof -
  have s: "sys s L" using q by (simp add: qsys_def)
  obtain s' where s': "deQ (qaddr s p) s = Some (x, s')" "sys s' (L(p := xs))" "moved NULL s s'" by (rule deQ_sys [OF s p L])
  have null: "NULL \<notin> set (L p')" for p' using sys_Null [OF s] by (auto simp: everyone_def)
  have sub: "y \<in> set ((L(p := xs)) p') \<Longrightarrow> y \<in> set (L p')" for y p' using L by (auto split: if_splits)
  have "qsys c s' (L(p := xs))" by (rule qsys_moved [OF q s'(2,3)]) (use null sub in blast)+
  then show thesis using s' by (intro that)
qed

interpretation rq: fifo "qsys c" qplace "good_node c" NULL "\<lambda>p x s. enQ (qaddr s p) x s" "\<lambda>p s. deQ (qaddr s p) s" "shuffled c" for c
proof
  fix s L p x assume q: "qsys c s L" and p: "qplace p" and g: "good_node c s x" and new: "\<And>p'. x \<notin> set (L p')"
  show "\<exists>s'. enQ (qaddr s p) x s = Some s' \<and> qsys c s' (L(p := L p @ [x])) \<and> shuffled c s s'"
    by (rule enQ_qsys [OF q p g new]) (use moved_shuffled g in \<open>auto simp: good_node_def\<close>)
next
  fix s L p assume "qsys c s L" "qplace p" "L p = []"
  then show "deQ (qaddr s p) s = Some (NULL, s)" using deQ_empty [of s L p] by (simp add: qsys_def)
next
  fix s L p x xs assume q: "qsys c s L" and p: "qplace p" and L: "L p = x # xs"
  show "\<exists>s'. deQ (qaddr s p) s = Some (x, s') \<and> qsys c s' (L(p := xs)) \<and> shuffled c s s'"
    by (rule deQ_qsys [OF q p L]) (use moved_shuffled in metis)
next
  fix s L x p assume "qsys c s L" "x \<in> set (L p)"
  then show "x \<noteq> NULL \<and> good_node c s x" by (auto simp: qsys_def good_node_def)
next
  fix s L x p p' assume "qsys c s L" "x \<in> set (L p)" "x \<in> set (L p')"
  then show "p' = p" using apart_elsewhere sys_apart by (metis qsys_def)
next
  fix s L p assume "qsys c s L"
  then show "distinct (L p)" using sys_apart by (auto simp: qsys_def apart_def)
next
  fix s s' x assume "shuffled c s s'" "good_node c s x"
  then show "good_node c s' x" by (simp add: good_node_def shuffled_same)
qed (use shuffled_refl shuffled_trans in blast)+

lemma sys_cong:
  assumes "\<And>x. x \<in> everyone L \<Longrightarrow> nnext (nodes s' x) = nnext (nodes s x)" "queues s' = queues s" "runQ s' = runQ s" "promotionQ s' = promotionQ s" "joinHead s' = joinHead s"
  shows "sys s' L = sys s L"
proof -
  have "llist (nx_of s') h (L p) = llist (nx_of s) h (L p)" for h p
    by (rule llist_cong) (use assms(1) in_everyone in metis)
  moreover have "qaddr s' = qaddr s" using assms qaddr_cong by (auto simp: fun_eq_iff)
  ultimately show ?thesis unfolding sys_def qlist_def using assms(2,3,5) by simp
qed

lemma qsys_cong_on:
  assumes "\<And>x. x \<in> everyone L \<Longrightarrow> nodes s' x = nodes s x" "queues s' = queues s" "runQ s' = runQ s" "promotionQ s' = promotionQ s" "joinHead s' = joinHead s"
  shows "qsys c s' L = qsys c s L"
proof -
  have "sys s' L = sys s L" using assms by (intro sys_cong) simp_all
  moreover have "nodes s' x = nodes s x" if "x \<in> set (L p)" for x p using assms(1) in_everyone [of x L p] that by blast
  ultimately show ?thesis by (simp add: qsys_def good_node_def waits_ok_def)
qed

lemma qsys_cong:
  assumes "nodes s' = nodes s" "queues s' = queues s" "runQ s' = runQ s" "promotionQ s' = promotionQ s" "joinHead s' = joinHead s"
  shows "qsys c s' L = qsys c s L"
  using assms by (intro qsys_cong_on) simp_all

text \<open>Library requests only touch the timer.\<close>

lemma pause_timer_same:
  "nodes (pause_timer s) = nodes s" "queues (pause_timer s) = queues s" "runQ (pause_timer s) = runQ s"
  "promotionQ (pause_timer s) = promotionQ s" "joinHead (pause_timer s) = joinHead s" "current (pause_timer s) = current s"
  "pages (pause_timer s) = pages s" "cycles (pause_timer s) = cycles s" "now (pause_timer s) = now s" "pthreads (pause_timer s) = pthreads s"
  "scd_up (pause_timer s) = scd_up s" "threadsHead (pause_timer s) = threadsHead s" "lib_room (pause_timer s) = lib_room s" "threadNum (pause_timer s) = threadNum s"
  "timerSet (pause_timer s) = timerSet s" "prot (pause_timer s) = prot s"
  by (simp_all add: pause_timer_def Let_def)

lemma unpause_timer_same:
  "nodes (unpause_timer s) = nodes s" "queues (unpause_timer s) = queues s" "runQ (unpause_timer s) = runQ s"
  "promotionQ (unpause_timer s) = promotionQ s" "joinHead (unpause_timer s) = joinHead s" "current (unpause_timer s) = current s"
  "pages (unpause_timer s) = pages s" "cycles (unpause_timer s) = cycles s" "now (unpause_timer s) = now s" "pthreads (unpause_timer s) = pthreads s"
  "scd_up (unpause_timer s) = scd_up s" "threadsHead (unpause_timer s) = threadsHead s" "lib_room (unpause_timer s) = lib_room s" "threadNum (unpause_timer s) = threadNum s"
  "timerSet (unpause_timer s) = timerSet s" "prot (unpause_timer s) = prot s"
  by (simp_all add: unpause_timer_def setitimer_def)

lemma lib_request_same:
  "nodes (lib_request s) = nodes s" "queues (lib_request s) = queues s" "runQ (lib_request s) = runQ s"
  "promotionQ (lib_request s) = promotionQ s" "joinHead (lib_request s) = joinHead s" "current (lib_request s) = current s"
  "pages (lib_request s) = pages s" "cycles (lib_request s) = cycles s" "now (lib_request s) = now s" "pthreads (lib_request s) = pthreads s"
  "scd_up (lib_request s) = scd_up s" "threadsHead (lib_request s) = threadsHead s" "lib_room (lib_request s) = lib_room s" "threadNum (lib_request s) = threadNum s"
  "timerSet (lib_request s) = timerSet s" "prot (lib_request s) = prot s"
  by (simp_all add: lib_request_def unpause_timer_same pause_timer_same)

lemma shuffled_lib_request: "shuffled c s (lib_request s)"
  by (simp add: shuffled_def lib_request_def pause_timer_def unpause_timer_def setitimer_def Let_def)

lemma qsys_lib_request [simp]: "qsys c (lib_request s) L = qsys c s L"
  by (rule qsys_cong) (simp_all add: lib_request_same)

section \<open>Maintenance\<close>

text \<open>The run time \<open>maintenance\<close> computes at time \<open>t\<close>; the oldest node has the largest.\<close>

definition age :: "int \<Rightarrow> sched \<Rightarrow> addr \<Rightarrow> rat" where
  "age t s x = of_int (t - timeCreated (nodes s x)) / of_int CLOCKS_PER_SEC"

lemma age_shuffled: "shuffled c s s' \<Longrightarrow> age t s' = age t s"
  by (simp add: age_def fun_eq_iff shuffled_same)

lemma age_le: "age t s x \<le> age t s y \<longleftrightarrow> timeCreated (nodes s y) \<le> timeCreated (nodes s x)"
  by (simp add: age_def CLOCKS_PER_SEC_def divide_le_cancel)

lemma ins_by_cong: "(\<And>y. y \<in> insert n (set xs) \<Longrightarrow> f y = g y) \<Longrightarrow> ins_by f n xs = ins_by g n xs"
  by (induction xs) auto

lemma qaddr_upd_node [simp]: "qaddr (upd_node x f s) p = qaddr s p"
  by (cases p) auto

lemma sys_runtime [simp]: "sys (upd_node x (runtime_update f) s) L = sys s L"
proof -
  have e: "nx_of (upd_node x (runtime_update f) s) = nx_of s" by (simp add: fun_eq_iff)
  show ?thesis unfolding sys_def qlist_def e by simp
qed

lemma qsys_runtime [simp]: "qsys c (upd_node x (runtime_update f) s) L = qsys c s L"
proof -
  have "good_node c (upd_node x (runtime_update f) s) y = good_node c s y" "waits_ok (upd_node x (runtime_update f) s) y = waits_ok s y"
    "priority (nodes (upd_node x (runtime_update f) s) y) = priority (nodes s y)" for y
    by (auto simp: good_node_def waits_ok_def)
  then show ?thesis by (simp only: qsys_def sys_runtime)
qed

lemma shuffled_runtime: "shuffled c s (upd_node x (runtime_update f) s)"
  by (simp add: shuffled_def upd_node_def)

lemma insertByTime_qsys:
  assumes q: "qsys c s L" and i: "Suc i < RUN_QUEUE_SIZE" and g: "good_node c s x" "x \<notin> everyone L"
  obtains s' where "insertByTime (promotionQ s i) x s = Some s'"
    "qsys c s' (L(Prom i := ins_by (\<lambda>y. runtime (nodes s y)) x (L (Prom i))))" "moved NULL s s'"
proof -
  have p: "qplace (Prom i)" and s: "sys s L" and x: "x \<noteq> NULL" using i q g by (auto simp: qsys_def good_node_def)
  obtain s' where s': "insertByTime (qaddr s (Prom i)) x s = Some s'"
    "sys s' (L(Prom i := ins_by (\<lambda>y. runtime (nodes s y)) x (L (Prom i))))" "moved NULL s s'"
    by (rule insertByTime_sys [OF s p x g(2)])
  have nin: "x \<notin> set (L p')" for p' using g(2) by (auto simp: everyone_def)
  have "qsys c s' (L(Prom i := ins_by (\<lambda>y. runtime (nodes s y)) x (L (Prom i))))"
  proof (rule qsys_moved [OF q s'(2) moved_weaken [OF s'(3), of x]])
    fix j assume "x \<in> set ((L(Prom i := ins_by (\<lambda>y. runtime (nodes s y)) x (L (Prom i)))) (Run j))"
    then show "priority (nodes s' x) = int j" using nin [of "Run j"] by simp
  qed (use nin g in \<open>auto split: if_splits\<close>)
  then show thesis using s' by (intro that) auto
qed

lemma drain_ok:
  assumes "qsys c s L" "Suc i < RUN_QUEUE_SIZE" "\<forall>x \<in> set (L (Prom i)). runtime (nodes s x) = age t s x"
  shows "\<exists>s'. drain t i n s = Some (n + length (L (Run (Suc i))), s') \<and> shuffled c s s' \<and>
    qsys c s' (L(Run (Suc i) := [], Prom i := fold (ins_by (age t s)) (L (Run (Suc i))) (L (Prom i))))"
  using assms(1,3)
proof (induction "L (Run (Suc i))" arbitrary: s L n)
  case Nil
  have p: "qplace (Run (Suc i))" using assms(2) by simp
  have "deQ (runQ s (i + 1)) s = Some (NULL, s)" using rq.deq_nil [OF Nil.prems(1) p] Nil.hyps by simp
  moreover have "L(Run (Suc i) := [], Prom i := L (Prom i)) = L" using Nil.hyps by auto
  ultimately show ?case using Nil shuffled_refl by (subst drain.simps) (simp del: fun_upd_apply add: Nil.hyps [symmetric])
next
  case (Cons x xs)
  have p: "qplace (Run (Suc i))" using assms(2) by simp
  obtain s1 where s1: "deQ (runQ s (i + 1)) s = Some (x, s1)" "qsys c s1 (L(Run (Suc i) := xs))" "shuffled c s s1" and m1: "moved NULL s s1"
    by (rule deQ_qsys [OF Cons.prems(1) p Cons.hyps(2) [symmetric]]) (use moved_shuffled [where c = c] in auto)
  let ?s2 = "upd_node x (runtime_update (\<lambda>_. age t s1 x)) s1"
  have x: "good_node c s1 x" "x \<noteq> NULL" using rq.rep_good [OF Cons.prems(1), of x "Run (Suc i)"] rq.same_good [OF s1(3)] Cons.hyps(2) [symmetric] by auto
  have "x \<notin> set ((L(Run (Suc i) := xs)) p')" for p'
    using rq.rep_apart [OF Cons.prems(1), of x "Run (Suc i)" p'] rq.rep_distinct [OF Cons.prems(1), of "Run (Suc i)"] Cons.hyps(2) [symmetric] by auto
  then have out: "x \<notin> everyone (L(Run (Suc i) := xs))" by (auto simp: everyone_def)
  have q2: "qsys c ?s2 (L(Run (Suc i) := xs))" "good_node c ?s2 x" using s1(2) x by (simp_all add: good_node_def)
  obtain s3 where s3: "insertByTime (promotionQ ?s2 i) x ?s2 = Some s3"
    "qsys c s3 ((L(Run (Suc i) := xs))(Prom i := ins_by (\<lambda>y. runtime (nodes ?s2 y)) x (L (Prom i))))" "moved NULL ?s2 s3"
    by (rule insertByTime_qsys [OF q2(1) assms(2) q2(2) out]) simp
  have sh: "shuffled c s s3" using rq.same_trans [OF s1(3) rq.same_trans [OF shuffled_runtime moved_shuffled_NULL [OF s3(3)]]] .
  have ag: "age t s1 = age t s" "age t s3 = age t s" using age_shuffled s1(3) sh by blast+
  have rt: "runtime (nodes s3 y) = age t s y" if "y \<in> insert x (set (L (Prom i)))" for y
  proof (cases "y = x")
    case True
    then show ?thesis using moved_same(15) [OF s3(3), of y] ag by simp
  next
    case False
    then have "y \<in> set (L (Prom i))" using that by simp
    then show ?thesis using False moved_same(15) [OF s3(3), of y] moved_same(15) [OF m1, of y] Cons.prems(2) by simp
  qed
  have e: "ins_by (\<lambda>y. runtime (nodes ?s2 y)) x (L (Prom i)) = ins_by (age t s) x (L (Prom i))"
    using rt moved_same(15) [OF s3(3)] by (intro ins_by_cong) metis
  let ?L = "L(Run (Suc i) := xs, Prom i := ins_by (age t s) x (L (Prom i)))"
  have q3: "qsys c s3 ?L" using s3(2) unfolding e .
  have "\<forall>y \<in> set (?L (Prom i)). runtime (nodes s3 y) = age t s3 y" using rt ag(2) by simp
  moreover have "xs = ?L (Run (Suc i))" by simp
  ultimately obtain s4 where s4: "drain t i (Suc n) s3 = Some (Suc n + length xs, s4)" "shuffled c s3 s4"
    "qsys c s4 (?L(Run (Suc i) := [], Prom i := fold (ins_by (age t s)) xs (?L (Prom i))))"
    using Cons.hyps(1) [of ?L s3 "Suc n"] q3 unfolding ag by auto
  have "?L(Run (Suc i) := [], Prom i := fold (ins_by (age t s)) xs (?L (Prom i))) =
      L(Run (Suc i) := [], Prom i := fold (ins_by (age t s)) (x # xs) (L (Prom i)))" by (simp add: fun_eq_iff)
  moreover have "drain t i n s = drain t i (Suc n) s3"
    using s1(1) x(2) s3(1) by (subst drain.simps) (simp add: age_def)
  ultimately show ?case using s4 rq.same_trans [OF sh s4(2)] Cons.hyps(2) [symmetric] by (simp del: fun_upd_apply)
qed

end
