(* ===== verification/PtMaint.thy ===== *)
theory PtMaint
  imports PtFifo "HOL-Library.Multiset"
begin

text \<open>
  What \<open>maintenance\<close> does to the run queues: it always returns, it loses no node, it leaves the
  promotion queues empty, and the exact queue every node ends up in.
\<close>

section \<open>Moving nodes back\<close>

lemma promote_transfer:
  "promote i lvl k s = transfer NULL (\<lambda>p x s. enQ (qaddr s p) x s) (\<lambda>p s. deQ (qaddr s p) s) (Prom i) (Run lvl) k s"
  by (induction k arbitrary: s) (simp_all cong: option.case_cong prod.case_cong if_cong)

lemma promote_ok:
  assumes "qsys c s L" "Suc i < RUN_QUEUE_SIZE" "lvl < RUN_QUEUE_SIZE"
  shows "\<exists>s'. promote i lvl k s = Some s' \<and> shuffled c s s' \<and>
    qsys c s' (L(Prom i := drop k (L (Prom i)), Run lvl := L (Run lvl) @ take k (L (Prom i))))"
  using rq.transfer_ok [OF assms(1), of "Prom i" "Run lvl" k] assms(2,3) unfolding promote_transfer by auto

text \<open>The layout after \<open>promote_levels\<close>, step by step and in closed form.\<close>

definition level_count :: "nat \<Rightarrow> nat \<Rightarrow> nat \<Rightarrow> nat" where
  "level_count i c j = (if j > 0 then c div (i + 2) else c - (c div (i + 2)) * (i + 1))"

primrec spread :: "nat \<Rightarrow> nat \<Rightarrow> nat \<Rightarrow> layout \<Rightarrow> layout" where
  "spread i c 0 L = L"
| "spread i c (Suc j) L = spread i c j
     (L(Prom i := drop (level_count i c j) (L (Prom i)), Run j := L (Run j) @ take (level_count i c j) (L (Prom i))))"

lemma promote_levels_ok:
  assumes "qsys c s L" "Suc i < RUN_QUEUE_SIZE" "j \<le> i + 2"
  shows "\<exists>s'. promote_levels i n j s = Some s' \<and> shuffled c s s' \<and> qsys c s' (spread i n j L)"
  using assms(1,3)
proof (induction j arbitrary: s L)
  case 0
  then show ?case using shuffled_refl by simp
next
  case (Suc j)
  let ?k = "level_count i n j"
  obtain s1 where s1: "promote i j ?k s = Some s1" "shuffled c s s1"
    "qsys c s1 (L(Prom i := drop ?k (L (Prom i)), Run j := L (Run j) @ take ?k (L (Prom i))))"
    using promote_ok [OF Suc.prems(1) assms(2), of j ?k] Suc.prems(2) assms(2) by auto
  obtain s2 where "promote_levels i n j s1 = Some s2" "shuffled c s1 s2" "qsys c s2 (spread i n (Suc j) L)"
    using Suc.IH [OF s1(3)] Suc_leD [OF Suc.prems(2)] unfolding spread.simps by blast
  then show ?case using s1(1) shuffled_trans [OF s1(2)] by (auto simp: level_count_def)
qed

text \<open>The part of the \<open>i\<close>-th promotion queue \<open>xs\<close> that goes to level \<open>l\<close>.\<close>

definition share :: "nat \<Rightarrow> addr list \<Rightarrow> nat \<Rightarrow> addr list" where
  "share i xs l =
     (let k = length xs div (i + 2)
      in if l = 0 then drop (k * (i + 1)) xs else if l \<le> i + 1 then take k (drop (k * (i + 1 - l)) xs) else [])"

lemma spread_closed:
  assumes "L (Prom i) = drop (c div (i + 2) * (i + 2 - j)) xs" "length xs = c" "j \<le> i + 2" "0 < j"
  shows "spread i c j L = (\<lambda>p. case p of Prom i' \<Rightarrow> if i' = i then [] else L p
      | Run l \<Rightarrow> if l < j then L (Run l) @ share i xs l else L p | Join \<Rightarrow> L p)"
  using assms(1,3,4)
proof (induction j arbitrary: L)
  case 0
  then show ?case by simp
next
  case (Suc j)
  let ?q = "c div (i + 2)" and ?k = "level_count i c j"
  let ?L = "L(Prom i := drop ?k (L (Prom i)), Run j := L (Run j) @ take ?k (L (Prom i)))"
  show ?case
  proof (cases "j = 0")
    case True
    have "?q * (i + 1) \<le> c" using div_times_less_eq_dividend [of c "i + 2"] by (metis add_mult_distrib2 le_add1 le_trans mult.commute add.assoc one_add_one)
    then show ?thesis using Suc.prems True assms(2)
      by (auto simp: fun_eq_iff share_def level_count_def Let_def split: place.split)
  next
    case False
    have "?L (Prom i) = drop (?q * (i + 2 - j)) xs"
    proof -
      have "?q * (i + 2 - j) = ?q + ?q * (i + 2 - Suc j)" using Suc.prems(2)
        by (metis Suc_diff_Suc Suc_le_lessD mult_Suc_right)
      then show ?thesis using Suc.prems(1) False by (simp add: level_count_def)
    qed
    then have "spread i c j ?L = (\<lambda>p. case p of Prom i' \<Rightarrow> if i' = i then [] else ?L p
      | Run l \<Rightarrow> if l < j then ?L (Run l) @ share i xs l else ?L p | Join \<Rightarrow> ?L p)"
      using Suc.prems(2) False by (intro Suc.IH) simp_all
    moreover have "take ?k (L (Prom i)) = share i xs j"
      using False Suc.prems(1,2) assms(2) by (simp add: level_count_def share_def Let_def)
    ultimately have e: "spread i c (Suc j) L = (\<lambda>p. case p of Prom i' \<Rightarrow> if i' = i then [] else ?L p
      | Run l \<Rightarrow> if l < j then ?L (Run l) @ share i xs l else ?L p | Join \<Rightarrow> ?L p)" "?L (Run j) = L (Run j) @ share i xs j"
      by simp_all
    show ?thesis unfolding e(1) by (rule ext) (use e(2) in \<open>auto split: place.split simp: less_Suc_eq\<close>)
  qed
qed

section \<open>The two passes\<close>

text \<open>Oldest first; nodes of equal age keep their order.\<close>

definition by_age :: "int \<Rightarrow> sched \<Rightarrow> addr list \<Rightarrow> addr list" where
  "by_age t s xs = fold (ins_by (age t s)) xs []"

lemma mset_ins_by [simp]: "mset (ins_by f n xs) = add_mset n (mset xs)"
  by (induction xs) auto

lemma by_age_mset [simp]: "mset (by_age t s xs) = mset xs"
proof -
  have "mset (fold (ins_by f) xs ys) = mset xs + mset ys" for f and ys :: "addr list" by (induction xs arbitrary: ys) auto
  then show ?thesis by (simp add: by_age_def)
qed

lemma by_age_length [simp]: "length (by_age t s xs) = length xs"
  using mset_eq_length [OF by_age_mset] .

lemma by_age_sorted: "sorted_wrt (\<lambda>x y. timeCreated (nodes s x) \<le> timeCreated (nodes s y)) (by_age t s xs)"
proof -
  have "sorted_wrt (\<lambda>x y. f y \<le> f x) ys \<Longrightarrow> sorted_wrt (\<lambda>x y. f y \<le> f x) (fold (ins_by f) xs ys)" for f and ys :: "addr list"
    by (induction xs arbitrary: ys) (auto simp: sorted_ins_by)
  then show ?thesis using age_le unfolding by_age_def by (metis (no_types, lifting) sorted_wrt.simps(1) sorted_wrt_mono_rel)
qed

definition drained :: "int \<Rightarrow> sched \<Rightarrow> nat set \<Rightarrow> layout \<Rightarrow> layout" where
  "drained t s A L p = (case p of Run l \<Rightarrow> if l \<in> Suc ` A then [] else L p
     | Prom i \<Rightarrow> if i \<in> A then by_age t s (L (Run (Suc i))) else L p | Join \<Rightarrow> L p)"

definition returned :: "nat list \<Rightarrow> layout \<Rightarrow> layout" where
  "returned is L p = (case p of Run l \<Rightarrow> L p @ concat (map (\<lambda>i. share i (L (Prom i)) l) is)
     | Prom i \<Rightarrow> if i \<in> set is then [] else L p | Join \<Rightarrow> L p)"

lemma drain_all_ok:
  assumes "qsys c s L" "distinct is" "\<forall>i \<in> set is. Suc i < RUN_QUEUE_SIZE \<and> L (Prom i) = []"
  shows "\<exists>s'. drain_all t is s = Some (map (\<lambda>i. length (L (Run (Suc i)))) is, s') \<and> shuffled c s s' \<and> qsys c s' (drained t s (set is) L)"
  using assms
proof (induction "is" arbitrary: s L)
  case Nil
  have "drained t s {} L = L" by (auto simp: drained_def fun_eq_iff split: place.split)
  then show ?case using Nil shuffled_refl by simp
next
  case (Cons i "is")
  let ?L = "L(Run (Suc i) := [], Prom i := by_age t s (L (Run (Suc i))))"
  obtain s1 where s1: "drain t i 0 s = Some (length (L (Run (Suc i))), s1)" "shuffled c s s1" "qsys c s1 ?L"
    using drain_ok [OF Cons.prems(1), of i t 0] Cons.prems(3) by (auto simp: by_age_def)
  have e: "map (\<lambda>i. length (?L (Run (Suc i)))) is = map (\<lambda>i. length (L (Run (Suc i)))) is" using Cons.prems(2) by auto
  have "\<forall>j \<in> set is. Suc j < RUN_QUEUE_SIZE \<and> ?L (Prom j) = []" using Cons.prems(2,3) by auto
  then obtain s2 where s2: "drain_all t is s1 = Some (map (\<lambda>i. length (L (Run (Suc i)))) is, s2)" "shuffled c s1 s2" "qsys c s2 (drained t s1 (set is) ?L)"
    using Cons.IH [OF s1(3)] Cons.prems(2) unfolding e distinct.simps by blast
  have "by_age t s1 = by_age t s" using age_shuffled [OF s1(2), of t] by (simp only: by_age_def [abs_def])
  then have "drained t s1 (set is) ?L = drained t s (set (i # is)) L"
    using Cons.prems(2) by (auto simp: drained_def fun_eq_iff split: place.split)
  then show ?case using s1(1) s2 shuffled_trans [OF s1(2) s2(2)] by simp
qed

lemma spread_all: "spread i (length (L (Prom i))) (i + 2) L = returned [i] L"
  by (subst spread_closed [where xs = "L (Prom i)"]) (auto simp: returned_def share_def fun_eq_iff split: place.split)

lemma promote_all_ok:
  assumes "qsys c s L" "distinct is" "\<forall>i \<in> set is. Suc i < RUN_QUEUE_SIZE"
  shows "\<exists>s'. promote_all (zip is (map (\<lambda>i. length (L (Prom i))) is)) s = Some s' \<and> shuffled c s s' \<and> qsys c s' (returned is L)"
  using assms
proof (induction "is" arbitrary: s L)
  case Nil
  have "returned [] L = L" by (auto simp: returned_def fun_eq_iff split: place.split)
  then show ?case using Nil shuffled_refl by simp
next
  case (Cons i "is")
  obtain s1 where s1: "promote_levels i (length (L (Prom i))) (i + 2) s = Some s1" "shuffled c s s1" "qsys c s1 (returned [i] L)"
    using promote_levels_ok [OF Cons.prems(1), of i "i + 2" "length (L (Prom i))"] Cons.prems(3) spread_all by auto
  have P: "returned [i] L (Prom j) = L (Prom j)" if "j \<in> set is" for j using that Cons.prems(2) by (auto simp: returned_def)
  have e: "map (\<lambda>j. length (returned [i] L (Prom j))) is = map (\<lambda>j. length (L (Prom j))) is" using P by simp
  obtain s2 where s2: "promote_all (zip is (map (\<lambda>i. length (L (Prom i))) is)) s1 = Some s2" "shuffled c s1 s2" "qsys c s2 (returned is (returned [i] L))"
    using Cons.IH [OF s1(3)] Cons.prems(2,3) unfolding e by auto
  have m: "map (\<lambda>j. share j (returned [i] L (Prom j)) l) is = map (\<lambda>j. share j (L (Prom j)) l) is" for l using P by simp
  have "returned is (returned [i] L) p = returned (i # is) L p" for p
    unfolding returned_def [of "is"] m by (cases p) (auto simp: returned_def)
  then have "returned is (returned [i] L) = returned (i # is) L" by (rule ext)
  then show ?case using s1(1) s2 shuffled_trans [OF s1(2) s2(2)] by simp
qed

section \<open>Maintenance as a whole\<close>

definition maintained :: "int \<Rightarrow> sched \<Rightarrow> layout \<Rightarrow> layout" where
  "maintained t s L p = (case p of
       Run l \<Rightarrow> (if l = 0 then L (Run 0) else []) @
         concat (map (\<lambda>i. share i (by_age t s (L (Run (Suc i)))) l) [0..<RUN_QUEUE_SIZE - 1])
     | Prom i \<Rightarrow> [] | Join \<Rightarrow> L Join)"

lemma maintenance_qsys:
  assumes "qsys c s L" "lib_room s" "\<forall>i. L (Prom i) = []"
  shows "\<exists>s'. maintenance s = Some s' \<and> shuffled c s s' \<and> qsys c s' (maintained (now s) s L)"
proof -
  let ?is = "[0..<RUN_QUEUE_SIZE - 1]" and ?t = "now s"
  have q0: "qsys c (lib_request s) L" using assms(1) by simp
  have ag: "drained ?t (lib_request s) = drained ?t s"
    using age_shuffled [OF shuffled_lib_request, of ?t] by (simp only: drained_def [abs_def] by_age_def [abs_def])
  obtain s1 where s1: "drain_all ?t ?is (lib_request s) = Some (map (\<lambda>i. length (L (Run (Suc i)))) ?is, s1)" "shuffled c (lib_request s) s1"
    "qsys c s1 (drained ?t s (set ?is) L)"
    using drain_all_ok [OF q0, of ?is ?t] assms(3) unfolding ag by (force simp: RUN_QUEUE_SIZE_def)
  have e: "map (\<lambda>i. length (drained ?t s (set ?is) L (Prom i))) ?is = map (\<lambda>i. length (L (Run (Suc i)))) ?is"
    by (auto simp: drained_def)
  obtain s2 where s2: "promote_all (zip ?is (map (\<lambda>i. length (L (Run (Suc i)))) ?is)) s1 = Some s2" "shuffled c s1 s2"
    "qsys c s2 (returned ?is (drained ?t s (set ?is) L))"
    using promote_all_ok [OF s1(3), of ?is] unfolding e by (force simp: RUN_QUEUE_SIZE_def)
  have run: "drained ?t s (set ?is) L (Run l) = (if l = 0 then L (Run 0) else [])" for l
  proof (cases "l = 0 \<or> l \<in> Suc ` set ?is")
    case True
    then show ?thesis by (auto simp: drained_def)
  next
    case False
    then have "\<not> l < RUN_QUEUE_SIZE" by (cases l) (auto simp: RUN_QUEUE_SIZE_def)
    then have "L (Run l) = []" using assms(1) by (simp add: qsys_def sys_def apart_def)
    then show ?thesis using False by (auto simp: drained_def)
  qed
  have m: "map (\<lambda>i. share i (drained ?t s (set ?is) L (Prom i)) l) ?is = map (\<lambda>i. share i (by_age ?t s (L (Run (Suc i)))) l) ?is" for l
    by (auto simp: drained_def)
  have "returned ?is (drained ?t s (set ?is) L) p = maintained ?t s L p" for p
    unfolding returned_def m using run assms(3) by (cases p) (auto simp: maintained_def drained_def)
  then have "returned ?is (drained ?t s (set ?is) L) = maintained ?t s L" by (rule ext)
  moreover have "shuffled c s (lib_request s2)"
    by (rule shuffled_trans [OF shuffled_lib_request shuffled_trans [OF s1(2) shuffled_trans [OF s2(2) shuffled_lib_request]]])
  ultimately show ?thesis using assms(2) s1(1) s2 by (simp add: maintenance_def)
qed

lemma share_set: "(\<Union>l. set (share i xs l)) = set xs"
proof
  show "(\<Union>l. set (share i xs l)) \<subseteq> set xs" by (auto simp: share_def Let_def split: if_splits dest!: in_set_takeD in_set_dropD)
  let ?k = "length xs div (i + 2)"
  have "set (take (?k * m) xs) \<subseteq> (\<Union>l. set (share i xs l))" if "m \<le> i + 1" for m
    using that
  proof (induction m)
    case (Suc m)
    have "share i xs (i + 1 - m) = take ?k (drop (?k * m) xs)" using Suc.prems by (simp add: share_def Let_def)
    moreover have "take (?k * Suc m) xs = take (?k * m) xs @ take ?k (drop (?k * m) xs)"
      by (simp add: take_add [symmetric] add.commute)
    ultimately have "set (take (?k * Suc m) xs) = set (take (?k * m) xs) \<union> set (share i xs (i + 1 - m))" by simp
    then show ?case using Suc.IH Suc.prems by auto
  qed simp
  from this [of "i + 1"] have "set (take (?k * (i + 1)) xs) \<subseteq> (\<Union>l. set (share i xs l))" by simp
  moreover have "set (drop (?k * (i + 1)) xs) \<subseteq> (\<Union>l. set (share i xs l))" by (auto simp: share_def Let_def intro!: exI [of _ 0])
  moreover have "set xs = set (take (?k * (i + 1)) xs) \<union> set (drop (?k * (i + 1)) xs)" by (metis append_take_drop_id set_append)
  ultimately show "set xs \<subseteq> (\<Union>l. set (share i xs l))" by blast
qed

lemma by_age_set [simp]: "set (by_age t s xs) = set xs"
  by (metis by_age_mset set_mset_mset)

lemma run_union:
  assumes "apart L"
  shows "(\<Union>l. set (L (Run l))) = set (L (Run 0)) \<union> (\<Union>i \<in> {0..<RUN_QUEUE_SIZE - 1}. set (L (Run (Suc i))))"
proof (rule set_eqI)
  fix x
  have "l = 0 \<or> (\<exists>i < RUN_QUEUE_SIZE - 1. l = Suc i)" if "x \<in> set (L (Run l))" for l
  proof -
    have "l < RUN_QUEUE_SIZE" using assms that by (cases "l < RUN_QUEUE_SIZE") (auto simp: apart_def)
    then show ?thesis by (cases l) (auto simp: RUN_QUEUE_SIZE_def)
  qed
  then show "x \<in> (\<Union>l. set (L (Run l))) \<longleftrightarrow> x \<in> set (L (Run 0)) \<union> (\<Union>i \<in> {0..<RUN_QUEUE_SIZE - 1}. set (L (Run (Suc i))))"
    by fastforce
qed

lemma maintained_run: "apart L \<Longrightarrow> (\<Union>l. set (maintained t s L (Run l))) = (\<Union>l. set (L (Run l)))"
proof -
  assume "apart L"
  have "(\<Union>l. set (maintained t s L (Run l))) =
      set (L (Run 0)) \<union> (\<Union>i \<in> {0..<RUN_QUEUE_SIZE - 1}. \<Union>l. set (share i (by_age t s (L (Run (Suc i)))) l))"
    by (auto simp: maintained_def split: if_splits)
  then show ?thesis unfolding run_union [OF \<open>apart L\<close>] share_set by simp
qed

lemma everyone_places: "everyone L = (\<Union>l. set (L (Run l))) \<union> (\<Union>i. set (L (Prom i))) \<union> set (L Join)"
proof (rule set_eqI)
  fix x
  have "(\<exists>p. x \<in> set (L p)) \<longleftrightarrow> (\<exists>l. x \<in> set (L (Run l))) \<or> (\<exists>i. x \<in> set (L (Prom i))) \<or> x \<in> set (L Join)"
    by (metis place.exhaust)
  then show "x \<in> everyone L \<longleftrightarrow> x \<in> (\<Union>l. set (L (Run l))) \<union> (\<Union>i. set (L (Prom i))) \<union> set (L Join)"
    by (simp add: everyone_def)
qed

lemma maintained_everyone:
  assumes "apart L" "\<forall>i. L (Prom i) = []"
  shows "everyone (maintained t s L) = everyone L"
  using assms maintained_run unfolding everyone_places by (simp add: maintained_def [of _ _ _ "Prom _"] maintained_def [of _ _ _ Join])

end
