(* ===== verification/PtThreads.thy ===== *)
theory PtThreads
  imports PtMaint
begin

text \<open>
  The join list and what happens when a thread dies: the nodes that wait for it, and only those, go
  back to their run queues, in the order of the join list.
\<close>

section \<open>The join list\<close>

definition id_of :: "sched \<Rightarrow> addr \<Rightarrow> int" where
  "id_of s x = tid (pthreads s (threadID (nodes s x)))"

definition waits_for :: "sched \<Rightarrow> addr \<Rightarrow> int" where
  "waits_for s x = tid (pthreads s (joinee (nodes s x)))"

lemma qsys_sys: "qsys c s L \<Longrightarrow> sys s L"
  by (simp add: qsys_def)

lemma qsys_good: "qsys c s L \<Longrightarrow> x \<in> set (L p) \<Longrightarrow> good_node c s x"
  by (auto simp: qsys_def)

lemma qsys_NULL: "qsys c s L \<Longrightarrow> x \<in> set (L p) \<Longrightarrow> x \<noteq> NULL"
  using qsys_good by (auto simp: good_node_def)

lemma qsys_waits: "qsys c s L \<Longrightarrow> x \<in> set (L Join) \<Longrightarrow> waits_ok s x"
  by (simp add: qsys_def)

lemma qsys_distinct: "qsys c s L \<Longrightarrow> distinct (L p)"
  by (simp add: qsys_def sys_def apart_def)

lemma qsys_join: "qsys c s L \<Longrightarrow> llist (nx_of s) (joinHead s) (L Join)"
  by (simp add: qsys_def sys_def)

lemma insertToList_sys:
  assumes s: "sys s L" and n: "n \<noteq> NULL" "n \<notin> everyone L"
  obtains s' where "insertToList n s = Some s'" "sys s' (L(Join := n # L Join))" "moved NULL s s'"
proof -
  let ?s = "(upd_node n (nnext_update (\<lambda>_. joinHead s)) s)\<lparr>joinHead := n\<rparr>"
  have m: "moved NULL s ?s" by (simp add: moved_def upd_node_def)
  have nin: "n \<notin> set (L p)" for p using n(2) in_everyone by metis
  have "llist (nx_of ?s) (joinHead s) (L Join) = llist (nx_of s) (joinHead s) (L Join)"
    by (rule llist_cong) (use nin in auto)
  moreover have "llist (nx_of s) (joinHead s) (L Join)" using s by (simp add: sys_def)
  moreover have "nnext (nodes ?s x) = nnext (nodes s x)" if "x \<in> set (L p)" for p x using that nin [of p] by auto
  ultimately have "sys ?s (L(Join := n # L Join))"
    using n(1) by (intro sys_change [OF s m _ apart_cons [OF sys_apart [OF s] _ n(2)]]) auto
  then show thesis using m n(1) by (intro that) (auto simp: insertToList_def)
qed

lemma removeFromList_from_sys:
  assumes s: "sys s L" and y: "id_of s y = i" "threadID (nodes s y) \<noteq> NULL"
  shows "L Join = xs @ zs @ y # ys \<Longrightarrow> \<forall>x \<in> set zs. id_of s x \<noteq> i \<and> threadID (nodes s x) \<noteq> NULL \<Longrightarrow>
    \<exists>s'. removeFromList_from i (if xs = [] then NULL else last xs) (hd (zs @ [y])) s = Some (y, s') \<and>
      sys s' (L(Join := xs @ zs @ ys)) \<and> moved NULL s s'"
proof (induction zs arbitrary: xs)
  case Nil
  have L: "L Join = xs @ y # ys" using Nil by simp
  have ll: "llist (nx_of s) (joinHead s) (xs @ y # ys)" and d: "distinct (xs @ y # ys)"
    using s L unfolding sys_def apart_def by metis+
  have y0: "y \<noteq> NULL" using llist_not_Null [OF ll] by auto
  have lx: "last xs \<in> set xs" if "xs \<noteq> []" using that by simp
  then have l0: "last xs \<noteq> NULL" if "xs \<noteq> []" using llist_not_Null [OF ll] that by (metis UnCI set_append)
  let ?s = "if xs = [] then upd_node y (nnext_update (\<lambda>_. NULL)) (s\<lparr>joinHead := nnext (nodes s y)\<rparr>)
    else upd_node y (nnext_update (\<lambda>_. NULL)) (upd_node (last xs) (nnext_update (\<lambda>_. nnext (nodes s y))) s)"
  have run: "removeFromList_from i (if xs = [] then NULL else last xs) y s = Some (y, ?s)"
    using y y0 l0 by (subst removeFromList_from.simps) (auto simp: id_of_def)
  have m: "moved NULL s ?s" by (auto simp: moved_def upd_node_def)
  have yl: "xs \<noteq> [] \<Longrightarrow> y \<noteq> last xs" using d lx by auto
  have nx: "nx_of ?s = (\<lambda>x. if x = y then NULL else if xs \<noteq> [] \<and> x = last xs then nnext (nodes s y) else nnext (nodes s x))"
    using yl by (auto simp: fun_eq_iff)
  have j: "joinHead ?s = (if xs = [] then nnext (nodes s y) else joinHead s)" by simp
  have links: "nnext (nodes ?s x) = nnext (nodes s x)" if "p \<noteq> Join" "x \<in> set (L p)" for p x
  proof -
    have "x \<notin> set (xs @ y # ys)" using that apart_elsewhere [OF sys_apart [OF s], of x Join p] L by auto
    then show ?thesis using fun_cong [OF nx, of x] last_in_set [of xs] by auto
  qed
  have "sys ?s (L(Join := xs @ ys))"
  proof (rule sys_change [OF s m disjI2 [OF refl] apart_remove [OF sys_apart [OF s] L]])
    show "llist (nx_of ?s) (joinHead ?s) (xs @ ys)" unfolding nx j by (rule llist_delete [OF ll d])
  qed (use links in auto)
  then show ?case using run m unfolding append_Nil list.sel by blast
next
  case (Cons z zs)
  have ll: "llist (nx_of s) (joinHead s) (xs @ z # zs @ y # ys)" using s Cons.prems(1) unfolding sys_def by simp
  then have z: "z \<noteq> NULL" using llist_not_Null by fastforce
  have "llist (nx_of s) (nnext (nodes s z)) (zs @ y # ys)" using llist_rest [OF ll] by simp
  then have nz: "nnext (nodes s z) = hd (zs @ [y])" by (cases zs) auto
  have "removeFromList_from i (if xs = [] then NULL else last xs) z s = removeFromList_from i z (hd (zs @ [y])) s"
    using z nz Cons.prems(2) by (subst removeFromList_from.simps) (simp add: id_of_def)
  then show ?case using Cons.IH [of "xs @ [z]"] Cons.prems by simp
qed

lemma removeFromList_qsys:
  assumes q: "qsys c s L" and L: "L Join = xs @ y # ys" and inj: "inj_on (id_of s) (set (L Join))"
  obtains s' where "removeFromList (threadID (nodes s y)) s = Some (y, s')" "qsys c s' (L(Join := xs @ ys))" "moved NULL s s'"
proof -
  have t: "threadID (nodes s x) \<noteq> NULL" if "x \<in> set (xs @ y # ys)" for x
    using qsys_good [OF q, of x Join] that L by (auto simp: good_node_def)
  have d: "distinct (xs @ y # ys)" using qsys_distinct [OF q, of Join] L by simp
  have "\<forall>x \<in> set xs. id_of s x \<noteq> id_of s y \<and> threadID (nodes s x) \<noteq> NULL"
  proof
    fix x assume x: "x \<in> set xs"
    then have "x \<noteq> y" using d by auto
    then show "id_of s x \<noteq> id_of s y \<and> threadID (nodes s x) \<noteq> NULL"
      using x t [of x] inj_onD [OF inj, of x y] L by auto
  qed
  moreover have "joinHead s = hd (xs @ [y])" using qsys_join [OF q] L by (cases xs) auto
  ultimately obtain s' where s': "removeFromList_from (id_of s y) NULL (joinHead s) s = Some (y, s')" "sys s' (L(Join := xs @ ys))" "moved NULL s s'"
    using removeFromList_from_sys [OF qsys_sys [OF q] refl, of y "[]" xs ys] t [of y] L by auto
  have null: "NULL \<notin> set (L p)" for p using qsys_NULL [OF q] by blast
  have sub: "x \<in> set ((L(Join := xs @ ys)) p) \<Longrightarrow> x \<in> set (L p)" for x p using L by (auto split: if_splits)
  have "qsys c s' (L(Join := xs @ ys))" by (rule qsys_moved [OF q s'(2,3)]) (use null sub in blast)+
  moreover have "removeFromList (threadID (nodes s y)) s = Some (y, s')" using s'(1) t [of y] by (simp add: removeFromList_def id_of_def)
  ultimately show thesis using s'(3) by (intro that)
qed

section \<open>The death of a thread\<close>

text \<open>The layout once the nodes \<open>m\<close> of the join list are back in the run queues of their priorities.\<close>

definition woken :: "(addr \<Rightarrow> bool) \<Rightarrow> (addr \<Rightarrow> int) \<Rightarrow> layout \<Rightarrow> layout" where
  "woken m pr L p = (case p of Run l \<Rightarrow> L p @ filter (\<lambda>x. m x \<and> pr x = int l) (L Join)
     | Prom i \<Rightarrow> L p | Join \<Rightarrow> filter (\<lambda>x. \<not> m x) (L Join))"

lemma wake_skip:
  assumes "\<forall>x \<in> set xs. waits_for s x \<noteq> i \<and> joinee (nodes s x) \<noteq> NULL" "llist (nx_of s) h (xs @ ys)"
  shows "wake i h s = wake i (if ys = [] then NULL else hd ys) s"
  using assms
proof (induction xs arbitrary: h)
  case Nil
  then show ?case by (cases ys) auto
next
  case (Cons x xs)
  then have "wake i h s = wake i (nnext (nodes s x)) s" by (subst wake.simps) (simp add: waits_for_def)
  then show ?case using Cons by simp
qed

lemma woken_step:
  assumes "L Join = xs @ y # ys" "\<forall>x \<in> set xs. \<not> m x" "m y" "pr y = int l" "\<And>x. x \<in> set (xs @ ys) \<Longrightarrow> pr' x = pr x"
  shows "woken m pr' (L(Join := xs @ ys, Run l := L (Run l) @ [y])) = woken m pr L"
proof
  fix p
  have "filter (\<lambda>x. m x \<and> pr' x = k) (xs @ ys) = filter (\<lambda>x. m x \<and> pr x = k) (xs @ ys)" for k
    by (rule filter_cong) (use assms(5) in auto)
  moreover have "filter (\<lambda>x. m x \<and> pr x = k) xs = []" for k using assms(2) by (simp add: filter_empty_conv)
  ultimately show "woken m pr' (L(Join := xs @ ys, Run l := L (Run l) @ [y])) p = woken m pr L p"
    using assms(1,3,4) by (cases p) (auto simp: woken_def)
qed

lemma wake_ok:
  assumes "qsys c s L" "inj_on (id_of s) (set (L Join))"
  shows "\<exists>s'. wake i (joinHead s) s = Some s' \<and> shuffled c s s' \<and>
    qsys c s' (woken (\<lambda>x. waits_for s x = i) (\<lambda>x. priority (nodes s x)) L)"
  using assms
proof (induction "length (L Join)" arbitrary: s L rule: less_induct)
  case less
  let ?m = "\<lambda>x. waits_for s x = i" and ?pr = "\<lambda>x. priority (nodes s x)"
  note q = less.prems(1)
  have j: "\<forall>x \<in> set (L Join). joinee (nodes s x) \<noteq> NULL" using qsys_waits [OF q] by (simp add: waits_ok_def)
  show ?case
  proof (cases "\<exists>x \<in> set (L Join). ?m x")
    case False
    have "wake i (joinHead s) s = wake i NULL s"
      using wake_skip [of "L Join" s i "joinHead s" "[]"] False j qsys_join [OF q] by auto
    also have "\<dots> = Some s" by (subst wake.simps) simp
    finally have "wake i (joinHead s) s = Some s" .
    moreover have "woken ?m ?pr L = L" using False by (auto simp: woken_def fun_eq_iff filter_empty_conv filter_id_conv split: place.split)
    ultimately show ?thesis using q shuffled_refl by simp
  next
    case True
    then obtain xs y ys where L: "L Join = xs @ y # ys" "?m y" "\<forall>x \<in> set xs. \<not> ?m x" using split_list_first_prop [OF True] by blast
    have y: "y \<in> set (L Join)" using L(1) by simp
    obtain s1 where s1: "removeFromList (threadID (nodes s y)) s = Some (y, s1)" "qsys c s1 (L(Join := xs @ ys))" "moved NULL s s1"
      by (rule removeFromList_qsys [OF q L(1) less.prems(2)])
    have w: "waits_ok s y" "good_node c s y" "y \<noteq> NULL" using qsys_waits [OF q y] qsys_good [OF q y] qsys_NULL [OF q y] .
    define l where "l = nat (priority (nodes s y))"
    have l: "priority (nodes s y) = int l" "l < RUN_QUEUE_SIZE" "priority (nodes s1 y) = int l"
      using w moved_same(18) [OF s1(3), of y] by (auto simp: waits_ok_def l_def)
    have new: "y \<notin> set ((L(Join := xs @ ys)) p)" for p
      using rq.rep_apart [OF q y, of p] qsys_distinct [OF q, of Join] L(1) by (cases "p = Join") auto
    have g: "good_node c s1 y" using w(2) good_node_moved [OF s1(3)] by simp
    obtain s2 where s2: "enQ (runQ s1 l) y s1 = Some s2" "qsys c s2 (L(Join := xs @ ys, Run l := L (Run l) @ [y]))" "moved y s1 s2"
      by (rule enQ_qsys [OF s1(2), of "Run l" y]) (use l g new in \<open>auto simp del: fun_upd_apply simp: fun_upd_other\<close>)
    let ?L = "L(Join := xs @ ys, Run l := L (Run l) @ [y])"
    have sh: "shuffled c s s2" using shuffled_trans [OF moved_shuffled_NULL [OF s1(3)] moved_shuffled [OF s2(3)]] w(2) by (auto simp: good_node_def)
    note sm = shuffled_same [OF sh]
    have ids: "id_of s2 = id_of s" "waits_for s2 = waits_for s" by (simp_all add: fun_eq_iff id_of_def waits_for_def sm)
    have pr: "priority (nodes s2 x) = priority (nodes s x)" if "x \<in> set (xs @ ys)" for x
    proof -
      have "x \<noteq> y" "x \<noteq> NULL" using that new [of Join] qsys_NULL [OF q, of x Join] L(1) by auto
      then show ?thesis using moved_same(18) [OF s1(3), of x] moved_same(18) [OF s2(3), of x] by simp
    qed
    have "wake i (joinHead s) s = wake i y s"
      using wake_skip [of xs s i "joinHead s" "y # ys"] L j qsys_join [OF q] by auto
    also have "\<dots> = wake i (joinHead s2) s2"
      using w(1,3) L(2) s1(1) s2(1) l by (subst wake.simps) (simp add: waits_for_def waits_ok_def runQ_at_def)
    finally have run: "wake i (joinHead s) s = wake i (joinHead s2) s2" .
    have "length (?L Join) < length (L Join)" "inj_on (id_of s2) (set (?L Join))"
      using L(1) inj_on_subset [OF less.prems(2), of "set (xs @ ys)"] ids by auto
    then obtain s3 where s3: "wake i (joinHead s2) s2 = Some s3" "shuffled c s2 s3"
      "qsys c s3 (woken (\<lambda>x. waits_for s2 x = i) (\<lambda>x. priority (nodes s2 x)) ?L)"
      using less.hyps [OF _ s2(2)] by blast
    have "woken (\<lambda>x. waits_for s2 x = i) (\<lambda>x. priority (nodes s2 x)) ?L = woken ?m ?pr L"
      unfolding ids using L l(1) pr by (intro woken_step) auto
    then show ?thesis using run s3 shuffled_trans [OF sh s3(2)] by simp
  qed
qed

end
