(* ===== verification/PtSchedule.thy ===== *)
theory PtSchedule
  imports PtThreads
begin

text \<open>
  The scheduler proper: where the running thread goes when it is taken off the processor, which
  thread runs next and for how long, and the invariant that every call of \<open>schedule\<close> keeps.
\<close>

section \<open>Frames\<close>

lemma qsys_free: "qsys c s L \<Longrightarrow> qsys NULL s L"
  by (auto simp: qsys_def good_node_def)

lemma qsys_keep: "qsys NULL s L \<Longrightarrow> c \<notin> everyone L \<Longrightarrow> qsys c s L"
  by (auto simp: qsys_def good_node_def everyone_def)

lemma qsys_out: "qsys c s L \<Longrightarrow> c \<notin> everyone L"
  by (auto simp: qsys_def good_node_def everyone_def)

text \<open>The node \<open>c\<close> that was kept out is now in, and no other node has changed.\<close>

lemma qsys_enter:
  assumes q: "qsys c s L" and s: "sys s' L'"
    and old: "\<And>p x. x \<in> set (L' p) \<Longrightarrow> x \<in> set (L p) \<or> x = c"
    and same: "\<And>x. x \<noteq> c \<Longrightarrow> x \<noteq> NULL \<Longrightarrow> status (nodes s' x) = status (nodes s x) \<and> threadID (nodes s' x) = threadID (nodes s x) \<and>
      joinee (nodes s' x) = joinee (nodes s x) \<and> priority (nodes s' x) = priority (nodes s x)"
    and new: "good_node NULL s' c" "\<And>i. c \<in> set (L' (Run i)) \<Longrightarrow> priority (nodes s' c) = int i" "c \<in> set (L' Join) \<Longrightarrow> waits_ok s' c"
  shows "qsys NULL s' L'"
proof -
  have x: "x \<noteq> c \<and> x \<noteq> NULL" if "x \<in> set (L p)" for x p using qsys_good [OF q that] by (auto simp: good_node_def)
  have "good_node NULL s' x" if "x \<in> set (L' p)" for p x
  proof (cases "x = c")
    case False
    then have "x \<in> set (L p)" using old [OF that] by simp
    then show ?thesis using qsys_good [OF q] same [of x] x [of x p] by (simp add: good_node_def)
  qed (use new in simp)
  moreover have "priority (nodes s' x) = int i" if "x \<in> set (L' (Run i))" for i x
    using old [OF that] new(2) that q x [of x] same [of x] by (cases "x = c") (auto simp: qsys_def)
  moreover have "waits_ok s' x" if "x \<in> set (L' Join)" for x
    using old [OF that] new(3) that qsys_waits [OF q, of x] x [of x] same [of x] by (cases "x = c") (auto simp: waits_ok_def)
  ultimately show ?thesis using s by (simp add: qsys_def)
qed

text \<open>What no scheduling step changes.\<close>

definition kept :: "sched \<Rightarrow> sched \<Rightarrow> bool" where
  "kept s s' \<longleftrightarrow> runQ s' = runQ s \<and> promotionQ s' = promotionQ s \<and> threadsHead s' = threadsHead s \<and> now s' = now s \<and>
     lib_room s' = lib_room s \<and> scd_up s' = scd_up s \<and> threadNum s' = threadNum s \<and>
     (\<forall>t. tid (pthreads s' t) = tid (pthreads s t) \<and> tnext (pthreads s' t) = tnext (pthreads s t) \<and> exitArg (pthreads s' t) = exitArg (pthreads s t)) \<and>
     (\<forall>x. threadID (nodes s' x) = threadID (nodes s x) \<and> joinee (nodes s' x) = joinee (nodes s x) \<and> ut (nodes s' x) = ut (nodes s x) \<and>
       timeCreated (nodes s' x) = timeCreated (nodes s x))"

lemma kept_refl: "kept s s"
  by (simp add: kept_def)

lemma kept_trans: "kept s s' \<Longrightarrow> kept s' s'' \<Longrightarrow> kept s s''"
  by (simp add: kept_def)

lemma shuffled_kept: "shuffled c s s' \<Longrightarrow> kept s s'"
  by (simp add: kept_def shuffled_same)

lemma moved_kept: "moved n s s' \<Longrightarrow> kept s s'"
proof -
  assume m: "moved n s s'"
  then have e: "s' = s\<lparr>nodes := nodes s', queues := queues s', joinHead := joinHead s'\<rparr>" unfolding moved_def by blast
  have "scd_up s' = scd_up s" "threadNum s' = threadNum s" using arg_cong [OF e, of scd_up] arg_cong [OF e, of threadNum] by simp_all
  then show ?thesis by (simp add: kept_def moved_same [OF m])
qed

text \<open>The page table, the protections and the descriptors of threads are left alone.\<close>

definition same_tables :: "sched \<Rightarrow> sched \<Rightarrow> bool" where
  "same_tables s s' \<longleftrightarrow> pages s' = pages s \<and> prot s' = prot s \<and> pthreads s' = pthreads s \<and> timerSet s' = timerSet s"

lemma same_tables_trans: "same_tables s s' \<Longrightarrow> same_tables s' s'' \<Longrightarrow> same_tables s s''"
  by (simp add: same_tables_def)

lemma moved_tables: "moved n s s' \<Longrightarrow> same_tables s s'"
proof -
  assume "moved n s s'"
  then have e: "s' = s\<lparr>nodes := nodes s', queues := queues s', joinHead := joinHead s'\<rparr>" unfolding moved_def by blast
  show ?thesis using arg_cong [OF e, of pages] arg_cong [OF e, of prot] arg_cong [OF e, of pthreads] arg_cong [OF e, of timerSet] by (simp add: same_tables_def)
qed

lemma shuffled_tables: "shuffled c s s' \<Longrightarrow> same_tables s s'"
proof -
  assume "shuffled c s s'"
  then have e: "s' = s\<lparr>nodes := nodes s', queues := queues s', joinHead := joinHead s', timer := timer s', ktimer := ktimer s'\<rparr>" unfolding shuffled_def by blast
  show ?thesis using arg_cong [OF e, of pages] arg_cong [OF e, of prot] arg_cong [OF e, of pthreads] arg_cong [OF e, of timerSet] by (simp add: same_tables_def)
qed

text \<open>What the death of the running thread and the switch to another do to the pages.\<close>

definition own_page :: "sched \<Rightarrow> nat \<Rightarrow> bool" where
  "own_page s i \<longleftrightarrow> i < length (pages s) \<and> getPageThID (pages s ! i) = word_of_int (id_of s (current s))"

definition dead_pages :: "sched \<Rightarrow> uint32 list" where
  "dead_pages s = map (\<lambda>pg. if getPageThID pg = word_of_int (id_of s (current s)) then setPageIsF pg 1 else pg) (pages s)"

definition switched_prot :: "sched \<Rightarrow> sched \<Rightarrow> nat \<Rightarrow> bool" where
  "switched_prot s s' = (if id_of s (current s') \<noteq> id_of s (current s) then prot (protectAllPages (id_of s (current s)) s) else prot s)"

lemma kept_timer: "kept s (pause_timer s)" "kept s (unpause_timer s)" "kept s (lib_request s)"
  by (simp_all add: kept_def lib_request_same pause_timer_same unpause_timer_same)

lemma kept_ids: "kept s s' \<Longrightarrow> id_of s' = id_of s" "kept s s' \<Longrightarrow> waits_for s' = waits_for s"
  by (simp_all add: kept_def id_of_def waits_for_def fun_eq_iff)

section \<open>The thread list\<close>

definition thread_list :: "sched \<Rightarrow> addr list \<Rightarrow> bool" where
  "thread_list s T \<longleftrightarrow> llist (\<lambda>t. tnext (pthreads s t)) (threadsHead s) T"

lemma kept_threads: "kept s s' \<Longrightarrow> thread_list s' T = thread_list s T"
  by (simp add: kept_def thread_list_def)

lemma threadDied_from_ok:
  assumes "llist (\<lambda>t. tnext (pthreads s t)) p T"
  shows "threadDied_from i p s = Some (case find (\<lambda>t. tid (pthreads s t) = i) T of
    None \<Rightarrow> s | Some t \<Rightarrow> upd_thread t (isDead_update (\<lambda>_. 1)) s)"
  using assms by (induction T arbitrary: p; subst threadDied_from.simps) auto

lemma find_thread_ok:
  assumes "llist (\<lambda>t. tnext (pthreads s t)) p T"
  shows "find_thread i p s = Some (case find (\<lambda>t. tid (pthreads s t) = i) T of None \<Rightarrow> NULL | Some t \<Rightarrow> t)"
  using assms by (induction T arbitrary: p; subst find_thread.simps) auto

lemma existsInThreadList_from_ok:
  assumes "llist (\<lambda>t. tnext (pthreads s t)) p T"
  shows "existsInThreadList_from i p s = Some (if \<exists>t \<in> set T. tid (pthreads s t) = i then 1 else 0)"
  using assms by (induction T arbitrary: p; subst existsInThreadList_from.simps) auto

text \<open>The thread list after the death of the threads with id \<open>i\<close>.\<close>

definition died :: "int \<Rightarrow> addr list \<Rightarrow> sched \<Rightarrow> sched" where
  "died i T s = (case find (\<lambda>t. tid (pthreads s t) = i) T of None \<Rightarrow> s | Some t \<Rightarrow> upd_thread t (isDead_update (\<lambda>_. 1)) s)"

lemma threadDied_ok: "thread_list s T \<Longrightarrow> th \<noteq> NULL \<Longrightarrow> threadDied th s = Some (died (tid (pthreads s th)) T s)"
  by (simp add: threadDied_def thread_list_def threadDied_from_ok died_def)

lemma died_same:
  "nodes (died i T s) = nodes s" "queues (died i T s) = queues s" "runQ (died i T s) = runQ s" "promotionQ (died i T s) = promotionQ s"
  "joinHead (died i T s) = joinHead s" "current (died i T s) = current s" "kept s (died i T s)" "timer (died i T s) = timer s"
  by (auto simp: died_def upd_thread_def kept_def split: option.split)

section \<open>The running thread\<close>

definition runs :: "sched \<Rightarrow> bool" where
  "runs s \<longleftrightarrow> current s \<noteq> NULL \<and> threadID (nodes s (current s)) \<noteq> NULL \<and>
     0 \<le> priority (nodes s (current s)) \<and> priority (nodes s (current s)) < int RUN_QUEUE_SIZE \<and>
     (status (nodes s (current s)) = JOINING \<longrightarrow> joinee (nodes s (current s)) \<noteq> NULL)"

definition level_of :: "sched \<Rightarrow> addr \<Rightarrow> nat" where
  "level_of s x = nat (priority (nodes s x))"

definition put :: "place \<Rightarrow> addr \<Rightarrow> layout \<Rightarrow> layout" where
  "put p x L = L(p := L p @ [x])"

text \<open>Where the nodes are once the running one has been put away.\<close>

definition requeued :: "sched \<Rightarrow> layout \<Rightarrow> layout" where
  "requeued s L =
     (let c = current s
      in case status (nodes s c) of
        YIELDING \<Rightarrow> put (Run (level_of s c)) c L
      | EXITING \<Rightarrow> woken (\<lambda>x. waits_for s x = id_of s c) (\<lambda>x. priority (nodes s x)) L
      | JOINING \<Rightarrow> L(Join := c # L Join)
      | NEUTRAL \<Rightarrow> put (Run (min (Suc (level_of s c)) (RUN_QUEUE_SIZE - 1))) c L)"

lemma enQ_current:
  assumes q: "qsys (current s) s L" and r: "runs s" and l: "l < RUN_QUEUE_SIZE" and st: "status (nodes s (current s)) = YIELDING \<Longrightarrow> level_of s (current s) = l"
  obtains s' where "enQ (runQ s l) (current s) s = Some s'" "sys s' (put (Run l) (current s) L)" "moved (current s) s s'"
    "priority (nodes s' (current s)) = int l" "current s \<notin> everyone L"
proof -
  have out: "current s \<notin> everyone L" using qsys_good [OF q] by (auto simp: everyone_def good_node_def)
  have c: "current s \<noteq> NULL" using r by (simp add: runs_def)
  have p: "qplace (Run l)" using l by simp
  obtain s' where s': "enQ (qaddr s (Run l)) (current s) s = Some s'" "sys s' (L(Run l := L (Run l) @ [current s]))" "moved (current s) s s'"
    "priority (nodes s' (current s)) = (if status (nodes s (current s)) = YIELDING \<and> L (Run l) \<noteq> [] then priority (nodes s (current s)) else priorityLevel (queues s (qaddr s (Run l))))"
    by (rule enQ_sys [OF qsys_sys [OF q] p c out])
  moreover have "priorityLevel (queues s (runQ s l)) = int l" using qsys_sys [OF q] l by (simp add: sys_def)
  moreover have "priority (nodes s (current s)) = int (level_of s (current s))" using r by (simp add: runs_def level_of_def)
  ultimately show thesis using st out by (intro that [of s']) (auto simp: put_def)
qed

lemma requeue_enter:
  assumes q: "qsys (current s) s L" and r: "runs s" and s': "sys s' (put (Run l) (current s) L)" "moved (current s) s s'"
    "priority (nodes s' (current s)) = int l" "current s \<notin> everyone L"
  shows "qsys NULL (upd_node (current s) (status_update (\<lambda>_. NEUTRAL)) s') (put (Run l) (current s) L)"
    (is "qsys NULL ?s _")
proof (rule qsys_enter [OF q])
  note m = moved_same [OF s'(2)]
  show "sys ?s (put (Run l) (current s) L)" using s'(1) by (subst sys_cong [of _ _ s']) auto
  have nin: "current s \<notin> set (L p)" for p using s'(4) in_everyone by metis
  show "x \<in> set (put (Run l) (current s) L p) \<Longrightarrow> x \<in> set (L p) \<or> x = current s" for p x by (auto simp: put_def split: if_splits)
  show "x \<noteq> current s \<Longrightarrow> x \<noteq> NULL \<Longrightarrow> status (nodes ?s x) = status (nodes s x) \<and> threadID (nodes ?s x) = threadID (nodes s x) \<and>
      joinee (nodes ?s x) = joinee (nodes s x) \<and> priority (nodes ?s x) = priority (nodes s x)" for x using m(12-14,18) by simp
  show "good_node NULL ?s (current s)" using r m(12) by (simp add: good_node_def runs_def)
  show "current s \<in> set (put (Run l) (current s) L (Run i)) \<Longrightarrow> priority (nodes ?s (current s)) = int i" for i
    using nin [of "Run i"] s'(3) by (auto simp: put_def split: if_splits)
  show "current s \<in> set (put (Run l) (current s) L Join) \<Longrightarrow> waits_ok ?s (current s)"
    using nin [of Join] by (simp add: put_def)
qed

lemma freePages_same:
  "nodes (freePages s) = nodes s" "queues (freePages s) = queues s" "runQ (freePages s) = runQ s" "promotionQ (freePages s) = promotionQ s"
  "joinHead (freePages s) = joinHead s" "current (freePages s) = current s" "kept s (freePages s)" "timer (freePages s) = timer s"
  by (simp_all add: freePages_def kept_def Let_def)

lemma kept_upd_status: "kept s (upd_node x (status_update f) s)"
  by (simp add: kept_def upd_node_def)

lemma requeue_ok:
  assumes q: "qsys (current s) s L" and r: "runs s" and inj: "inj_on (id_of s) (insert (current s) (everyone L))" and T: "thread_list s T"
  obtains s' where "requeue s = Some s'" "qsys NULL s' (requeued s L)" "kept s s'" "current s' = current s"
    "status (nodes s (current s)) = EXITING \<longrightarrow> runs s' \<and> pthreads s' = pthreads (died (id_of s (current s)) T s)"
    "status (nodes s (current s)) \<noteq> EXITING \<longrightarrow> same_tables s s'" "status (nodes s (current s)) = EXITING \<longrightarrow> pages s' = dead_pages s \<and> (\<forall>i. \<not> own_page s i \<longrightarrow> prot s' i = prot s i)"
proof (cases "status (nodes s (current s))")
  case NEUTRAL
  let ?l = "min (Suc (level_of s (current s))) (RUN_QUEUE_SIZE - 1)"
  obtain s' where s': "enQ (runQ s ?l) (current s) s = Some s'" "sys s' (put (Run ?l) (current s) L)" "moved (current s) s s'"
    "priority (nodes s' (current s)) = int ?l" "current s \<notin> everyone L"
    by (rule enQ_current [OF q r, of ?l]) (use NEUTRAL in \<open>auto simp: RUN_QUEUE_SIZE_def\<close>)
  have "runQ_at s (if priority (nodes s (current s)) < int RUN_QUEUE_SIZE - 1 then priority (nodes s (current s)) + 1 else priority (nodes s (current s))) = Some (runQ s ?l)"
    using r by (auto simp: runs_def runQ_at_def level_of_def RUN_QUEUE_SIZE_def nat_add_distrib intro!: arg_cong [of _ _ "runQ s"])
  then have "requeue s = Some s'" using NEUTRAL r s'(1) by (simp add: requeue_def Let_def demoteNode_def runs_def)
  moreover have "upd_node (current s) (status_update (\<lambda>_. NEUTRAL)) s' = s'"
    using NEUTRAL moved_same(13) [OF s'(3), of "current s"] by (simp add: upd_node_def fun_upd_idem)
  then have "qsys NULL s' (requeued s L)" using requeue_enter [OF q r s'(2-5)] NEUTRAL by (simp add: requeued_def Let_def)
  ultimately show thesis using moved_kept [OF s'(3)] moved_same(4) [OF s'(3)] moved_tables [OF s'(3)] NEUTRAL by (intro that [of s']) auto
next
  case YIELDING
  let ?l = "level_of s (current s)"
  obtain s' where s': "enQ (runQ s ?l) (current s) s = Some s'" "sys s' (put (Run ?l) (current s) L)" "moved (current s) s s'"
    "priority (nodes s' (current s)) = int ?l" "current s \<notin> everyone L"
    by (rule enQ_current [OF q r, of ?l]) (use r in \<open>auto simp: runs_def level_of_def\<close>)
  have "runQ_at s (priority (nodes s (current s))) = Some (runQ s ?l)" using r by (simp add: runs_def runQ_at_def level_of_def)
  then have "requeue s = Some (upd_node (current s) (status_update (\<lambda>_. NEUTRAL)) s')" using YIELDING r s'(1) by (simp add: requeue_def Let_def runs_def)
  moreover have "same_tables s (upd_node (current s) (status_update (\<lambda>_. NEUTRAL)) s')" using moved_tables [OF s'(3)] by (simp add: same_tables_def upd_node_def)
  ultimately show thesis using requeue_enter [OF q r s'(2-5)] YIELDING kept_trans [OF moved_kept [OF s'(3)] kept_upd_status] moved_same(4) [OF s'(3)]
    by (intro that [of "upd_node (current s) (status_update (\<lambda>_. NEUTRAL)) s'"]) (auto simp: requeued_def Let_def)
next
  case JOINING
  have c: "current s \<noteq> NULL" "current s \<notin> everyone L" using r qsys_good [OF q] by (auto simp: runs_def everyone_def good_node_def)
  obtain s' where s': "insertToList (current s) s = Some s'" "sys s' (L(Join := current s # L Join))" "moved NULL s s'"
    by (rule insertToList_sys [OF qsys_sys [OF q] c])
  note m = moved_same [OF s'(3)]
  have "qsys NULL s' (L(Join := current s # L Join))"
  proof (rule qsys_enter [OF q s'(2)])
    have nin: "current s \<notin> set (L p)" for p using c(2) in_everyone by metis
    show "current s \<in> set ((L(Join := current s # L Join)) (Run i)) \<Longrightarrow> priority (nodes s' (current s)) = int i" for i
      using nin [of "Run i"] by simp
    show "good_node NULL s' (current s)" "waits_ok s' (current s)"
      using r JOINING m(12-14,18) c(1) by (simp_all add: good_node_def waits_ok_def runs_def)
  qed (use m(12-14,18) in \<open>auto split: if_splits\<close>)
  then show thesis using s'(1) JOINING r moved_kept [OF s'(3)] moved_tables [OF s'(3)] m(4) by (intro that [of s']) (auto simp: requeued_def Let_def requeue_def runs_def)
next
  case EXITING
  let ?c = "current s" and ?i = "id_of s (current s)"
  let ?s1 = "died ?i T s"
  have 1: "threadDied (threadID (nodes s ?c)) s = Some ?s1" using threadDied_ok [OF T] r by (simp add: runs_def id_of_def)
  have q1: "qsys ?c ?s1 L" using q by (subst qsys_cong [of _ s]) (simp_all add: died_same)
  have k: "id_of ?s1 = id_of s" "waits_for ?s1 = waits_for s" using kept_ids [OF died_same(7)] by blast+
  have "inj_on (id_of ?s1) (set (L Join))" unfolding k using in_everyone by (intro inj_on_subset [OF inj]) blast
  then obtain s2 where s2: "wake ?i (joinHead ?s1) ?s1 = Some s2" "shuffled ?c ?s1 s2"
    "qsys ?c s2 (woken (\<lambda>x. waits_for ?s1 x = ?i) (\<lambda>x. priority (nodes ?s1 x)) L)" using wake_ok [OF q1, of ?i] by blast
  have "tid (pthreads ?s1 (threadID (nodes ?s1 ?c))) = ?i" using k by (simp add: id_of_def [symmetric])
  then have run: "requeue s = Some (freePages s2)" using 1 s2(1) EXITING r by (simp add: requeue_def Let_def runs_def)
  have "qsys NULL (freePages s2) (requeued s L)" using qsys_free [OF s2(3)] EXITING
    by (subst qsys_cong [of _ s2]) (simp_all add: freePages_same requeued_def Let_def k died_same)
  moreover have "kept s (freePages s2)" using kept_trans [OF kept_trans [OF died_same(7) shuffled_kept [OF s2(2)]] freePages_same(7)] .
  moreover have "current (freePages s2) = current s" using shuffled_same(4) [OF s2(2)] by (simp add: freePages_same died_same)
  moreover have "runs (freePages s2)"
    using r shuffled_same(4,9,10,11,18) [OF s2(2)] by (simp add: runs_def freePages_same died_same)
  moreover have "pthreads (freePages s2) = pthreads ?s1" using shuffled_same(3) [OF s2(2)] by (simp add: freePages_def Let_def)
  moreover have p2: "pages s2 = pages s" "prot s2 = prot s" "tid (pthreads s2 (threadID (nodes s2 (current s2)))) = ?i"
  proof -
    have "pages ?s1 = pages s" "prot ?s1 = prot s" by (simp_all add: died_def upd_thread_def split: option.split)
    then show "pages s2 = pages s" "prot s2 = prot s" "tid (pthreads s2 (threadID (nodes s2 (current s2)))) = ?i"
      using shuffled_same(3,4,9) [OF s2(2)] shuffled_tables [OF s2(2)] died_same(7) [of s ?i T] by (simp_all add: died_same kept_def id_of_def same_tables_def)
  qed
  have "pages (freePages s2) = dead_pages s" using p2 by (simp add: freePages_def dead_pages_def Let_def)
  moreover have "\<forall>i. \<not> own_page s i \<longrightarrow> prot (freePages s2) i = prot s i" using p2 by (auto simp: freePages_def own_page_def Let_def)
  ultimately show thesis using run EXITING by (intro that [of "freePages s2"]) auto
qed

section \<open>The next thread\<close>

text \<open>The highest level that has a thread.\<close>

definition ready_level :: "layout \<Rightarrow> nat option" where
  "ready_level L = find (\<lambda>i. L (Run i) \<noteq> []) [0..<RUN_QUEUE_SIZE]"

lemma ready_level_None: "ready_level L = None \<longleftrightarrow> (\<forall>i < RUN_QUEUE_SIZE. L (Run i) = [])"
  by (auto simp: ready_level_def find_None_iff)

lemma ready_level_Some:
  assumes "ready_level L = Some i"
  shows "i < RUN_QUEUE_SIZE" "L (Run i) \<noteq> []" "\<And>j. j < i \<Longrightarrow> L (Run j) = []"
proof -
  obtain k where k: "k < length [0..<RUN_QUEUE_SIZE]" "i = [0..<RUN_QUEUE_SIZE] ! k" "L (Run ([0..<RUN_QUEUE_SIZE] ! k)) \<noteq> []"
    "\<And>j. j < k \<Longrightarrow> \<not> L (Run ([0..<RUN_QUEUE_SIZE] ! j)) \<noteq> []"
    using assms unfolding ready_level_def find_Some_iff by blast
  then have "i = k" by simp
  then show "i < RUN_QUEUE_SIZE" "L (Run i) \<noteq> []" "\<And>j. j < i \<Longrightarrow> L (Run j) = []" using k by auto
qed

lemma getNextNode_from_skip:
  assumes "sys s L" "k \<le> i" "i \<le> RUN_QUEUE_SIZE" "\<And>j. k \<le> j \<Longrightarrow> j < i \<Longrightarrow> L (Run j) = []"
  shows "getNextNode_from k s = getNextNode_from i s"
  using assms(2,4)
proof (induction "i - k" arbitrary: k)
  case (Suc n)
  then have k: "k < i" "k < RUN_QUEUE_SIZE" using assms(3) by auto
  then have "qlist s (runQ s k) []" using sys_qlist [OF assms(1), of "Run k"] Suc.prems(2) [of k] by simp
  then have "getNextNode_from k s = getNextNode_from (Suc k) s" using k by (subst getNextNode_from.simps) (simp add: qlist_def)
  also have "\<dots> = getNextNode_from i s" using Suc k by (intro Suc.hyps(1)) auto
  finally show ?case .
qed simp

lemma getNextNode_none: "sys s L \<Longrightarrow> ready_level L = None \<Longrightarrow> getNextNode s = Some (NULL, s)"
  using getNextNode_from_skip [of s L 0 RUN_QUEUE_SIZE] unfolding ready_level_None getNextNode_def
  by (simp add: getNextNode_from.simps)

lemma getNextNode_some:
  assumes q: "qsys c s L" and i: "ready_level L = Some i"
  obtains s' where "getNextNode s = Some (hd (L (Run i)), s')" "qsys c s' (L(Run i := tl (L (Run i))))" "moved NULL s s'"
proof -
  note r = ready_level_Some [OF i]
  have p: "qplace (Run i)" using r by simp
  have e: "L (Run i) = hd (L (Run i)) # tl (L (Run i))" using r(2) by simp
  obtain s' where s': "deQ (qaddr s (Run i)) s = Some (hd (L (Run i)), s')" "qsys c s' (L(Run i := tl (L (Run i))))" "moved NULL s s'"
    by (rule deQ_qsys [OF q p e])
  have "qlist s (runQ s i) (L (Run i))" using sys_qlist [OF qsys_sys [OF q] p] by simp
  then have "runQ s i \<noteq> NULL \<and> head (queues s (runQ s i)) \<noteq> NULL" using r(2) by (cases "L (Run i)") (auto simp: qlist_def)
  then have "getNextNode s = Some (hd (L (Run i)), s')"
    using getNextNode_from_skip [OF qsys_sys [OF q], of 0 i] r s'(1) unfolding getNextNode_def by (simp add: getNextNode_from.simps [of i])
  then show thesis using s'(2,3) by (rule that)
qed

lemma protectAllPages_same:
  "nodes (protectAllPages t s) = nodes s" "queues (protectAllPages t s) = queues s" "runQ (protectAllPages t s) = runQ s"
  "promotionQ (protectAllPages t s) = promotionQ s" "joinHead (protectAllPages t s) = joinHead s" "current (protectAllPages t s) = current s"
  "kept s (protectAllPages t s)" "timer (protectAllPages t s) = timer s" "ktimer (protectAllPages t s) = ktimer s"
  by (simp_all add: protectAllPages_def kept_def)

lemma setitimer_same:
  "nodes (setitimer v s) = nodes s" "queues (setitimer v s) = queues s" "runQ (setitimer v s) = runQ s"
  "promotionQ (setitimer v s) = promotionQ s" "joinHead (setitimer v s) = joinHead s" "current (setitimer v s) = current s"
  "kept s (setitimer v s)" "timer (setitimer v s) = timer s" "ctx (setitimer v s) = ctx s" "pthreads (setitimer v s) = pthreads s"
  by (simp_all add: setitimer_def kept_def)

lemma dispatch_none: "sys s L \<Longrightarrow> ready_level L = None \<Longrightarrow> dispatch s = Some s"
  by (simp add: dispatch_def getNextNode_none Let_def)

text \<open>The quantum of a thread at level \<open>i\<close>.\<close>

definition quantum :: "nat \<Rightarrow> int" where
  "quantum i = 100000 * (int i + 1)"

lemma dispatch_some:
  assumes q: "qsys NULL s L" and i: "ready_level L = Some i" and r: "threadID (nodes s (current s)) \<noteq> NULL"
  obtains s' where "dispatch s = Some s'" "current s' = hd (L (Run i))" "qsys (current s') s' (L(Run i := tl (L (Run i))))" "kept s s'" "runs s'"
    "timer s' = (timer s)\<lparr>val_usec := quantum i\<rparr>" "itimer_valid (timer s') \<longrightarrow> ktimer s' = timer s'"
    "id_of s (current s') \<noteq> id_of s (current s) \<longrightarrow> ctx s' = ut (nodes s (current s'))" "pthreads s' = pthreads s"
    "pages s' = pages s" "prot s' = switched_prot s s'"
proof -
  let ?x = "hd (L (Run i))" and ?L = "L(Run i := tl (L (Run i)))"
  note lv = ready_level_Some [OF i]
  obtain s1 where s1: "getNextNode s = Some (?x, s1)" "qsys NULL s1 ?L" "moved NULL s s1" by (rule getNextNode_some [OF q i])
  have x: "?x \<in> set (L (Run i))" using lv(2) by simp
  have g: "good_node NULL s ?x" "?x \<noteq> NULL" "priority (nodes s ?x) = int i" using qsys_good [OF q x] qsys_NULL [OF q x] q x by (auto simp: qsys_def)
  note m = moved_same [OF s1(3)]
  let ?t = "(timer s)\<lparr>val_usec := quantum i\<rparr>"
  let ?s2 = "setitimer ?t (s1\<lparr>current := ?x, timer := ?t\<rparr>)"
  let ?d = "id_of s ?x \<noteq> id_of s (current s)"
  let ?s' = "if ?d then (protectAllPages (id_of s (current s)) ?s2)\<lparr>ctx := ut (nodes s ?x)\<rparr> else ?s2"
  have pr: "priority (nodes s1 ?x) = int i" using m(18) g by simp
  then have "dispatch s = Some ?s'" using s1(1) g r
    by (simp add: dispatch_def Let_def setitimer_same m(3,4,9,12,17) good_node_def id_of_def quantum_def QUANTA_TIME_def)
  moreover have "current ?s' = ?x" by (simp add: protectAllPages_same setitimer_same)
  moreover have "qsys ?x ?s' ?L"
  proof -
    have "?x \<notin> everyone ?L" using apart_remove [of L "Run i" "[]" ?x "tl (L (Run i))"] lv(2) sys_apart [OF qsys_sys [OF q]] x
      rq.rep_apart [OF q x] qsys_distinct [OF q, of "Run i"] by (cases "L (Run i)") (auto simp: everyone_def split: if_splits)
    then have "qsys ?x s1 ?L" by (rule qsys_keep [OF s1(2)])
    then show ?thesis by (subst qsys_cong [of _ s1]) (simp_all add: protectAllPages_same setitimer_same)
  qed
  moreover have "kept s ?s'" using moved_kept [OF s1(3)] by (simp add: kept_def protectAllPages_def setitimer_def)
  moreover have "runs ?s'" using g pr lv(1) by (simp add: runs_def protectAllPages_same setitimer_same good_node_def m)
  moreover have "timer ?s' = ?t" by (simp add: protectAllPages_same setitimer_same)
  moreover have "itimer_valid ?t \<longrightarrow> ktimer ?s' = ?t" by (simp add: protectAllPages_same setitimer_def)
  moreover have "pthreads ?s' = pthreads s" by (simp add: protectAllPages_def setitimer_same m(3))
  moreover have "?d \<longrightarrow> ctx ?s' = ut (nodes s ?x)" by simp
  moreover have "pages ?s' = pages s" "prot ?s' = switched_prot s ?s'"
    using moved_tables [OF s1(3)] by (simp_all add: same_tables_def switched_prot_def protectAllPages_def setitimer_def)
  ultimately show thesis using that [of ?s'] by metis
qed

section \<open>Scheduling\<close>

text \<open>
  \<open>L\<close> is the layout, \<open>T\<close> the thread list: the running node is in no queue, the promotion queues are
  empty, and the ids of the live threads are pairwise different and below \<open>threadNum\<close>.
\<close>

definition ids_ok :: "sched \<Rightarrow> layout \<Rightarrow> bool" where
  "ids_ok s L \<longleftrightarrow> inj_on (id_of s) (insert (current s) (everyone L)) \<and> (\<forall>x \<in> insert (current s) (everyone L). id_of s x < threadNum s)"

definition sched_inv :: "sched \<Rightarrow> layout \<Rightarrow> addr list \<Rightarrow> bool" where
  "sched_inv s L T \<longleftrightarrow> qsys (current s) s L \<and> (\<forall>i. L (Prom i) = []) \<and> runs s \<and> ids_ok s L \<and> thread_list s T \<and> lib_room s \<and> scd_up s"

lemma ids_ok_mono: "ids_ok s L \<Longrightarrow> kept s s' \<Longrightarrow> insert (current s') (everyone L') \<subseteq> insert (current s) (everyone L) \<Longrightarrow> ids_ok s' L'"
proof -
  assume i: "ids_ok s L" and k: "kept s s'" and sub: "insert (current s') (everyone L') \<subseteq> insert (current s) (everyone L)"
  have "threadNum s' = threadNum s" using k by (simp add: kept_def)
  then show ?thesis using i inj_on_subset [OF _ sub] sub unfolding ids_ok_def kept_ids(1) [OF k] by auto
qed

lemma woken_everyone:
  assumes "qsys c s L"
  shows "everyone (woken m (\<lambda>x. priority (nodes s x)) L) = everyone L"
proof -
  have "\<exists>l. priority (nodes s x) = int l" if "x \<in> set (L Join)" for x
    using qsys_waits [OF assms that] by (metis nonneg_int_cases waits_ok_def)
  then show ?thesis unfolding everyone_places woken_def by fastforce
qed

lemma everyone_put: "everyone (put p x L) = insert x (everyone L)"
  by (simp add: put_def everyone_append)

lemma requeued_everyone:
  assumes "qsys (current s) s L"
  shows "everyone (requeued s L) = (if status (nodes s (current s)) = EXITING then everyone L else insert (current s) (everyone L))"
  using woken_everyone [OF assms] by (cases "status (nodes s (current s))") (auto simp: requeued_def Let_def everyone_put everyone_cons)

lemma requeued_Prom: "requeued s L (Prom i) = L (Prom i)"
  by (cases "status (nodes s (current s))") (auto simp: requeued_def Let_def put_def woken_def)

lemma requeued_ready:
  assumes "status (nodes s (current s)) = NEUTRAL \<or> status (nodes s (current s)) = YIELDING \<or> (\<exists>i < RUN_QUEUE_SIZE. L (Run i) \<noteq> [])" "runs s"
  shows "ready_level (requeued s L) \<noteq> None"
proof -
  have l: "level_of s (current s) < RUN_QUEUE_SIZE" "min (Suc (level_of s (current s))) (RUN_QUEUE_SIZE - 1) < RUN_QUEUE_SIZE"
    using assms(2) by (auto simp: runs_def level_of_def RUN_QUEUE_SIZE_def)
  have "\<exists>i < RUN_QUEUE_SIZE. requeued s L (Run i) \<noteq> []"
  proof (cases "status (nodes s (current s))")
    case NEUTRAL
    then show ?thesis using l(2) by (intro exI [of _ "min (Suc (level_of s (current s))) (RUN_QUEUE_SIZE - 1)"]) (simp add: requeued_def Let_def put_def)
  next
    case YIELDING
    then show ?thesis using l(1) by (intro exI [of _ "level_of s (current s)"]) (simp add: requeued_def Let_def put_def)
  qed (use assms(1) in \<open>auto simp: requeued_def Let_def put_def woken_def\<close>)
  then show ?thesis by (auto simp: ready_level_None)
qed

lemma schedule_split:
  assumes inv: "sched_inv s L T"
  obtains s1 L1 where "schedule s = Option.bind (requeue s1) dispatch" "sched_inv s1 L1 T" "current s1 = current s"
    "status (nodes s1 (current s)) = status (nodes s (current s))" "level_of s1 (current s) = level_of s (current s)"
    "everyone L1 = everyone L" "(\<Union>l. set (L1 (Run l))) = (\<Union>l. set (L (Run l)))" "kept s s1" "L1 Join = L Join" "pthreads s1 = pthreads s"
    "cycles s < 100 \<Longrightarrow> L1 = L \<and> nodes s1 = nodes s \<and> pthreads s1 = pthreads s \<and> current s1 = current s" "same_tables s s1"
proof -
  let ?c = "current s"
  let ?s0 = "(pause_timer s)\<lparr>cycles := cycles s + 1\<rparr>"
  note i = inv [unfolded sched_inv_def]
  show thesis
  proof (cases "cycles s + 1 > 100")
    case False
    have "schedule s = Option.bind (requeue ?s0) dispatch" using False by (simp add: schedule_def Let_def pause_timer_same)
    moreover have k: "kept s ?s0" using kept_timer(1) [of s] by (simp add: kept_def)
    moreover have "sched_inv ?s0 L T" using i qsys_cong [of ?s0 s ?c L] ids_ok_mono [OF _ k, of L L]
      by (simp add: sched_inv_def pause_timer_same runs_def thread_list_def)
    ultimately show thesis by (intro that [of ?s0 L]) (simp_all add: pause_timer_same level_of_def same_tables_def)
  next
    case True
    let ?s1 = "?s0\<lparr>cycles := 0\<rparr>"
    have q: "qsys ?c ?s1 L" using i by (subst qsys_cong [of _ s]) (simp_all add: pause_timer_same)
    have lr: "lib_room ?s1" and P: "\<forall>j. L (Prom j) = []" using i by (simp_all add: pause_timer_same)
    obtain s2 where s2: "maintenance ?s1 = Some s2" "shuffled ?c ?s1 s2" "qsys ?c s2 (maintained (now ?s1) ?s1 L)"
      using maintenance_qsys [OF q lr P] by blast
    let ?L = "maintained (now ?s1) ?s1 L"
    note sm = shuffled_same [OF s2(2)]
    have c: "?c \<noteq> NULL" using i by (simp add: runs_def)
    have ap: "apart L" using sys_apart [OF qsys_sys] i by blast
    have run: "schedule s = Option.bind (requeue s2) dispatch"
      using True s2(1) by (simp add: schedule_def Let_def pause_timer_same)
    have "kept s ?s1" using kept_timer(1) [of s] by (simp add: kept_def)
    then have k: "kept s s2" by (rule kept_trans [OF _ shuffled_kept [OF s2(2)]])
    have cur: "current s2 = ?c" using sm(4) by (simp add: pause_timer_same)
    have pr: "priority (nodes s2 ?c) = priority (nodes s ?c)" "status (nodes s2 ?c) = status (nodes s ?c)"
      using sm(18) [OF c] sm(10) by (simp_all add: pause_timer_same)
    have ev: "everyone ?L = everyone L" by (rule maintained_everyone [OF ap P])
    have "sched_inv s2 ?L T"
      using i s2(3) k ev cur pr ids_ok_mono [of s L s2 ?L] kept_threads [OF k]
      by (simp add: sched_inv_def maintained_def [of _ _ _ "Prom _"] runs_def kept_def)
    moreover have "?L Join = L Join" "pthreads s2 = pthreads s" using sm(3) by (simp_all add: maintained_def pause_timer_same)
    moreover have "same_tables s s2" using shuffled_tables [OF s2(2)] by (simp add: same_tables_def pause_timer_same)
    ultimately show thesis using run k cur pr ev maintained_run [OF ap] True
      by (intro that [of s2 ?L]) (simp_all add: level_of_def)
  qed
qed

lemma schedule_some:
  assumes inv: "sched_inv s L T" and i: "ready_level (requeued s L) = Some i"
  obtains s' where "Option.bind (requeue s) dispatch = Some s'" "sched_inv s' ((requeued s L)(Run i := tl (requeued s L (Run i)))) T"
    "current s' = hd (requeued s L (Run i))" "kept s s'" "val_usec (timer s') = quantum i" "itimer_valid (timer s') \<longrightarrow> ktimer s' = timer s'"
    "id_of s (current s') \<noteq> id_of s (current s) \<longrightarrow> ctx s' = ut (nodes s (current s'))"
    "status (nodes s (current s)) = EXITING \<longrightarrow> pthreads s' = pthreads (died (id_of s (current s)) T s)"
    "status (nodes s (current s)) \<noteq> EXITING \<longrightarrow> pages s' = pages s \<and> pthreads s' = pthreads s \<and> prot s' = switched_prot s s'"
    "status (nodes s (current s)) = EXITING \<longrightarrow> pages s' = dead_pages s \<and>
       (\<forall>i. id_of s (current s') \<noteq> id_of s (current s) \<longrightarrow> prot s' i = (\<not> own_page s i \<and> prot s i))"
proof -
  note v = inv [unfolded sched_inv_def]
  let ?M = "requeued s L"
  have q: "qsys (current s) s L" and r: "runs s" and T: "thread_list s T" and inj: "inj_on (id_of s) (insert (current s) (everyone L))"
    using v by (auto simp: ids_ok_def)
  obtain s1 where s1: "requeue s = Some s1" "qsys NULL s1 ?M" "kept s s1" "current s1 = current s"
    "status (nodes s (current s)) = EXITING \<longrightarrow> runs s1 \<and> pthreads s1 = pthreads (died (id_of s (current s)) T s)"
    "status (nodes s (current s)) \<noteq> EXITING \<longrightarrow> same_tables s s1"
    "status (nodes s (current s)) = EXITING \<longrightarrow> pages s1 = dead_pages s \<and> (\<forall>i. \<not> own_page s i \<longrightarrow> prot s1 i = prot s i)"
    by (rule requeue_ok [OF q r inj T])
  have t: "threadID (nodes s1 (current s1)) \<noteq> NULL" using s1(3,4) r by (simp add: kept_def runs_def)
  obtain s2 where s2: "dispatch s1 = Some s2" "current s2 = hd (?M (Run i))" "qsys (current s2) s2 (?M(Run i := tl (?M (Run i))))" "kept s1 s2" "runs s2"
    "timer s2 = (timer s1)\<lparr>val_usec := quantum i\<rparr>" "itimer_valid (timer s2) \<longrightarrow> ktimer s2 = timer s2"
    "id_of s1 (current s2) \<noteq> id_of s1 (current s1) \<longrightarrow> ctx s2 = ut (nodes s1 (current s2))" "pthreads s2 = pthreads s1"
    "pages s2 = pages s1" "prot s2 = switched_prot s1 s2" by (rule dispatch_some [OF s1(2) i t])
  have k: "kept s s2" by (rule kept_trans [OF s1(3) s2(4)])
  have hd: "hd (?M (Run i)) \<in> everyone ?M" using ready_level_Some(2) [OF i] in_everyone [of "hd (?M (Run i))" ?M "Run i"] by simp
  have "set ((?M(Run i := tl (?M (Run i)))) p) \<subseteq> set (?M p)" for p using list.set_sel(2) [of "?M (Run i)"] by (cases "?M (Run i)") auto
  then have "everyone (?M(Run i := tl (?M (Run i)))) \<subseteq> everyone ?M" unfolding everyone_def by blast
  then have "insert (current s2) (everyone (?M(Run i := tl (?M (Run i))))) \<subseteq> insert (current s) (everyone L)"
    using hd s2(2) requeued_everyone [OF q] by (auto split: if_splits)
  then have "ids_ok s2 (?M(Run i := tl (?M (Run i))))" using ids_ok_mono [OF _ k] v by blast
  then have "sched_inv s2 (?M(Run i := tl (?M (Run i)))) T"
    using v s2(3,5) k kept_threads [OF k] requeued_Prom by (simp add: sched_inv_def kept_def)
  moreover have "pages s2 = pages s \<and> pthreads s2 = pthreads s \<and> prot s2 = switched_prot s s2" if "status (nodes s (current s)) \<noteq> EXITING"
  proof -
    have e: "same_tables s s1" using s1(6) that by blast
    have "switched_prot s1 s2 = switched_prot s s2" using e s1(4) unfolding switched_prot_def kept_ids(1) [OF s1(3)] by (simp add: same_tables_def protectAllPages_def)
    then show ?thesis using e s2(9-11) by (simp add: same_tables_def)
  qed
  moreover have "prot s2 i = (\<not> own_page s i \<and> prot s i)" if "id_of s (current s2) \<noteq> id_of s (current s)" "status (nodes s (current s)) = EXITING" for i
  proof -
    have "pages s1 = dead_pages s" "\<forall>i. \<not> own_page s i \<longrightarrow> prot s1 i = prot s i" using s1(7) that(2) by simp_all
    then have "prot s2 i = (if own_page s i then False else prot s1 i)"
      using that(1) s1(4) s2(11) unfolding switched_prot_def kept_ids(1) [OF s1(3)] by (auto simp: protectAllPages_def dead_pages_def own_page_def bits_simps)
    then show ?thesis using s1(7) that(2) by auto
  qed
  ultimately show thesis using s1 s2 k kept_ids(1) [OF s1(3)] by (intro that [of s2]) (simp_all add: kept_def)
qed

lemma schedule_none:
  assumes inv: "sched_inv s L T" and i: "ready_level (requeued s L) = None"
  obtains s' where "Option.bind (requeue s) dispatch = Some s'" "current s' = current s" "kept s s'" "qsys NULL s' (requeued s L)"
    "requeue s = Some s'" "status (nodes s (current s)) = EXITING \<longrightarrow> runs s' \<and> pthreads s' = pthreads (died (id_of s (current s)) T s)"
    "status (nodes s (current s)) \<noteq> EXITING \<longrightarrow> same_tables s s'"
proof -
  note v = inv [unfolded sched_inv_def]
  have q: "qsys (current s) s L" and r: "runs s" and T: "thread_list s T" and inj: "inj_on (id_of s) (insert (current s) (everyone L))"
    using v by (auto simp: ids_ok_def)
  obtain s1 where s1: "requeue s = Some s1" "qsys NULL s1 (requeued s L)" "kept s s1" "current s1 = current s"
    "status (nodes s (current s)) = EXITING \<longrightarrow> runs s1 \<and> pthreads s1 = pthreads (died (id_of s (current s)) T s)"
    "status (nodes s (current s)) \<noteq> EXITING \<longrightarrow> same_tables s s1" by (rule requeue_ok [OF q r inj T]) (rule that)
  then show thesis using dispatch_none [OF qsys_sys [OF s1(2)] i] by (intro that [of s1]) simp_all
qed

end
