(* ===== verification/PtApi.thy ===== *)
theory PtApi
  imports PtSchedule
begin

text \<open>
  The library's entry points keep the invariant of the scheduler: set-up, thread creation, the timer
  signal, yielding, exiting and joining.
\<close>

section \<open>Scheduling keeps the invariant\<close>

lemma everyone_tl: "apart L \<Longrightarrow> L p \<noteq> [] \<Longrightarrow> insert (hd (L p)) (everyone (L(p := tl (L p)))) = everyone L"
proof -
  assume "apart L" and "L p \<noteq> []"
  then have "L p = [] @ hd (L p) # tl (L p)" by simp
  then have "set (L p) = insert (hd (L p)) (set (tl (L p)))" by (metis append_Nil list.simps(15))
  then show ?thesis unfolding everyone_upd everyone_split [of L p] by simp
qed

lemma schedule_inv:
  assumes inv: "sched_inv s L T" and nd: "status (nodes s (current s)) = JOINING \<longrightarrow> (\<exists>i. L (Run i) \<noteq> [])"
  obtains s' L' where "schedule s = Some s'" "sched_inv s' L' T" "kept s s'" "everyone L \<subseteq> insert (current s') (everyone L')"
    "insert (current s') (everyone L') \<subseteq> insert (current s) (everyone L)"
    "status (nodes s (current s)) \<noteq> EXITING \<longrightarrow> insert (current s') (everyone L') = insert (current s) (everyone L)"
proof -
  obtain s1 L1 where s1: "schedule s = Option.bind (requeue s1) dispatch" "sched_inv s1 L1 T" "current s1 = current s"
    "status (nodes s1 (current s)) = status (nodes s (current s))" "everyone L1 = everyone L"
    "(\<Union>l. set (L1 (Run l))) = (\<Union>l. set (L (Run l)))" "kept s s1"
    by (rule schedule_split [OF inv]) (rule that)
  note v = s1(2) [unfolded sched_inv_def]
  let ?M = "requeued s1 L1"
  have q: "qsys (current s1) s1 L1" and r: "runs s1" using v by auto
  have ev: "everyone ?M = (if status (nodes s (current s)) = EXITING then everyone L else insert (current s) (everyone L))"
    using requeued_everyone [OF q] s1(3-5) by simp
  show thesis
  proof (cases "ready_level ?M")
    case (Some i)
    obtain s' where s': "Option.bind (requeue s1) dispatch = Some s'" "sched_inv s' (?M(Run i := tl (?M (Run i)))) T"
      "current s' = hd (?M (Run i))" "kept s1 s'"
      by (rule schedule_some [OF s1(2) Some]) (rule that)
    obtain s2 where "qsys NULL s2 ?M"
      by (rule requeue_ok [OF q r]) (use v in \<open>auto simp: ids_ok_def\<close>)
    then have "insert (current s') (everyone (?M(Run i := tl (?M (Run i))))) = everyone ?M"
      using everyone_tl [OF sys_apart [OF qsys_sys]] ready_level_Some(2) [OF Some] unfolding s'(3) by blast
    then show thesis using s1(1) s' kept_trans [OF s1(7) s'(4)] ev by (intro that [of s' "?M(Run i := tl (?M (Run i)))"]) (auto split: if_splits)
  next
    case None
    have st: "status (nodes s (current s)) = EXITING"
    proof (cases "status (nodes s (current s))")
      case JOINING
      then obtain i x where "x \<in> set (L (Run i))" using nd by (meson last_in_set)
      then have "x \<in> (\<Union>l. set (L1 (Run l)))" unfolding s1(6) by blast
      then have "\<exists>j. L1 (Run j) \<noteq> []" by (metis UN_E empty_iff list.set(1))
      moreover have "j < RUN_QUEUE_SIZE" if "L1 (Run j) \<noteq> []" for j
        using that sys_apart [OF qsys_sys [OF q]] by (cases "j < RUN_QUEUE_SIZE") (auto simp: apart_def)
      ultimately show ?thesis using requeued_ready [of s1 L1] r None by blast
    qed (use requeued_ready [of s1 L1] r None s1(3,4) in auto)
    obtain s' where s': "Option.bind (requeue s1) dispatch = Some s'" "current s' = current s1" "kept s1 s'" "qsys NULL s' ?M"
      "status (nodes s1 (current s1)) = EXITING \<longrightarrow> runs s' \<and> pthreads s' = pthreads (died (id_of s1 (current s1)) T s1)"
      by (rule schedule_none [OF s1(2) None]) (rule that)
    have e: "everyone ?M = everyone L" using ev st by simp
    have "qsys (current s') s' ?M" using qsys_keep [OF s'(4)] qsys_out [OF q] s'(2) e s1(5) by simp
    moreover have "ids_ok s' ?M" using v s'(2) e s1(5) by (intro ids_ok_mono [OF _ s'(3), of L1]) auto
    ultimately have "sched_inv s' ?M T" using v s' st s1(3,4) kept_threads [OF s'(3)] requeued_Prom by (simp add: sched_inv_def kept_def)
    then show thesis using s1(1,3) s' kept_trans [OF s1(7) s'(3)] e st by (intro that [of s' ?M]) auto
  qed
qed

section \<open>Marking the running thread\<close>

lemma sched_inv_cong:
  assumes "sched_inv s L T" "nodes s' = nodes s" "queues s' = queues s" "runQ s' = runQ s" "promotionQ s' = promotionQ s"
    "joinHead s' = joinHead s" "current s' = current s" "kept s s'"
  shows "sched_inv s' L T"
  using assms ids_ok_mono [OF _ assms(8), of L L] kept_threads [OF assms(8)] qsys_cong [of s' s "current s" L]
  by (simp add: sched_inv_def runs_def kept_def)

lemma sched_inv_pause: "sched_inv s L T \<Longrightarrow> sched_inv (pause_timer s) L T"
  by (erule sched_inv_cong) (simp_all add: pause_timer_same kept_timer)

lemma sched_inv_unpause: "sched_inv s L T \<Longrightarrow> sched_inv (unpause_timer s) L T"
  unfolding unpause_timer_def by (erule sched_inv_cong) (simp_all add: setitimer_same)

lemma sched_inv_lib_request: "sched_inv s L T \<Longrightarrow> sched_inv (lib_request s) L T"
  by (erule sched_inv_cong) (simp_all add: lib_request_same kept_timer)

lemma sched_inv_mark:
  assumes inv: "sched_inv s L T" and j: "st = JOINING \<longrightarrow> j \<noteq> NULL"
  shows "sched_inv (upd_node (current s) (\<lambda>n. n\<lparr>status := st, joinee := j\<rparr>) s) L T"
proof -
  let ?s = "upd_node (current s) (\<lambda>n. n\<lparr>status := st, joinee := j\<rparr>) s"
  note v = inv [unfolded sched_inv_def]
  have out: "current s \<notin> everyone L" using qsys_out v by blast
  have "qsys (current s) ?s L" using v out by (subst qsys_cong_on [of _ _ s]) auto
  moreover have "id_of ?s = id_of s" by (auto simp: id_of_def fun_eq_iff)
  moreover have "threadNum ?s = threadNum s" "lib_room ?s = lib_room s" "scd_up ?s = scd_up s" by (simp_all add: upd_node_def)
  ultimately show ?thesis using v j by (simp add: sched_inv_def ids_ok_def runs_def thread_list_def)
qed

lemma upd_status_mark: "upd_node x (status_update (\<lambda>_. st)) s = upd_node x (\<lambda>n. n\<lparr>status := st, joinee := joinee (nodes s x)\<rparr>) s"
  by (simp add: upd_node_def fun_eq_iff)

lemma sched_inv_thread:
  assumes "sched_inv s L T"
  shows "sched_inv (upd_thread t (exitArg_update f) s) L T"
proof -
  let ?s = "upd_thread t (exitArg_update f) s"
  have i: "id_of ?s = id_of s" by (auto simp: id_of_def fun_eq_iff upd_thread_def)
  have "thread_list ?s T = thread_list s T" unfolding thread_list_def by (auto simp: upd_thread_def intro!: llist_cong arg_cong2 [of _ _ _ _ "\<lambda>x y. llist x y T"])
  moreover have "qsys (current s) ?s L = qsys (current s) s L" by (rule qsys_cong) (simp_all add: upd_thread_def)
  ultimately show ?thesis using assms i by (simp add: sched_inv_def ids_ok_def runs_def upd_thread_def)
qed

section \<open>The entry points\<close>

text \<open>Some thread other than the running one can run.\<close>

definition ready :: "sched \<Rightarrow> bool" where
  "ready s \<longleftrightarrow> (\<exists>i \<in> set [0..<RUN_QUEUE_SIZE]. head (queues s (runQ s i)) \<noteq> NULL)"

lemma ready_layout: "sched_inv s L T \<Longrightarrow> ready s \<longleftrightarrow> (\<exists>i. L (Run i) \<noteq> [])"
proof -
  assume "sched_inv s L T"
  then have s: "sys s L" by (auto simp: sched_inv_def qsys_def)
  have "head (queues s (runQ s i)) \<noteq> NULL \<longleftrightarrow> L (Run i) \<noteq> []" if "i < RUN_QUEUE_SIZE" for i
    using sys_qlist [OF s, of "Run i"] that llist_Null by (cases "L (Run i)") (auto simp: qlist_def)
  moreover have "i < RUN_QUEUE_SIZE" if "L (Run i) \<noteq> []" for i
    using that sys_apart [OF s] by (cases "i < RUN_QUEUE_SIZE") (auto simp: apart_def)
  ultimately show ?thesis by (auto simp: ready_def)
qed

text \<open>\<open>keeps s s' L\<close>: the queues of \<open>s'\<close> and its running thread are those of \<open>s\<close>, rearranged.\<close>

definition keeps :: "sched \<Rightarrow> layout \<Rightarrow> addr list \<Rightarrow> sched \<Rightarrow> bool" where
  "keeps s L T s' \<longleftrightarrow> (\<exists>L'. sched_inv s' L' T \<and> insert (current s') (everyone L') = insert (current s) (everyone L)) \<and>
     (\<forall>x. threadID (nodes s' x) = threadID (nodes s x))"

lemma schedule_keeps:
  assumes "sched_inv s L T" "status (nodes s (current s)) = JOINING \<longrightarrow> ready s" "status (nodes s (current s)) \<noteq> EXITING"
  shows "\<exists>s'. schedule s = Some s' \<and> keeps s L T s'"
proof -
  have nd: "status (nodes s (current s)) = JOINING \<longrightarrow> (\<exists>i. L (Run i) \<noteq> [])" using assms(2) ready_layout [OF assms(1)] by simp
  show ?thesis by (rule schedule_inv [OF assms(1) nd]) (use assms(3) in \<open>auto simp: keeps_def kept_def\<close>)
qed

lemma schedule_exits:
  assumes "sched_inv s L T" "status (nodes s (current s)) = EXITING"
  shows "\<exists>s' L'. schedule s = Some s' \<and> sched_inv s' L' T \<and> everyone L \<subseteq> insert (current s') (everyone L') \<and>
    insert (current s') (everyone L') \<subseteq> insert (current s) (everyone L) \<and> (\<forall>x. threadID (nodes s' x) = threadID (nodes s x))"
  by (rule schedule_inv [OF assms(1)]) (use assms(2) in \<open>auto simp: kept_def\<close>)

lemma mark_current_inv:
  assumes "sched_inv s L T" "st \<noteq> JOINING"
  obtains s' where "mark_current st s = Some s'" "sched_inv s' L T" "current s' = current s" "status (nodes s' (current s)) = st"
    "\<And>x. threadID (nodes s' x) = threadID (nodes s x)"
proof -
  let ?s = "upd_node (current (pause_timer s)) (status_update (\<lambda>_. st)) (pause_timer s)"
  have "sched_inv ?s L T" unfolding upd_status_mark using sched_inv_mark [OF sched_inv_pause [OF assms(1)], of st] assms(2) by blast
  then have "sched_inv (unpause_timer ?s) L T" by (rule sched_inv_unpause)
  moreover have "current s \<noteq> NULL" using assms(1) by (simp add: sched_inv_def runs_def)
  ultimately show thesis by (intro that [of "unpause_timer ?s"]) (simp_all add: mark_current_def Let_def pause_timer_same unpause_timer_same)
qed

lemma timerHandler_keeps:
  assumes "sched_inv s L T" "status (nodes s (current s)) = JOINING \<longrightarrow> ready s" "status (nodes s (current s)) \<noteq> EXITING"
  shows "\<exists>s'. timerHandler s = Some s' \<and> keeps s L T s'"
proof -
  let ?s = "s\<lparr>timer := (timer s)\<lparr>val_usec := 0\<rparr>\<rparr>"
  have "sched_inv ?s L T" using assms(1) by (rule sched_inv_cong) (simp_all add: kept_def)
  then show ?thesis using schedule_keeps [of ?s L T] assms(2,3) by (simp add: timerHandler_def keeps_def ready_def)
qed

lemma yield_keeps:
  assumes "sched_inv s L T"
  shows "\<exists>s'. my_pthread_yield s = Some s' \<and> keeps s L T s'"
proof -
  obtain s1 where s1: "mark_current YIELDING s = Some s1" "sched_inv s1 L T" "current s1 = current s" "status (nodes s1 (current s)) = YIELDING"
    "\<forall>x. threadID (nodes s1 x) = threadID (nodes s x)"
    by (rule mark_current_inv [OF assms, of YIELDING]) auto
  then show ?thesis using schedule_keeps [OF s1(2)] assms by (simp add: my_pthread_yield_def keeps_def sched_inv_def)
qed

text \<open>\<open>leaves s s' L\<close>: the running thread is gone, everyone else is still there.\<close>

definition leaves :: "sched \<Rightarrow> layout \<Rightarrow> addr list \<Rightarrow> sched \<Rightarrow> bool" where
  "leaves s L T s' \<longleftrightarrow> (\<exists>L'. sched_inv s' L' T \<and> everyone L \<subseteq> insert (current s') (everyone L') \<and>
     insert (current s') (everyone L') \<subseteq> insert (current s) (everyone L)) \<and> (\<forall>x. threadID (nodes s' x) = threadID (nodes s x))"

lemma exit_leaves:
  assumes "sched_inv s L T"
  shows "\<exists>s'. my_pthread_exit v s = Some s' \<and> leaves s L T s'"
proof -
  let ?p = "pause_timer s"
  let ?s1 = "upd_node (current s) (status_update (\<lambda>_. EXITING)) ?p"
  let ?s = "unpause_timer (upd_thread (threadID (nodes ?s1 (current s))) (exitArg_update (\<lambda>_. v)) ?s1)"
  have "sched_inv ?s1 L T" unfolding upd_status_mark using sched_inv_mark [OF sched_inv_pause [OF assms], of EXITING] by (simp add: pause_timer_same)
  then have i: "sched_inv ?s L T" by (intro sched_inv_unpause sched_inv_thread)
  have e: "my_pthread_exit v s = schedule ?s"
    using assms by (simp add: my_pthread_exit_def Let_def sched_inv_def runs_def pause_timer_same)
  have "current ?s = current s" "status (nodes ?s (current ?s)) = EXITING" "\<And>x. threadID (nodes ?s x) = threadID (nodes s x)"
    by (simp_all add: unpause_timer_same upd_thread_def pause_timer_same)
  then show ?thesis using schedule_exits [OF i] unfolding e leaves_def by auto
qed

lemma terminationHandler_leaves:
  assumes "sched_inv s L T"
  shows "\<exists>s'. terminationHandler s = Some s' \<and> leaves s L T s'"
proof -
  obtain s1 where s1: "mark_current EXITING s = Some s1" "sched_inv s1 L T" "current s1 = current s" "status (nodes s1 (current s)) = EXITING"
    "\<forall>x. threadID (nodes s1 x) = threadID (nodes s x)"
    by (rule mark_current_inv [OF assms, of EXITING]) auto
  then show ?thesis using schedule_exits [OF s1(2)] by (auto simp: terminationHandler_def leaves_def)
qed

lemma find_thread_some:
  assumes "thread_list s T" "t \<in> set T" "tid (pthreads s t) = i"
  obtains u where "find_thread i (threadsHead s) s = Some u" "u \<in> set T" "tid (pthreads s u) = i" "u \<noteq> NULL"
proof -
  have "find (\<lambda>t. tid (pthreads s t) = i) T \<noteq> None" using assms(2,3) by (auto simp: find_None_iff)
  then obtain u where u: "find (\<lambda>t. tid (pthreads s t) = i) T = Some u" by blast
  then have "u \<in> set T" "tid (pthreads s u) = i" by (auto simp: find_Some_iff)
  moreover have "u \<noteq> NULL" using llist_not_Null [OF assms(1) [unfolded thread_list_def]] calculation(1) by metis
  ultimately show thesis using u find_thread_ok [OF assms(1) [unfolded thread_list_def], of i] by (intro that) auto
qed

lemma find_thread_none:
  assumes "thread_list s T" "\<forall>t \<in> set T. tid (pthreads s t) \<noteq> i"
  shows "find_thread i (threadsHead s) s = Some NULL"
proof -
  have "find (\<lambda>t. tid (pthreads s t) = i) T = None" using assms(2) by (auto simp: find_None_iff)
  then show ?thesis using find_thread_ok [OF assms(1) [unfolded thread_list_def], of i] by simp
qed

text \<open>Joining a thread that is alive: the caller waits, and the threads are the same as before.\<close>

lemma join_waits:
  assumes inv: "sched_inv s L T" and r: "ready s" and f: "find_thread i (threadsHead s) s = Some u" "u \<noteq> NULL" "isDead (pthreads s u) \<noteq> 1"
  shows "\<exists>s'. my_pthread_join i s = Some (Waiting u s') \<and> keeps s L T s'"
proof -
  let ?p = "pause_timer s"
  let ?s = "unpause_timer (upd_node (current s) (\<lambda>n. n\<lparr>status := JOINING, joinee := u\<rparr>) ?p)"
  have "llist (\<lambda>t. tnext (pthreads s t)) (threadsHead s) T" using inv by (simp add: sched_inv_def thread_list_def)
  then have "find_thread i (threadsHead s) ?p = find_thread i (threadsHead s) s"
    using find_thread_ok [of s "threadsHead s" T i] find_thread_ok [of ?p "threadsHead s" T i] by (simp add: pause_timer_same)
  then have e: "my_pthread_join i s = map_option (Waiting u) (schedule ?s)"
    using f inv by (simp add: my_pthread_join_def Let_def sched_inv_def runs_def pause_timer_same map_option_case split: option.split)
  have i: "sched_inv ?s L T" using sched_inv_unpause [OF sched_inv_mark [OF sched_inv_pause [OF inv]]] f(2) by (simp add: pause_timer_same)
  have "ready ?s" using r by (simp add: ready_def unpause_timer_same pause_timer_same)
  then show ?thesis using schedule_keeps [OF i] unfolding e keeps_def by (auto simp: unpause_timer_same pause_timer_same)
qed

section \<open>Creation\<close>

definition fresh_thread :: "sched \<Rightarrow> layout \<Rightarrow> addr list \<Rightarrow> addr \<Rightarrow> addr \<Rightarrow> bool" where
  "fresh_thread s L T thread newNode \<longleftrightarrow> thread \<noteq> NULL \<and> newNode \<noteq> NULL \<and> thread \<notin> set T \<and>
     newNode \<notin> insert (current s) (everyone L) \<and> (\<forall>x \<in> insert (current s) (everyone L). threadID (nodes s x) \<noteq> thread)"

lemma create_inv:
  assumes inv: "sched_inv s L T" and f: "fresh_thread s L T thread newNode" and ok: "newCxt \<noteq> NULL" "stack \<noteq> NULL"
  obtains s' where "my_pthread_create a newCxt stack newNode thread s = Some (0, s')" "sched_inv s' (put (Run 0) newNode L) (thread # T)"
    "current s' = current s" "id_of s' newNode = threadNum s" "threadNum s' = threadNum s + 1" "ut (nodes s' newNode) = newCxt"
    "\<forall>x. threadID (nodes s' x) = (if x = newNode then thread else threadID (nodes s x))"
    "timerSet s \<and> itimer_valid ((zero_junk s)\<lparr>val_usec := 0\<rparr>) \<longrightarrow> ktimer s' = (zero_junk s)\<lparr>val_usec := 0\<rparr>"
proof -
  let ?p = "lib_request (lib_request (pause_timer s))"
  let ?d = "(pthreads s thread)\<lparr>tid := threadNum s, isDead := 0, exitArg := NULL, pageNum := 0, tnext := threadsHead s\<rparr>"
  let ?n = "\<lparr>threadID = thread, ut = newCxt, priority = 0, timeCreated = now s, runtime = 0, status = NEUTRAL, joinee = NULL, nnext = NULL\<rparr>"
  let ?b = "?p\<lparr>threadNum := threadNum s + 1, pthreads := (pthreads s)(thread := ?d), threadsHead := thread\<rparr>"
  let ?s1 = "(lib_request ?b)\<lparr>nodes := (nodes s)(newNode := ?n)\<rparr>"
  note v = sched_inv_lib_request [OF sched_inv_lib_request [OF sched_inv_pause [OF inv]], unfolded sched_inv_def]
  have f': "thread \<noteq> NULL" "newNode \<noteq> NULL" "thread \<notin> set T" "newNode \<noteq> current s" "newNode \<notin> everyone L"
    "\<And>x. x \<in> insert (current s) (everyone L) \<Longrightarrow> threadID (nodes s x) \<noteq> thread" using f by (auto simp: fresh_thread_def)
  have q1: "qsys (current s) ?s1 L"
    using v f'(5) by (subst qsys_cong_on [of _ _ ?p]) (auto simp: pause_timer_same lib_request_same)
  have g: "good_node (current s) ?s1 newNode" using f' by (simp add: good_node_def lib_request_same)
  have nin: "newNode \<notin> set (L p)" for p using f'(5) in_everyone by metis
  obtain s2 where s2: "enQ (runQ s 0) newNode ?s1 = Some s2" "qsys (current s) s2 (put (Run 0) newNode L)" "moved newNode ?s1 s2"
    by (rule enQ_qsys [OF q1 _ g nin, of "Run 0"]) (auto simp: RUN_QUEUE_SIZE_def put_def pause_timer_same lib_request_same)
  note m = moved_same [OF s2(3)] and k = moved_kept [OF s2(3)]
  have run: "my_pthread_create a newCxt stack newNode thread s = Some (0, unpause_timer s2)"
    using inv ok f'(1,2) s2(1) by (simp add: my_pthread_create_def Let_def sched_inv_def addThread_def createNode_def upd_thread_def pause_timer_same lib_request_same)
  have id: "id_of ?s1 x = id_of s x" if "x \<in> insert (current s) (everyone L)" for x
  proof -
    have "threadID (nodes s x) \<noteq> thread" "x \<noteq> newNode" using f'(4,5) f'(6) [OF that] that by auto
    then show ?thesis by (simp add: id_of_def lib_request_same)
  qed
  have idn: "id_of ?s1 newNode = threadNum s" by (simp add: id_of_def lib_request_same)
  have io: "inj_on (id_of s) (insert (current s) (everyone L))" "\<And>x. x \<in> insert (current s) (everyone L) \<Longrightarrow> id_of s x < threadNum s"
    using inv by (auto simp: sched_inv_def ids_ok_def)
  have "inj_on (id_of ?s1) (insert newNode (insert (current s) (everyone L)))" by (rule inj_on_new [OF io(1) id io(2) idn])
  moreover have "id_of ?s1 x < threadNum s + 1" if "x \<in> insert newNode (insert (current s) (everyone L))" for x
    using that idn id [of x] io(2) [of x] by fastforce
  ultimately have "ids_ok ?s1 (put (Run 0) newNode L)" by (simp add: ids_ok_def everyone_put insert_commute pause_timer_same lib_request_same)
  then have ids: "ids_ok s2 (put (Run 0) newNode L)" by (rule ids_ok_mono [OF _ k]) (simp add: m)
  have "llist (\<lambda>t. tnext (((pthreads s)(thread := ?d)) t)) (threadsHead s) T = llist (\<lambda>t. tnext (pthreads s t)) (threadsHead s) T"
    using f'(3) by (intro llist_cong) auto
  then have "thread_list ?s1 (thread # T)" using inv f'(1) by (simp add: thread_list_def sched_inv_def lib_request_same)
  then have T: "thread_list s2 (thread # T)" using kept_threads [OF k] by simp
  have cur: "current s2 = current s" using m(4) by (simp add: pause_timer_same lib_request_same)
  have "runs s2" using v f'(4) m(4,12,13,14) m(18) [of "current s"] by (simp add: runs_def pause_timer_same lib_request_same)
  then have "sched_inv s2 (put (Run 0) newNode L) (thread # T)"
    using s2(2) ids T v cur k by (simp add: sched_inv_def kept_def pause_timer_same lib_request_same put_def)
  then have "sched_inv (unpause_timer s2) (put (Run 0) newNode L) (thread # T)" by (rule sched_inv_unpause)
  moreover have "id_of s2 newNode = threadNum s" using kept_ids(1) [OF k] idn by simp
  moreover have "threadNum s2 = threadNum s + 1" using k by (simp add: kept_def lib_request_same)
  moreover have "ut (nodes s2 newNode) = newCxt" using m(17) by simp
  moreover have "timerSet s \<and> itimer_valid ((zero_junk s)\<lparr>val_usec := 0\<rparr>) \<longrightarrow> ktimer (unpause_timer s2) = (zero_junk s)\<lparr>val_usec := 0\<rparr>"
  proof
    let ?z = "(zero_junk s)\<lparr>val_usec := 0\<rparr>"
    assume z: "timerSet s \<and> itimer_valid ?z"
    have e: "s2 = ?s1\<lparr>nodes := nodes s2, queues := queues s2, joinHead := joinHead s2\<rparr>" using s2(3) unfolding moved_def by blast
    have "timer s2 = timer (lib_request ?b)" using arg_cong [OF e, of timer] by simp
    also have "\<dots> = ?z"
    proof -
      have p: "ktimer (pause_timer s) = ?z" "zero_junk (pause_timer s) = zero_junk s" using z by (simp_all add: pause_timer_def Let_def)
      have l: "timer (lib_request x) = ?z \<and> ktimer (lib_request x) = ?z \<and> zero_junk (lib_request x) = zero_junk s"
        if "ktimer x = ?z" "zero_junk x = zero_junk s" "timerSet x" for x
        using z that by (simp add: lib_request_def pause_timer_def unpause_timer_def setitimer_def Let_def)
      have "ktimer ?p = ?z" "zero_junk ?p = zero_junk s" using l [of "lib_request (pause_timer s)"] l [of "pause_timer s"] p z
        by (simp_all add: lib_request_same pause_timer_same)
      then show ?thesis using l [of ?b] z by (simp add: lib_request_same pause_timer_same)
    qed
    finally show "ktimer (unpause_timer s2) = ?z" using z by (simp add: unpause_timer_def setitimer_def)
  qed
  moreover have "\<forall>x. threadID (nodes s2 x) = (if x = newNode then thread else threadID (nodes s x))" using m(12) by simp
  ultimately show thesis using run cur by (intro that [of "unpause_timer s2"]) (simp_all add: unpause_timer_same lib_request_same id_of_def unpause_timer_def setitimer_def)
qed

section \<open>Set-up\<close>

text \<open>The allocations of \<open>initialize\<close> succeed, at different addresses; nothing checks the stack, number 14.\<close>

definition alloc_ok :: "(nat \<Rightarrow> addr) \<Rightarrow> bool" where
  "alloc_ok a \<longleftrightarrow> \<not> alloc_fails a \<and> distinct (map a (filter (\<lambda>k. k \<noteq> 14) [0..<18]))"

lemma alloc_inj: "alloc_ok a \<Longrightarrow> i < 18 \<Longrightarrow> j < 18 \<Longrightarrow> i \<noteq> 14 \<Longrightarrow> j \<noteq> 14 \<Longrightarrow> a i = a j \<longleftrightarrow> i = j"
  by (auto simp: alloc_ok_def distinct_map inj_on_def)

lemma find_odd: "alloc_ok a \<Longrightarrow> i < 5 \<Longrightarrow> find (\<lambda>j. a (2 * j + 1) = a (2 * i + 1)) [0..<5] = Some i"
proof -
  assume a: "alloc_ok a" and i: "i < 5"
  have "a (2 * j + 1) = a (2 * i + 1) \<longleftrightarrow> j = i" if "j < 5" for j using alloc_inj [OF a, of "2 * j + 1" "2 * i + 1"] that i by presburger
  then have "find (\<lambda>j. a (2 * j + 1) = a (2 * i + 1)) [0..<5] = find (\<lambda>j. j = i) [0..<5]" by (intro find_cong) auto
  also have "\<dots> = Some i" using i unfolding find_Some_iff by (intro exI [of _ i]) (auto simp: nth_upt)
  finally show ?thesis .
qed

lemma initialize_fields:
  assumes "initialize a s = Some s'"
  shows "queues s' = init_queues a (queues s)" "runQ s' = (\<lambda>i. if i < 5 then a (2 * i + 1) else runQ s i)"
    "promotionQ s' = (\<lambda>i. if i < 4 then a (2 * i + 2) else promotionQ s i)"
    "joinHead s' = NULL" "threadsHead s' = NULL" "threadNum s' = 2" "current s' = a 17" "lib_room s' = lib_room s" "scd_up s'" "cycles s' = 0"
    "val_usec (timer s') = 100000" "threadID (nodes s' (a 17)) = a 16" "priority (nodes s' (a 17)) = 0" "status (nodes s' (a 17)) = NEUTRAL"
    "tid (pthreads s' (a 16)) = 1"
  using assms by (auto simp: initialize_def createNode_def upd_thread_def setitimer_def QUANTA_TIME_def Let_def lib_request_same split: if_split_asm)

lemma initialize_some: "\<not> alloc_fails a \<Longrightarrow> \<exists>s'. initialize a s = Some s'"
proof -
  assume a: "\<not> alloc_fails a"
  then have "a 17 \<noteq> NULL" by (auto simp: alloc_fails_def dest: bspec [of _ _ 17])
  then show ?thesis using a by (simp add: initialize_def createNode_def Let_def)
qed

lemma initialize_inv:
  assumes a: "alloc_ok a" and lr: "lib_room s"
  obtains s' where "initialize a s = Some s'" "sched_inv s' (\<lambda>_. []) []" "current s' = a 17" "id_of s' (a 17) = 1" "threadNum s' = 2"
    "runQ s' 0 = a 1" "cycles s' = 0" "val_usec (timer s') = 100000"
proof -
  have nz: "a k \<noteq> NULL" if "k < 18" "k \<noteq> 14" for k using a that by (auto simp: alloc_ok_def alloc_fails_def)
  obtain s' where s': "initialize a s = Some s'" using a initialize_some unfolding alloc_ok_def by blast
  note f = initialize_fields [OF s']
  let ?L = "\<lambda>_ :: place. [] :: addr list"
  have qa: "qaddr s' p = (case p of Run i \<Rightarrow> a (2 * i + 1) | Prom i \<Rightarrow> a (2 * i + 2))" if "qplace p" for p
    using that f(2,3) by (cases p) (auto simp: RUN_QUEUE_SIZE_def)
  have "qlist s' (qaddr s' p) []" if "qplace p" for p
    using that nz unfolding qa [OF that] by (cases p) (auto simp: qlist_def f(1) init_queues_def RUN_QUEUE_SIZE_def)
  moreover have "p = p'" if p: "qplace p" "qplace p'" and e: "qaddr s' p = qaddr s' p'" for p p'
  proof -
    have "2 * i + 1 \<noteq> 2 * j + 2" for i j :: nat by presburger
    then show ?thesis using e p alloc_inj [OF a] unfolding qa [OF p(1)] qa [OF p(2)]
      by (cases p; cases p') (auto simp: RUN_QUEUE_SIZE_def, (metis Suc_double_not_eq_double)+)
  qed
  moreover have "priorityLevel (queues s' (runQ s' i)) = int i" if "i < RUN_QUEUE_SIZE" for i
    using that find_odd [OF a, of i] by (auto simp: f(1,2) init_queues_def RUN_QUEUE_SIZE_def)
  ultimately have "sys s' ?L" using f(4) by (simp add: sys_def apart_def)
  then have "qsys (current s') s' ?L" by (simp add: qsys_def)
  moreover have "runs s'" using nz [of 16] nz [of 17] f by (simp add: runs_def RUN_QUEUE_SIZE_def)
  moreover have "id_of s' (a 17) = 1" using f by (simp add: id_of_def)
  ultimately show thesis using s' f by (intro that [of s']) (auto simp: lr sched_inv_def ids_ok_def thread_list_def everyone_def)
qed

section \<open>One call of the scheduler\<close>

lemma requeued_cong: "nodes s' = nodes s \<Longrightarrow> pthreads s' = pthreads s \<Longrightarrow> current s' = current s \<Longrightarrow> requeued s' L = requeued s L"
  by (cases "status (nodes s (current s))") (simp_all add: requeued_def level_of_def waits_for_def id_of_def Let_def)

lemma died_pthreads: "pthreads s' = pthreads s \<Longrightarrow> pthreads (died i T s') = pthreads (died i T s)"
  by (simp add: died_def upd_thread_def split: option.split)

lemma schedule_exactly:
  assumes inv: "sched_inv s L T" and cy: "cycles s < 100"
  shows "\<exists>s'. schedule s = Some s' \<and> kept s s' \<and> (case ready_level (requeued s L) of
      None \<Rightarrow> current s' = current s \<and> qsys NULL s' (requeued s L)
    | Some i \<Rightarrow> current s' = hd (requeued s L (Run i)) \<and> sched_inv s' ((requeued s L)(Run i := tl (requeued s L (Run i)))) T \<and>
        val_usec (timer s') = quantum i \<and> (itimer_valid (timer s') \<longrightarrow> ktimer s' = timer s') \<and>
        (id_of s (current s') \<noteq> id_of s (current s) \<longrightarrow> ctx s' = ut (nodes s (current s'))))"
proof -
  obtain s1 L1 where s1: "schedule s = Option.bind (requeue s1) dispatch" "sched_inv s1 L1 T" "kept s s1"
    "cycles s < 100 \<Longrightarrow> L1 = L \<and> nodes s1 = nodes s \<and> pthreads s1 = pthreads s \<and> current s1 = current s"
    by (rule schedule_split [OF inv]) (rule that)
  note e = s1(4) [OF cy]
  have M: "requeued s1 L1 = requeued s L" and id: "id_of s1 = id_of s" using e requeued_cong [of s1 s L] by (simp_all add: id_of_def [abs_def])
  show ?thesis
  proof (cases "ready_level (requeued s L)")
    case None
    have n: "ready_level (requeued s1 L1) = None" using None M by simp
    obtain s' where s': "Option.bind (requeue s1) dispatch = Some s'" "current s' = current s1" "kept s1 s'" "qsys NULL s' (requeued s1 L1)"
      by (rule schedule_none [OF s1(2) n]) (rule that)
    show ?thesis using s1(1) s' e None M kept_trans [OF s1(3) s'(3)] by auto
  next
    case (Some i)
    have n: "ready_level (requeued s1 L1) = Some i" using Some M by simp
    obtain s' where s': "Option.bind (requeue s1) dispatch = Some s'" "sched_inv s' ((requeued s1 L1)(Run i := tl (requeued s1 L1 (Run i)))) T"
      "current s' = hd (requeued s1 L1 (Run i))" "kept s1 s'" "val_usec (timer s') = quantum i" "itimer_valid (timer s') \<longrightarrow> ktimer s' = timer s'"
      "id_of s1 (current s') \<noteq> id_of s1 (current s1) \<longrightarrow> ctx s' = ut (nodes s1 (current s'))"
      by (rule schedule_some [OF s1(2) n]) (rule that)
    show ?thesis using s1(1) s' e Some M id kept_trans [OF s1(3) s'(4)] by auto
  qed
qed

lemma ready_after:
  assumes inv: "sched_inv s L T" and r: "ready s" and s1: "sched_inv s1 L1 T" and e: "(\<Union>l. set (L1 (Run l))) = (\<Union>l. set (L (Run l)))"
  obtains k where "ready_level (requeued s1 L1) = Some k"
proof -
  obtain i x where x: "x \<in> set (L (Run i))" using r ready_layout [OF inv] by (meson last_in_set)
  then have "x \<in> (\<Union>l. set (L1 (Run l)))" unfolding e by blast
  then obtain j where j: "L1 (Run j) \<noteq> []" by (metis UN_E empty_iff list.set(1))
  have "j < RUN_QUEUE_SIZE" using j s1 by (cases "j < RUN_QUEUE_SIZE") (auto simp: sched_inv_def qsys_def sys_def apart_def)
  then have "ready_level (requeued s1 L1) \<noteq> None" using requeued_ready [of s1 L1] j s1 by (auto simp: sched_inv_def)
  then show thesis using that by blast
qed

text \<open>A thread that waits for another, and one that finds nobody else to run.\<close>

lemma schedule_joins:
  assumes inv: "sched_inv s L T" and st: "status (nodes s (current s)) = JOINING" and r: "ready s"
  shows "\<exists>s' L'. schedule s = Some s' \<and> sched_inv s' L' T \<and> L' Join = current s # L Join"
proof -
  obtain s1 L1 where s1: "schedule s = Option.bind (requeue s1) dispatch" "sched_inv s1 L1 T" "current s1 = current s"
    "status (nodes s1 (current s)) = status (nodes s (current s))" "(\<Union>l. set (L1 (Run l))) = (\<Union>l. set (L (Run l)))" "L1 Join = L Join"
    by (rule schedule_split [OF inv]) (rule that)
  obtain k where k: "ready_level (requeued s1 L1) = Some k" by (rule ready_after [OF inv r s1(2,5)])
  have J: "requeued s1 L1 Join = current s # L Join" using st s1(3,4,6) by (simp add: requeued_def Let_def)
  obtain s' where s': "Option.bind (requeue s1) dispatch = Some s'" "sched_inv s' ((requeued s1 L1)(Run k := tl (requeued s1 L1 (Run k)))) T"
    by (rule schedule_some [OF s1(2) k]) (rule that)
  show ?thesis using s1(1) s' J by (intro exI [of _ s'] exI [of _ "(requeued s1 L1)(Run k := tl (requeued s1 L1 (Run k)))"]) simp
qed

lemma schedule_stuck:
  assumes inv: "sched_inv s L T" and st: "status (nodes s (current s)) = JOINING" and r: "\<not> ready s"
  shows "\<exists>s'. schedule s = Some s' \<and> current s' = current s \<and> pthreads s' = pthreads s \<and> joinHead s' = current s"
proof -
  obtain s1 L1 where s1: "schedule s = Option.bind (requeue s1) dispatch" "sched_inv s1 L1 T" "current s1 = current s"
    "status (nodes s1 (current s)) = status (nodes s (current s))" "(\<Union>l. set (L1 (Run l))) = (\<Union>l. set (L (Run l)))" "pthreads s1 = pthreads s"
    by (rule schedule_split [OF inv]) (rule that)
  have "(\<Union>l. set (L1 (Run l))) = {}" unfolding s1(5) using r ready_layout [OF inv] by simp
  then have "\<forall>l. L1 (Run l) = []" by simp
  then have n: "ready_level (requeued s1 L1) = None" using st s1(3,4) by (simp add: ready_level_None requeued_def Let_def)
  obtain s' where s': "Option.bind (requeue s1) dispatch = Some s'" "current s' = current s1" "requeue s1 = Some s'"
    by (rule schedule_none [OF s1(2) n]) (rule that)
  have "current s \<noteq> NULL" using inv by (simp add: sched_inv_def runs_def)
  then have "s' = (upd_node (current s) (nnext_update (\<lambda>_. joinHead s1)) s1)\<lparr>joinHead := current s\<rparr>"
    using s'(3) st s1(3,4) by (simp add: requeue_def insertToList_def Let_def)
  then show ?thesis using s1 s' by simp
qed

text \<open>The death of the running thread.\<close>

lemma requeued_wakes:
  assumes "qsys c s L" "status (nodes s (current s)) = EXITING" "x \<in> set (L Join)"
  shows "if waits_for s x = id_of s (current s) then \<exists>l < RUN_QUEUE_SIZE. x \<in> set (requeued s L (Run l)) else x \<in> set (requeued s L Join)"
proof -
  have "waits_ok s x" using qsys_waits [OF assms(1,3)] .
  then obtain l where "priority (nodes s x) = int l" "l < RUN_QUEUE_SIZE" unfolding waits_ok_def by (metis nonneg_int_cases of_nat_less_iff)
  then show ?thesis using assms(2,3) by (auto simp: requeued_def Let_def woken_def)
qed

lemma schedule_wakes:
  assumes inv: "sched_inv s L T" and st: "status (nodes s (current s)) = EXITING"
  shows "\<exists>s' L'. schedule s = Some s' \<and> sched_inv s' L' T \<and> pthreads s' = pthreads (died (id_of s (current s)) T s) \<and>
    (\<forall>x \<in> set (L Join). if waits_for s x = id_of s (current s) then x = current s' \<or> (\<exists>l. x \<in> set (L' (Run l))) else x \<in> set (L' Join))"
proof -
  obtain s1 L1 where s1: "schedule s = Option.bind (requeue s1) dispatch" "sched_inv s1 L1 T" "current s1 = current s"
    "status (nodes s1 (current s)) = status (nodes s (current s))" "kept s s1" "L1 Join = L Join" "pthreads s1 = pthreads s"
    by (rule schedule_split [OF inv]) (rule that)
  let ?M = "requeued s1 L1"
  note v = s1(2) [unfolded sched_inv_def]
  have q: "qsys (current s1) s1 L1" and st1: "status (nodes s1 (current s1)) = EXITING" using v st s1(3,4) by auto
  have w: "if waits_for s x = id_of s (current s) then \<exists>l < RUN_QUEUE_SIZE. x \<in> set (?M (Run l)) else x \<in> set (?M Join)" if "x \<in> set (L Join)" for x
    using requeued_wakes [OF q st1, of x] that s1(3,6) kept_ids [OF s1(5)] by simp
  have d: "pthreads (died (id_of s1 (current s1)) T s1) = pthreads (died (id_of s (current s)) T s)"
    using died_pthreads [OF s1(7)] kept_ids(1) [OF s1(5)] s1(3) by simp
  show ?thesis
  proof (cases "ready_level ?M")
    case (Some i)
    obtain s' where s': "Option.bind (requeue s1) dispatch = Some s'" "sched_inv s' (?M(Run i := tl (?M (Run i)))) T" "current s' = hd (?M (Run i))"
      "status (nodes s1 (current s1)) = EXITING \<longrightarrow> pthreads s' = pthreads (died (id_of s1 (current s1)) T s1)"
      by (rule schedule_some [OF s1(2) Some]) (rule that)
    let ?L = "?M(Run i := tl (?M (Run i)))"
    have "if waits_for s x = id_of s (current s) then x = current s' \<or> (\<exists>l. x \<in> set (?L (Run l))) else x \<in> set (?L Join)" if "x \<in> set (L Join)" for x
    proof -
      have "x = hd (?M (Run i)) \<or> x \<in> set (tl (?M (Run i)))" if "x \<in> set (?M (Run i))" using that by (cases "?M (Run i)") auto
      then have "x = current s' \<or> x \<in> set (?L (Run l))" if "x \<in> set (?M (Run l))" for l using that s'(3) by (cases "l = i") auto
      then show ?thesis using w [OF that] by (auto simp del: fun_upd_apply simp: fun_upd_other)
    qed
    then have "\<forall>x \<in> set (L Join). if waits_for s x = id_of s (current s) then x = current s' \<or> (\<exists>l. x \<in> set (?L (Run l))) else x \<in> set (?L Join)"
      by blast
    moreover have "schedule s = Some s'" "pthreads s' = pthreads (died (id_of s (current s)) T s)" using s1(1) s'(1,4) d st1 by simp_all
    ultimately show ?thesis using s'(2) by blast
  next
    case None
    obtain s' where s': "Option.bind (requeue s1) dispatch = Some s'" "current s' = current s1" "kept s1 s'" "qsys NULL s' ?M"
      "status (nodes s1 (current s1)) = EXITING \<longrightarrow> runs s' \<and> pthreads s' = pthreads (died (id_of s1 (current s1)) T s1)"
      by (rule schedule_none [OF s1(2) None]) (rule that)
    have e: "everyone ?M = everyone L1" using requeued_everyone [OF q] st1 by simp
    have "qsys (current s') s' ?M" using qsys_keep [OF s'(4)] qsys_out [OF q] s'(2) e by simp
    moreover have "ids_ok s' ?M" using v s'(2) e by (intro ids_ok_mono [OF _ s'(3), of L1]) auto
    ultimately have "sched_inv s' ?M T" using v s' st1 kept_threads [OF s'(3)] requeued_Prom by (simp add: sched_inv_def kept_def)
    then show ?thesis using s1(1) s' d w st1 by (intro exI [of _ s'] exI [of _ ?M]) fastforce
  qed
qed

section \<open>Maintenance without its array\<close>

text \<open>
  When \<open>maintenance\<close> is due and the library allocator refuses its array, every call that comes to
  \<open>schedule\<close> writes through a null pointer.
\<close>

lemma schedule_no_array: "cycles s + 1 > 100 \<Longrightarrow> \<not> lib_room s \<Longrightarrow> schedule s = None"
  by (simp add: schedule_def Let_def maintenance_def pause_timer_same)

definition join_wait :: "int \<Rightarrow> sched \<Rightarrow> sched option" where
  "join_wait t s = (case my_pthread_join t s of Some (Waiting u s') \<Rightarrow> Some s' | _ \<Rightarrow> None)"

lemma calls_no_array:
  assumes "cycles s + 1 > 100" "\<not> lib_room s"
  shows "timerHandler s = None" "terminationHandler s = None" "scd_up s \<Longrightarrow> my_pthread_yield s = None" "scd_up s \<Longrightarrow> my_pthread_exit r s = None" "join_wait t s = None"
proof -
  have m: "mark_current st s = Some s' \<Longrightarrow> schedule s' = None" for st s'
    by (rule schedule_no_array) (use assms in \<open>auto simp: mark_current_def Let_def upd_node_def unpause_timer_same pause_timer_same split: if_split_asm\<close>)
  show "timerHandler s = None" unfolding timerHandler_def by (rule schedule_no_array) (use assms in simp_all)
  show "terminationHandler s = None" using m by (cases "mark_current EXITING s") (auto simp: terminationHandler_def)
  show "my_pthread_yield s = None" if "scd_up s" using m that by (cases "mark_current YIELDING s") (auto simp: my_pthread_yield_def)
  have e: "schedule (unpause_timer (upd_thread t f (upd_node c g (pause_timer s)))) = None" "schedule (unpause_timer (upd_node c g (pause_timer s))) = None" for t f c g
    by (rule schedule_no_array; use assms in \<open>simp add: upd_node_def upd_thread_def unpause_timer_same pause_timer_same\<close>)+
  show "my_pthread_exit r s = None" if "scd_up s" using e that by (simp add: my_pthread_exit_def Let_def)
  show "join_wait t s = None" using e by (auto simp: join_wait_def my_pthread_join_def Let_def bind_eq_Some_conv split: option.split join_result.split if_split_asm)
qed

end
