(* ===== verification/PtProps.thy ===== *)
theory PtProps
  imports PtApi
begin

text \<open>
  The properties of the thread library: reachable states, what one call of the scheduler does,
  maintenance, queue order, joining, exiting and creating threads, each with a concrete run.
\<close>

section \<open>Concrete states\<close>

definition no_timer :: itimerval where
  "no_timer = \<lparr>int_sec = 0, int_usec = 0, val_sec = 0, val_usec = 0\<rparr>"

definition boot :: sched where
  "boot = \<lparr>nodes = (\<lambda>_. \<lparr>threadID = NULL, ut = NULL, priority = 0, timeCreated = 0, runtime = 0, status = NEUTRAL, joinee = NULL, nnext = NULL\<rparr>),
     queues = (\<lambda>_. \<lparr>head = NULL, rear = NULL, priorityLevel = 0\<rparr>), pthreads = (\<lambda>_. \<lparr>tid = 0, isDead = 0, exitArg = NULL, pageNum = 0, tnext = NULL\<rparr>),
     scd_up = False, runQ = (\<lambda>_. NULL), promotionQ = (\<lambda>_. NULL), current = NULL, termHandler = NULL, cycles = 0, timer = no_timer,
     joinHead = NULL, threadsHead = NULL, threadNum = 0, start_time = 0, mainPageNum = 0, timerSet = False, pages = [], prot = (\<lambda>_. False),
     ctx = NULL, now = 0, ktimer = no_timer, zero_junk = no_timer, timer_junk = no_timer, lib_room = True\<rparr>"

definition demo_alloc :: "nat \<Rightarrow> addr" where
  "demo_alloc k = 1000 + 100 * k"

text \<open>
  Thread 2 (node 20) runs with status \<open>st\<close>; main (node 10) waits for it; thread 3 (node 30) is at
  level \<open>l\<close>, if \<open>b\<close>.
\<close>

definition demo_node :: "addr \<Rightarrow> STATUS \<Rightarrow> addr \<Rightarrow> int \<Rightarrow> node" where
  "demo_node t st j pr = \<lparr>threadID = t, ut = t + 1, priority = pr, timeCreated = 0, runtime = 0, status = st, joinee = j, nnext = NULL\<rparr>"

definition demo :: "STATUS \<Rightarrow> bool \<Rightarrow> nat \<Rightarrow> sched" where
  "demo st b l = boot\<lparr>scd_up := True, runQ := (\<lambda>i. 101 + i), promotionQ := (\<lambda>i. 111 + i),
     queues := (\<lambda>q. if b \<and> q = 101 + l then \<lparr>head = 30, rear = 30, priorityLevel = int (q - 101)\<rparr> else \<lparr>head = NULL, rear = NULL, priorityLevel = int (q - 101)\<rparr>),
     nodes := (nodes boot)(10 := demo_node 100 JOINING 200 0, 20 := demo_node 200 st 200 0, 30 := demo_node 300 NEUTRAL NULL (int l)),
     pthreads := (pthreads boot)(100 := \<lparr>tid = 1, isDead = 0, exitArg = NULL, pageNum = 0, tnext = NULL\<rparr>,
       200 := \<lparr>tid = 2, isDead = 0, exitArg = NULL, pageNum = 0, tnext = NULL\<rparr>, 300 := \<lparr>tid = 3, isDead = 0, exitArg = NULL, pageNum = 0, tnext = 200\<rparr>),
     current := 20, joinHead := 10, threadsHead := 300, threadNum := 4\<rparr>"

definition demo_layout :: "bool \<Rightarrow> nat \<Rightarrow> layout" where
  "demo_layout b l = (\<lambda>_. [])(Join := [10], Run l := if b then [30] else [])"

lemma demo_layout_simps [simp]:
  "demo_layout b l Join = [10]" "demo_layout b l (Prom i) = []" "demo_layout b l (Run i) = (if b \<and> i = l then [30] else [])"
  by (auto simp: demo_layout_def)

lemma demo_everyone: "everyone (demo_layout b l) = insert 10 (if b then {30} else {})"
  unfolding everyone_places by auto

lemma demo_fields [simp]:
  "current (demo st b l) = 20" "cycles (demo st b l) = 0" "threadNum (demo st b l) = 4" "joinHead (demo st b l) = 10" "threadsHead (demo st b l) = 300"
  "lib_room (demo st b l)" "scd_up (demo st b l)" "runQ (demo st b l) i = 101 + i" "promotionQ (demo st b l) i = 111 + i" "now (demo st b l) = 0"
  "nodes (demo st b l) 10 = demo_node 100 JOINING 200 0" "nodes (demo st b l) 20 = demo_node 200 st 200 0" "nodes (demo st b l) 30 = demo_node 300 NEUTRAL NULL (int l)"
  "tid (pthreads (demo st b l) 100) = 1" "tid (pthreads (demo st b l) 200) = 2" "tid (pthreads (demo st b l) 300) = 3"
  "isDead (pthreads (demo st b l) 200) = 0" "isDead (pthreads (demo st b l) 300) = 0" "tnext (pthreads (demo st b l) 300) = 200" "tnext (pthreads (demo st b l) 200) = NULL"
  "queues (demo st b l) (101 + i) = (if b \<and> i = l then \<lparr>head = 30, rear = 30, priorityLevel = int i\<rparr> else \<lparr>head = NULL, rear = NULL, priorityLevel = int i\<rparr>)"
  "l < 5 \<Longrightarrow> queues (demo st b l) (111 + i) = \<lparr>head = NULL, rear = NULL, priorityLevel = int (10 + i)\<rparr>"
  by (auto simp: demo_def boot_def)

lemma demo_node_simps [simp]:
  "threadID (demo_node t st j pr) = t" "status (demo_node t st j pr) = st" "joinee (demo_node t st j pr) = j" "priority (demo_node t st j pr) = pr"
  "nnext (demo_node t st j pr) = NULL" "timeCreated (demo_node t st j pr) = 0" "ut (demo_node t st j pr) = t + 1"
  by (simp_all add: demo_node_def)

lemma demo_inv:
  assumes "l < RUN_QUEUE_SIZE"
  shows "sched_inv (demo st b l) (demo_layout b l) [300, 200]"
proof -
  let ?s = "demo st b l" and ?L = "demo_layout b l"
  have l: "l < 5" using assms by (simp add: RUN_QUEUE_SIZE_def)
  have nd: "distinct (?L p)" "p \<noteq> p' \<Longrightarrow> set (?L p) \<inter> set (?L p') = {}" "\<not> qplace p \<and> p \<noteq> Join \<Longrightarrow> ?L p = []" for p p'
    using assms by (cases p; cases p'; auto)+
  have "qlist ?s (qaddr ?s p) (?L p)" if "qplace p" for p using that l by (cases p) (auto simp: qlist_def RUN_QUEUE_SIZE_def)
  moreover have "p = p'" if "qplace p \<and> qplace p' \<and> qaddr ?s p = qaddr ?s p'" for p p' using that by (cases p; cases p') (auto simp: RUN_QUEUE_SIZE_def)
  ultimately have "sys ?s ?L" using nd by (auto simp: sys_def apart_def RUN_QUEUE_SIZE_def)
  moreover have "good_node 20 ?s x" if "x \<in> set (?L p)" for x p using that by (cases p) (auto simp: good_node_def split: if_splits)
  moreover have "waits_ok ?s 10" by (simp add: waits_ok_def RUN_QUEUE_SIZE_def)
  ultimately have "qsys 20 ?s ?L" by (auto simp: qsys_def)
  then show ?thesis by (auto simp: sched_inv_def runs_def RUN_QUEUE_SIZE_def ids_ok_def demo_everyone id_of_def thread_list_def)
qed

lemma demo_ready: "l < RUN_QUEUE_SIZE \<Longrightarrow> ready (demo st b l) = b"
  using ready_layout [OF demo_inv] by simp

section \<open>Reachable states\<close>

text \<open>
  The states of the library once \<open>initialize\<close> has returned with all its allocations served, \<open>N\<close> the
  nodes and \<open>D\<close> the thread descriptors in use so far.  Between two calls the running thread's code may
  let time pass and the kernel's timer run.  A creation gets a node and is given a descriptor not in
  use; it succeeds or it reports failure.  A join that finds no thread, or a dead one, returns; any
  other puts the caller to wait (\<open>join\<close>) and is finished when the caller runs again (\<open>joined\<close>).

  Two things are left out.  A thread does not begin to wait, and a thread whose status is still
  \<open>JOINING\<close> is not interrupted by the timer, while no other thread is ready: \<open>schedule\<close> then puts the
  node of the running thread on the join list and goes on running it, so that the lists are not
  consistent any more.  And \<open>lib_room\<close> holds throughout: a call in which \<open>maintenance\<close> is due and its
  array is refused ends the process and has no state behind it.
\<close>

inductive sched_reach :: "sched \<Rightarrow> addr set \<Rightarrow> addr set \<Rightarrow> bool" where
  start: "alloc_ok a \<Longrightarrow> lib_room s \<Longrightarrow> initialize a s = Some s' \<Longrightarrow> sched_reach s' {a 17} {a 16}"
| elapse: "sched_reach s N D \<Longrightarrow> sched_reach (s\<lparr>now := t, ktimer := v\<rparr>) N D"
| create: "sched_reach s N D \<Longrightarrow> n \<notin> N \<Longrightarrow> th \<notin> D \<Longrightarrow> my_pthread_create a c st n th s = Some (0, s') \<Longrightarrow> sched_reach s' (insert n N) (insert th D)"
| create_fails: "sched_reach s N D \<Longrightarrow> my_pthread_create a c st n th s = Some (1, s') \<Longrightarrow> sched_reach s' N D"
| tick: "sched_reach s N D \<Longrightarrow> status (nodes s (current s)) = JOINING \<longrightarrow> ready s \<Longrightarrow> timerHandler s = Some s' \<Longrightarrow> sched_reach s' N D"
| yield: "sched_reach s N D \<Longrightarrow> my_pthread_yield s = Some s' \<Longrightarrow> sched_reach s' N D"
| exit: "sched_reach s N D \<Longrightarrow> my_pthread_exit v s = Some s' \<Longrightarrow> sched_reach s' N D"
| finish: "sched_reach s N D \<Longrightarrow> terminationHandler s = Some s' \<Longrightarrow> sched_reach s' N D"
| join: "sched_reach s N D \<Longrightarrow> ready s \<Longrightarrow> my_pthread_join i s = Some (Waiting u s') \<Longrightarrow> sched_reach s' N D"
| join_returns: "sched_reach s N D \<Longrightarrow> my_pthread_join i s = Some (Returned r x s') \<Longrightarrow> sched_reach s' N D"
| joined: "sched_reach s N D \<Longrightarrow> join_resume u s = (r, x, s') \<Longrightarrow> sched_reach s' N D"

definition accounted :: "sched \<Rightarrow> addr set \<Rightarrow> addr set \<Rightarrow> addr set \<Rightarrow> bool" where
  "accounted s N D A \<longleftrightarrow> (\<exists>L T. sched_inv s L T \<and> insert (current s) (everyone L) \<subseteq> N \<and> set T \<union> A \<subseteq> D \<and>
     (\<forall>x \<in> insert (current s) (everyone L). threadID (nodes s x) \<in> A))"

lemma accounted_keeps:
  assumes "sched_inv s L T" "insert (current s) (everyone L) \<subseteq> N" "set T \<union> A \<subseteq> D" "\<forall>x \<in> insert (current s) (everyone L). threadID (nodes s x) \<in> A" "keeps s L T s'"
  shows "accounted s' N D A"
proof -
  obtain L' where "sched_inv s' L' T" "insert (current s') (everyone L') = insert (current s) (everyone L)" "\<forall>x. threadID (nodes s' x) = threadID (nodes s x)"
    using assms(5) unfolding keeps_def by blast
  then show ?thesis using assms(2-4) unfolding accounted_def by (intro exI [of _ L'] exI [of _ T]) simp
qed

lemma accounted_leaves:
  assumes "sched_inv s L T" "insert (current s) (everyone L) \<subseteq> N" "set T \<union> A \<subseteq> D" "\<forall>x \<in> insert (current s) (everyone L). threadID (nodes s x) \<in> A" "leaves s L T s'"
  shows "accounted s' N D A"
proof -
  obtain L' where "sched_inv s' L' T" "insert (current s') (everyone L') \<subseteq> insert (current s) (everyone L)" "\<forall>x. threadID (nodes s' x) = threadID (nodes s x)"
    using assms(5) unfolding leaves_def by blast
  then show ?thesis using assms(2-4) unfolding accounted_def by (intro exI [of _ L'] exI [of _ T]) auto
qed

lemma accounted_tick:
  assumes "accounted s N D A" "status (nodes s (current s)) = JOINING \<longrightarrow> ready s"
  shows "\<exists>s'. timerHandler s = Some s' \<and> accounted s' N D A"
proof -
  obtain L T where a: "sched_inv s L T" "insert (current s) (everyone L) \<subseteq> N" "set T \<union> A \<subseteq> D" "\<forall>x \<in> insert (current s) (everyone L). threadID (nodes s x) \<in> A"
    using assms(1) unfolding accounted_def by blast
  show ?thesis
  proof (cases "status (nodes s (current s)) = EXITING")
    case True
    let ?s = "s\<lparr>timer := (timer s)\<lparr>val_usec := 0\<rparr>\<rparr>"
    have i: "sched_inv ?s L T" using a(1) by (rule sched_inv_cong) (simp_all add: kept_def)
    have "\<exists>s'. schedule ?s = Some s' \<and> leaves s L T s'" using schedule_exits [OF i] True by (auto simp: leaves_def)
    then show ?thesis using accounted_leaves [OF a] by (auto simp: timerHandler_def)
  next
    case False
    then show ?thesis using timerHandler_keeps [OF a(1) assms(2)] accounted_keeps [OF a] by blast
  qed
qed

lemma accounted_api:
  assumes "accounted s N D A"
  shows "\<exists>s'. my_pthread_yield s = Some s' \<and> accounted s' N D A" "\<exists>s'. my_pthread_exit v s = Some s' \<and> accounted s' N D A"
    "\<exists>s'. terminationHandler s = Some s' \<and> accounted s' N D A"
proof -
  obtain L T where a: "sched_inv s L T" "insert (current s) (everyone L) \<subseteq> N" "set T \<union> A \<subseteq> D" "\<forall>x \<in> insert (current s) (everyone L). threadID (nodes s x) \<in> A"
    using assms(1) unfolding accounted_def by blast
  show "\<exists>s'. my_pthread_yield s = Some s' \<and> accounted s' N D A" using yield_keeps [OF a(1)] accounted_keeps [OF a] by blast
  show "\<exists>s'. my_pthread_exit v s = Some s' \<and> accounted s' N D A" using exit_leaves [OF a(1)] accounted_leaves [OF a] by blast
  show "\<exists>s'. terminationHandler s = Some s' \<and> accounted s' N D A" using terminationHandler_leaves [OF a(1)] accounted_leaves [OF a] by blast
qed

lemma find_thread_pause: "thread_list s T \<Longrightarrow> find_thread i (threadsHead s) (pause_timer s) = find_thread i (threadsHead s) s"
  unfolding thread_list_def using find_thread_ok [of s "threadsHead s" T i] find_thread_ok [of "pause_timer s" "threadsHead s" T i]
  by (simp add: pause_timer_same)

lemma accounted_join:
  assumes "accounted s N D A" "ready s" "my_pthread_join i s = Some (Waiting u s')"
  shows "accounted s' N D A"
proof -
  obtain L T where a: "sched_inv s L T" "insert (current s) (everyone L) \<subseteq> N" "set T \<union> A \<subseteq> D" "\<forall>x \<in> insert (current s) (everyone L). threadID (nodes s x) \<in> A"
    using assms(1) unfolding accounted_def by blast
  have T: "thread_list s T" using a(1) by (simp add: sched_inv_def)
  obtain w where w: "find_thread i (threadsHead s) s = Some w" using find_thread_ok [OF T [unfolded thread_list_def], of i] by blast
  then have "w \<noteq> NULL" "isDead (pthreads s w) \<noteq> 1"
    using assms(3) find_thread_pause [OF T, of i] by (auto simp: my_pthread_join_def Let_def pause_timer_same split: if_splits)
  then show ?thesis using join_waits [OF a(1) assms(2) w] assms(3) accounted_keeps [OF a] by auto
qed

lemma accounted_create:
  assumes "accounted s N D A" "n \<noteq> NULL" "n \<notin> N" "th \<noteq> NULL" "th \<notin> D"
  shows "\<exists>r s'. my_pthread_create a c st n th s = Some (r, s') \<and> accounted s' (insert n N) (insert th D) (insert th A)"
proof -
  obtain L T where a: "sched_inv s L T" "insert (current s) (everyone L) \<subseteq> N" "set T \<union> A \<subseteq> D" "\<forall>x \<in> insert (current s) (everyone L). threadID (nodes s x) \<in> A"
    using assms(1) unfolding accounted_def by blast
  show ?thesis
  proof (cases "c = NULL \<or> st = NULL")
    case True
    let ?s = "unpause_timer (if c = NULL then lib_request (pause_timer s) else lib_request (lib_request (pause_timer s)))"
    have "sched_inv ?s L T" using sched_inv_unpause sched_inv_lib_request sched_inv_pause a(1) by simp
    moreover have "my_pthread_create a c st n th s = Some (1, ?s)"
      using True a(1) by (auto simp: my_pthread_create_def Let_def sched_inv_def)
    ultimately show ?thesis using a(2-4) unfolding accounted_def
      by (intro exI [of _ 1] exI [of _ ?s] conjI exI [of _ L] exI [of _ T]) (auto simp: unpause_timer_same pause_timer_same lib_request_same)
  next
    case False
    have c0: "c \<noteq> NULL" "st \<noteq> NULL" using False by auto
    have f: "fresh_thread s L T th n" using assms(2-5) a(2-4) by (auto simp: fresh_thread_def)
    obtain s' where s': "my_pthread_create a c st n th s = Some (0, s')" "sched_inv s' (put (Run 0) n L) (th # T)" "current s' = current s"
      "\<forall>x. threadID (nodes s' x) = (if x = n then th else threadID (nodes s x))"
      by (rule create_inv [OF a(1) f c0, of a]) (rule that)
    then show ?thesis using a(2-4) assms(3) unfolding accounted_def
      by (intro exI [of _ 0] exI [of _ s'] conjI exI [of _ "put (Run 0) n L"] exI [of _ "th # T"]) (auto simp: everyone_put)
  qed
qed

text \<open>A creation that gets that far dereferences the descriptor and the node.\<close>

lemma create_null:
  assumes "scd_up s" "c \<noteq> NULL" "st \<noteq> NULL" "n = NULL \<or> th = NULL"
  shows "my_pthread_create a c st n th s = None"
  using assms by (auto simp: my_pthread_create_def Let_def createNode_def bind_eq_None_conv)

lemma create_failure:
  assumes "scd_up s" "my_pthread_create a c st n th s = Some (1, s')"
  shows "c = NULL \<or> st = NULL"
  using assms by (auto simp: my_pthread_create_def Let_def bind_eq_Some_conv split: if_split_asm)

text \<open>What only pauses the timer, asks the library allocator and goes on leaves the lists alone.\<close>

lemma accounted_kept:
  assumes "accounted s N D A" and s': "\<And>L T. sched_inv s L T \<Longrightarrow> sched_inv s' L T" "current s' = current s" "nodes s' = nodes s"
  shows "accounted s' N D A"
  using assms unfolding accounted_def by metis

lemma accounted_create_fails:
  assumes a: "accounted s N D A" and r: "my_pthread_create a c st n th s = Some (1, s')"
  shows "accounted s' N D A"
proof -
  have up: "scd_up s" using a by (auto simp: accounted_def sched_inv_def)
  have "s' = unpause_timer (lib_request (pause_timer s)) \<or> s' = unpause_timer (lib_request (lib_request (pause_timer s)))"
    using create_failure [OF up r] up r by (auto simp: my_pthread_create_def Let_def split: if_split_asm)
  then show ?thesis using sched_inv_unpause sched_inv_lib_request sched_inv_pause
    by (intro accounted_kept [OF a]) (auto simp: unpause_timer_same pause_timer_same lib_request_same)
qed

lemma accounted_paused: "accounted s N D A \<Longrightarrow> accounted (unpause_timer (pause_timer s)) N D A"
  by (rule accounted_kept) (auto simp: unpause_timer_same pause_timer_same intro: sched_inv_unpause sched_inv_pause)

lemma join_returned:
  assumes "scd_up s" "my_pthread_join i s = Some (Returned r x s')"
  shows "s' = unpause_timer (pause_timer s)"
  using assms by (auto simp: my_pthread_join_def Let_def bind_eq_Some_conv split: if_split_asm)

lemma accounted_elapse:
  assumes "accounted s N D A"
  shows "accounted (s\<lparr>now := t, ktimer := v\<rparr>) N D A"
proof -
  obtain L T where a: "sched_inv s L T" "insert (current s) (everyone L) \<subseteq> N" "set T \<union> A \<subseteq> D" "\<forall>x \<in> insert (current s) (everyone L). threadID (nodes s x) \<in> A"
    using assms unfolding accounted_def by blast
  have "qsys (current s) (s\<lparr>now := t, ktimer := v\<rparr>) L = qsys (current s) s L" by (rule qsys_cong) simp_all
  then have "sched_inv (s\<lparr>now := t, ktimer := v\<rparr>) L T" using a(1) by (simp add: sched_inv_def runs_def ids_ok_def id_of_def [abs_def] thread_list_def)
  then show ?thesis using a unfolding accounted_def by (intro exI [of _ L] exI [of _ T]) simp
qed

lemma sched_reach_accounted: "sched_reach s N D \<Longrightarrow> accounted s N D D"
proof (induction rule: sched_reach.induct)
  case (start a s s')
  obtain s1 where s1: "initialize a s = Some s1" "sched_inv s1 (\<lambda>_. []) []" "current s1 = a 17" by (rule initialize_inv [OF start(1,2)]) (rule that)
  have "threadID (nodes s1 (a 17)) = a 16" using initialize_fields(12) [OF s1(1)] .
  then show ?case using s1 start(3) unfolding accounted_def by (intro exI [of _ "\<lambda>_. []"] exI [of _ "[]"]) (auto simp: everyone_def)
next
  case (elapse s N D v t)
  show ?case by (rule accounted_elapse [OF elapse(2)])
next
  case (create s N D n th a c st s')
  have up: "scd_up s" using create.IH by (auto simp: accounted_def sched_inv_def)
  have "c \<noteq> NULL \<and> st \<noteq> NULL" using create.hyps(4) up by (auto simp: my_pthread_create_def Let_def split: if_split_asm)
  then have "n \<noteq> NULL" "th \<noteq> NULL" using create_null [OF up, of c st n th a] create.hyps(4) by (cases "n = NULL \<or> th = NULL"; auto)+
  then show ?case using accounted_create [OF create.IH, of n th a c st] create.hyps(2-4) by auto
next
  case (create_fails s N D a c st n th s')
  then show ?case using accounted_create_fails by blast
next
  case (tick s N D s')
  then show ?case using accounted_tick by fastforce
next
  case (yield s N D s')
  then show ?case using accounted_api(1) [of s N D D] by fastforce
next
  case (exit s N D v s')
  then show ?case using accounted_api(2) [of s N D D v] by fastforce
next
  case (finish s N D s')
  then show ?case using accounted_api(3) [of s N D D] by fastforce
next
  case (join s N D i u s')
  then show ?case using accounted_join by blast
next
  case (join_returns s N D i r x s')
  have "scd_up s" using join_returns.IH by (auto simp: accounted_def sched_inv_def)
  then show ?case using join_returned join_returns.hyps(2) accounted_paused [OF join_returns.IH] by blast
next
  case (joined s N D u r x s')
  then show ?case using accounted_paused by (auto simp: join_resume_def)
qed

lemma demo_alloc_ok: "alloc_ok demo_alloc"
proof -
  have "inj_on demo_alloc A" for A by (simp add: inj_on_def demo_alloc_def)
  then show ?thesis by (simp add: alloc_ok_def alloc_fails_def distinct_map demo_alloc_def del: upt_rec_numeral upt_Suc)
qed

text \<open>
  C3. In every state the thread library reaches from its set-up by creations (at fresh nodes and
  descriptors, successful or not), timer signals, yields, exits, ends of thread functions and joins,
  provided that no thread begins to wait and no thread that has the status of a waiting one is
  interrupted by the timer while no other thread is ready, and that \<open>maintenance\<close> gets its array: the
  run queues, promotion queues and the join list are well-formed linked lists, no node is in two of
  them, the running node is in none, every node in a run queue has that queue's priority, the
  promotion queues are empty, the ids of the live threads differ pairwise, and only nodes that were
  created are ever linked.  Without the first proviso the statement is false: the running node is then
  on the join list.
\<close>

theorem sched_reach_consistent:
  assumes "sched_reach s N D"
  shows "\<exists>L T. sched_inv s L T \<and> insert (current s) (everyone L) \<subseteq> N \<and> set T \<subseteq> D"
  using sched_reach_accounted [OF assms] unfolding accounted_def by blast

theorem sched_reach_consistent_witness:
  "\<exists>s L T. sched_reach s {5000, 2700} {6000, 2600} \<and> sched_inv s L T \<and> current s = 2700 \<and> 5000 \<in> everyone L"
proof -
  obtain s0 where s0: "initialize demo_alloc boot = Some s0" "sched_inv s0 (\<lambda>_. []) []" "current s0 = 2700"
    by (rule initialize_inv [OF demo_alloc_ok, of boot]) (simp_all add: boot_def demo_alloc_def)
  have "sched_reach s0 {2700} {2600}" using sched_reach.start [OF demo_alloc_ok _ s0(1)] by (simp add: boot_def demo_alloc_def)
  moreover have "threadID (nodes s0 2700) = 2600" using initialize_fields(12) [OF s0(1)] by (simp add: demo_alloc_def)
  then have f: "fresh_thread s0 (\<lambda>_. []) [] 6000 5000" using s0(3) by (simp add: fresh_thread_def everyone_def)
  obtain s where s: "my_pthread_create demo_alloc 7000 7001 5000 6000 s0 = Some (0, s)" "sched_inv s (put (Run 0) 5000 (\<lambda>_. [])) [6000]" "current s = current s0"
    by (rule create_inv [OF s0(2) f, of 7000 7001 demo_alloc]) simp_all
  ultimately have r: "sched_reach s {5000, 2700} {6000, 2600}" by (intro sched_reach.create [of s0 "{2700}" "{2600}", simplified]) auto
  then show ?thesis using sched_reach_consistent [OF r] s(2,3) s0(3) by (intro exI [of _ s] exI [of _ "put (Run 0) 5000 (\<lambda>_. [])"] exI [of _ "[6000]"]) (simp add: everyone_put)
qed

lemma find_thread_listed:
  assumes "sched_inv s L T"
  shows "find_thread i (threadsHead s) (pause_timer s) = Some (case find (\<lambda>t. tid (pthreads s t) = i) T of None \<Rightarrow> NULL | Some t \<Rightarrow> t)"
proof -
  have T: "thread_list s T" using assms by (simp add: sched_inv_def)
  show ?thesis unfolding find_thread_pause [OF T] using find_thread_ok [OF T [unfolded thread_list_def], of i] by simp
qed

lemma schedule_returns: "sched_inv s L T \<Longrightarrow> schedule s \<noteq> None"
  using schedule_keeps schedule_exits schedule_stuck by fastforce

lemma join_returns_always:
  assumes i: "sched_inv s L T"
  shows "my_pthread_join t s \<noteq> None"
proof -
  have up: "scd_up s" "current s \<noteq> NULL" using i by (simp_all add: sched_inv_def runs_def)
  obtain p where p: "find_thread t (threadsHead s) (pause_timer s) = Some p" using find_thread_listed [OF i] by simp
  have "schedule (unpause_timer (upd_node (current s) (\<lambda>n. n\<lparr>status := JOINING, joinee := p\<rparr>) (pause_timer s))) \<noteq> None" if "p \<noteq> NULL"
    using sched_inv_unpause [OF sched_inv_mark [OF sched_inv_pause [OF i]]] that by (intro schedule_returns [of _ L T]) (simp add: pause_timer_same)
  then show ?thesis using p up by (auto simp: my_pthread_join_def Let_def pause_timer_same)
qed

text \<open>
  C22. From a state as in C3 every entry point of the scheduler returns, whatever the running
  thread's status and whether or not another thread is ready: the timer signal, a yield, an exit, the
  end of a thread function and a join follow no null pointer, index inside \<open>runQ\<close> and end their loops,
  as long as \<open>maintenance\<close>, when it is due, gets its array; when it is due and does not, the first four
  write through a null pointer and the join does unless it returns at once.  A creation with a fresh
  node and descriptor returns exactly when it fails for lack of a context or stack or when both the
  node and the descriptor are there; otherwise it writes through a null pointer.
\<close>

theorem sched_entry_points_return:
  assumes "sched_reach s N D"
  shows "timerHandler s \<noteq> None \<and> my_pthread_yield s \<noteq> None \<and> my_pthread_exit v s \<noteq> None \<and> terminationHandler s \<noteq> None \<and> my_pthread_join i s \<noteq> None \<and>
    (n \<notin> N \<and> th \<notin> D \<longrightarrow> (my_pthread_create a c st n th s \<noteq> None \<longleftrightarrow> c = NULL \<or> st = NULL \<or> n \<noteq> NULL \<and> th \<noteq> NULL)) \<and>
    (100 \<le> cycles s \<longrightarrow> (let f = s\<lparr>lib_room := False\<rparr> in timerHandler f = None \<and> my_pthread_yield f = None \<and> my_pthread_exit v f = None \<and>
      terminationHandler f = None \<and> join_wait i f = None))"
proof -
  note a = sched_reach_accounted [OF assms]
  obtain L T where i: "sched_inv s L T" using a unfolding accounted_def by blast
  then have up: "scd_up s" by (simp add: sched_inv_def)
  have "sched_inv (s\<lparr>timer := (timer s)\<lparr>val_usec := 0\<rparr>\<rparr>) L T" using i by (rule sched_inv_cong) (simp_all add: kept_def)
  then have t: "timerHandler s \<noteq> None" unfolding timerHandler_def by (rule schedule_returns)
  have c: "my_pthread_create a c st n th s \<noteq> None \<longleftrightarrow> c = NULL \<or> st = NULL \<or> n \<noteq> NULL \<and> th \<noteq> NULL" if "n \<notin> N" "th \<notin> D"
  proof (cases "c = NULL \<or> st = NULL")
    case True
    then show ?thesis using up by (auto simp: my_pthread_create_def Let_def)
  next
    case False
    then show ?thesis using create_null [OF up, of c st n th a] accounted_create [OF a _ that(1) _ that(2), of a c st] by (cases "n = NULL \<or> th = NULL") auto
  qed
  show ?thesis using t c accounted_api [OF a] join_returns_always [OF i] calls_no_array [of "s\<lparr>lib_room := False\<rparr>"] up by (simp add: Let_def) blast
qed

theorem sched_entry_points_return_witness:
  "timerHandler (the (initialize demo_alloc boot)) \<noteq> None \<and> my_pthread_join 1 (the (initialize demo_alloc boot)) \<noteq> None \<and>
    my_pthread_create demo_alloc 7000 7001 5000 6000 (the (initialize demo_alloc boot)) \<noteq> None \<and> my_pthread_create demo_alloc 7000 7001 NULL 6000 (the (initialize demo_alloc boot)) = None"
proof -
  obtain s' where s': "initialize demo_alloc boot = Some s'"
    by (rule initialize_inv [OF demo_alloc_ok, of boot]) (simp_all add: boot_def)
  then have "sched_reach s' {demo_alloc 17} {demo_alloc 16}" by (intro sched_reach.start [OF demo_alloc_ok, of boot]) (simp_all add: boot_def)
  then have r: "sched_reach (the (initialize demo_alloc boot)) {2700} {2600}" using s' by (simp add: demo_alloc_def)
  show ?thesis using sched_entry_points_return [OF r, of 0 1 5000 6000 demo_alloc 7000 7001] sched_entry_points_return [OF r, of 0 1 NULL 6000 demo_alloc 7000 7001] by (simp del: not_None_eq)
qed

text \<open>
  C12. One call of \<open>schedule\<close> (between two maintenance runs): the running thread goes to the rear of
  its own level when it yielded, of the next lower level when its time ran out, to the join list when
  it waits, and nowhere when it exits, in which case exactly the threads waiting for it go back to
  their levels; then the head of the highest non-empty level runs, for 100 ms times its level plus
  one, and its context is switched to when it is another thread.
\<close>

theorem schedule_exact:
  assumes "sched_inv s L T" "cycles s < 100"
  shows "\<exists>s'. schedule s = Some s' \<and> (case ready_level (requeued s L) of
      None \<Rightarrow> current s' = current s
    | Some i \<Rightarrow> current s' = hd (requeued s L (Run i)) \<and> sched_inv s' ((requeued s L)(Run i := tl (requeued s L (Run i)))) T \<and>
        val_usec (timer s') = 100 * 1000 * (int i + 1) \<and> (itimer_valid (timer s') \<longrightarrow> ktimer s' = timer s') \<and>
        (id_of s (current s') \<noteq> id_of s (current s) \<longrightarrow> ctx s' = ut (nodes s (current s'))))"
  using schedule_exactly [OF assms] by (auto simp: quantum_def split: option.splits)

lemma demo_ready_level: "ready_level (requeued (demo NEUTRAL True 2) (demo_layout True 2)) = Some 1"
  "requeued (demo NEUTRAL True 2) (demo_layout True 2) (Run 1) = [20]"
  by (simp_all add: ready_level_def requeued_def Let_def put_def level_of_def RUN_QUEUE_SIZE_def upt_rec)

theorem schedule_exact_witness:
  "\<exists>s'. schedule (demo NEUTRAL True 2) = Some s' \<and> current s' = 20 \<and> val_usec (timer s') = 200000"
  using schedule_exact [OF demo_inv [of 2 NEUTRAL True]] demo_ready_level by (auto simp: RUN_QUEUE_SIZE_def)

text \<open>
  C23. \<open>maintenance\<close>, when the library allocator has room for its array, returns, empties the promotion
  queues, keeps every thread in exactly one queue and leaves everything but links, priorities and
  cached run times alone.  The nodes of level \<open>i + 1\<close> are ordered oldest first and cut into \<open>i + 2\<close> parts
  of equal size: the oldest part stays at level \<open>i + 1\<close>, the next goes to level \<open>i\<close>, and so on; the
  youngest part, and the remainder, goes to level 0.  This is the opposite of what the comment above
  the function says: that the oldest threads of a level are the ones moved up.  When the
  allocator has no room the answer is not checked, and \<open>maintenance\<close> writes through a null pointer.
\<close>

theorem maintenance_distributes:
  assumes "sched_inv s L T"
  shows "maintenance (s\<lparr>lib_room := False\<rparr>) = None \<and> (\<exists>s'. maintenance s = Some s' \<and> shuffled (current s) s s' \<and> qsys (current s) s' (maintained (now s) s L) \<and>
    everyone (maintained (now s) s L) = everyone L \<and>
    (\<forall>i < RUN_QUEUE_SIZE - 1. \<forall>x \<in> set (take (length (L (Run (Suc i))) div (i + 2)) (by_age (now s) s (L (Run (Suc i))))).
      x \<in> set (maintained (now s) s L (Run (Suc i)))))"
proof -
  have "maintenance (s\<lparr>lib_room := False\<rparr>) = None" by (simp add: maintenance_def)
  moreover have v: "qsys (current s) s L" "lib_room s" "\<forall>i. L (Prom i) = []" using assms by (simp_all add: sched_inv_def)
  have "apart L" using sys_apart [OF qsys_sys [OF v(1)]] .
  moreover have "x \<in> set (maintained (now s) s L (Run (Suc i)))"
    if i: "i < RUN_QUEUE_SIZE - 1" and x: "x \<in> set (take (length (L (Run (Suc i))) div (i + 2)) (by_age (now s) s (L (Run (Suc i)))))" for i x
  proof -
    have "share i (by_age (now s) s (L (Run (Suc i)))) (Suc i) = take (length (L (Run (Suc i))) div (i + 2)) (by_age (now s) s (L (Run (Suc i))))"
      by (simp add: share_def Let_def)
    then show ?thesis using i x by (auto simp: maintained_def intro!: bexI [of _ i])
  qed
  ultimately show ?thesis using maintenance_qsys [OF v] maintained_everyone [of L] v(3) by blast
qed

theorem maintenance_distributes_witness:
  "\<exists>s'. maintenance (demo NEUTRAL True 2) = Some s' \<and> qsys 20 s' (maintained 0 (demo NEUTRAL True 2) (demo_layout True 2)) \<and>
    maintained 0 (demo NEUTRAL True 2) (demo_layout True 2) (Run 0) = [30]"
proof -
  have "maintained 0 (demo NEUTRAL True 2) (demo_layout True 2) (Run 0) = [30]"
    by (simp add: maintained_def RUN_QUEUE_SIZE_def upt_rec by_age_def share_def Let_def)
  then show ?thesis using maintenance_distributes [OF demo_inv [of 2 NEUTRAL True]] by (auto simp: RUN_QUEUE_SIZE_def)
qed

text \<open>
  The run queues are first-in first-out: threads appended to a level come out after the ones that
  were there, in the order they went in.
\<close>

theorem run_queue_fifo:
  assumes "qsys c s L" "l < RUN_QUEUE_SIZE" "distinct xs" "\<forall>x \<in> set xs. good_node c s x \<and> (\<forall>p. x \<notin> set (L p))"
  shows "\<exists>s1 s2. enq_all (\<lambda>p x s. enQ (qaddr s p) x s) (Run l) xs s = Some s1 \<and>
    deq_times (\<lambda>p s. deQ (qaddr s p) s) (Run l) (length (L (Run l)) + length xs) s1 = Some (L (Run l) @ xs, s2) \<and> qsys c s2 (L(Run l := []))"
  using rq.fifo_order [OF assms(1) _ assms(3,4) refl, of "Run l"] assms(2) by simp

theorem run_queue_fifo_witness:
  "\<exists>s1 s2. enq_all (\<lambda>p x s. enQ (qaddr s p) x s) (Run 1) [20] (demo NEUTRAL True 1) = Some s1 \<and>
    deq_times (\<lambda>p s. deQ (qaddr s p) s) (Run 1) 2 s1 = Some ([30, 20], s2)"
proof -
  have q: "qsys NULL (demo NEUTRAL True 1) (demo_layout True 1)" using qsys_free demo_inv [of 1 NEUTRAL True] by (auto simp: sched_inv_def RUN_QUEUE_SIZE_def)
  have "20 \<notin> set (demo_layout True 1 p)" for p by (cases p) auto
  then show ?thesis using run_queue_fifo [OF q, of 1 "[20]"] by (auto simp: RUN_QUEUE_SIZE_def good_node_def numeral_2_eq_2)
qed

text \<open>
  C24. When a thread exits, every thread that waits for it is afterwards running or in a run queue,
  every other waiting thread still waits, its exit value is recorded in its descriptor, and its entry
  of the thread list is marked dead.
\<close>

theorem exit_wakes_joiners:
  assumes "sched_inv s L T" "threadID (nodes s (current s)) \<in> set T"
    "\<forall>t \<in> set T. tid (pthreads s t) = id_of s (current s) \<longrightarrow> t = threadID (nodes s (current s))"
  shows "\<exists>s' L'. my_pthread_exit v s = Some s' \<and> sched_inv s' L' T \<and>
    (\<forall>x \<in> set (L Join). if waits_for s x = id_of s (current s) then x = current s' \<or> (\<exists>l. x \<in> set (L' (Run l))) else x \<in> set (L' Join)) \<and>
    isDead (pthreads s' (threadID (nodes s (current s)))) = 1 \<and> exitArg (pthreads s' (threadID (nodes s (current s)))) = v"
proof -
  let ?p = "pause_timer s" and ?t = "threadID (nodes s (current s))"
  let ?s1 = "upd_node (current s) (status_update (\<lambda>_. EXITING)) ?p"
  let ?s = "unpause_timer (upd_thread ?t (exitArg_update (\<lambda>_. v)) ?s1)"
  have "sched_inv ?s1 L T" unfolding upd_status_mark using sched_inv_mark [OF sched_inv_pause [OF assms(1)], of EXITING] by (simp add: pause_timer_same)
  then have i: "sched_inv ?s L T" by (intro sched_inv_unpause sched_inv_thread)
  have e: "my_pthread_exit v s = schedule ?s"
    using assms(1) by (simp add: my_pthread_exit_def Let_def sched_inv_def runs_def pause_timer_same)
  have c: "current ?s = current s" "status (nodes ?s (current ?s)) = EXITING" by (simp_all add: unpause_timer_same upd_thread_def pause_timer_same)
  have w: "id_of ?s = id_of s" "waits_for ?s = waits_for s"
    by (auto simp: id_of_def waits_for_def fun_eq_iff unpause_timer_same upd_thread_def pause_timer_same)
  have "find (\<lambda>t. tid (pthreads ?s t) = id_of s (current s)) T = Some ?t"
  proof -
    have td: "tid (pthreads ?s t) = tid (pthreads s t)" for t by (simp add: unpause_timer_same upd_thread_def pause_timer_same)
    obtain u where u: "find (\<lambda>t. tid (pthreads s t) = id_of s (current s)) T = Some u"
      using assms(2) by (cases "find (\<lambda>t. tid (pthreads s t) = id_of s (current s)) T") (auto simp: find_None_iff id_of_def)
    then have "u \<in> set T" "tid (pthreads s u) = id_of s (current s)" by (auto simp: find_Some_iff)
    then show ?thesis using assms(3) u unfolding td by auto
  qed
  then have d: "isDead (pthreads (died (id_of s (current s)) T ?s) ?t) = 1" "exitArg (pthreads (died (id_of s (current s)) T ?s) ?t) = v"
    unfolding died_def by (simp_all add: upd_thread_def unpause_timer_same)
  obtain s' L' where s': "schedule ?s = Some s'" "sched_inv s' L' T" "pthreads s' = pthreads (died (id_of s (current s)) T ?s)"
    "\<forall>x \<in> set (L Join). if waits_for s x = id_of s (current s) then x = current s' \<or> (\<exists>l. x \<in> set (L' (Run l))) else x \<in> set (L' Join)"
    using schedule_wakes [OF i c(2)] unfolding w c(1) by blast
  show ?thesis unfolding e using s' d by (intro exI [of _ s'] exI [of _ L']) simp
qed

theorem exit_wakes_joiners_witness:
  "\<exists>s' L'. my_pthread_exit 77 (demo NEUTRAL True 2) = Some s' \<and> sched_inv s' L' [300, 200] \<and> (10 = current s' \<or> (\<exists>l. 10 \<in> set (L' (Run l)))) \<and> exitArg (pthreads s' 200) = 77"
  using exit_wakes_joiners [OF demo_inv [of 2 NEUTRAL True], of 77]
  by (auto simp: RUN_QUEUE_SIZE_def id_of_def waits_for_def)

section \<open>Joining, creating\<close>

text \<open>
  C28. What \<open>my_pthread_join\<close> does while another thread is ready: an id no thread has is an error, a
  dead thread's exit value is handed over at once, and for a live thread the caller is put on the join
  list and the invariant is kept.
\<close>

theorem join_outcomes:
  assumes "sched_inv s L T" "ready s"
  shows "case find (\<lambda>t. tid (pthreads s t) = i) T of
      None \<Rightarrow> my_pthread_join i s = Some (Returned 1 None (unpause_timer (pause_timer s)))
    | Some t \<Rightarrow>
        if isDead (pthreads s t) = 1
        then my_pthread_join i s = Some (Returned 0 (Some (exitArg (pthreads s t))) (unpause_timer (pause_timer s)))
        else \<exists>s' L'. my_pthread_join i s = Some (Waiting t s') \<and> sched_inv s' L' T \<and> L' Join = current s # L Join"
proof -
  have T: "thread_list s T" and up: "scd_up s" "current s \<noteq> NULL" using assms(1) by (simp_all add: sched_inv_def runs_def)
  note f = find_thread_ok [OF T [unfolded thread_list_def], of i] find_thread_pause [OF T, of i]
  show ?thesis
  proof (cases "find (\<lambda>t. tid (pthreads s t) = i) T")
    case None
    then show ?thesis using f up by (simp add: my_pthread_join_def Let_def pause_timer_same)
  next
    case (Some t)
    then have "t \<in> set T" by (auto simp: find_Some_iff)
    then have t: "t \<noteq> NULL" using llist_not_Null [OF T [unfolded thread_list_def]] by metis
    let ?s = "unpause_timer (upd_node (current s) (\<lambda>n. n\<lparr>status := JOINING, joinee := t\<rparr>) (pause_timer s))"
    have i: "sched_inv ?s L T" using sched_inv_unpause [OF sched_inv_mark [OF sched_inv_pause [OF assms(1)]]] t by (simp add: pause_timer_same)
    have r: "ready ?s" "status (nodes ?s (current ?s)) = JOINING" "current ?s = current s"
      using assms(2) by (simp_all add: ready_def unpause_timer_same pause_timer_same)
    have "my_pthread_join i s = (if isDead (pthreads s t) = 1 then Some (Returned 0 (Some (exitArg (pthreads s t))) (unpause_timer (pause_timer s)))
        else map_option (Waiting t) (schedule ?s))"
      using f up t Some by (simp add: my_pthread_join_def Let_def pause_timer_same map_option_case split: option.split)
    then show ?thesis using schedule_joins [OF i r(2,1)] r(3) Some by auto
  qed
qed

theorem join_outcomes_witness:
  "(\<exists>s' L'. my_pthread_join 3 (demo NEUTRAL True 2) = Some (Waiting 300 s') \<and> sched_inv s' L' [300, 200] \<and> L' Join = [20, 10]) \<and>
    my_pthread_join 9 (demo NEUTRAL True 2) = Some (Returned 1 None (unpause_timer (pause_timer (demo NEUTRAL True 2))))"
  using join_outcomes [OF demo_inv [of 2 NEUTRAL True], of 3] join_outcomes [OF demo_inv [of 2 NEUTRAL True], of 9] demo_ready [of 2 NEUTRAL True]
  by (simp add: RUN_QUEUE_SIZE_def)

text \<open>
  C40. Joining a live thread when no other thread is ready (for instance oneself): \<open>schedule\<close> comes back
  in the caller, which is then both running and on the join list, and the join reports success with
  the exit value of a thread that has not exited.
\<close>

theorem join_deadlock_reports_success:
  assumes "sched_inv s L T" "\<not> ready s" "find (\<lambda>t. tid (pthreads s t) = i) T = Some t" "isDead (pthreads s t) \<noteq> 1"
  shows "\<exists>s'. my_pthread_join i s = Some (Waiting t s') \<and> current s' = current s \<and> joinHead s' = current s \<and>
    isDead (pthreads s' t) \<noteq> 1 \<and> fst (join_resume t s') = 0"
proof -
  have T: "thread_list s T" and up: "scd_up s" "current s \<noteq> NULL" using assms(1) by (simp_all add: sched_inv_def runs_def)
  note f = find_thread_ok [OF T [unfolded thread_list_def], of i] find_thread_pause [OF T, of i]
  have "t \<in> set T" using assms(3) by (auto simp: find_Some_iff)
  then have t: "t \<noteq> NULL" using llist_not_Null [OF T [unfolded thread_list_def]] by metis
  let ?s = "unpause_timer (upd_node (current s) (\<lambda>n. n\<lparr>status := JOINING, joinee := t\<rparr>) (pause_timer s))"
  have i: "sched_inv ?s L T" using sched_inv_unpause [OF sched_inv_mark [OF sched_inv_pause [OF assms(1)]]] t by (simp add: pause_timer_same)
  have r: "\<not> ready ?s" "status (nodes ?s (current ?s)) = JOINING" "current ?s = current s" "pthreads ?s = pthreads s"
    using assms(2) by (simp_all add: ready_def unpause_timer_same pause_timer_same)
  have "my_pthread_join i s = map_option (Waiting t) (schedule ?s)"
    using f up t assms(3,4) by (simp add: my_pthread_join_def Let_def pause_timer_same map_option_case split: option.split)
  then show ?thesis using schedule_stuck [OF i r(2,1)] r(3,4) assms(4) by (auto simp: join_resume_def)
qed

theorem join_deadlock_reports_success_witness:
  "\<exists>s'. my_pthread_join 2 (demo NEUTRAL False 0) = Some (Waiting 200 s') \<and> current s' = 20 \<and> isDead (pthreads s' 200) \<noteq> 1"
  using join_deadlock_reports_success [OF demo_inv [of 0 NEUTRAL False], of 2 200] demo_ready [of 0 NEUTRAL False] by (auto simp: RUN_QUEUE_SIZE_def)

text \<open>
  Nothing resets the status \<open>JOINING\<close> of a thread that has been woken: at its next timer signal it
  is put back on the join list instead of in a run queue, whether or not the thread it waited for is
  already dead.
\<close>

theorem woken_thread_waits_again:
  assumes "sched_inv s L T" "status (nodes s (current s)) = JOINING" "ready s"
  shows "\<exists>s' L'. timerHandler s = Some s' \<and> sched_inv s' L' T \<and> L' Join = current s # L Join"
proof -
  let ?s = "s\<lparr>timer := (timer s)\<lparr>val_usec := 0\<rparr>\<rparr>"
  have "sched_inv ?s L T" using assms(1) by (rule sched_inv_cong) (simp_all add: kept_def)
  then show ?thesis using schedule_joins [of ?s L T] assms(2,3) by (simp add: timerHandler_def ready_def)
qed

theorem woken_thread_waits_again_witness:
  "\<exists>s' L'. timerHandler (demo JOINING True 0) = Some s' \<and> sched_inv s' L' [300, 200] \<and> L' Join = [20, 10]"
  using woken_thread_waits_again [OF demo_inv [of 0 JOINING True]] demo_ready [of 0 JOINING True] by (auto simp: RUN_QUEUE_SIZE_def)

text \<open>
  C29. Creating a thread at fresh addresses puts it at the rear of level 0, gives it the next id and
  keeps the invariant; the calling thread goes on running.
\<close>

theorem create_appends_thread:
  assumes "sched_inv s L T" "fresh_thread s L T thread newNode" "newCxt \<noteq> NULL" "stack \<noteq> NULL"
  shows "\<exists>s'. my_pthread_create a newCxt stack newNode thread s = Some (0, s') \<and> sched_inv s' (L(Run 0 := L (Run 0) @ [newNode])) (thread # T) \<and>
    current s' = current s \<and> id_of s' newNode = threadNum s \<and> threadNum s' = threadNum s + 1 \<and> ut (nodes s' newNode) = newCxt"
  by (rule create_inv [OF assms, of a]) (auto simp: put_def)

theorem create_appends_thread_witness:
  "\<exists>s'. my_pthread_create demo_alloc 7000 7001 40 400 (demo NEUTRAL True 0) = Some (0, s') \<and> id_of s' 40 = 4 \<and>
    sched_inv s' ((demo_layout True 0)(Run 0 := [30, 40])) [400, 300, 200]"
proof -
  have f: "fresh_thread (demo NEUTRAL True 0) (demo_layout True 0) [300, 200] 400 40" by (auto simp: fresh_thread_def demo_everyone)
  show ?thesis using create_appends_thread [OF demo_inv [of 0 NEUTRAL True] f, of 7000 7001 demo_alloc] by (auto simp: RUN_QUEUE_SIZE_def)
qed

text \<open>
  Pausing the timer twice loses it: every request to the allocator inside \<open>my_pthread_create\<close> pauses
  the paused timer again and so overwrites the saved time with zero.  When the timer has been started
  and the pause takes effect, the kernel's timer is the paused one after the call, and nothing will
  interrupt the running thread any more.
\<close>

theorem create_disarms_timer:
  assumes "sched_inv s L T" "fresh_thread s L T thread newNode" "newCxt \<noteq> NULL" "stack \<noteq> NULL"
    "timerSet s" "itimer_valid ((zero_junk s)\<lparr>val_usec := 0\<rparr>)"
  shows "\<exists>s'. my_pthread_create a newCxt stack newNode thread s = Some (0, s') \<and> ktimer s' = (zero_junk s)\<lparr>val_usec := 0\<rparr>"
  by (rule create_inv [OF assms(1-4), of a]) (use assms(5,6) in auto)

theorem create_disarms_timer_witness:
  "\<exists>s'. my_pthread_create demo_alloc 7000 7001 40 400 ((demo NEUTRAL True 0)\<lparr>timerSet := True, ktimer := no_timer\<lparr>val_usec := 5\<rparr>\<rparr>) = Some (0, s') \<and>
    ktimer s' = no_timer"
proof -
  let ?s = "(demo NEUTRAL True 0)\<lparr>timerSet := True, ktimer := no_timer\<lparr>val_usec := 5\<rparr>\<rparr>"
  have i: "sched_inv ?s (demo_layout True 0) [300, 200]"
    by (rule sched_inv_cong [OF demo_inv [of 0 NEUTRAL True]]) (simp_all add: RUN_QUEUE_SIZE_def kept_def)
  have f: "fresh_thread ?s (demo_layout True 0) [300, 200] 400 40" by (auto simp: fresh_thread_def demo_everyone)
  have z: "(zero_junk ?s)\<lparr>val_usec := 0\<rparr> = no_timer" by (simp add: demo_def boot_def no_timer_def)
  show ?thesis using create_disarms_timer [OF i f, of 7000 7001 demo_alloc] unfolding z by (auto simp: itimer_valid_def no_timer_def)
qed

lemma find_thread_self_loop:
  assumes "t \<noteq> NULL"
  shows "find_thread i p s = Some u \<Longrightarrow> \<not> (p = t \<and> tnext (pthreads s t) = t \<and> tid (pthreads s t) \<noteq> i)"
  by (rule find_thread.raw_induct [where P = "\<lambda>i p s u. \<not> (p = t \<and> tnext (pthreads s t) = t \<and> tid (pthreads s t) \<noteq> i)"])
    (use assms in \<open>auto split: if_splits\<close>)

text \<open>
  Passing the same descriptor to two creations in a row links it to itself: looking up any other
  thread then never ends.
\<close>

theorem descriptor_reuse_loops:
  assumes "addThread t s = Some s1" "addThread t s1 = Some s2" "tid (pthreads s t) \<noteq> i"
  shows "find_thread i (threadsHead s2) s2 = None"
proof -
  have t: "t \<noteq> NULL" using assms(1) by (simp add: addThread_def split: if_splits)
  then have e: "threadsHead s2 = t" "tnext (pthreads s2 t) = t" "tid (pthreads s2 t) \<noteq> i" using assms by (auto simp: addThread_def upd_thread_def)
  show ?thesis using find_thread_self_loop [OF t, of i t s2] e by (cases "find_thread i t s2") auto
qed

theorem descriptor_reuse_loops_witness:
  "find_thread 3 (threadsHead (the (addThread 200 (the (addThread 200 (demo NEUTRAL True 0)))))) (the (addThread 200 (the (addThread 200 (demo NEUTRAL True 0))))) = None"
  using descriptor_reuse_loops [of 200 "demo NEUTRAL True 0" "the (addThread 200 (demo NEUTRAL True 0))" "the (addThread 200 (the (addThread 200 (demo NEUTRAL True 0))))" 3]
  by (simp add: addThread_def)

text \<open>\<open>isQempty\<close> looks at the queue pointers, not at the queues' heads: it never reports an empty queue.\<close>

theorem isQempty_never:
  assumes "sched_inv s L T"
  shows "fst (isQempty s) = 0"
proof -
  have s: "sys s L" using assms by (auto simp: sched_inv_def qsys_def)
  have "runQ s i \<noteq> NULL" if "i < RUN_QUEUE_SIZE" for i using sys_qlist [OF s, of "Run i"] that by (simp add: qlist_def)
  then show ?thesis by (auto simp: isQempty_def Let_def unpause_timer_same pause_timer_same)
qed

theorem isQempty_never_witness: "fst (isQempty (demo NEUTRAL False 0)) = 0 \<and> demo_layout False 0 (Run 0) = []"
  using isQempty_never [OF demo_inv [of 0 NEUTRAL False]] by (simp add: RUN_QUEUE_SIZE_def)

end
