(* ===== verification/PtMutex.thy ===== *)
theory PtMutex
  imports PtQueues
begin

text \<open>
  The mutexes of \<open>my_pthread/my_pthread.c\<close>: the list of known mutexes, the spin lock with its atomic
  test-and-set, and the interleavings of threads that lock and unlock one mutex.  \<open>None\<close> is a null
  dereference or a loop that does not end.
\<close>

section \<open>Data and the list of mutexes\<close>

record mutex =
  isLocked :: int
  mutexID :: int
  isInit :: int
  mnext :: addr

text \<open>\<open>mlist_up\<close> says that \<open>mutexList\<close> is not null, \<open>mhead\<close> is its head.\<close>

record mstate =
  mutexes :: "addr \<Rightarrow> mutex"
  mlist_up :: bool
  mhead :: addr
  currMutexID :: int

definition upd_mutex :: "addr \<Rightarrow> (mutex \<Rightarrow> mutex) \<Rightarrow> mstate \<Rightarrow> mstate" where
  "upd_mutex m f s = s\<lparr>mutexes := (mutexes s)(m := f (mutexes s m))\<rparr>"

text \<open>\<open>l\<close> is what the allocation of the list returned.\<close>

definition initMutexList :: "addr \<Rightarrow> mstate \<Rightarrow> mstate option" where
  "initMutexList l s = (if mlist_up s then Some s else if l = NULL then None else Some (s\<lparr>mlist_up := True, mhead := NULL\<rparr>))"

partial_function (option) existsInMutexList_from :: "int \<Rightarrow> addr \<Rightarrow> mstate \<Rightarrow> int option" where
  "existsInMutexList_from i ptr s =
     (if ptr = NULL then Some 0
      else if mutexID (mutexes s ptr) = i then Some 1
      else existsInMutexList_from i (mnext (mutexes s ptr)) s)"

definition existsInMutexList :: "int \<Rightarrow> mstate \<Rightarrow> int option" where
  "existsInMutexList i s = (if mlist_up s then existsInMutexList_from i (mhead s) s else None)"

definition insertToMutexList :: "addr \<Rightarrow> mstate \<Rightarrow> mstate option" where
  "insertToMutexList m s =
     (if m = NULL \<or> \<not> mlist_up s then None
      else Some ((upd_mutex m (mnext_update (\<lambda>_. mhead s)) s)\<lparr>mhead := m\<rparr>))"

partial_function (option) removeFromMutexList_from :: "int \<Rightarrow> addr \<Rightarrow> addr \<Rightarrow> mstate \<Rightarrow> (addr \<times> mstate) option" where
  "removeFromMutexList_from i prev ptr s =
     (if ptr = NULL then Some (NULL, s)
      else if mutexID (mutexes s ptr) \<noteq> i then removeFromMutexList_from i ptr (mnext (mutexes s ptr)) s
      else if prev = NULL then Some (ptr, s\<lparr>mhead := mnext (mutexes s ptr)\<rparr>)
      else Some (ptr, upd_mutex prev (mnext_update (\<lambda>_. mnext (mutexes s ptr))) s))"

definition removeFromMutexList :: "int \<Rightarrow> mstate \<Rightarrow> (addr \<times> mstate) option" where
  "removeFromMutexList i s = (if mlist_up s then removeFromMutexList_from i NULL (mhead s) s else None)"

section \<open>The operations\<close>

text \<open>The block \<open>my_pthread_mutex_init\<close> allocates is dropped at once; only the mutex passed in is used.\<close>

definition my_pthread_mutex_init :: "addr \<Rightarrow> addr \<Rightarrow> mstate \<Rightarrow> (int \<times> mstate) option" where
  "my_pthread_mutex_init l m s =
     (case initMutexList l s of
        None \<Rightarrow> None
      | Some s \<Rightarrow>
          if m = NULL then None
          else let s = s\<lparr>currMutexID := currMutexID s + 1\<rparr>;
                   s = upd_mutex m (\<lambda>x. x\<lparr>mutexID := currMutexID s, isInit := 1, mnext := NULL, isLocked := 0\<rparr>) s
               in map_option (\<lambda>s. (0, s)) (insertToMutexList m s))"

text \<open>\<open>mutex->isInit != 1 && existsInMutexList(mutex->mutexID)\<close>: the right operand only runs when the left is true.\<close>

definition lock_refused :: "addr \<Rightarrow> mstate \<Rightarrow> bool option" where
  "lock_refused m s =
     (if m = NULL then None
      else if isInit (mutexes s m) \<noteq> 1 then map_option (\<lambda>r. r \<noteq> 0) (existsInMutexList (mutexID (mutexes s m)) s)
      else Some False)"

text \<open>\<open>__sync_lock_test_and_set(&(mutex->isLocked), 1)\<close>: the old value, and the lock taken.\<close>

definition test_and_set :: "addr \<Rightarrow> mstate \<Rightarrow> int \<times> mstate" where
  "test_and_set m s = (isLocked (mutexes s m), upd_mutex m (isLocked_update (\<lambda>_. 1)) s)"

text \<open>
  Where a thread is between two accesses to the lock: in neither call, in the loop of
  \<open>my_pthread_mutex_lock\<close>, back from it with 0, or between the two stores of \<open>my_pthread_mutex_unlock\<close>.
\<close>

datatype mpc = Outside | Spinning | Inside | Halfway

text \<open>One evaluation of the condition of \<open>while(__sync_lock_test_and_set(...))\<close>.\<close>

definition lock_turn :: "addr \<Rightarrow> mstate \<Rightarrow> mpc \<times> mstate" where
  "lock_turn m s = (case test_and_set m s of (old, s) \<Rightarrow> (if old \<noteq> 0 then Spinning else Inside, s))"

text \<open>\<open>my_pthread_mutex_unlock\<close> clears the lock twice: with \<open>__sync_lock_release\<close> and with a plain store.\<close>

definition lock_release :: "addr \<Rightarrow> mstate \<Rightarrow> mstate" where
  "lock_release m s = upd_mutex m (isLocked_update (\<lambda>_. 0)) s"

definition clear_lock :: "addr \<Rightarrow> mstate \<Rightarrow> mstate" where
  "clear_lock m s = upd_mutex m (isLocked_update (\<lambda>_. 0)) s"

text \<open>
  The code of the two calls, from one access to the lock to the next: \<open>my_pthread_mutex_lock\<close> starts at
  \<open>Outside\<close>, where its guard may send it back with -1, \<open>my_pthread_mutex_unlock\<close> at \<open>Inside\<close>.
\<close>

definition mx_next :: "addr \<Rightarrow> mpc \<Rightarrow> mstate \<Rightarrow> (mpc \<times> mstate) option" where
  "mx_next m pc s =
     (if m = NULL then None
      else case pc of
        Outside \<Rightarrow> map_option (\<lambda>b. (if b then Outside else Spinning, s)) (lock_refused m s)
      | Spinning \<Rightarrow> Some (lock_turn m s)
      | Inside \<Rightarrow> Some (Halfway, lock_release m s)
      | Halfway \<Rightarrow> Some (Outside, clear_lock m s))"

text \<open>The two calls of a thread that is not interrupted.\<close>

partial_function (option) spin :: "addr \<Rightarrow> mstate \<Rightarrow> mstate option" where
  "spin m s =
     (case mx_next m Spinning s of
        None \<Rightarrow> None
      | Some (pc, s) \<Rightarrow> if pc = Spinning then spin m s else Some s)"

definition my_pthread_mutex_lock :: "addr \<Rightarrow> mstate \<Rightarrow> (int \<times> mstate) option" where
  "my_pthread_mutex_lock m s =
     (case mx_next m Outside s of
        None \<Rightarrow> None
      | Some (pc, s) \<Rightarrow> if pc = Outside then Some (- 1, s) else map_option (\<lambda>s. (0, s)) (spin m s))"

definition my_pthread_mutex_unlock :: "addr \<Rightarrow> mstate \<Rightarrow> (int \<times> mstate) option" where
  "my_pthread_mutex_unlock m s =
     (case mx_next m Inside s of
        None \<Rightarrow> None
      | Some (pc, s) \<Rightarrow> map_option (\<lambda>(_, s). (0, s)) (mx_next m pc s))"

definition my_pthread_mutex_destroy :: "addr \<Rightarrow> mstate \<Rightarrow> (int \<times> mstate) option" where
  "my_pthread_mutex_destroy m s =
     (if m = NULL then None
      else case removeFromMutexList (mutexID (mutexes s m)) s of
        None \<Rightarrow> None
      | Some (p, s) \<Rightarrow>
          if p = NULL then Some (- 1, s)
          else Some (0, upd_mutex p (\<lambda>x. x\<lparr>isLocked := 0, mnext := NULL, mutexID := - 1, isInit := 0\<rparr>) s))"

section \<open>The list\<close>

text \<open>\<open>mlist s M\<close>: the known mutexes are \<open>M\<close>, with different ids, none of them above the counter.\<close>

abbreviation mx_of :: "mstate \<Rightarrow> addr \<Rightarrow> addr" where
  "mx_of s \<equiv> \<lambda>p. mnext (mutexes s p)"

definition mlist :: "mstate \<Rightarrow> addr list \<Rightarrow> bool" where
  "mlist s M \<longleftrightarrow> mlist_up s \<and> llist (mx_of s) (mhead s) M \<and> distinct M \<and>
     inj_on (\<lambda>m. mutexID (mutexes s m)) (set M) \<and> 0 \<le> currMutexID s \<and>
     (\<forall>m \<in> set M. 0 < mutexID (mutexes s m) \<and> mutexID (mutexes s m) \<le> currMutexID s \<and> isInit (mutexes s m) = 1)"

lemma upd_mutex_simps [simp]:
  "mutexes (upd_mutex m f s) = (mutexes s)(m := f (mutexes s m))" "mlist_up (upd_mutex m f s) = mlist_up s"
  "mhead (upd_mutex m f s) = mhead s" "currMutexID (upd_mutex m f s) = currMutexID s"
  by (simp_all add: upd_mutex_def)

lemma existsInMutexList_from_ok:
  "llist (mx_of s) p M \<Longrightarrow> existsInMutexList_from i p s = Some (if \<exists>m \<in> set M. mutexID (mutexes s m) = i then 1 else 0)"
  by (induction M arbitrary: p; subst existsInMutexList_from.simps) auto

lemma existsInMutexList_ok: "mlist s M \<Longrightarrow> existsInMutexList i s = Some (if \<exists>m \<in> set M. mutexID (mutexes s m) = i then 1 else 0)"
  by (simp add: existsInMutexList_def mlist_def existsInMutexList_from_ok)

lemma removeFromMutexList_from_none:
  "llist (mx_of s) p M \<Longrightarrow> \<forall>m \<in> set M. mutexID (mutexes s m) \<noteq> i \<Longrightarrow> removeFromMutexList_from i prev p s = Some (NULL, s)"
  by (induction M arbitrary: p prev; subst removeFromMutexList_from.simps) auto

lemma removeFromMutexList_from_some:
  assumes "llist (mx_of s) p (zs @ y # ys)" "\<forall>z \<in> set zs. mutexID (mutexes s z) \<noteq> i" "mutexID (mutexes s y) = i"
  shows "removeFromMutexList_from i prev p s =
    (let q = (if zs = [] then prev else last zs)
     in Some (y, if q = NULL then s\<lparr>mhead := mnext (mutexes s y)\<rparr> else upd_mutex q (mnext_update (\<lambda>_. mnext (mutexes s y))) s))"
  using assms
proof (induction zs arbitrary: p prev)
  case Nil
  then show ?case by (subst removeFromMutexList_from.simps) (auto simp: Let_def)
next
  case (Cons z zs)
  then have "removeFromMutexList_from i prev p s = removeFromMutexList_from i z (mnext (mutexes s z)) s"
    by (subst removeFromMutexList_from.simps) auto
  then show ?case using Cons by (auto simp: Let_def)
qed

lemma mlist_split:
  assumes "mlist s M" "m \<in> set M"
  obtains xs ys where "M = xs @ m # ys" "\<forall>z \<in> set xs. mutexID (mutexes s z) \<noteq> mutexID (mutexes s m)"
proof -
  obtain xs ys where M: "M = xs @ m # ys" using split_list [OF assms(2)] by blast
  have "mutexID (mutexes s z) \<noteq> mutexID (mutexes s m)" if "z \<in> set xs" for z
    using assms(1) that unfolding mlist_def M inj_on_def by auto
  then show thesis using M that by blast
qed

lemma mutex_init_ok:
  assumes M: "mlist s M" and m: "m \<noteq> NULL" "m \<notin> set M"
  obtains s' where "my_pthread_mutex_init l m s = Some (0, s')" "mlist s' (m # M)" "mutexID (mutexes s' m) = currMutexID s + 1"
    "isLocked (mutexes s' m) = 0" "isInit (mutexes s' m) = 1" "\<And>x. x \<noteq> m \<Longrightarrow> mutexes s' x = mutexes s x"
proof -
  let ?x = "(mutexes s m)\<lparr>mutexID := currMutexID s + 1, isInit := 1, isLocked := 0, mnext := mhead s\<rparr>"
  let ?s = "s\<lparr>currMutexID := currMutexID s + 1, mutexes := (mutexes s)(m := ?x), mhead := m\<rparr>"
  have up: "mlist_up s" using M by (simp add: mlist_def)
  have run: "my_pthread_mutex_init l m s = Some (0, ?s)"
    using up m(1) by (simp add: my_pthread_mutex_init_def initMutexList_def insertToMutexList_def upd_mutex_def Let_def)
  have "llist (mx_of ?s) (mhead s) M = llist (mx_of s) (mhead s) M" using m(2) by (intro llist_cong) auto
  moreover have "inj_on (\<lambda>x. mutexID (mutexes ?s x)) (insert m (set M))"
  proof (rule inj_on_new [where f = "\<lambda>x. mutexID (mutexes s x)" and n = "currMutexID s + 1"])
    show "mutexID (mutexes ?s x) = mutexID (mutexes s x)" if "x \<in> set M" for x using that m(2) by auto
    show "mutexID (mutexes s x) < currMutexID s + 1" if "x \<in> set M" for x using that M by (simp add: mlist_def zless_add1_eq le_less)
  qed (use M in \<open>simp_all add: mlist_def\<close>)
  ultimately have "mlist ?s (m # M)" using M m by (auto simp: mlist_def)
  then show thesis using run by (intro that [of ?s]) auto
qed

lemma mutex_destroy_ok:
  assumes M: "mlist s M" and m: "m \<in> set M"
  obtains s' where "my_pthread_mutex_destroy m s = Some (0, s')" "mlist s' (remove1 m M)" "isInit (mutexes s' m) = 0" "mutexID (mutexes s' m) = - 1"
    "isLocked (mutexes s' m) = 0" "\<And>x. x \<noteq> m \<Longrightarrow> mutexes s' x = (mutexes s x)\<lparr>mnext := mnext (mutexes s' x)\<rparr>" "currMutexID s' = currMutexID s"
proof -
  obtain xs ys where e: "M = xs @ m # ys" "\<forall>z \<in> set xs. mutexID (mutexes s z) \<noteq> mutexID (mutexes s m)" by (rule mlist_split [OF M m])
  have ll: "llist (mx_of s) (mhead s) (xs @ m # ys)" and d: "distinct (xs @ m # ys)" and up: "mlist_up s" using M e by (auto simp: mlist_def)
  have nn: "NULL \<notin> set (xs @ m # ys)" using llist_not_Null [OF ll] .
  have l0: "last xs \<noteq> NULL" "last xs \<noteq> m" if "xs \<noteq> []"
  proof -
    have "last xs \<in> set xs" "set xs \<subseteq> set (xs @ m # ys)" using that by auto
    then show "last xs \<noteq> NULL" "last xs \<noteq> m" using nn d by (metis subsetD, auto)
  qed
  let ?d = "\<lambda>x. x\<lparr>isLocked := 0, mnext := NULL, mutexID := - 1, isInit := 0\<rparr>"
  let ?s1 = "if xs = [] then s\<lparr>mhead := mnext (mutexes s m)\<rparr> else upd_mutex (last xs) (mnext_update (\<lambda>_. mnext (mutexes s m))) s"
  let ?s = "upd_mutex m ?d ?s1"
  have "removeFromMutexList (mutexID (mutexes s m)) s = Some (m, ?s1)"
    using removeFromMutexList_from_some [OF ll e(2) refl, of NULL] up l0 by (auto simp: removeFromMutexList_def Let_def)
  then have run: "my_pthread_mutex_destroy m s = Some (0, ?s)" using nn by (simp add: my_pthread_mutex_destroy_def)
  have nx: "mx_of ?s = (\<lambda>x. if x = m then NULL else if xs \<noteq> [] \<and> x = last xs then mnext (mutexes s m) else mnext (mutexes s x))"
    using l0 by (auto simp: fun_eq_iff)
  have h: "mhead ?s = (if xs = [] then mnext (mutexes s m) else mhead s)" by simp
  have "llist (mx_of ?s) (mhead ?s) (xs @ ys)" unfolding nx h by (rule llist_delete [OF ll d])
  moreover have same: "mutexID (mutexes ?s x) = mutexID (mutexes s x)" "isInit (mutexes ?s x) = isInit (mutexes s x)" if "x \<noteq> m" for x using that by auto
  moreover have "inj_on (\<lambda>x. mutexID (mutexes ?s x)) (set (xs @ ys))"
  proof -
    have "inj_on (\<lambda>x. mutexID (mutexes s x)) (set (xs @ ys))" using M e by (auto simp: mlist_def inj_on_def)
    moreover have "mutexID (mutexes ?s x) = mutexID (mutexes s x)" if "x \<in> set (xs @ ys)" for x using same(1) that d by auto
    ultimately show ?thesis using inj_on_cong [of "set (xs @ ys)" "\<lambda>x. mutexID (mutexes ?s x)" "\<lambda>x. mutexID (mutexes s x)"] by blast
  qed
  moreover have "\<forall>x \<in> set (xs @ ys). 0 < mutexID (mutexes ?s x) \<and> mutexID (mutexes ?s x) \<le> currMutexID s \<and> isInit (mutexes ?s x) = 1"
  proof
    fix x assume x: "x \<in> set (xs @ ys)"
    then have "x \<noteq> m" using d by auto
    then show "0 < mutexID (mutexes ?s x) \<and> mutexID (mutexes ?s x) \<le> currMutexID s \<and> isInit (mutexes ?s x) = 1"
      using same [of x] x M e by (auto simp: mlist_def)
  qed
  moreover have "currMutexID ?s = currMutexID s" "mlist_up ?s" using up by simp_all
  moreover have "0 \<le> currMutexID s" using M by (simp add: mlist_def)
  ultimately have "mlist ?s (xs @ ys)" using d unfolding mlist_def by simp
  moreover have "remove1 m M = xs @ ys" using e d by (simp add: remove1_append)
  ultimately show thesis using run by (intro that [of ?s]) auto
qed

section \<open>One thread\<close>

lemma spin_free: "m \<noteq> NULL \<Longrightarrow> isLocked (mutexes s m) = 0 \<Longrightarrow> spin m s = Some (upd_mutex m (isLocked_update (\<lambda>_. 1)) s)"
  by (subst spin.simps) (simp add: mx_next_def lock_turn_def test_and_set_def)

lemma spin_locked: "spin m s = Some s' \<Longrightarrow> isLocked (mutexes s m) = 0"
proof (rule spin.raw_induct [where P = "\<lambda>m s s'. isLocked (mutexes s m) = 0"])
  fix f m s s'
  assume ih: "\<And>m s s'. f m s = Some s' \<Longrightarrow> isLocked (mutexes s m) = 0"
    and run: "(case mx_next m Spinning s of None \<Rightarrow> None | Some (pc, s) \<Rightarrow> if pc = Spinning then f m s else Some s) = Some s'"
  show "isLocked (mutexes s m) = 0"
  proof (rule ccontr)
    assume "isLocked (mutexes s m) \<noteq> 0"
    then have "f m (upd_mutex m (isLocked_update (\<lambda>_. 1)) s) = Some s'" using run by (simp add: mx_next_def lock_turn_def test_and_set_def split: if_split_asm)
    from ih [OF this] show False by simp
  qed
qed

section \<open>Many threads\<close>

text \<open>
  Threads run the code \<open>nxt\<close> on a shared state, one step of one thread at a time.  With \<open>b\<close> they are
  disciplined: only a thread that holds the lock unlocks it, and no thread runs while another is
  between the two stores of its unlock call.  The code asks for neither: without \<open>b\<close>, \<open>stray\<close> is an unlock call by a
  thread that does not hold the lock.
\<close>

inductive mx_reach :: "bool \<Rightarrow> (mpc \<Rightarrow> 's \<Rightarrow> (mpc \<times> 's) option) \<Rightarrow> 's \<Rightarrow> 's \<times> (nat \<Rightarrow> mpc) \<Rightarrow> bool"
  for b nxt s0 where
  start: "mx_reach b nxt s0 (s0, \<lambda>_. Outside)"
| step: "mx_reach b nxt s0 (s, pc) \<Longrightarrow> nxt (pc t) s = Some (c, s') \<Longrightarrow> (b \<Longrightarrow> \<forall>u. pc u = Halfway \<longrightarrow> u = t) \<Longrightarrow> mx_reach b nxt s0 (s', pc(t := c))"
| stray: "mx_reach b nxt s0 (s, pc) \<Longrightarrow> \<not> b \<Longrightarrow> pc t = Outside \<Longrightarrow> nxt Inside s = Some (c, s') \<Longrightarrow> mx_reach b nxt s0 (s', pc(t := c))"

text \<open>What the exclusion needs of the code: \<open>val\<close> is the value of the lock.\<close>

locale lock_cell =
  fixes val :: "'s \<Rightarrow> int" and nxt :: "mpc \<Rightarrow> 's \<Rightarrow> (mpc \<times> 's) option"
  assumes out: "nxt Outside s = Some (c, s') \<Longrightarrow> val s' = val s \<and> (c = Outside \<or> c = Spinning)"
    and turn: "nxt Spinning s = Some (c, s') \<Longrightarrow> val s' \<noteq> 0 \<and> c = (if val s = 0 then Inside else Spinning)"
    and rel: "nxt Inside s = Some (c, s') \<Longrightarrow> val s' = 0 \<and> c = Halfway"
    and clr: "nxt Halfway s = Some (c, s') \<Longrightarrow> val s' = 0 \<and> c = Outside"
begin

definition excl :: "'s \<times> (nat \<Rightarrow> mpc) \<Rightarrow> bool" where
  "excl cfg \<longleftrightarrow> (\<forall>t u. (snd cfg t = Inside \<or> snd cfg t = Halfway) \<and> (snd cfg u = Inside \<or> snd cfg u = Halfway) \<longrightarrow> t = u) \<and>
     (\<forall>t. snd cfg t = Inside \<longrightarrow> val (fst cfg) \<noteq> 0)"

lemma excl_reach: "mx_reach True nxt s0 cfg \<Longrightarrow> excl cfg"
proof (induction rule: mx_reach.induct)
  case start
  then show ?case by (simp add: excl_def)
next
  case (step s pc t c s')
  have u: "t = u" if "pc t = Inside \<or> pc t = Halfway" "pc u = Inside \<or> pc u = Halfway" for t u using step.IH that unfolding excl_def by auto
  have v: "val s \<noteq> 0" if "pc t = Inside" for t using step.IH that unfolding excl_def by auto
  have h: "u = t" if "pc u = Halfway" for u using step.hyps(3) that by simp
  show ?case
  proof (cases "pc t")
    case Outside
    then show ?thesis using u v out [of s c s'] step.hyps(2) by (auto simp: excl_def)
  next
    case Spinning
    have t: "val s' \<noteq> 0" "c = (if val s = 0 then Inside else Spinning)" using turn [of s c s'] step.hyps(2) Spinning by auto
    show ?thesis
    proof (cases "val s = 0")
      case True
      then have "pc x \<noteq> Inside \<and> pc x \<noteq> Halfway" for x using v [of x] h [of x] Spinning by auto
      then show ?thesis using t True by (auto simp: excl_def)
    next
      case False
      then show ?thesis using t u Spinning by (auto simp: excl_def)
    qed
  next
    case Inside
    have "pc x \<noteq> Inside" if "x \<noteq> t" for x using u [of x t] Inside that by auto
    then show ?thesis using rel [of s c s'] step.hyps(2) Inside u by (auto simp: excl_def)
  next
    case Halfway
    have "pc x \<noteq> Inside \<and> pc x \<noteq> Halfway" if "x \<noteq> t" for x using u [of x t] Halfway that by auto
    then show ?thesis using clr [of s c s'] step.hyps(2) Halfway by (auto simp: excl_def)
  qed
qed simp

end

interpretation mx: lock_cell "\<lambda>s. isLocked (mutexes s m)" "mx_next m" for m
  by unfold_locales (auto simp: mx_next_def lock_turn_def test_and_set_def lock_release_def clear_lock_def split: if_split_asm)

section \<open>Properties\<close>

text \<open>An initialised mutex at address 8, alone on the list.\<close>

definition demo_mutex :: "int \<Rightarrow> mstate" where
  "demo_mutex v = \<lparr>mutexes = (\<lambda>_. \<lparr>isLocked = v, mutexID = 1, isInit = 1, mnext = NULL\<rparr>), mlist_up = True, mhead = 8, currMutexID = 1\<rparr>"

lemma demo_mlist: "mlist (demo_mutex v) [8]"
  by (simp add: mlist_def demo_mutex_def)

text \<open>The guard of the lock call lets an initialised mutex through.\<close>

lemma lock_refused_init: "m \<noteq> NULL \<Longrightarrow> isInit (mutexes s m) = 1 \<Longrightarrow> lock_refused m s = Some False"
  by (simp add: lock_refused_def)

lemma mx_next_simps:
  "m \<noteq> NULL \<Longrightarrow> isInit (mutexes s m) = 1 \<Longrightarrow> mx_next m Outside s = Some (Spinning, s)"
  "m \<noteq> NULL \<Longrightarrow> mx_next m Spinning s = Some (if isLocked (mutexes s m) \<noteq> 0 then Spinning else Inside, upd_mutex m (isLocked_update (\<lambda>_. 1)) s)"
  "m \<noteq> NULL \<Longrightarrow> mx_next m Inside s = Some (Halfway, upd_mutex m (isLocked_update (\<lambda>_. 0)) s)"
  "m \<noteq> NULL \<Longrightarrow> mx_next m Halfway s = Some (Outside, upd_mutex m (isLocked_update (\<lambda>_. 0)) s)"
  by (simp_all add: mx_next_def lock_refused_init lock_turn_def test_and_set_def lock_release_def clear_lock_def)

text \<open>
  C20. Mutual exclusion: however the threads that lock and unlock a mutex are interleaved, while one
  is back from its lock call with 0 and has not unlocked, the lock is taken and no other thread is, provided that
  threads only unlock what they hold and that none is preempted between the two stores of its unlock call.  The code
  checks neither.
\<close>

theorem mutex_exclusion:
  assumes "mx_reach True (mx_next m) s0 (s, pc)" "pc t = Inside"
  shows "isLocked (mutexes s m) \<noteq> 0 \<and> (\<forall>u. pc u = Inside \<or> pc u = Halfway \<longrightarrow> u = t)"
  using mx.excl_reach [OF assms(1)] assms(2) unfolding mx.excl_def by auto

text \<open>Thread 0 takes the lock, thread 1 spins in vain, thread 0 unlocks, and thread 1 gets the lock.\<close>

lemma demo_handover:
  "mx_reach True (mx_next 8) (demo_mutex 0) (upd_mutex 8 (isLocked_update (\<lambda>_. 1)) (demo_mutex 0), (\<lambda>_. Outside)(0 := Inside, 1 := Spinning))"
  "mx_reach True (mx_next 8) (demo_mutex 0) (upd_mutex 8 (isLocked_update (\<lambda>_. 1)) (demo_mutex 0), (\<lambda>_. Outside)(1 := Inside))"
proof -
  let ?r = "mx_reach True (mx_next 8) (demo_mutex 0)" and ?o = "\<lambda>_. Outside" and ?u = "\<lambda>i. upd_mutex 8 (isLocked_update (\<lambda>_. i)) (demo_mutex 0)"
  have z: "?u 0 = demo_mutex 0" by (simp add: upd_mutex_def demo_mutex_def fun_upd_idem)
  have uu: "upd_mutex 8 (isLocked_update (\<lambda>_. i)) (?u j) = ?u i" for i j by (simp add: upd_mutex_def)
  have i: "isInit (mutexes (demo_mutex 0) 8) = 1" "isLocked (mutexes (demo_mutex 0) 8) = 0" by (simp_all add: demo_mutex_def)
  note n = mx_next_simps [of 8, simplified]
  have "?r (demo_mutex 0, ?o(0 := Spinning))" using mx_reach.step [OF mx_reach.start [of True "mx_next 8" "demo_mutex 0"], where t = 0 and c = Spinning and s' = "demo_mutex 0"] n(1) i by simp
  from mx_reach.step [OF this, of 1 Spinning "demo_mutex 0"] have "?r (demo_mutex 0, ?o(0 := Spinning, 1 := Spinning))" using n(1) i by simp
  from mx_reach.step [OF this, of 0 Inside "?u 1"] have "?r (?u 1, ?o(0 := Spinning, 1 := Spinning, 0 := Inside))" using n(2) i by simp
  then have "?r (?u 1, ?o(0 := Inside, 1 := Spinning))" by (simp add: fun_upd_twist)
  from mx_reach.step [OF this, of 1 Spinning "?u 1"] show r: "?r (?u 1, ?o(0 := Inside, 1 := Spinning))" using n(2) uu by simp
  from mx_reach.step [OF r, of 0 Halfway "?u 0"] have "?r (?u 0, ?o(0 := Inside, 1 := Spinning, 0 := Halfway))" using n(3) uu by simp
  from mx_reach.step [OF this, of 0 Outside "?u 0"] have "?r (demo_mutex 0, ?o(0 := Inside, 1 := Spinning, 0 := Halfway, 0 := Outside))" using n(4) uu z by (simp split: if_split_asm)
  from mx_reach.step [OF this, of 1 Inside "?u 1"] have "?r (?u 1, ?o(0 := Inside, 1 := Spinning, 0 := Halfway, 0 := Outside, 1 := Inside))" using n(2) i by simp
  moreover have "?o(0 := Inside, 1 := Spinning, 0 := Halfway, 0 := Outside, 1 := Inside) = ?o(1 := Inside)" by (simp add: fun_eq_iff)
  ultimately show "?r (?u 1, ?o(1 := Inside))" by metis
qed

theorem mutex_exclusion_witness:
  "(\<exists>s pc. mx_reach True (mx_next 8) (demo_mutex 0) (s, pc) \<and> pc 0 = Inside \<and> pc 1 = Spinning \<and> isLocked (mutexes s 8) \<noteq> 0 \<and> (\<forall>u. pc u = Inside \<or> pc u = Halfway \<longrightarrow> u = 0)) \<and>
   (\<exists>s pc. mx_reach True (mx_next 8) (demo_mutex 0) (s, pc) \<and> pc 1 = Inside \<and> isLocked (mutexes s 8) \<noteq> 0 \<and> (\<forall>u. pc u = Inside \<or> pc u = Halfway \<longrightarrow> u = 1))"
proof -
  let ?p = "(\<lambda>_. Outside)(0 := Inside, 1 := Spinning) :: nat \<Rightarrow> mpc" and ?q = "(\<lambda>_. Outside)(1 := Inside) :: nat \<Rightarrow> mpc"
  have p: "?p 0 = Inside" "?p 1 = Spinning" "?q 1 = Inside" by simp_all
  show ?thesis using mutex_exclusion [OF demo_handover(1) p(1)] mutex_exclusion [OF demo_handover(2) p(3)] demo_handover p by blast
qed

text \<open>
  Preempted between those two stores, the unlock call opens the lock a second time: then two other
  threads hold the mutex at once.
\<close>

theorem mutex_exclusion_lost:
  assumes "isLocked (mutexes s m) = 0" "isInit (mutexes s m) = 1" "m \<noteq> NULL"
  shows "\<exists>s' pc. mx_reach False (mx_next m) s (s', pc) \<and> pc 1 = Inside \<and> pc 2 = Inside"
proof -
  let ?r = "mx_reach False (mx_next m) s" and ?o = "(\<lambda>_. Outside) :: nat \<Rightarrow> mpc" and ?u = "\<lambda>i. upd_mutex m (isLocked_update (\<lambda>_. i)) s"
  let ?p = "?o(0 := Spinning, 1 := Spinning, 2 := Spinning)"
  have uu: "upd_mutex m (isLocked_update (\<lambda>_. i)) (?u j) = ?u i" for i j by (simp add: upd_mutex_def)
  note n = mx_next_simps [OF assms(3)] and st = mx_reach.step [where b = False, simplified]
  have "?r (s, ?o(0 := Spinning))" using st [OF mx_reach.start [of False "mx_next m" s], where t = 0 and c = Spinning and s' = s] n(1) assms by simp
  from st [OF this, of 1 Spinning s] have "?r (s, ?o(0 := Spinning, 1 := Spinning))" using n(1) assms by simp
  from st [OF this, of 2 Spinning s] have "?r (s, ?p)" using n(1) assms by simp
  from st [OF this, of 0 Inside "?u 1"] have "?r (?u 1, ?p(0 := Inside))" using n(2) assms by simp
  from st [OF this, of 0 Halfway "?u 0"] have "?r (?u 0, ?p(0 := Inside, 0 := Halfway))" using n(3) uu by simp
  from st [OF this, of 1 Inside "?u 1"] have "?r (?u 1, ?p(0 := Inside, 0 := Halfway, 1 := Inside))" using n(2) uu by simp
  from st [OF this, of 0 Outside "?u 0"] have "?r (?u 0, ?p(0 := Inside, 0 := Halfway, 1 := Inside, 0 := Outside))" using n(4) uu by simp
  from st [OF this, of 2 Inside "?u 1"] have "?r (?u 1, ?p(0 := Inside, 0 := Halfway, 1 := Inside, 0 := Outside, 2 := Inside))" using n(2) uu by simp
  then show ?thesis by (intro exI [of _ "?u 1"] exI [of _ "?p(0 := Inside, 0 := Halfway, 1 := Inside, 0 := Outside, 2 := Inside)"]) simp
qed

theorem mutex_exclusion_lost_witness:
  "\<exists>s' pc. mx_reach False (mx_next 8) (demo_mutex 0) (s', pc) \<and> pc 1 = Inside \<and> pc 2 = Inside"
  using mutex_exclusion_lost [of "demo_mutex 0" 8] by (simp add: demo_mutex_def)

text \<open>
  Initialising a mutex that is not on the list puts it there with a new id, unlocked; destroying it
  takes it off again, and the list is the one before.
\<close>

theorem mutex_init_destroy:
  assumes "mlist s M" "m \<noteq> NULL" "m \<notin> set M"
  shows "\<exists>s1 s2. my_pthread_mutex_init l m s = Some (0, s1) \<and> mlist s1 (m # M) \<and> mutexID (mutexes s1 m) = currMutexID s + 1 \<and>
    isLocked (mutexes s1 m) = 0 \<and> my_pthread_mutex_destroy m s1 = Some (0, s2) \<and> mlist s2 M \<and> isInit (mutexes s2 m) = 0"
proof -
  obtain s1 where s1: "my_pthread_mutex_init l m s = Some (0, s1)" "mlist s1 (m # M)" "mutexID (mutexes s1 m) = currMutexID s + 1"
    "isLocked (mutexes s1 m) = 0" by (rule mutex_init_ok [OF assms]) (rule that)
  have m: "m \<in> set (m # M)" by simp
  obtain s2 where "my_pthread_mutex_destroy m s1 = Some (0, s2)" "mlist s2 (remove1 m (m # M))" "isInit (mutexes s2 m) = 0"
    by (rule mutex_destroy_ok [OF s1(2) m]) (rule that)
  then show ?thesis using s1 by auto
qed

theorem mutex_init_destroy_witness:
  "\<exists>s1 s2. my_pthread_mutex_init 0 24 (demo_mutex 0) = Some (0, s1) \<and> mlist s1 [24, 8] \<and> my_pthread_mutex_destroy 24 s1 = Some (0, s2) \<and> mlist s2 [8]"
  using mutex_init_destroy [OF demo_mlist [of 0], of 24 0] by auto

text \<open>
  A single thread: locking a free mutex returns 0 with the mutex locked and unlocking returns it to
  free; locking a mutex that is already locked never returns.
\<close>

theorem mutex_lock_unlock:
  assumes "m \<noteq> NULL" "isInit (mutexes s m) = 1"
  shows "if isLocked (mutexes s m) = 0
    then \<exists>s1. my_pthread_mutex_lock m s = Some (0, s1) \<and> isLocked (mutexes s1 m) = 1 \<and> my_pthread_mutex_unlock m s1 = Some (0, s)
    else my_pthread_mutex_lock m s = None"
proof (cases "isLocked (mutexes s m) = 0")
  case True
  then have l: "my_pthread_mutex_lock m s = Some (0, upd_mutex m (isLocked_update (\<lambda>_. 1)) s)"
    using assms spin_free by (simp add: my_pthread_mutex_lock_def mx_next_def lock_refused_init)
  have "(mutexes s)(m := (mutexes s m)\<lparr>isLocked := 0\<rparr>) = mutexes s" using True by (simp add: fun_upd_idem_iff)
  then have "clear_lock m (lock_release m (upd_mutex m (isLocked_update (\<lambda>_. 1)) s)) = s"
    by (simp add: clear_lock_def lock_release_def upd_mutex_def)
  then show ?thesis using l True assms(1) by (simp add: my_pthread_mutex_unlock_def mx_next_def)
next
  case False
  then have "spin m s = None" using spin_locked [of m s] by (cases "spin m s") auto
  then show ?thesis using False assms by (simp add: my_pthread_mutex_lock_def mx_next_def lock_refused_init)
qed

theorem mutex_lock_unlock_witness:
  "(\<exists>s1. my_pthread_mutex_lock 8 (demo_mutex 0) = Some (0, s1) \<and> my_pthread_mutex_unlock 8 s1 = Some (0, demo_mutex 0)) \<and>
    my_pthread_mutex_lock 8 (demo_mutex 1) = None"
  using mutex_lock_unlock [of 8 "demo_mutex 0"] mutex_lock_unlock [of 8 "demo_mutex 1"] by (auto simp: demo_mutex_def)

text \<open>
  The guard of the lock call refuses a mutex only if it is marked uninitialised and still on the
  list: a destroyed mutex is locked without complaint.
\<close>

theorem destroyed_mutex_is_locked:
  assumes "mlist s M" "m \<in> set M"
  shows "\<exists>s1 s2. my_pthread_mutex_destroy m s = Some (0, s1) \<and> isInit (mutexes s1 m) = 0 \<and>
    my_pthread_mutex_lock m s1 = Some (0, s2) \<and> isLocked (mutexes s2 m) = 1"
proof -
  obtain s1 where s1: "my_pthread_mutex_destroy m s = Some (0, s1)" "mlist s1 (remove1 m M)" "isInit (mutexes s1 m) = 0" "mutexID (mutexes s1 m) = - 1"
    "isLocked (mutexes s1 m) = 0" by (rule mutex_destroy_ok [OF assms]) (rule that)
  have "m \<noteq> NULL" using s1(1) by (cases "m = NULL") (simp_all add: my_pthread_mutex_destroy_def)
  moreover have "existsInMutexList (- 1) s1 = Some 0" using existsInMutexList_ok [OF s1(2), of "- 1"] s1(2) by (force simp: mlist_def)
  ultimately have "lock_refused m s1 = Some False" using s1(3,4) by (simp add: lock_refused_def)
  then show ?thesis using s1 spin_free [of m s1] \<open>m \<noteq> NULL\<close> by (simp add: my_pthread_mutex_lock_def mx_next_def)
qed

theorem destroyed_mutex_is_locked_witness:
  "\<exists>s1 s2. my_pthread_mutex_destroy 8 (demo_mutex 0) = Some (0, s1) \<and> my_pthread_mutex_lock 8 s1 = Some (0, s2)"
  using destroyed_mutex_is_locked [OF demo_mlist [of 0], of 8] by auto

end
