(* ===== verification/PtPaging.thy ===== *)
theory PtPaging
  imports PtSched LibHeap "HOL-Library.Signed_Division"
begin

text \<open>
  The virtual memory of \<open>my_pthread/my_pthread.c\<close>: the page tables of the user pages and of the swap
  file, moving and swapping pages, the handler of the segmentation signal, and the thread branch of
  \<open>myallocate\<close> and \<open>mydeallocate\<close>.  \<open>None\<close> is a null dereference, an index outside a table, an access
  outside \<open>memory\<close>, the end of the process by the handler, or a loop that does not end.  \<open>mprotect\<close> is a flag per user page; the swap file is a byte array as long as \<open>ftruncate\<close>
  made it.  Reading or writing a block header in a protected page runs the handler first (\<open>touch\<close>).
\<close>

section \<open>State\<close>

text \<open>\<open>__FILE__\<close>, which the calls of the library to itself pass on with their line.\<close>

definition THIS_FILE :: string where "THIS_FILE = ''my_pthread.c''"

definition LIBRARYREQ :: int where "LIBRARYREQ = 0"
definition THREADREQ :: int where "THREADREQ = 1"
definition DISKREQ :: int where "DISKREQ = 2"

definition DISK_MEMORY :: nat where "DISK_MEMORY = 16777216"

text \<open>\<open>sc\<close> has the scheduler with the table \<open>pages\<close> and the protections, \<open>hp\<close> the bytes of \<open>memory\<close>.\<close>

record vm =
  hp :: pt_heap
  sc :: sched
  diskPages :: "uint32 list"
  swpFile :: bytes

definition npages :: "vm \<Rightarrow> nat" where
  "npages v = PT_MAX_MEMORY div PAGESIZE (hp v) - LIBPAGES"

definition ndisk :: "vm \<Rightarrow> nat" where
  "ndisk v = DISK_MEMORY div PAGESIZE (hp v)"

definition userSpace :: "vm \<Rightarrow> addr" where
  "userSpace v = memory (hp v) + LIBPAGES * PAGESIZE (hp v)"

abbreviation page_addr :: "vm \<Rightarrow> nat \<Rightarrow> addr" where
  "page_addr v i \<equiv> userSpace v + PAGESIZE (hp v) * i"

definition mprotect :: "nat \<Rightarrow> bool \<Rightarrow> vm \<Rightarrow> vm" where
  "mprotect i b v = v\<lparr>sc := (sc v)\<lparr>prot := (prot (sc v))(i := b)\<rparr>\<rparr>"

definition set_entry :: "nat \<Rightarrow> uint32 \<Rightarrow> vm \<Rightarrow> vm" where
  "set_entry i w v = v\<lparr>sc := (sc v)\<lparr>pages := (pages (sc v))[i := w]\<rparr>\<rparr>"

definition set_disk_entry :: "nat \<Rightarrow> uint32 \<Rightarrow> vm \<Rightarrow> vm" where
  "set_disk_entry i w v = v\<lparr>diskPages := (diskPages v)[i := w]\<rparr>"

definition set_bytes :: "bytes \<Rightarrow> vm \<Rightarrow> vm" where
  "set_bytes m v = v\<lparr>hp := (hp v)\<lparr>pt_bytes := m\<rparr>\<rparr>"

text \<open>\<open>memcpy\<close> and \<open>fread\<close>/\<open>fwrite\<close> of one page.\<close>

definition get_page :: "bytes \<Rightarrow> addr \<Rightarrow> nat \<Rightarrow> bytes" where
  "get_page m a n = (\<lambda>k. if k < n then m (a + k) else 0)"

definition put_page :: "bytes \<Rightarrow> addr \<Rightarrow> nat \<Rightarrow> bytes \<Rightarrow> bytes" where
  "put_page m a n c = (\<lambda>x. if a \<le> x \<and> x < a + n then c (x - a) else m x)"

text \<open>The timer around library calls, once it has been started.\<close>

definition hold_timer :: "vm \<Rightarrow> vm option" where
  "hold_timer v =
     (if \<not> timerSet (sc v) then Some v
      else if scd_up (sc v) then Some (v\<lparr>sc := pause_timer (sc v)\<rparr>) else None)"

definition resume_timer :: "vm \<Rightarrow> vm option" where
  "resume_timer v =
     (if \<not> timerSet (sc v) then Some v
      else if scd_up (sc v) then Some (v\<lparr>sc := unpause_timer (sc v)\<rparr>) else None)"

text \<open>\<open>scd->current->threadID\<close>.\<close>

definition current_thread :: "vm \<Rightarrow> addr option" where
  "current_thread v =
     (if \<not> scd_up (sc v) \<or> current (sc v) = NULL \<or> threadID (nodes (sc v) (current (sc v))) = NULL then None
      else Some (threadID (nodes (sc v) (current (sc v)))))"

section \<open>Swapping pages\<close>

definition pageSwap :: "nat \<Rightarrow> nat \<Rightarrow> vm \<Rightarrow> vm option" where
  "pageSwap initial swapTo v =
     (if initial = swapTo then Some v
      else if \<not> (initial < npages v \<and> swapTo < npages v \<and> initial < length (pages (sc v)) \<and> swapTo < length (pages (sc v))) then None
      else let n = PAGESIZE (hp v); m = pt_bytes (hp v);
               temp = get_page m (page_addr v swapTo) n;
               m1 = put_page m (page_addr v swapTo) n (get_page m (page_addr v initial) n);
               m2 = put_page m1 (page_addr v initial) n temp;
               tempPage = pages (sc v) ! swapTo;
               v1 = set_bytes m2 (mprotect initial True (mprotect swapTo True v));
               v2 = set_entry swapTo (pages (sc v1) ! initial) v1;
               v3 = set_entry initial tempPage v2
           in Some (mprotect initial False (mprotect swapTo False v3)))"

definition swapToMemFromDisk :: "nat \<Rightarrow> nat \<Rightarrow> vm \<Rightarrow> vm option" where
  "swapToMemFromDisk inMem fromDisk v =
     (if \<not> scd_up (sc v) then None
      else if \<not> (inMem < npages v \<and> inMem < length (pages (sc v)) \<and> fromDisk < ndisk v \<and> fromDisk < length (diskPages v)) then None
      else let n = PAGESIZE (hp v);
               v = v\<lparr>sc := pause_timer (sc v)\<rparr>;
               fromFile = get_page (swpFile v) (n * fromDisk) n;
               v = mprotect inMem True v;
               temp = fromFile;
               fromFile = get_page (pt_bytes (hp v)) (page_addr v inMem) n;
               v = set_bytes (put_page (pt_bytes (hp v)) (page_addr v inMem) n temp) v;
               v = v\<lparr>swpFile := put_page (swpFile v) (n * fromDisk) n fromFile\<rparr>;
               tempPage = diskPages v ! fromDisk;
               v = set_disk_entry fromDisk (pages (sc v) ! inMem) v;
               v = set_entry inMem tempPage v;
               v = mprotect inMem False v
           in Some (v\<lparr>sc := unpause_timer (sc v)\<rparr>))"

text \<open>The two loops of \<open>alignPages\<close>.\<close>

fun align_mem :: "uint32 \<Rightarrow> nat list \<Rightarrow> vm \<Rightarrow> vm option" where
  "align_mem t [] v = Some v"
| "align_mem t (i # is) v =
     (if \<not> i < length (pages (sc v)) then None
      else let pg = pages (sc v) ! i
      in if getPageThID pg = t \<and> of_nat i = getPagePgID pg
         then (case pageSwap i (unat (getPagePgID pg)) v of
                 None \<Rightarrow> None
               | Some v \<Rightarrow> align_mem t is (mprotect (unat (getPagePgID pg)) True v))
         else align_mem t is v)"

fun align_disk :: "uint32 \<Rightarrow> nat list \<Rightarrow> vm \<Rightarrow> vm option" where
  "align_disk t [] v = Some v"
| "align_disk t (i # is) v =
     (if \<not> i < length (diskPages v) then None
      else let pg = diskPages v ! i
      in if getPageIsF pg = 0 \<and> getPageThID pg = t \<and> of_nat i = getPagePgID pg
         then (case swapToMemFromDisk i (unat (getPagePgID pg)) v of
                 None \<Rightarrow> None
               | Some v \<Rightarrow> align_disk t is (mprotect (unat (getPagePgID pg)) True v))
         else align_disk t is v)"

definition alignPages :: "vm \<Rightarrow> vm option" where
  "alignPages v =
     (case (if scd_up (sc v) then map_option (\<lambda>t. tid (pthreads (sc v) t)) (current_thread v) else Some 1) of
        None \<Rightarrow> None
      | Some thread \<Rightarrow>
          (case align_mem (word_of_int thread) [0..<npages v] v of
             None \<Rightarrow> None
           | Some v \<Rightarrow> align_disk (word_of_int thread) [0..<ndisk v] v))"

definition isEnoughPages :: "int \<Rightarrow> vm \<Rightarrow> int" where
  "isEnoughPages sizeRequest v =
     (let pagesNeeded = sizeRequest sdiv int (PAGESIZE (hp v)) + 1;
          freeCount = length (filter (\<lambda>i. getPageIsF (pages (sc v) ! i) = 1) [0..<npages v]) +
            length (filter (\<lambda>i. getPageIsF (diskPages v ! i) = 1) [0..<ndisk v])
      in if int freeCount \<ge> pagesNeeded then pagesNeeded else 0)"

definition page_root :: "bytes \<Rightarrow> addr \<Rightarrow> nat \<Rightarrow> bytes" where
  "page_root m a n =
     upd32 (\<lambda>w. setBlockIsNext w 0) a (upd32 (\<lambda>w. setBlockSize w (of_nat (n - PT_BLOCK_SIZE))) a (upd32 (\<lambda>w. setBlockIsF w 1) a m))"

definition initializePage :: "nat \<Rightarrow> vm \<Rightarrow> vm option" where
  "initializePage index v =
     (if \<not> index < length (pages (sc v)) then None
      else let pg = pages (sc v) ! index
      in case (if \<not> scd_up (sc v)
               then Some (setPageThID (setPagePgID pg (word_of_int (mainPageNum (sc v)))) 1,
                      v\<lparr>sc := (sc v)\<lparr>mainPageNum := mainPageNum (sc v) + 1\<rparr>\<rparr>)
               else case current_thread v of
                 None \<Rightarrow> None
               | Some t \<Rightarrow> Some (setPageThID (setPagePgID pg (word_of_int (pageNum (pthreads (sc v) t)))) (word_of_int (tid (pthreads (sc v) t))),
                      v\<lparr>sc := upd_thread t (\<lambda>d. d\<lparr>pageNum := pageNum d + 1\<rparr>) (sc v)\<rparr>)) of
           None \<Rightarrow> None
         | Some (pg, v) \<Rightarrow>
             let pg = setPageIsF pg 0;
                 v = (if getPagePgID pg = 0
                      then set_bytes (page_root (pt_bytes (hp v)) (userSpace v) (PAGESIZE (hp v))) (mprotect 0 True v)
                      else v)
             in Some (set_entry index pg v))"

definition findPage :: "int \<Rightarrow> vm \<Rightarrow> uint32" where
  "findPage i v =
     (case first_from (\<lambda>k. getPageThID (pages (sc v) ! k) = word_of_int i) 0 (npages v) of
        None \<Rightarrow> 0 | Some k \<Rightarrow> pages (sc v) ! k)"

section \<open>The segmentation signal\<close>

text \<open>The handler either ends the process or returns to the access that faulted.\<close>

datatype sig_result = ExitOutOfBounds | ExitLibrary | ExitSegfault | Resumes vm

definition in_memory_at :: "uint32 \<Rightarrow> nat \<Rightarrow> vm \<Rightarrow> nat option" where
  "in_memory_at t index v =
     first_from (\<lambda>k. getPageThID (pages (sc v) ! k) = t \<and> getPagePgID (pages (sc v) ! k) = of_nat index) 0 (npages v)"

definition on_disk_at :: "uint32 \<Rightarrow> nat \<Rightarrow> vm \<Rightarrow> nat option" where
  "on_disk_at t index v =
     first_from (\<lambda>k. getPageIsF (diskPages v ! k) = 0 \<and> getPageThID (diskPages v ! k) = t \<and> getPagePgID (diskPages v ! k) = of_nat index) 0 (ndisk v)"

definition sigHandler :: "addr \<Rightarrow> vm \<Rightarrow> sig_result option" where
  "sigHandler a v0 =
     (case hold_timer v0 of
        None \<Rightarrow> None
      | Some v \<Rightarrow>
          if a > memory (hp v) + PT_MAX_MEMORY \<or> a < memory (hp v) then Some ExitOutOfBounds
          else if a < userSpace v then Some ExitLibrary
          else (case current_thread v of
             None \<Rightarrow> None
           | Some th \<Rightarrow>
               let index = (a - userSpace v) div PAGESIZE (hp v);
                   t = word_of_int (tid (pthreads (sc v) th))
               in case in_memory_at t index v of
                    Some i \<Rightarrow>
                      (case (if i \<noteq> index then pageSwap index i v else Some v) of
                         None \<Rightarrow> None
                       | Some v \<Rightarrow> map_option Resumes (resume_timer (mprotect index True v)))
                  | None \<Rightarrow>
                      (case on_disk_at t index v of
                         None \<Rightarrow> Some ExitSegfault
                       | Some i \<Rightarrow>
                           (case swapToMemFromDisk index i v of
                              None \<Rightarrow> None
                            | Some v \<Rightarrow> map_option Resumes (resume_timer (mprotect index True v))))))"

text \<open>An access to a byte: if its page is protected the handler runs and the access is made again.\<close>

definition page_of :: "vm \<Rightarrow> addr \<Rightarrow> nat" where
  "page_of v a = (a - userSpace v) div PAGESIZE (hp v)"

definition accessible :: "vm \<Rightarrow> addr \<Rightarrow> bool" where
  "accessible v a \<longleftrightarrow> a < userSpace v \<or> npages v \<le> page_of v a \<or> prot (sc v) (page_of v a)"

definition touch :: "addr \<Rightarrow> vm \<Rightarrow> vm option" where
  "touch a v =
     (if accessible v a then Some v
      else case sigHandler a v of
        Some (Resumes v') \<Rightarrow> Some v'
      | _ \<Rightarrow> None)"

fun touch_each :: "addr list \<Rightarrow> vm \<Rightarrow> vm option" where
  "touch_each [] v = Some v"
| "touch_each (a # as) v = (case touch a v of None \<Rightarrow> None | Some v \<Rightarrow> touch_each as v)"

text \<open>
  The block headers an operation reads and writes, first and last byte of each: an access that is
  protected again by the time of the next one would fault for ever.
\<close>

definition touch_hdrs :: "addr list \<Rightarrow> vm \<Rightarrow> vm option" where
  "touch_hdrs as v =
     (if \<not> list_all (ok_hdr (hp v)) as then None
      else case touch_each (concat (map (\<lambda>a. [a, a + 3]) as)) v of
        None \<Rightarrow> None
      | Some v \<Rightarrow> if list_all (\<lambda>a. accessible v a \<and> accessible v (a + 3)) as then Some v else None)"

text \<open>
  A copy of one page to another: the loads fault while the source is protected, the stores while the
  target is, and each time the handler returns the instruction is made again.
\<close>

partial_function (option) copy_faults :: "addr \<Rightarrow> addr \<Rightarrow> vm \<Rightarrow> vm option" where
  "copy_faults src dst v =
     (if \<not> accessible v src then (case touch src v of None \<Rightarrow> None | Some v \<Rightarrow> copy_faults src dst v)
      else if \<not> accessible v dst then (case touch dst v of None \<Rightarrow> None | Some v \<Rightarrow> copy_faults src dst v)
      else Some v)"

section \<open>Making room\<close>

definition moveToFreeSpace :: "nat \<Rightarrow> vm \<Rightarrow> (bool \<times> vm) option" where
  "moveToFreeSpace index v =
     (case first_from (\<lambda>k. getPageIsF (pages (sc v) ! k) = 1) 0 (npages v) of
        None \<Rightarrow> Some (False, v)
      | Some i \<Rightarrow>
          if i = index then Some (True, v)
          else if \<not> (index < npages v \<and> index < length (pages (sc v))) then None
          else let n = PAGESIZE (hp v);
                   v = mprotect index True v;
                   v = set_entry i (pages (sc v) ! index) v
               in case copy_faults (page_addr v index) (page_addr v i) v of
                    None \<Rightarrow> None
                  | Some v \<Rightarrow>
                      let m = pt_bytes (hp v);
                          v = set_bytes (put_page m (page_addr v i) n (get_page m (page_addr v index) n)) v;
                          v = set_entry index (setPageIsF (pages (sc v) ! index) 1) v
                      in Some (True, mprotect i False v))"

definition moveToDiskSpace :: "nat \<Rightarrow> vm \<Rightarrow> (bool \<times> vm) option" where
  "moveToDiskSpace index v =
     (if \<not> scd_up (sc v) then None
      else let v = v\<lparr>sc := pause_timer (sc v)\<rparr>
      in case first_from (\<lambda>k. getPageIsF (diskPages v ! k) = 1) 0 (ndisk v) of
           None \<Rightarrow> Some (False, v\<lparr>sc := unpause_timer (sc v)\<rparr>)
         | Some i \<Rightarrow>
             if \<not> (index < npages v \<and> index < length (pages (sc v))) then None
             else let n = PAGESIZE (hp v);
                      v = mprotect index True v;
                      v = set_disk_entry i (pages (sc v) ! index) v;
                      toFile = get_page (pt_bytes (hp v)) (page_addr v index) n;
                      v = v\<lparr>swpFile := put_page (swpFile v) (n * i) n toFile\<rparr>;
                      v = set_entry index (setPageIsF (pages (sc v) ! index) 1) v
                  in Some (True, v\<lparr>sc := unpause_timer (sc v)\<rparr>))"

text \<open>Memory first, then disk; \<open>False\<close> when both are full.\<close>

definition makeRoom :: "nat \<Rightarrow> vm \<Rightarrow> (bool \<times> vm) option" where
  "makeRoom index v =
     (case moveToFreeSpace index v of
        None \<Rightarrow> None
      | Some (True, v) \<Rightarrow> Some (True, v)
      | Some (False, v) \<Rightarrow> moveToDiskSpace index v)"

definition next_page :: "vm \<Rightarrow> nat option" where
  "next_page v =
     (if \<not> scd_up (sc v) then Some (nat (mainPageNum (sc v)))
      else map_option (\<lambda>t. nat (pageNum (pthreads (sc v) t))) (current_thread v))"

definition v_say :: "pt_msg \<Rightarrow> vm \<Rightarrow> vm" where
  "v_say x v = v\<lparr>hp := say x (hp v)\<rparr>"

section \<open>Thread allocation\<close>

primrec gatherPages :: "nat \<Rightarrow> addr \<Rightarrow> vm \<Rightarrow> vm option" where
  "gatherPages 0 lastBlock v = Some v"
| "gatherPages (Suc k) lastBlock v =
     (case next_page v of
        None \<Rightarrow> None
      | Some nextPage \<Rightarrow>
          (case makeRoom nextPage v of
             None \<Rightarrow> None
           | Some (False, v) \<Rightarrow> Some (v_say POutOfSpace v)
           | Some (True, v) \<Rightarrow>
               (case initializePage nextPage v of
                  None \<Rightarrow> None
                | Some v \<Rightarrow>
                    (case touch_hdrs [lastBlock] v of
                       None \<Rightarrow> None
                     | Some v \<Rightarrow>
                         gatherPages k lastBlock
                           (set_bytes (upd32 (\<lambda>w. setBlockSize w (getBlockSize w + of_nat (PAGESIZE (hp v)))) lastBlock (pt_bytes (hp v))) v)))))"

text \<open>
  The first-fit loop over the thread's blocks: a suitable block is taken and returned; otherwise the
  address is null and \<open>prev\<close> the last block.
\<close>

definition thread_carve :: "addr \<Rightarrow> nat \<Rightarrow> vm \<Rightarrow> vm option" where
  "thread_carve cur n v =
     map_option (\<lambda>v. set_bytes (carve (pt_bytes (hp v)) cur n) v)
       (touch_hdrs [cur + unat (of_nat (n + PT_BLOCK_SIZE) :: uint32), cur] v)"

partial_function (option) threadFit_from :: "vm \<Rightarrow> nat \<Rightarrow> addr \<Rightarrow> (vm \<times> addr \<times> addr) option" where
  "threadFit_from v0 n cur =
     (case touch_hdrs [cur] v0 of
        None \<Rightarrow> None
      | Some v \<Rightarrow>
          let m = pt_bytes (hp v);
              w = load32 m cur;
              sizeWithBlock = (of_nat (n + PT_BLOCK_SIZE) :: uint32);
              next = getNextBlock m cur
          in if (getBlockIsF w = 0 \<or> unat (getBlockSize w) < n)
                \<or> \<not> (getBlockIsF w = 1 \<and> (unat (getBlockSize w) = n \<or> sizeWithBlock \<le> getBlockSize w))
             then (if next = NULL then Some (v, NULL, cur) else threadFit_from v n next)
             else if unat (getBlockSize w) = n
             then Some (set_bytes (upd32 (\<lambda>w. setBlockIsF w 0) cur m) v, cur + PT_BLOCK_SIZE, cur)
             else map_option (\<lambda>v. (v, cur + PT_BLOCK_SIZE, cur)) (thread_carve cur n v))"

text \<open>The thread's heap grows: a fresh free block at the start of a new page when the last block is taken.\<close>

definition open_page :: "addr \<Rightarrow> vm \<Rightarrow> (bool \<times> addr \<times> vm) option" where
  "open_page prev v =
     (case next_page v of
        None \<Rightarrow> None
      | Some nextPage \<Rightarrow>
          (case makeRoom nextPage v of
             None \<Rightarrow> None
           | Some (False, v) \<Rightarrow> Some (False, NULL, v_say PDiskAndMemoryFull v)
           | Some (True, v) \<Rightarrow>
               (case initializePage nextPage v of
                  None \<Rightarrow> None
                | Some v \<Rightarrow>
                    let bl = page_addr v nextPage
                    in case touch_hdrs [bl, prev] v of
                         None \<Rightarrow> None
                       | Some v \<Rightarrow>
                           let m = page_root (pt_bytes (hp v)) bl (PAGESIZE (hp v));
                               m = upd32 (\<lambda>w. setBlockIsNext w 1) prev m
                           in Some (True, bl, set_bytes m v))))"

definition growThread :: "nat \<Rightarrow> addr \<Rightarrow> string \<Rightarrow> int \<Rightarrow> vm \<Rightarrow> (vm \<times> addr) option" where
  "growThread n prev fl line v0 =
     (let sizeWithBlock = (of_nat (n + PT_BLOCK_SIZE) :: uint32);
          bytesLeft = (of_int (int (memory (hp v0)) + int PT_MAX_MEMORY - (int prev + int PT_BLOCK_SIZE)) :: uint32);
          fail = (\<lambda>v. map_option (\<lambda>v. (v, NULL)) (resume_timer (v_say (PNotEnoughSpace line fl) v)))
      in if sizeWithBlock > bytesLeft then fail v0
         else case touch_hdrs [prev] v0 of
           None \<Rightarrow> None
         | Some v \<Rightarrow>
             let w = load32 (pt_bytes (hp v)) prev;
                 extraBlock = (if getBlockIsF w = 0 then of_nat PT_BLOCK_SIZE else 0 :: uint32);
                 pagesNeeded = isEnoughPages (sint (extraBlock + sizeWithBlock - getBlockSize w)) v
             in if \<not> pagesNeeded > 0 then fail v
                else case (if extraBlock > 0
                           then case open_page prev v of
                                  None \<Rightarrow> None
                                | Some (False, _, v) \<Rightarrow> Some (NULL, v)
                                | Some (True, bl, v) \<Rightarrow> map_option (\<lambda>v. (bl, v)) (gatherPages (nat (pagesNeeded - 1)) bl v)
                           else map_option (\<lambda>v. (prev, v)) (gatherPages (nat pagesNeeded) prev v)) of
                  None \<Rightarrow> None
                | Some (cur, v) \<Rightarrow>
                    if cur = NULL then Some (v, NULL)
                    else (case thread_carve cur n v of
                            None \<Rightarrow> None
                          | Some v \<Rightarrow> map_option (\<lambda>v. (v, cur + PT_BLOCK_SIZE)) (resume_timer v)))"

text \<open>The thread's first page is brought to the start of the user space, or made there.\<close>

definition ownFirstPage :: "vm \<Rightarrow> (bool \<times> vm) option" where
  "ownFirstPage v =
     (case alignPages v of
        None \<Rightarrow> None
      | Some v \<Rightarrow>
          (case current_thread v of
             None \<Rightarrow> None
           | Some t \<Rightarrow>
               if pages (sc v) = [] then None
               else if getPageThID (pages (sc v) ! 0) \<noteq> word_of_int (tid (pthreads (sc v) t))
               then (case makeRoom 0 v of
                       None \<Rightarrow> None
                     | Some (False, v) \<Rightarrow> Some (False, v_say PCouldNotAllocate v)
                     | Some (True, v) \<Rightarrow> map_option (\<lambda>v. (True, v)) (initializePage 0 v))
               else Some (True, v)))"

definition myallocate_thread :: "string \<Rightarrow> int \<Rightarrow> nat \<Rightarrow> vm \<Rightarrow> (vm \<times> addr) option" where
  "myallocate_thread fl line n v0 =
     (case ownFirstPage v0 of
        None \<Rightarrow> None
      | Some (False, v) \<Rightarrow> Some (v, NULL)
      | Some (True, v) \<Rightarrow>
          (case threadFit_from v n (userSpace v) of
             None \<Rightarrow> None
           | Some (v, p, prev) \<Rightarrow>
               if p \<noteq> NULL then map_option (\<lambda>v. (v, p)) (resume_timer v)
               else growThread n prev fl line v))"

section \<open>Thread deallocation\<close>

text \<open>\<open>(unsigned int*) userSpace + (index * PAGESIZE)\<close> counts words: four times the offset of the page.\<close>

partial_function (option) threadMerge_from :: "vm \<Rightarrow> addr \<Rightarrow> addr \<Rightarrow> addr \<Rightarrow> (vm \<times> bool) option" where
  "threadMerge_from v0 toFree previous cur =
     (case touch_hdrs [cur] v0 of
        None \<Rightarrow> None
      | Some v \<Rightarrow>
          let next = getNextBlock (pt_bytes (hp v)) cur
          in if cur = toFree
             then (case touch_hdrs (filter (\<lambda>b. b \<noteq> NULL) [next, previous, cur]) v of
                     None \<Rightarrow> None
                   | Some v \<Rightarrow> map_option (\<lambda>h. (v\<lparr>hp := h\<rparr>, True)) (pt_merge_at (hp v) previous cur))
             else if next = NULL then Some (v, False)
             else threadMerge_from v toFree cur next)"

definition freeAndMerge_thread :: "addr \<Rightarrow> uint32 \<Rightarrow> vm \<Rightarrow> (vm \<times> bool) option" where
  "freeAndMerge_thread toFree pg v =
     (case first_from (\<lambda>k. getPageThID (pages (sc v) ! k) = getPageThID pg) 0 (npages v) of
        None \<Rightarrow> Some (v, False)
      | Some index \<Rightarrow>
          threadMerge_from v toFree NULL (userSpace v + 4 * (index * PAGESIZE (hp v))))"

definition mydeallocate_request :: "string \<Rightarrow> int \<Rightarrow> addr \<Rightarrow> vm \<Rightarrow> vm option" where
  "mydeallocate_request fl line ptr v =
     (case mydeallocate_lib fl line (hp v) ptr of
        None \<Rightarrow> None
      | Some h \<Rightarrow> resume_timer (v\<lparr>hp := h\<rparr>))"

definition mydeallocate_thread :: "string \<Rightarrow> int \<Rightarrow> addr \<Rightarrow> vm \<Rightarrow> vm option" where
  "mydeallocate_thread fl line ptr v =
     (if \<not> inMemSpace (hp v) ptr then resume_timer (v_say (PNotCreated line fl) v)
      else let block = ptr - PT_BLOCK_SIZE
      in case touch_hdrs [block] v of
           None \<Rightarrow> None
         | Some v \<Rightarrow>
             if getBlockIsF (load32 (pt_bytes (hp v)) block) = 1 then resume_timer (v_say (PAlreadyFreed line fl) v)
             else (case (if scd_up (sc v) then map_option (\<lambda>t. tid (pthreads (sc v) t)) (current_thread v) else Some 1) of
               None \<Rightarrow> None
             | Some i \<Rightarrow>
                 let page = findPage i v
                 in if page = 0
                    then (case resume_timer v of
                            None \<Rightarrow> None
                          | Some v \<Rightarrow>
                              (case hold_timer v of
                                 None \<Rightarrow> None
                               | Some v \<Rightarrow> mydeallocate_request THIS_FILE 1782 ptr v))
                    else (case freeAndMerge_thread block page v of
                            None \<Rightarrow> None
                          | Some (v, b) \<Rightarrow> resume_timer (if b then v else v_say (PNotCreated line fl) v))))"

definition mydeallocate :: "string \<Rightarrow> int \<Rightarrow> addr \<Rightarrow> int \<Rightarrow> vm \<Rightarrow> vm option" where
  "mydeallocate fl line ptr caller v0 =
     (case hold_timer v0 of
        None \<Rightarrow> None
      | Some v \<Rightarrow>
          if caller = LIBRARYREQ then mydeallocate_request fl line ptr v
          else if caller = THREADREQ then mydeallocate_thread fl line ptr v
          else resume_timer (v_say PInvalidCaller v))"

section \<open>Requests\<close>

text \<open>A request served from one of the two root blocks.\<close>

definition serve :: "(pt_heap \<Rightarrow> (pt_heap \<times> addr) option) \<Rightarrow> vm \<Rightarrow> (vm \<times> addr) option" where
  "serve f v =
     (case f (hp v) of
        None \<Rightarrow> None
      | Some (h, p) \<Rightarrow> map_option (\<lambda>v. (v, p)) (resume_timer (v\<lparr>hp := h\<rparr>)))"

text \<open>The library's requests to itself.\<close>

definition lib_call :: "int \<Rightarrow> nat \<Rightarrow> vm \<Rightarrow> (vm \<times> addr) option" where
  "lib_call line n v =
     (case hold_timer v of None \<Rightarrow> None | Some v \<Rightarrow> serve (\<lambda>h. myallocate_lib THIS_FILE line h n) v)"

text \<open>
  What the first call of \<open>myallocate\<close> sets up, once \<open>memory\<close> is there: the root block, the swap
  file's table and the page table, both from the library's part of \<open>memory\<close> and all pages free.
\<close>

definition setUpMemory :: "vm \<Rightarrow> vm option" where
  "setUpMemory v =
     (case lib_call 1392 (4 * ndisk v) (v\<lparr>hp := pt_initializeRoot (hp v)\<rparr>) of
        None \<Rightarrow> None
      | Some (v, d) \<Rightarrow>
          if d = NULL then None
          else (case lib_call 1402 (4 * npages v) (v\<lparr>diskPages := replicate (ndisk v) 1\<rparr>) of
                  None \<Rightarrow> None
                | Some (v, p) \<Rightarrow>
                    if p = NULL then None
                    else Some (v\<lparr>sc := (sc v)\<lparr>pages := replicate (npages v) 1, prot := (\<lambda>_. True)\<rparr>\<rparr>)))"

text \<open>\<open>firstMalloc\<close> holds exactly while \<open>rootBlock\<close> is null.\<close>

definition myallocate :: "string \<Rightarrow> int \<Rightarrow> nat \<Rightarrow> int \<Rightarrow> vm \<Rightarrow> (vm \<times> addr) option" where
  "myallocate fl line n caller v0 =
     (case hold_timer v0 of
        None \<Rightarrow> None
      | Some v \<Rightarrow>
          (case (if pt_root (hp v) = NULL then setUpMemory v else Some v) of
             None \<Rightarrow> None
           | Some v \<Rightarrow>
               if caller = DISKREQ then serve (\<lambda>h. myallocate_disk fl line h n) v
               else if caller = LIBRARYREQ then serve (\<lambda>h. myallocate_lib fl line h n) v
               else if \<not> scd_up (sc v) then lib_call 1542 n v
               else myallocate_thread fl line n v))"

end
