(* ===== verification/PtPageProps.thy ===== *)
theory PtPageProps
  imports PtPaging PtProps
begin

text \<open>
  The pages as slots of one store, in memory and in the swap file: swapping exchanges two slots and
  touches nothing else, so no page is lost; the signal handler brings the right page back; making room
  moves a page to a free slot.  The locale \<open>page_store\<close> is the contract of swapping.
\<close>

section \<open>Pages\<close>

lemma get_put_same [simp]: "get_page (put_page m a n c) a n = (\<lambda>k. if k < n then c k else 0)"
  by (auto simp: get_page_def put_page_def fun_eq_iff)

lemma get_put_other: "a + n \<le> b \<or> b + n \<le> a \<Longrightarrow> get_page (put_page m a n c) b n = get_page m b n"
  by (auto simp: get_page_def put_page_def fun_eq_iff)

lemma get_page_idem [simp]: "(\<lambda>k. if k < n then get_page m a n k else 0) = get_page m a n"
  by (auto simp: get_page_def fun_eq_iff)

lemma pages_apart: "i \<noteq> j \<Longrightarrow> n * i + n \<le> n * j \<or> n * j + n \<le> n * (i :: nat)"
proof -
  assume "i \<noteq> j"
  then have "Suc i \<le> j \<or> Suc j \<le> i" by auto
  then have "n * Suc i \<le> n * j \<or> n * Suc j \<le> n * i" using mult_le_mono2 by blast
  then show ?thesis by (simp only: mult_Suc_right add.commute)
qed

section \<open>Slots\<close>

datatype slot = Mem nat | Disk nat

fun slot_ok :: "vm \<Rightarrow> slot \<Rightarrow> bool" where
  "slot_ok v (Mem i) \<longleftrightarrow> i < npages v"
| "slot_ok v (Disk i) \<longleftrightarrow> i < ndisk v"

text \<open>The entry of a slot and the page in it.\<close>

fun slot_at :: "vm \<Rightarrow> slot \<Rightarrow> uint32 \<times> bytes" where
  "slot_at v (Mem i) = (pages (sc v) ! i, get_page (pt_bytes (hp v)) (page_addr v i) (PAGESIZE (hp v)))"
| "slot_at v (Disk i) = (diskPages v ! i, get_page (swpFile v) (PAGESIZE (hp v) * i) (PAGESIZE (hp v)))"

definition vm_ok :: "vm \<Rightarrow> bool" where
  "vm_ok v \<longleftrightarrow> 0 < PAGESIZE (hp v) \<and> length (pages (sc v)) = npages v \<and> length (diskPages v) = ndisk v \<and> scd_up (sc v)"

text \<open>What swapping and moving pages leave alone: sizes, the scheduler but for table, protections and timer, and memory outside the user pages.\<close>

definition same_vm :: "vm \<Rightarrow> vm \<Rightarrow> bool" where
  "same_vm v v' \<longleftrightarrow> memory (hp v') = memory (hp v) \<and> PAGESIZE (hp v') = PAGESIZE (hp v) \<and> pt_root (hp v') = pt_root (hp v) \<and>
     rootBlockD (hp v') = rootBlockD (hp v) \<and> pt_out (hp v') = pt_out (hp v) \<and> pthreads (sc v') = pthreads (sc v) \<and>
     nodes (sc v') = nodes (sc v) \<and> current (sc v') = current (sc v) \<and> scd_up (sc v') = scd_up (sc v) \<and> timerSet (sc v') = timerSet (sc v) \<and>
     (\<forall>x < userSpace v. pt_bytes (hp v') x = pt_bytes (hp v) x)"

lemma same_vm_sizes: "same_vm v v' \<Longrightarrow> npages v' = npages v \<and> ndisk v' = ndisk v \<and> userSpace v' = userSpace v"
  by (simp add: same_vm_def npages_def ndisk_def userSpace_def)

lemma same_vm_refl: "same_vm v v"
  by (simp add: same_vm_def)

lemma same_vm_trans: "same_vm v v' \<Longrightarrow> same_vm v' v'' \<Longrightarrow> same_vm v v''"
  using same_vm_sizes [of v v'] by (simp add: same_vm_def)

lemma same_vm_put: "same_vm v v' \<Longrightarrow> put_bytes (hp v') m = put_bytes (hp v) m"
  by (simp add: same_vm_def)

lemma same_vm_slot_ok: "same_vm v v' \<Longrightarrow> slot_ok v' s = slot_ok v s"
  using same_vm_sizes [of v v'] by (cases s) auto

lemma mprotect_simps [simp]:
  "hp (mprotect i b v) = hp v" "pages (sc (mprotect i b v)) = pages (sc v)" "diskPages (mprotect i b v) = diskPages v"
  "swpFile (mprotect i b v) = swpFile v" "prot (sc (mprotect i b v)) = (prot (sc v))(i := b)" "scd_up (sc (mprotect i b v)) = scd_up (sc v)"
  "pthreads (sc (mprotect i b v)) = pthreads (sc v)" "nodes (sc (mprotect i b v)) = nodes (sc v)" "current (sc (mprotect i b v)) = current (sc v)"
  "timerSet (sc (mprotect i b v)) = timerSet (sc v)"
  by (simp_all add: mprotect_def)

lemma set_entry_simps [simp]:
  "hp (set_entry i w v) = hp v" "pages (sc (set_entry i w v)) = (pages (sc v))[i := w]" "diskPages (set_entry i w v) = diskPages v"
  "swpFile (set_entry i w v) = swpFile v" "prot (sc (set_entry i w v)) = prot (sc v)" "scd_up (sc (set_entry i w v)) = scd_up (sc v)"
  "pthreads (sc (set_entry i w v)) = pthreads (sc v)" "nodes (sc (set_entry i w v)) = nodes (sc v)" "current (sc (set_entry i w v)) = current (sc v)"
  "timerSet (sc (set_entry i w v)) = timerSet (sc v)"
  by (simp_all add: set_entry_def)

lemma set_disk_entry_simps [simp]:
  "hp (set_disk_entry i w v) = hp v" "sc (set_disk_entry i w v) = sc v" "diskPages (set_disk_entry i w v) = (diskPages v)[i := w]"
  "swpFile (set_disk_entry i w v) = swpFile v"
  by (simp_all add: set_disk_entry_def)

lemma set_bytes_simps [simp]:
  "hp (set_bytes m v) = (hp v)\<lparr>pt_bytes := m\<rparr>" "sc (set_bytes m v) = sc v" "diskPages (set_bytes m v) = diskPages v" "swpFile (set_bytes m v) = swpFile v"
  by (simp_all add: set_bytes_def)

lemma sizes_simps [simp]:
  "npages (mprotect i b v) = npages v" "npages (set_entry i w v) = npages v" "npages (set_disk_entry i w v) = npages v" "npages (set_bytes m v) = npages v"
  "ndisk (mprotect i b v) = ndisk v" "ndisk (set_entry i w v) = ndisk v" "ndisk (set_disk_entry i w v) = ndisk v" "ndisk (set_bytes m v) = ndisk v"
  "userSpace (mprotect i b v) = userSpace v" "userSpace (set_entry i w v) = userSpace v" "userSpace (set_disk_entry i w v) = userSpace v" "userSpace (set_bytes m v) = userSpace v"
  "npages (v\<lparr>sc := s\<rparr>) = npages v" "ndisk (v\<lparr>sc := s\<rparr>) = ndisk v" "userSpace (v\<lparr>sc := s\<rparr>) = userSpace v"
  "npages (v\<lparr>swpFile := f\<rparr>) = npages v" "ndisk (v\<lparr>swpFile := f\<rparr>) = ndisk v" "userSpace (v\<lparr>swpFile := f\<rparr>) = userSpace v"
  by (simp_all add: npages_def ndisk_def userSpace_def)

definition exch :: "slot \<Rightarrow> slot \<Rightarrow> slot \<Rightarrow> slot" where
  "exch a b x = (if x = a then b else if x = b then a else x)"

lemma exch_exch [simp]: "exch a b (exch a b s) = s"
  by (simp add: exch_def)

lemma exch_ok: "slot_ok v a \<Longrightarrow> slot_ok v b \<Longrightarrow> slot_ok v (exch a b s) = slot_ok v s"
  by (auto simp: exch_def)

definition exchanged :: "slot \<Rightarrow> slot \<Rightarrow> vm \<Rightarrow> vm \<Rightarrow> bool" where
  "exchanged a b v v' \<longleftrightarrow> vm_ok v' \<and> same_vm v v' \<and> (\<forall>s. slot_ok v s \<longrightarrow> slot_at v' s = slot_at v (exch a b s))"

lemma pageSwap_slots:
  assumes ok: "vm_ok v" and i: "i < npages v" "j < npages v"
  obtains v' where "pageSwap i j v = Some v'" "exchanged (Mem i) (Mem j) v v'"
    "prot (sc v') = (if i = j then prot (sc v) else (prot (sc v))(i := False, j := False))"
proof (cases "i = j")
  case True
  then show thesis using ok same_vm_refl by (intro that [of v]) (auto simp: pageSwap_def exch_def exchanged_def)
next
  case False
  let ?n = "PAGESIZE (hp v)" and ?m = "pt_bytes (hp v)"
  have len: "i < length (pages (sc v))" "j < length (pages (sc v))" using ok i by (auto simp: vm_ok_def)
  obtain v' where v': "pageSwap i j v = Some v'"
    "hp v' = (hp v)\<lparr>pt_bytes := put_page (put_page ?m (page_addr v j) ?n (get_page ?m (page_addr v i) ?n)) (page_addr v i) ?n (get_page ?m (page_addr v j) ?n)\<rparr>"
    "pages (sc v') = (pages (sc v))[j := pages (sc v) ! i, i := pages (sc v) ! j]" "diskPages v' = diskPages v" "swpFile v' = swpFile v"
    "scd_up (sc v') = scd_up (sc v)" "pthreads (sc v') = pthreads (sc v)" "nodes (sc v') = nodes (sc v)" "current (sc v') = current (sc v)" "timerSet (sc v') = timerSet (sc v)"
    "prot (sc v') = (prot (sc v))(i := False, j := False)"
    using False i len by (simp add: pageSwap_def Let_def fun_upd_twist)
  have same: "same_vm v v'" using v' by (simp add: same_vm_def put_page_def)
  have sz: "npages v' = npages v" "ndisk v' = ndisk v" "userSpace v' = userSpace v" using same_vm_sizes [OF same] by auto
  have ap: "page_addr v k + ?n \<le> page_addr v l \<or> page_addr v l + ?n \<le> page_addr v k" if "k \<noteq> l" for k l using pages_apart [OF that, of ?n] by auto
  have g: "get_page (pt_bytes (hp v')) (page_addr v k) ?n = get_page ?m (page_addr v (if k = i then j else if k = j then i else k)) ?n" for k
    using False ap [of i k] ap [of j k] by (auto simp: v'(2) get_put_other)
  have "slot_at v' s = slot_at v (exch (Mem i) (Mem j) s)" if "slot_ok v s" for s
    using that len False g ok by (cases s) (auto simp: exch_def v' sz vm_ok_def nth_list_update)
  moreover have "vm_ok v'" using ok sz v' by (simp add: vm_ok_def)
  ultimately show thesis using v'(1,11) False same by (intro that [of v']) (auto simp: exchanged_def)
qed

lemma swapToMemFromDisk_slots:
  assumes ok: "vm_ok v" and i: "i < npages v" "j < ndisk v"
  obtains v' where "swapToMemFromDisk i j v = Some v'" "exchanged (Mem i) (Disk j) v v'" "prot (sc v') = (prot (sc v))(i := False)"
proof -
  let ?n = "PAGESIZE (hp v)" and ?m = "pt_bytes (hp v)"
  have len: "i < length (pages (sc v))" "j < length (diskPages v)" and up: "scd_up (sc v)" using ok i by (auto simp: vm_ok_def)
  obtain v' where v': "swapToMemFromDisk i j v = Some v'"
    "hp v' = (hp v)\<lparr>pt_bytes := put_page ?m (page_addr v i) ?n (get_page (swpFile v) (?n * j) ?n)\<rparr>"
    "swpFile v' = put_page (swpFile v) (?n * j) ?n (get_page ?m (page_addr v i) ?n)"
    "pages (sc v') = (pages (sc v))[i := diskPages v ! j]" "diskPages v' = (diskPages v)[j := pages (sc v) ! i]"
    "scd_up (sc v') = scd_up (sc v)" "pthreads (sc v') = pthreads (sc v)" "nodes (sc v') = nodes (sc v)" "current (sc v') = current (sc v)" "timerSet (sc v') = timerSet (sc v)"
    "prot (sc v') = (prot (sc v))(i := False)"
    using i len up by (simp add: swapToMemFromDisk_def Let_def unpause_timer_same pause_timer_same)
  have same: "same_vm v v'" using v' by (simp add: same_vm_def put_page_def)
  have sz: "npages v' = npages v" "ndisk v' = ndisk v" "userSpace v' = userSpace v" using same_vm_sizes [OF same] by auto
  have g: "get_page (pt_bytes (hp v')) (page_addr v k) ?n = (if k = i then get_page (swpFile v) (?n * j) ?n else get_page ?m (page_addr v k) ?n)" for k
    using pages_apart [of i k ?n] by (auto simp: v'(2) get_put_other)
  have f: "get_page (swpFile v') (?n * k) ?n = (if k = j then get_page ?m (page_addr v i) ?n else get_page (swpFile v) (?n * k) ?n)" for k
    using pages_apart [of j k ?n] by (auto simp: v'(3) get_put_other)
  have "slot_at v' s = slot_at v (exch (Mem i) (Disk j) s)" if "slot_ok v s" for s
    using that len g f ok by (cases s) (auto simp: exch_def v'(2,4,5) sz vm_ok_def nth_list_update)
  moreover have "vm_ok v'" using ok sz v' by (simp add: vm_ok_def)
  ultimately show thesis using v'(1,11) same by (intro that [of v']) (auto simp: exchanged_def)
qed

section \<open>The contract of swapping\<close>

locale page_store =
  fixes ok :: "'s \<Rightarrow> bool" and valid :: "'s \<Rightarrow> 'i \<Rightarrow> bool" and page :: "'s \<Rightarrow> 'i \<Rightarrow> 'p" and pair :: "'i \<Rightarrow> 'i \<Rightarrow> bool"
    and swap :: "'i \<Rightarrow> 'i \<Rightarrow> 's \<Rightarrow> 's option"
  assumes swap_ok: "ok s \<Longrightarrow> valid s a \<Longrightarrow> valid s b \<Longrightarrow> pair a b \<Longrightarrow>
    \<exists>s'. swap a b s = Some s' \<and> ok s' \<and> (\<forall>x. valid s' x = valid s x) \<and>
      (\<forall>x. valid s x \<longrightarrow> page s' x = page s (if x = a then b else if x = b then a else x))"

fun swaps :: "('i \<Rightarrow> 'i \<Rightarrow> 's \<Rightarrow> 's option) \<Rightarrow> ('i \<times> 'i) list \<Rightarrow> 's \<Rightarrow> 's option" where
  "swaps sw [] s = Some s"
| "swaps sw ((a, b) # ps) s = (case sw a b s of None \<Rightarrow> None | Some s \<Rightarrow> swaps sw ps s)"

context page_store
begin

text \<open>Any number of swaps only rearranges the pages.\<close>

lemma swaps_permute:
  assumes "ok s" "\<forall>(a, b) \<in> set ps. valid s a \<and> valid s b \<and> pair a b"
  shows "\<exists>s' f. swaps swap ps s = Some s' \<and> ok s' \<and> bij_betw f {x. valid s x} {x. valid s x} \<and> (\<forall>x. valid s x \<longrightarrow> page s' x = page s (f x))"
  using assms
proof (induction ps arbitrary: s)
  case Nil
  then show ?case by (intro exI [of _ s] exI [of _ id]) (auto simp: bij_betw_def)
next
  case (Cons p ps)
  obtain a b where p: "p = (a, b)" by (cases p)
  let ?e = "\<lambda>x. if x = a then b else if x = b then a else x"
  have ab: "valid s a" "valid s b" "pair a b" using Cons.prems(2) p by auto
  obtain s1 where s1: "swap a b s = Some s1" "ok s1" "\<forall>x. valid s1 x = valid s x" "\<forall>x. valid s x \<longrightarrow> page s1 x = page s (?e x)"
    using swap_ok [OF Cons.prems(1) ab] by blast
  have "\<forall>(a, b) \<in> set ps. valid s1 a \<and> valid s1 b \<and> pair a b" using Cons.prems(2) s1(3) by auto
  then obtain s' f where f: "swaps swap ps s1 = Some s'" "ok s'" "bij_betw f {x. valid s x} {x. valid s x}" "\<forall>x. valid s x \<longrightarrow> page s' x = page s1 (f x)"
    using Cons.IH [OF s1(2)] s1(3) by auto
  have v: "valid s (f x)" if "valid s x" for x using f(3) that by (auto simp: bij_betw_def)
  have "bij_betw ?e {x. valid s x} {x. valid s x}" by (rule bij_betw_byWitness [where f' = ?e]) (use ab in auto)
  then have "bij_betw (?e \<circ> f) {x. valid s x} {x. valid s x}" using f(3) by (rule bij_betw_trans [rotated])
  moreover have "\<forall>x. valid s x \<longrightarrow> page s' x = page s ((?e \<circ> f) x)" using f(4) s1(4) v by auto
  moreover have "swaps swap (p # ps) s = Some s'" using s1(1) f(1) p by simp
  ultimately show ?case using f(2) by blast
qed

end

fun swap_slots :: "slot \<Rightarrow> slot \<Rightarrow> vm \<Rightarrow> vm option" where
  "swap_slots (Mem i) (Mem j) v = pageSwap i j v"
| "swap_slots (Mem i) (Disk j) v = swapToMemFromDisk i j v"
| "swap_slots (Disk i) s v = None"

interpretation pg: page_store vm_ok slot_ok slot_at "\<lambda>a b. \<exists>i. a = Mem i" swap_slots
proof
  fix v a b assume ok: "vm_ok v" and ab: "slot_ok v a" "slot_ok v b" and "\<exists>i. a = Mem i"
  then obtain i where a: "a = Mem i" by blast
  show "\<exists>v'. swap_slots a b v = Some v' \<and> vm_ok v' \<and> (\<forall>x. slot_ok v' x = slot_ok v x) \<and>
      (\<forall>x. slot_ok v x \<longrightarrow> slot_at v' x = slot_at v (if x = a then b else if x = b then a else x))"
  proof (cases b)
    case (Mem j)
    have ij: "i < npages v" "j < npages v" using ab a Mem by auto
    show ?thesis by (rule pageSwap_slots [OF ok ij]) (use a Mem same_vm_slot_ok in \<open>auto simp: exch_def exchanged_def\<close>)
  next
    case (Disk j)
    have ij: "i < npages v" "j < ndisk v" using ab a Disk by auto
    show ?thesis by (rule swapToMemFromDisk_slots [OF ok ij]) (use a Disk same_vm_slot_ok in \<open>auto simp: exch_def exchanged_def\<close>)
  qed
qed

section \<open>The signal handler\<close>

lemma hold_timer_ok:
  assumes "scd_up (sc v)"
  obtains v1 where "hold_timer v = Some v1" "hp v1 = hp v" "diskPages v1 = diskPages v" "swpFile v1 = swpFile v" "pages (sc v1) = pages (sc v)"
    "pthreads (sc v1) = pthreads (sc v)" "nodes (sc v1) = nodes (sc v)" "current (sc v1) = current (sc v)" "scd_up (sc v1)" "timerSet (sc v1) = timerSet (sc v)"
    "prot (sc v1) = prot (sc v)"
  using assms by (cases "timerSet (sc v)") (auto simp: hold_timer_def pause_timer_same intro: that)

lemma resume_timer_ok:
  assumes "scd_up (sc v)"
  obtains v1 where "resume_timer v = Some v1" "hp v1 = hp v" "diskPages v1 = diskPages v" "swpFile v1 = swpFile v" "pages (sc v1) = pages (sc v)"
    "pthreads (sc v1) = pthreads (sc v)" "nodes (sc v1) = nodes (sc v)" "current (sc v1) = current (sc v)" "scd_up (sc v1)" "timerSet (sc v1) = timerSet (sc v)"
    "prot (sc v1) = prot (sc v)"
  using assms by (cases "timerSet (sc v)") (auto simp: resume_timer_def unpause_timer_same intro: that)

lemma slot_at_cong:
  assumes "hp v' = hp v" "diskPages v' = diskPages v" "swpFile v' = swpFile v" "pages (sc v') = pages (sc v)"
  shows "slot_at v' s = slot_at v s" "npages v' = npages v" "ndisk v' = ndisk v" "userSpace v' = userSpace v" "slot_ok v' s = slot_ok v s"
  using assms by (cases s; simp add: npages_def ndisk_def userSpace_def)+

lemma finish_handler:
  assumes e: "exchanged a b v v2"
  obtains v' where "resume_timer (mprotect index True v2) = Some v'" "exchanged a b v v'" "prot (sc v') = (prot (sc v2))(index := True)"
proof -
  have up: "scd_up (sc (mprotect index True v2))" using e by (simp add: vm_ok_def exchanged_def)
  let ?w = "mprotect index True v2"
  obtain v' where v': "resume_timer ?w = Some v'" "hp v' = hp ?w" "diskPages v' = diskPages ?w" "swpFile v' = swpFile ?w" "pages (sc v') = pages (sc ?w)"
    "pthreads (sc v') = pthreads (sc ?w)" "nodes (sc v') = nodes (sc ?w)" "current (sc v') = current (sc ?w)" "scd_up (sc v')" "timerSet (sc v') = timerSet (sc ?w)"
    "prot (sc v') = prot (sc ?w)"
    by (rule resume_timer_ok [OF up]) (rule that)
  note c = slot_at_cong [of v' v2]
  have "vm_ok v'" using e v' c by (simp add: vm_ok_def exchanged_def)
  moreover have "same_vm v v'" using e v' up by (auto simp: same_vm_def exchanged_def vm_ok_def)
  moreover have "slot_at v' s = slot_at v2 s" for s using v' by (intro c(1)) simp_all
  ultimately show thesis using e v' by (intro that [of v']) (auto simp: exchanged_def)
qed

text \<open>Where the handler finds a page.\<close>

definition home :: "uint32 \<Rightarrow> nat \<Rightarrow> vm \<Rightarrow> slot option" where
  "home t k v =
     (case in_memory_at t k v of
        Some i \<Rightarrow> Some (Mem i)
      | None \<Rightarrow> map_option Disk (on_disk_at t k v))"

lemma home_ok: "home t k v = Some s \<Longrightarrow> slot_ok v s"
  by (auto simp: home_def in_memory_at_def on_disk_at_def first_from_Some split: option.splits)

definition owner :: "vm \<Rightarrow> uint32" where
  "owner v = word_of_int (tid (pthreads (sc v) (threadID (nodes (sc v) (current (sc v))))))"

lemma pages_in_memory: "0 < npages v \<Longrightarrow> page_addr v (npages v) \<le> memory (hp v) + PT_MAX_MEMORY"
proof -
  assume "0 < npages v"
  then have "LIBPAGES + npages v = PT_MAX_MEMORY div PAGESIZE (hp v)" by (simp add: npages_def)
  then have "(LIBPAGES + npages v) * PAGESIZE (hp v) \<le> PT_MAX_MEMORY" by (metis div_times_less_eq_dividend)
  then show ?thesis by (simp add: userSpace_def algebra_simps)
qed

lemma sigHandler_home:
  assumes ok: "vm_ok v" and th: "current_thread v = Some th" and a: "userSpace v \<le> a" "a < page_addr v (npages v)"
  shows "home (owner v) (page_of v a) v = None \<Longrightarrow> sigHandler a v = Some ExitSegfault"
    "home (owner v) (page_of v a) v = Some s \<Longrightarrow> \<exists>v'. sigHandler a v = Some (Resumes v') \<and> exchanged (Mem (page_of v a)) s v v' \<and>
       (\<forall>k. prot (sc v') k \<longleftrightarrow> k = page_of v a \<or> (s \<noteq> Mem k \<and> prot (sc v) k))"
proof -
  let ?x = "page_of v a" and ?t = "owner v"
  have up: "scd_up (sc v)" and pos: "0 < PAGESIZE (hp v)" using ok by (simp_all add: vm_ok_def)
  obtain v1 where v1: "hold_timer v = Some v1" "hp v1 = hp v" "diskPages v1 = diskPages v" "swpFile v1 = swpFile v" "pages (sc v1) = pages (sc v)"
    "pthreads (sc v1) = pthreads (sc v)" "nodes (sc v1) = nodes (sc v)" "current (sc v1) = current (sc v)" "scd_up (sc v1)" "timerSet (sc v1) = timerSet (sc v)"
    "prot (sc v1) = prot (sc v)"
    by (rule hold_timer_ok [OF up]) (rule that)
  note c = slot_at_cong [OF v1(2-5)]
  have ok1: "vm_ok v1" using ok v1 c by (simp add: vm_ok_def)
  have ex: "exchanged p q v w" if "exchanged p q v1 w" for p q w
    using that c v1 up by (auto simp: exchanged_def same_vm_def)
  have th1: "current_thread v1 = Some th" "th = threadID (nodes (sc v) (current (sc v)))"
    using th v1 up by (auto simp: current_thread_def split: if_split_asm)
  have ix: "?x < npages v1" using a pos c unfolding page_of_def by (simp add: div_less_iff_less_mult mult.commute add.commute less_diff_conv2)
  have f: "in_memory_at ?t ?x v1 = in_memory_at ?t ?x v" "on_disk_at ?t ?x v1 = on_disk_at ?t ?x v"
    by (simp_all add: in_memory_at_def on_disk_at_def v1 c)
  have lim: "\<not> a < memory (hp v)" "\<not> memory (hp v) + PT_MAX_MEMORY < a" "\<not> a < userSpace v"
    using a pages_in_memory [of v] by (auto simp: userSpace_def gr0_conv_Suc) (cases "npages v"; simp)+
  let ?done = "\<lambda>w. map_option Resumes (resume_timer (mprotect ?x True w))"
  have e: "sigHandler a v = (case home ?t ?x v of None \<Rightarrow> Some ExitSegfault
      | Some (Mem i) \<Rightarrow> (case (if i \<noteq> ?x then pageSwap ?x i v1 else Some v1) of None \<Rightarrow> None | Some v \<Rightarrow> ?done v)
      | Some (Disk i) \<Rightarrow> (case swapToMemFromDisk ?x i v1 of None \<Rightarrow> None | Some v \<Rightarrow> ?done v))"
    using v1(1,2,6) th1 lim c(4) f unfolding sigHandler_def page_of_def owner_def
    by (simp add: Let_def home_def cong: option.case_cong) (simp split: option.split)
  show "sigHandler a v = Some ExitSegfault" if "home ?t ?x v = None" using e that by simp
  assume h: "home ?t ?x v = Some s"
  then have s: "slot_ok v1 s" using home_ok c by simp
  show "\<exists>v'. sigHandler a v = Some (Resumes v') \<and> exchanged (Mem ?x) s v v' \<and> (\<forall>k. prot (sc v') k \<longleftrightarrow> k = ?x \<or> (s \<noteq> Mem k \<and> prot (sc v) k))"
  proof (cases s)
    case (Mem i)
    then have i: "i < npages v1" using s by simp
    obtain v2 where v2: "pageSwap ?x i v1 = Some v2" "exchanged (Mem ?x) (Mem i) v1 v2"
      "prot (sc v2) = (if ?x = i then prot (sc v1) else (prot (sc v1))(?x := False, i := False))"
      by (rule pageSwap_slots [OF ok1 ix i])
    obtain v3 where v3: "resume_timer (mprotect ?x True v2) = Some v3" "exchanged (Mem ?x) (Mem i) v v3" "prot (sc v3) = (prot (sc v2))(?x := True)"
      by (rule finish_handler [OF ex [OF v2(2)]])
    have p: "(if i \<noteq> ?x then pageSwap ?x i v1 else Some v1) = pageSwap ?x i v1" by (simp add: pageSwap_def)
    have "sigHandler a v = Some (Resumes v3)" unfolding e h Mem option.case slot.case p by (simp add: v2 v3)
    then show ?thesis using v3 v2(3) v1(11) Mem by auto
  next
    case (Disk i)
    then have i: "i < ndisk v1" using s by simp
    obtain v2 where v2: "swapToMemFromDisk ?x i v1 = Some v2" "exchanged (Mem ?x) (Disk i) v1 v2" "prot (sc v2) = (prot (sc v1))(?x := False)"
      by (rule swapToMemFromDisk_slots [OF ok1 ix i])
    obtain v3 where v3: "resume_timer (mprotect ?x True v2) = Some v3" "exchanged (Mem ?x) (Disk i) v v3" "prot (sc v3) = (prot (sc v2))(?x := True)"
      by (rule finish_handler [OF ex [OF v2(2)]])
    have "sigHandler a v = Some (Resumes v3)" unfolding e h Disk option.case slot.case by (simp add: v2 v3)
    then show ?thesis using v3 v2(3) v1(11) Disk by auto
  qed
qed

text \<open>
  An access of a thread to a user page faults.  If the thread has that page, in memory or in the
  swap file, the handler exchanges it with the page in its place and makes it accessible; otherwise
  the process ends.  No other slot changes and no page is lost.
\<close>

theorem sigHandler_brings_page:
  assumes "vm_ok v" "current_thread v = Some th" "userSpace v \<le> a" "a < page_addr v (npages v)"
  shows "case home (owner v) (page_of v a) v of
      Some s \<Rightarrow> \<exists>v'. sigHandler a v = Some (Resumes v') \<and> accessible v' a \<and> slot_at v' (Mem (page_of v a)) = slot_at v s \<and>
        (\<forall>x. slot_ok v x \<longrightarrow> slot_at v' x = slot_at v (exch (Mem (page_of v a)) s x))
    | None \<Rightarrow> sigHandler a v = Some ExitSegfault"
proof (cases "home (owner v) (page_of v a) v")
  case None
  then show ?thesis using sigHandler_home(1) [OF assms] by simp
next
  case (Some s)
  obtain v' where v': "sigHandler a v = Some (Resumes v')" "exchanged (Mem (page_of v a)) s v v'" "prot (sc v') (page_of v a)"
    using sigHandler_home(2) [OF assms Some] by blast
  have "slot_ok v (Mem (page_of v a))"
    using assms(1,3,4) by (simp add: page_of_def vm_ok_def div_less_iff_less_mult mult.commute add.commute less_diff_conv2)
  then have "slot_at v' (Mem (page_of v a)) = slot_at v s" using v'(2) unfolding exchanged_def exch_def by metis
  moreover have "accessible v' a" using v'(2,3) same_vm_sizes [of v v'] by (simp add: accessible_def page_of_def exchanged_def same_vm_def)
  ultimately show ?thesis using Some v'(1,2) unfolding exchanged_def by auto
qed

text \<open>Two user pages are in use, with entries \<open>x\<close> and \<open>y\<close>, and protected; thread 2 runs and has had \<open>c\<close> pages.\<close>

definition demo_at :: "int \<Rightarrow> uint32 \<Rightarrow> uint32 \<Rightarrow> bytes \<Rightarrow> vm" where
  "demo_at c x y m = \<lparr>hp = \<lparr>PAGESIZE = 4096, memory = 4096, pt_bytes = m, pt_root = 4096, rootBlockD = 0, pt_out = []\<rparr>,
     sc = (upd_thread 200 (pageNum_update (\<lambda>_. c)) (demo NEUTRAL True 0))\<lparr>pages := x # y # replicate 1846 1, prot := (\<lambda>i. 2 \<le> i)\<rparr>, diskPages = replicate 4096 1, swpFile = (\<lambda>_. 0)\<rparr>"

abbreviation demo_pages :: "uint32 \<Rightarrow> uint32 \<Rightarrow> bytes \<Rightarrow> vm" where
  "demo_pages \<equiv> demo_at 1"

text \<open>
  Page 0 of thread 3 is in place, page 0 of the running thread 2 is in the next slot and starts with
  the header of one free block of 4092 bytes.
\<close>

abbreviation demo_vm :: vm where
  "demo_vm \<equiv> demo_pages 0x300 0x200 ((\<lambda>_. 0)(827392 := 0x01, 827393 := 0xFC, 827394 := 0x0F))"

lemma demo_vm_simps [simp]:
  "PAGESIZE (hp (demo_at c x y m)) = 4096" "memory (hp (demo_at c x y m)) = 4096" "pt_bytes (hp (demo_at c x y m)) = m" "npages (demo_at c x y m) = 1848"
  "ndisk (demo_at c x y m) = 4096" "userSpace (demo_at c x y m) = 823296" "pages (sc (demo_at c x y m)) = x # y # replicate 1846 1"
  "diskPages (demo_at c x y m) = replicate 4096 1" "current_thread (demo_at c x y m) = Some 200" "tid (pthreads (sc (demo_at c x y m)) 200) = 2" "pageNum (pthreads (sc (demo_at c x y m)) 200) = c"
  "scd_up (sc (demo_at c x y m))" "prot (sc (demo_at c x y m)) i = (2 \<le> i)" "owner (demo_at c x y m) = 2" "page_of (demo_at c x y m) a = (a - 823296) div 4096"
  by (simp_all add: demo_at_def upd_thread_def npages_def ndisk_def userSpace_def PT_MAX_MEMORY_def LIBPAGES_def DISK_MEMORY_def current_thread_def owner_def page_of_def)

lemma demo_vm_ok: "vm_ok (demo_at c x y m)"
  by (simp add: vm_ok_def)

lemma demo_words [simp]:
  "getPageIsF 0x300 = 0" "getPageThID 0x300 = 3" "getPagePgID 0x300 = 0" "getPageIsF 0x200 = 0" "getPageThID 0x200 = 2" "getPagePgID 0x200 = 0"
  "getPageIsF 0x400 = 0" "getPageThID 0x400 = 4" "getPagePgID 0x400 = 0" "getPageIsF 1 = 1" "getPageThID 1 = 0" "getPagePgID 1 = 0"
  by (simp_all add: page_word_defs)

lemma demo_home: "home 2 0 demo_vm = Some (Mem 1)"
proof -
  have "in_memory_at 2 0 demo_vm = Some 1" by (auto simp: in_memory_at_def first_from_Some)
  then show ?thesis by (simp add: home_def)
qed

theorem sigHandler_brings_page_witness:
  "\<exists>v'. sigHandler 823300 demo_vm = Some (Resumes v') \<and> accessible v' 823300 \<and> slot_at v' (Mem 0) = slot_at demo_vm (Mem 1)"
  using sigHandler_brings_page [of demo_vm 200 823300, OF demo_vm_ok] by (auto simp: PT_MAX_MEMORY_def demo_home)

text \<open>
  Any sequence of page swaps, between user pages or with slots of the swap file, only rearranges
  the pages: afterwards every slot holds exactly one of the old pages, with its table entry.
\<close>

theorem page_swaps_rearrange:
  assumes "vm_ok v" "\<forall>(a, b) \<in> set ps. slot_ok v a \<and> slot_ok v b \<and> (\<exists>i. a = Mem i)"
  shows "\<exists>v' f. swaps swap_slots ps v = Some v' \<and> vm_ok v' \<and> bij_betw f {s. slot_ok v s} {s. slot_ok v s} \<and>
    (\<forall>s. slot_ok v s \<longrightarrow> slot_at v' s = slot_at v (f s))"
  using pg.swaps_permute [OF assms(1)] assms(2) by blast

theorem page_swaps_rearrange_witness:
  "\<exists>v' f. swaps swap_slots [(Mem 0, Mem 1), (Mem 1, Disk 7)] demo_vm = Some v' \<and> (\<forall>s. slot_ok demo_vm s \<longrightarrow> slot_at v' s = slot_at demo_vm (f s))"
  using page_swaps_rearrange [of demo_vm "[(Mem 0, Mem 1), (Mem 1, Disk 7)]", OF demo_vm_ok] by auto

section \<open>Making room\<close>

text \<open>
  The page at \<open>index\<close> was copied with its entry to the free slot \<open>d\<close>, the lowest of memory if there is
  one, and its place marked free, or that slot is the place itself.
\<close>

definition vacated :: "nat \<Rightarrow> slot \<Rightarrow> vm \<Rightarrow> vm \<Rightarrow> bool" where
  "vacated index d v v' \<longleftrightarrow> vm_ok v' \<and> same_vm v v' \<and> slot_ok v d \<and> getPageIsF (fst (slot_at v d)) = 1 \<and>
     (\<forall>i < npages v. getPageIsF (fst (slot_at v (Mem i))) = 1 \<longrightarrow> (\<exists>j \<le> i. d = Mem j)) \<and>
     (d \<noteq> Mem index \<longrightarrow> slot_at v' d = slot_at v (Mem index)) \<and> (\<forall>s. slot_ok v s \<and> s \<noteq> d \<and> s \<noteq> Mem index \<longrightarrow> slot_at v' s = slot_at v s) \<and>
     snd (slot_at v' (Mem index)) = snd (slot_at v (Mem index)) \<and>
     (\<forall>k. prot (sc v') k \<longleftrightarrow> (if Mem k = d \<and> k \<noteq> index then False else k = index \<or> prot (sc v) k))"

definition full :: "vm \<Rightarrow> bool" where
  "full v \<longleftrightarrow> (\<forall>s. slot_ok v s \<longrightarrow> getPageIsF (fst (slot_at v s)) \<noteq> 1)"

lemma isF_set [simp]: "getPageIsF (setPageIsF w 1) = 1"
  using page_word.same(3) [of 1 w] by simp

lemma moveToFreeSpace_slots:
  assumes ok: "vm_ok v" and ix: "index < npages v" and fr: "\<And>i. i < npages v \<Longrightarrow> getPageIsF (pages (sc v) ! i) = 1 \<Longrightarrow> prot (sc v) i"
  obtains "\<forall>i < npages v. getPageIsF (pages (sc v) ! i) \<noteq> 1" "moveToFreeSpace index v = Some (False, v)"
  | v' d where "moveToFreeSpace index v = Some (True, v')" "vacated index d v v'"
proof (cases "first_from (\<lambda>k. getPageIsF (pages (sc v) ! k) = 1) 0 (npages v)")
  case None
  then have "\<forall>i < npages v. getPageIsF (pages (sc v) ! i) \<noteq> 1" by (auto simp: first_from_None)
  moreover have "moveToFreeSpace index v = Some (False, v)" by (simp add: moveToFreeSpace_def None)
  ultimately show thesis by (rule that(1))
next
  case (Some i)
  then have i: "i < npages v" "getPageIsF (pages (sc v) ! i) = 1" and lo: "\<And>j. j < npages v \<Longrightarrow> getPageIsF (pages (sc v) ! j) = 1 \<Longrightarrow> i \<le> j"
    by (auto simp: first_from_Some not_less [symmetric])
  show thesis
  proof (cases "i = index")
    case True
    then have "vacated index (Mem i) v v" using i lo ok same_vm_refl fr [OF i] by (auto simp: vacated_def)
    then show thesis using that(2) True Some by (simp add: moveToFreeSpace_def)
  next
    case False
    let ?n = "PAGESIZE (hp v)" and ?m = "pt_bytes (hp v)"
    have len: "i < length (pages (sc v))" "index < length (pages (sc v))" using ok ix i by (auto simp: vm_ok_def)
    have "0 < ?n" using i(1) by (auto simp: npages_def intro: Nat.gr0I)
    then have copy: "copy_faults (page_addr v index) (page_addr v i) (set_entry i (pages (sc v) ! index) (mprotect index True v)) = Some (set_entry i (pages (sc v) ! index) (mprotect index True v))"
      using fr [OF i] by (subst copy_faults.simps) (simp add: accessible_def page_of_def)
    obtain v' where v': "moveToFreeSpace index v = Some (True, v')"
      "hp v' = (hp v)\<lparr>pt_bytes := put_page ?m (page_addr v i) ?n (get_page ?m (page_addr v index) ?n)\<rparr>"
      "pages (sc v') = (pages (sc v))[i := pages (sc v) ! index, index := setPageIsF (pages (sc v) ! index) 1]" "diskPages v' = diskPages v" "swpFile v' = swpFile v"
      "scd_up (sc v') = scd_up (sc v)" "pthreads (sc v') = pthreads (sc v)" "nodes (sc v') = nodes (sc v)" "current (sc v') = current (sc v)" "timerSet (sc v') = timerSet (sc v)"
      "prot (sc v') = (prot (sc v))(index := True, i := False)"
      using False Some ix len copy by (simp add: moveToFreeSpace_def Let_def)
    have same: "same_vm v v'" using v' by (simp add: same_vm_def put_page_def)
    have sz: "npages v' = npages v" "ndisk v' = ndisk v" "userSpace v' = userSpace v" using same_vm_sizes [OF same] by auto
    have g: "get_page (pt_bytes (hp v')) (page_addr v k) ?n = get_page ?m (page_addr v (if k = i then index else k)) ?n" for k
      using pages_apart [of i k ?n] by (auto simp: v'(2) get_put_other)
    have s: "slot_at v' (Mem i) = slot_at v (Mem index)" "s \<noteq> Mem i \<Longrightarrow> s \<noteq> Mem index \<Longrightarrow> slot_at v' s = slot_at v s" for s
      using False len g by (auto simp: v' sz nth_list_update) (cases s; simp add: v' sz nth_list_update g)+
    have "vm_ok v'" using ok sz v' by (simp add: vm_ok_def)
    moreover have "snd (slot_at v' (Mem index)) = snd (slot_at v (Mem index))" using g [of index] False by (simp add: sz v'(2))
    ultimately have "vacated index (Mem i) v v'" using same s i lo False unfolding vacated_def v'(11) by simp
    then show thesis using that(2) v'(1) by blast
  qed
qed

lemma moveToDiskSpace_slots:
  assumes ok: "vm_ok v" and ix: "index < npages v" and nm: "\<forall>i < npages v. getPageIsF (pages (sc v) ! i) \<noteq> 1"
  obtains v' where "\<forall>i < ndisk v. getPageIsF (diskPages v ! i) \<noteq> 1" "moveToDiskSpace index v = Some (False, v')"
      "same_vm v v'" "vm_ok v'" "\<forall>s. slot_at v' s = slot_at v s" "prot (sc v') = prot (sc v)"
  | v' d where "moveToDiskSpace index v = Some (True, v')" "vacated index d v v'"
proof (cases "first_from (\<lambda>k. getPageIsF (diskPages v ! k) = 1) 0 (ndisk v)")
  case None
  let ?v = "v\<lparr>sc := unpause_timer (pause_timer (sc v))\<rparr>"
  have n: "\<forall>i < ndisk v. getPageIsF (diskPages v ! i) \<noteq> 1" using None by (auto simp: first_from_None)
  have e: "moveToDiskSpace index v = Some (False, ?v)" using None ok by (simp add: moveToDiskSpace_def vm_ok_def)
  have "slot_at ?v s = slot_at v s" for s by (rule slot_at_cong) (simp_all add: pause_timer_same unpause_timer_same)
  then show thesis using ok by (intro that(1) [OF n e]) (simp_all add: same_vm_def vm_ok_def pause_timer_same unpause_timer_same)
next
  case (Some i)
  then have i: "i < ndisk v" "getPageIsF (diskPages v ! i) = 1" by (auto simp: first_from_Some)
  let ?n = "PAGESIZE (hp v)" and ?m = "pt_bytes (hp v)"
  have len: "i < length (diskPages v)" "index < length (pages (sc v))" and up: "scd_up (sc v)" using ok ix i by (auto simp: vm_ok_def)
  obtain v' where v': "moveToDiskSpace index v = Some (True, v')" "hp v' = hp v" "swpFile v' = put_page (swpFile v) (?n * i) ?n (get_page ?m (page_addr v index) ?n)"
    "pages (sc v') = (pages (sc v))[index := setPageIsF (pages (sc v) ! index) 1]" "diskPages v' = (diskPages v)[i := pages (sc v) ! index]"
    "scd_up (sc v') = scd_up (sc v)" "pthreads (sc v') = pthreads (sc v)" "nodes (sc v') = nodes (sc v)" "current (sc v') = current (sc v)" "timerSet (sc v') = timerSet (sc v)"
    "prot (sc v') = (prot (sc v))(index := True)"
    using Some ix len up by (simp add: moveToDiskSpace_def Let_def unpause_timer_same pause_timer_same)
  have same: "same_vm v v'" using v' by (simp add: same_vm_def)
  have sz: "npages v' = npages v" "ndisk v' = ndisk v" "userSpace v' = userSpace v" using same_vm_sizes [OF same] by auto
  have f: "get_page (swpFile v') (?n * k) ?n = (if k = i then get_page ?m (page_addr v index) ?n else get_page (swpFile v) (?n * k) ?n)" for k
    using pages_apart [of i k ?n] by (auto simp: v'(3) get_put_other)
  have s: "slot_at v' (Disk i) = slot_at v (Mem index)" using len f by (simp add: v'(2,5))
  have o: "slot_at v' s = slot_at v s" if "s \<noteq> Disk i" "s \<noteq> Mem index" for s using that f by (cases s) (simp_all add: v'(2,4,5) sz)
  have "vm_ok v'" using ok sz v' by (simp add: vm_ok_def)
  moreover have "snd (slot_at v' (Mem index)) = snd (slot_at v (Mem index))" by (simp add: sz v'(2))
  ultimately have "vacated index (Disk i) v v'" using same s o i nm unfolding vacated_def v'(11) by simp
  then show thesis using that(2) v'(1) by blast
qed

text \<open>
  The page in the way goes to a free slot, of memory if there is one and else of the swap file; only
  when both are full does making room fail, and then nothing has changed.
\<close>

lemma makeRoom_slots:
  assumes ok: "vm_ok v" and ix: "index < npages v" and fr: "\<And>i. i < npages v \<Longrightarrow> getPageIsF (pages (sc v) ! i) = 1 \<Longrightarrow> prot (sc v) i"
  obtains v' where "full v" "makeRoom index v = Some (False, v')" "same_vm v v'" "vm_ok v'" "\<forall>s. slot_at v' s = slot_at v s"
  | v' d where "\<not> full v" "makeRoom index v = Some (True, v')" "vacated index d v v'"
proof -
  have nf: "\<not> full v" if "vacated index d v v'" for d v' using that by (auto simp: vacated_def full_def)
  show thesis
  proof (rule moveToFreeSpace_slots [OF assms])
    assume m: "\<forall>i < npages v. getPageIsF (pages (sc v) ! i) \<noteq> 1" "moveToFreeSpace index v = Some (False, v)"
    show thesis
    proof (rule moveToDiskSpace_slots [OF ok ix m(1)])
      fix v' assume d: "\<forall>i < ndisk v. getPageIsF (diskPages v ! i) \<noteq> 1" "moveToDiskSpace index v = Some (False, v')" "same_vm v v'" "vm_ok v'" "\<forall>s. slot_at v' s = slot_at v s"
      have "getPageIsF (fst (slot_at v s)) \<noteq> 1" if "slot_ok v s" for s using that m(1) d(1) by (cases s) auto
      then show thesis using that(1) m(2) d(2-) by (simp add: full_def makeRoom_def)
    qed (use that(2) nf m(2) in \<open>auto simp: makeRoom_def\<close>)
  qed (use that(2) nf in \<open>auto simp: makeRoom_def\<close>)
qed

end
