(* ===== verification/PtVirtual.thy ===== *)
theory PtVirtual
  imports PtPageProps
begin

text \<open>
  Every thread's own memory under demand paging.  The slots of memory and swap file hold the pages of
  all threads; \<open>virt\<close> is the page the handler would bring for a thread and a page number, \<open>vbytes\<close>
  the thread's memory made of them.  Faults rearrange slots and leave every thread's memory as it
  is; an access that returns sees the thread's own byte.  So the loops of the thread allocator, which
  run over real memory, compute what the library's loops compute over the thread's memory.
\<close>

section \<open>Whose page is where\<close>

declare slot_at.simps [simp del]

abbreviation entry :: "vm \<Rightarrow> slot \<Rightarrow> uint32" where
  "entry v s \<equiv> fst (slot_at v s)"

definition lives :: "vm \<Rightarrow> uint32 \<Rightarrow> nat \<Rightarrow> slot \<Rightarrow> bool" where
  "lives v t k s \<longleftrightarrow> slot_ok v s \<and> getPageIsF (entry v s) = 0 \<and> getPageThID (entry v s) = t \<and> getPagePgID (entry v s) = of_nat k"

text \<open>
  The pages of the threads in \<open>T\<close>: a free page in memory does not name a thread of \<open>T\<close>, no page has two
  homes, and page numbers are those of user pages.
\<close>

definition paged :: "uint32 set \<Rightarrow> vm \<Rightarrow> bool" where
  "paged T v \<longleftrightarrow> vm_ok v \<and>
     (\<forall>i < npages v. getPageIsF (entry v (Mem i)) \<noteq> 0 \<longrightarrow> getPageThID (entry v (Mem i)) \<notin> T) \<and>
     (\<forall>t \<in> T. \<forall>k s s'. lives v t k s \<longrightarrow> lives v t k s' \<longrightarrow> s = s') \<and>
     (\<forall>s. slot_ok v s \<and> getPageIsF (entry v s) = 0 \<and> getPageThID (entry v s) \<in> T \<longrightarrow> unat (getPagePgID (entry v s)) < npages v)"

text \<open>
  What the running thread may touch without a fault: its own pages in place, or free pages whose
  number no thread has.
\<close>

definition shielded :: "uint32 set \<Rightarrow> uint32 \<Rightarrow> vm \<Rightarrow> bool" where
  "shielded T t v \<longleftrightarrow> (\<forall>k < npages v. prot (sc v) k \<longrightarrow>
     lives v t k (Mem k) \<or> (getPageIsF (entry v (Mem k)) \<noteq> 0 \<and> (\<forall>u \<in> T. \<forall>s. \<not> lives v u k s)))"

definition virt :: "uint32 \<Rightarrow> nat \<Rightarrow> vm \<Rightarrow> bytes option" where
  "virt t k v = map_option (\<lambda>s. snd (slot_at v s)) (home t k v)"

lemma home_at:
  assumes p: "paged T v" and t: "t \<in> T"
  shows "home t k v = Some s \<longleftrightarrow> lives v t k s"
proof -
  have m: "in_memory_at t k v = Some i \<Longrightarrow> lives v t k (Mem i)" for i
    using p t by (auto simp: in_memory_at_def first_from_Some lives_def paged_def slot_at.simps)
  have m0: "in_memory_at t k v = None \<Longrightarrow> \<not> lives v t k (Mem i)" for i
    by (auto simp: in_memory_at_def first_from_None lives_def slot_at.simps)
  have d: "on_disk_at t k v = Some i \<Longrightarrow> lives v t k (Disk i)" for i
    by (auto simp: on_disk_at_def first_from_Some lives_def slot_at.simps)
  have d0: "on_disk_at t k v = None \<Longrightarrow> \<not> lives v t k (Disk i)" for i
    by (auto simp: on_disk_at_def first_from_None lives_def slot_at.simps)
  have one: "lives v t k s \<Longrightarrow> lives v t k s' \<Longrightarrow> s = s'" for s s' using p t by (auto simp: paged_def)
  show ?thesis
  proof (cases "in_memory_at t k v")
    case (Some i)
    then show ?thesis using one [OF m [OF Some], of s] m by (auto simp: home_def)
  next
    case None
    show ?thesis
    proof (cases "on_disk_at t k v")
      case (Some i)
      then show ?thesis using one [OF d [OF Some], of s] d None by (auto simp: home_def)
    next
      case n: None
      then show ?thesis using m0 [OF None] d0 [OF n] None by (cases s) (auto simp: home_def)
    qed
  qed
qed

lemma home_None:
  assumes "paged T v" "t \<in> T"
  shows "home t k v = None \<longleftrightarrow> (\<forall>s. \<not> lives v t k s)"
  using home_at [OF assms] by (metis option.exhaust option.distinct(1))

section \<open>Rearranging\<close>

text \<open>Exchanging two slots moves every page, its owner and its contents along.\<close>

lemma lives_exchanged:
  assumes "exchanged a b v v'" "slot_ok v a" "slot_ok v b"
  shows "lives v' t k s \<longleftrightarrow> lives v t k (exch a b s)"
  using assms exch_ok [OF assms(2,3), of s] same_vm_slot_ok [of v v' s] by (auto simp: lives_def exchanged_def)

lemma paged_exchanged:
  assumes p: "paged T v" and e: "exchanged a b v v'" and ab: "slot_ok v a" "slot_ok v b"
    and fr: "\<And>i. i < npages v \<Longrightarrow> (\<exists>j. exch a b (Mem i) = Mem j) \<or> getPageIsF (entry v (exch a b (Mem i))) = 0"
  shows "paged T v'" "\<And>t k. t \<in> T \<Longrightarrow> virt t k v' = virt t k v"
proof -
  have n: "npages v' = npages v" using same_vm_sizes e by (auto simp: exchanged_def)
  have sl: "slot_at v' s = slot_at v (exch a b s)" if "slot_ok v s" for s using e that by (simp add: exchanged_def)
  have f: "getPageThID (entry v' (Mem i)) \<notin> T" if i: "i < npages v" "getPageIsF (entry v' (Mem i)) \<noteq> 0" for i
  proof -
    have ei: "entry v' (Mem i) = entry v (exch a b (Mem i))" using sl [of "Mem i"] i(1) by simp
    then obtain j where j: "exch a b (Mem i) = Mem j" using fr [OF i(1)] i(2) by auto
    then have "j < npages v" using exch_ok [OF ab, of "Mem i"] i(1) by simp
    then show ?thesis using p i(2) unfolding ei j paged_def by blast
  qed
  have "s = s'" if "t \<in> T" "lives v' t k s" "lives v' t k s'" for t k s s'
  proof -
    have "exch a b s = exch a b s'" using that p unfolding lives_exchanged [OF e ab] paged_def by blast
    then show ?thesis by (metis exch_exch)
  qed
  moreover have "unat (getPagePgID (entry v' s)) < npages v" if "slot_ok v' s" "getPageIsF (entry v' s) = 0" "getPageThID (entry v' s) \<in> T" for s
  proof -
    have s: "slot_ok v s" "slot_ok v (exch a b s)" using that(1) e same_vm_slot_ok exch_ok [OF ab] by (auto simp: exchanged_def)
    then show ?thesis using that(2,3) p unfolding sl [OF s(1)] paged_def by blast
  qed
  ultimately show p': "paged T v'" using f e n by (auto simp: paged_def exchanged_def)
  show "virt t k v' = virt t k v" if t: "t \<in> T" for t k
  proof (cases "home t k v'")
    case None
    then have "\<forall>s. \<not> lives v t k s" unfolding home_None [OF p' t] lives_exchanged [OF e ab] by (metis exch_exch)
    then show ?thesis using None home_None [OF p t] by (simp add: virt_def)
  next
    case (Some s)
    then have a: "lives v' t k s" using home_at [OF p' t] by blast
    then have "home t k v = Some (exch a b s)" using home_at [OF p t] lives_exchanged [OF e ab] by blast
    moreover have "slot_ok v s" using a e same_vm_slot_ok by (auto simp: lives_def exchanged_def)
    ultimately show ?thesis using Some sl by (simp add: virt_def)
  qed
qed

section \<open>Faults\<close>

lemma npages_bound: "npages v < 2 ^ 32"
proof -
  have "npages v \<le> 8388608" using div_le_dividend [of 8388608 "PAGESIZE (hp v)"] unfolding npages_def PT_MAX_MEMORY_def by linarith
  then show ?thesis by simp
qed

lemma of_nat_page: "k < npages v \<Longrightarrow> j < npages v \<Longrightarrow> (of_nat k :: uint32) = of_nat j \<longleftrightarrow> k = j"
  using npages_bound [of v] by (simp add: word_of_nat_eq_iff take_bit_nat_eq_self)

text \<open>The page is in its place and accessible.\<close>

definition placed :: "uint32 \<Rightarrow> vm \<Rightarrow> nat \<Rightarrow> bool" where
  "placed t v k \<longleftrightarrow> k < npages v \<and> prot (sc v) k \<and> lives v t k (Mem k)"

text \<open>The free pages of memory are accessible, so that a page can be copied there; how many slots are free.\<close>

definition loose :: "vm \<Rightarrow> bool" where
  "loose v \<longleftrightarrow> (\<forall>i < npages v. getPageIsF (entry v (Mem i)) = 1 \<longrightarrow> prot (sc v) i)"

definition free_slots :: "vm \<Rightarrow> slot set" where
  "free_slots v = {s. slot_ok v s \<and> getPageIsF (entry v s) = 1}"

definition running :: "uint32 set \<Rightarrow> uint32 \<Rightarrow> vm \<Rightarrow> bool" where
  "running T t v \<longleftrightarrow> paged T v \<and> shielded T t v \<and> t \<in> T \<and> owner v = t \<and> current_thread v \<noteq> None \<and> PT_BLOCK_SIZE \<le> PAGESIZE (hp v)"

text \<open>Pages of the thread that are in their place stay there.\<close>

definition stays :: "uint32 \<Rightarrow> vm \<Rightarrow> vm \<Rightarrow> bool" where
  "stays t v v' \<longleftrightarrow> (\<forall>k < npages v. lives v t k (Mem k) \<longrightarrow> lives v' t k (Mem k))"

lemma stays_refl: "stays t v v"
  by (simp add: stays_def)

lemma stays_trans: "stays t v v' \<Longrightarrow> stays t v' v'' \<Longrightarrow> npages v' = npages v \<Longrightarrow> stays t v v''"
  by (simp add: stays_def)

text \<open>What a fault may do: move pages, no more.\<close>

definition faulted :: "uint32 set \<Rightarrow> uint32 \<Rightarrow> vm \<Rightarrow> vm \<Rightarrow> bool" where
  "faulted T t v v' \<longleftrightarrow> running T t v' \<and> same_vm v v' \<and> (\<forall>u \<in> T. \<forall>k. virt u k v' = virt u k v) \<and> (\<forall>k. placed t v k \<longrightarrow> placed t v' k) \<and>
     stays t v v' \<and> (loose v \<longrightarrow> loose v') \<and> card (free_slots v') = card (free_slots v)"

lemma faulted_refl: "running T t v \<Longrightarrow> faulted T t v v"
  by (simp add: faulted_def same_vm_refl stays_refl)

lemma faulted_trans: "faulted T t v v' \<Longrightarrow> faulted T t v' v'' \<Longrightarrow> faulted T t v v''"
  using same_vm_trans [of v v' v''] same_vm_sizes [of v v'] stays_trans [of t v v' v''] by (simp add: faulted_def)

lemma same_vm_runs:
  assumes "same_vm v v'"
  shows "owner v' = owner v" "current_thread v' = current_thread v" "page_of v' a = page_of v a"
  using assms same_vm_sizes [OF assms] by (simp_all add: owner_def current_thread_def page_of_def same_vm_def)

lemma virt_lives: "paged T v \<Longrightarrow> t \<in> T \<Longrightarrow> virt t k v \<noteq> None \<longleftrightarrow> (\<exists>s. lives v t k s)"
  using home_None by (auto simp: virt_def)

lemma page_of_less: "0 < PAGESIZE (hp v) \<Longrightarrow> userSpace v \<le> a \<Longrightarrow> page_of v a < n \<longleftrightarrow> a < page_addr v n"
  unfolding page_of_def by (subst div_less_iff_less_mult) (auto simp: mult.commute)

text \<open>A slot whose number a thread's page has is not free, as long as free pages are accessible.\<close>

lemma loose_used:
  assumes "running T t v" "loose v" "u \<in> T" "lives v u k s" "k < npages v"
  shows "getPageIsF (entry v (Mem k)) \<noteq> 1"
proof
  assume f: "getPageIsF (entry v (Mem k)) = 1"
  then have "prot (sc v) k" using assms(2,5) by (simp add: loose_def)
  moreover have "\<not> lives v t k (Mem k)" using f by (simp add: lives_def)
  ultimately have "\<not> lives v u k s" using assms(1,3,5) unfolding running_def shielded_def by blast
  then show False using assms(4) by blast
qed

lemma free_exchanged:
  assumes e: "exchanged a b v v'" and ab: "slot_ok v a" "slot_ok v b"
  shows "card (free_slots v') = card (free_slots v)"
proof -
  have "free_slots v' = exch a b ` free_slots v"
  proof (rule set_eqI)
    fix s
    have "s \<in> free_slots v' \<longleftrightarrow> exch a b s \<in> free_slots v"
      using e exch_ok [OF ab, of s] same_vm_slot_ok [of v v' s] by (auto simp: free_slots_def exchanged_def)
    also have "\<dots> \<longleftrightarrow> s \<in> exch a b ` free_slots v" by (metis exch_exch image_iff)
    finally show "s \<in> free_slots v' \<longleftrightarrow> s \<in> exch a b ` free_slots v" .
  qed
  moreover have "inj_on (exch a b) (free_slots v)" by (rule inj_onI) (metis exch_exch)
  ultimately show ?thesis by (simp add: card_image)
qed

text \<open>A page of the running thread is brought to its place and made accessible: by a fault, or by \<open>alignPages\<close>.\<close>

lemma brought:
  assumes r: "running T t v" and s: "lives v t x s" and x: "x < npages v" and e: "exchanged (Mem x) s v v'"
    and pr: "\<And>k. prot (sc v') k \<longleftrightarrow> k = x \<or> (s \<noteq> Mem k \<and> prot (sc v) k)"
  shows "faulted T t v v'" "placed t v' x"
proof -
  have p: "paged T v" and t: "t \<in> T" and sh: "shielded T t v" using r by (auto simp: running_def)
  have same: "same_vm v v'" using e by (simp add: exchanged_def)
  have sz: "npages v' = npages v" using same_vm_sizes [OF same] by simp
  have so: "slot_ok v (Mem x)" "slot_ok v s" using x s by (auto simp: lives_def)
  have fr: "(\<exists>j. exch (Mem x) s (Mem i) = Mem j) \<or> getPageIsF (entry v (exch (Mem x) s (Mem i))) = 0" for i
    using s by (auto simp: exch_def lives_def)
  note pg = paged_exchanged [OF p e so fr]
  note lv = lives_exchanged [OF e so]
  have lx: "lives v' t x (Mem x)" using s by (simp add: lv exch_def)
  have stay: "lives v' u k (Mem k) = lives v u k (Mem k)" "entry v' (Mem k) = entry v (Mem k)" if "k \<noteq> x" "s \<noteq> Mem k" "k < npages v" for u k
    using that e by (auto simp: lv exch_def exchanged_def)
  have "shielded T t v'"
    unfolding shielded_def sz
  proof (intro allI impI)
    fix k assume k: "k < npages v" "prot (sc v') k"
    show "lives v' t k (Mem k) \<or> getPageIsF (entry v' (Mem k)) \<noteq> 0 \<and> (\<forall>u\<in>T. \<forall>s. \<not> lives v' u k s)"
    proof (cases "k = x")
      case False
      then have "s \<noteq> Mem k" "prot (sc v) k" using pr k by auto
      then show ?thesis using sh k(1) stay [OF False] lv by (auto simp: shielded_def)
    qed (use lx in simp)
  qed
  then have run: "running T t v'" using r pg(1) same_vm_runs [OF same] same by (simp add: running_def same_vm_def)
  have keep: "placed t v' k" if k: "placed t v k" for k
  proof (cases "k = x")
    case True
    then show ?thesis using lx pr x sz by (simp add: placed_def)
  next
    case ne: False
    have "s \<noteq> Mem k" using s k ne x of_nat_page [of k v x] by (auto simp: placed_def lives_def)
    then show ?thesis using k ne stay [OF ne] pr sz by (auto simp: placed_def)
  qed
  have "loose v'" if lo: "loose v"
    unfolding loose_def sz
  proof (intro allI impI)
    fix i assume i: "i < npages v" "getPageIsF (entry v' (Mem i)) = 1"
    have e: "entry v' (Mem i) = entry v (exch (Mem x) s (Mem i))" using e i(1) by (simp add: exchanged_def)
    have "getPageIsF (entry v s) = 0" using s by (simp add: lives_def)
    then have "i \<noteq> x" using i(2) e by (auto simp: exch_def)
    moreover have "Mem i \<noteq> s" using loose_used [OF r lo t s x] i(2) e by (auto simp: exch_def split: if_split_asm)
    ultimately show "prot (sc v') i" using lo i e pr by (auto simp: loose_def exch_def)
  qed
  moreover have "stays t v v'"
    unfolding stays_def
  proof (intro allI impI)
    fix k assume k: "k < npages v" "lives v t k (Mem k)"
    show "lives v' t k (Mem k)"
    proof (cases "k = x")
      case False
      then have "s \<noteq> Mem k" using s k x of_nat_page [of k v x] by (auto simp: lives_def)
      then show ?thesis using k stay [OF False] by simp
    qed (use lx in simp)
  qed
  ultimately show "faulted T t v v'" using run same pg(2) keep free_exchanged [OF e so] by (simp add: faulted_def)
  show "placed t v' x" using lx pr x sz by (simp add: placed_def)
qed

lemma touch_ok:
  assumes r: "running T t v" and a: "userSpace v \<le> a" "page_of v a < npages v" and own: "virt t (page_of v a) v \<noteq> None"
  obtains v' where "touch a v = Some v'" "faulted T t v v'" "placed t v' (page_of v a)"
proof -
  let ?x = "page_of v a"
  have p: "paged T v" and t: "t \<in> T" and sh: "shielded T t v" and ow: "owner v = t" using r by (auto simp: running_def)
  obtain s where s: "lives v t ?x s" using own virt_lives [OF p t] by blast
  show thesis
  proof (cases "prot (sc v) ?x")
    case True
    then have "placed t v ?x" using sh s t a by (auto simp: shielded_def placed_def)
    moreover have "touch a v = Some v" using True by (simp add: touch_def accessible_def)
    ultimately show thesis using faulted_refl [OF r] by (intro that)
  next
    case False
    have h: "home (owner v) ?x v = Some s" using home_at [OF p t] s ow by simp
    have ok: "vm_ok v" using p by (simp add: paged_def)
    have lim: "a < page_addr v (npages v)" using page_of_less [of v a] ok a by (simp add: vm_ok_def)
    obtain th where th: "current_thread v = Some th" using r by (auto simp: running_def)
    obtain v' where v': "sigHandler a v = Some (Resumes v')" "exchanged (Mem ?x) s v v'" "\<And>k. prot (sc v') k \<longleftrightarrow> k = ?x \<or> (s \<noteq> Mem k \<and> prot (sc v) k)"
      using sigHandler_home(2) [OF ok th a(1) lim h] by blast
    have pr: "prot (sc v') k \<longleftrightarrow> k = ?x \<or> (s \<noteq> Mem k \<and> prot (sc v) k)" for k by (rule v'(3))
    moreover have "touch a v = Some v'" using False a v'(1) by (simp add: touch_def accessible_def)
    ultimately show thesis using brought [OF r s a(2) v'(2) pr] by (intro that)
  qed
qed

text \<open>Whatever an access that returns has touched, pages have been moved at most.\<close>

lemma touch_faulted:
  assumes r: "running T t v" and e: "touch a v = Some v'"
  shows "faulted T t v v'"
proof (cases "accessible v a")
  case True
  then show ?thesis using e faulted_refl [OF r] by (simp add: touch_def)
next
  case False
  then have a: "userSpace v \<le> a" "page_of v a < npages v" by (auto simp: accessible_def)
  have p: "paged T v" and t: "t \<in> T" and ok: "vm_ok v" and ow: "owner v = t" using r by (auto simp: running_def paged_def)
  obtain th where th: "current_thread v = Some th" using r by (auto simp: running_def)
  have lim: "a < page_addr v (npages v)" using page_of_less [of v a] ok a by (simp add: vm_ok_def)
  have "virt t (page_of v a) v \<noteq> None"
  proof
    assume "virt t (page_of v a) v = None"
    then have "home (owner v) (page_of v a) v = None" using ow by (simp add: virt_def)
    then show False using sigHandler_home(1) [OF ok th a(1) lim] False e by (simp add: touch_def)
  qed
  then obtain v1 where "touch a v = Some v1" "faulted T t v v1" using touch_ok [OF r a] by blast
  then show ?thesis using e by simp
qed

lemma touch_each_faulted: "running T t v \<Longrightarrow> touch_each as v = Some v' \<Longrightarrow> faulted T t v v'"
proof (induction as arbitrary: v)
  case Nil
  then show ?case by (simp add: faulted_refl)
next
  case (Cons a as)
  then obtain v1 where v1: "touch a v = Some v1" "touch_each as v1 = Some v'" by (auto split: option.split_asm)
  have f: "faulted T t v v1" by (rule touch_faulted [OF Cons.prems(1) v1(1)])
  then have "running T t v1" by (simp add: faulted_def)
  then show ?case using faulted_trans [OF f] Cons.IH v1(2) by blast
qed

lemma touch_hdrs_faulted: "running T t v \<Longrightarrow> touch_hdrs as v = Some v' \<Longrightarrow> faulted T t v v'"
  using touch_each_faulted by (auto simp: touch_hdrs_def split: if_split_asm option.split_asm)

text \<open>The thread has pages \<open>0\<close> to \<open>n - 1\<close>; an address in one of them.\<close>

definition has_pages :: "uint32 \<Rightarrow> nat \<Rightarrow> vm \<Rightarrow> bool" where
  "has_pages t n v \<longleftrightarrow> n \<le> npages v \<and> (\<forall>k < n. virt t k v \<noteq> None)"

lemma faulted_has_pages: "faulted T t v v' \<Longrightarrow> t \<in> T \<Longrightarrow> has_pages t n v' = has_pages t n v"
  using same_vm_sizes [of v v'] by (auto simp: has_pages_def faulted_def)

lemma touch_each_ok:
  assumes "running T t v" "has_pages t n v" "\<forall>a \<in> set as. userSpace v \<le> a \<and> a < page_addr v n"
  shows "\<exists>v'. touch_each as v = Some v' \<and> faulted T t v v' \<and> (\<forall>a \<in> set as. placed t v' (page_of v a))"
  using assms
proof (induction as arbitrary: v)
  case Nil
  then show ?case by (simp add: faulted_refl)
next
  case (Cons a as)
  have t: "t \<in> T" and pos: "0 < PAGESIZE (hp v)" using Cons.prems(1) by (auto simp: running_def paged_def vm_ok_def)
  have a: "userSpace v \<le> a" "page_of v a < n" using Cons.prems(3) page_of_less [OF pos] by auto
  obtain v1 where v1: "touch a v = Some v1" "faulted T t v v1" "placed t v1 (page_of v a)"
    by (rule touch_ok [OF Cons.prems(1) a(1)]) (use a Cons.prems(2) in \<open>auto simp: has_pages_def\<close>)
  have same: "same_vm v v1" and r1: "running T t v1" using v1(2) by (auto simp: faulted_def)
  have sz: "userSpace v1 = userSpace v" "PAGESIZE (hp v1) = PAGESIZE (hp v)" "page_of v1 x = page_of v x" for x
    using same_vm_sizes [OF same] same_vm_runs [OF same] same by (auto simp: same_vm_def)
  obtain v' where v': "touch_each as v1 = Some v'" "faulted T t v1 v'" "\<forall>a \<in> set as. placed t v' (page_of v a)"
    using Cons.IH [OF r1] Cons.prems(2,3) faulted_has_pages [OF v1(2) t] sz by auto
  then show ?case using v1 faulted_trans [OF v1(2) v'(2)] by (auto simp: faulted_def)
qed

lemma header_pages:
  assumes "PT_BLOCK_SIZE \<le> PAGESIZE (hp v)" "userSpace v \<le> a" "a \<le> x" "x < a + PT_BLOCK_SIZE"
  shows "page_of v x = page_of v a \<or> page_of v x = page_of v (a + 3)"
proof -
  let ?n = "PAGESIZE (hp v)" and ?d = "a - userSpace v"
  have "page_of v a \<le> page_of v x" "page_of v x \<le> page_of v (a + 3)"
    unfolding page_of_def using assms(3,4) by (auto intro!: div_le_mono simp: PT_BLOCK_SIZE_def)
  moreover have "page_of v (a + 3) \<le> Suc (page_of v a)"
  proof -
    have "(?d + 3) div ?n \<le> (?d + ?n) div ?n" using assms(1) by (intro div_le_mono) (simp add: PT_BLOCK_SIZE_def)
    also have "\<dots> = Suc (?d div ?n)" using assms(1) PT_BLOCK_SIZE_pos(1) by (simp add: div_add_self2 del: PT_BLOCK_SIZE_pos)
    finally show ?thesis using assms(2) by (simp add: page_of_def)
  qed
  ultimately show ?thesis by linarith
qed

lemma touch_hdrs_ok:
  assumes r: "running T t v" and h: "has_pages t n v" and as: "\<forall>a \<in> set as. userSpace v \<le> a \<and> a + PT_BLOCK_SIZE \<le> page_addr v n"
  obtains v' where "touch_hdrs as v = Some v'" "faulted T t v v'" "\<And>a x. a \<in> set as \<Longrightarrow> a \<le> x \<Longrightarrow> x < a + PT_BLOCK_SIZE \<Longrightarrow> placed t v' (page_of v x)"
proof -
  let ?bs = "concat (map (\<lambda>a. [a, a + 3]) as)"
  have "\<forall>a \<in> set ?bs. userSpace v \<le> a \<and> a < page_addr v n" using as by (auto simp: PT_BLOCK_SIZE_def)
  from touch_each_ok [OF r h this] obtain v' where v': "touch_each ?bs v = Some v'" "faulted T t v v'" "\<forall>a \<in> set ?bs. placed t v' (page_of v a)" by blast
  have same: "same_vm v v'" using v'(2) by (simp add: faulted_def)
  have sz: "page_of v' x = page_of v x" for x using same_vm_runs [OF same] by simp
  have up: "page_addr v n \<le> page_addr v (npages v)" using h by (simp add: has_pages_def)
  have pos: "0 < npages v" if "a \<in> set as" for a using as h that by (cases "npages v") (auto simp: has_pages_def PT_BLOCK_SIZE_def)
  have "ok_hdr (hp v) a" if a: "a \<in> set as" for a
  proof -
    have "userSpace v \<le> a" "a + PT_BLOCK_SIZE \<le> page_addr v n" using as a by auto
    moreover have "page_addr v n \<le> memory (hp v) + PT_MAX_MEMORY" using up pages_in_memory [OF pos [OF a]] by (rule order_trans)
    ultimately show ?thesis by (simp add: ok_hdr_def userSpace_def)
  qed
  then have "list_all (ok_hdr (hp v)) as" by (simp add: list_all_iff)
  moreover have "list_all (\<lambda>a. accessible v' a \<and> accessible v' (a + 3)) as"
    using v'(3) by (auto simp: list_all_iff accessible_def placed_def sz)
  ultimately have "touch_hdrs as v = Some v'" using v'(1) by (simp add: touch_hdrs_def)
  moreover have "placed t v' (page_of v x)" if "a \<in> set as" "a \<le> x" "x < a + PT_BLOCK_SIZE" for a x
  proof -
    have "page_of v x = page_of v a \<or> page_of v x = page_of v (a + 3)"
      using header_pages [of v a x] that r as by (auto simp: running_def)
    then show ?thesis using v'(3) that(1) by auto
  qed
  ultimately show thesis using v'(2) by (intro that)
qed

section \<open>The thread's memory\<close>

definition vbytes :: "uint32 \<Rightarrow> vm \<Rightarrow> bytes" where
  "vbytes t v x =
     (if x < userSpace v then pt_bytes (hp v) x
      else if npages v \<le> page_of v x then 0
      else case virt t (page_of v x) v of None \<Rightarrow> 0 | Some c \<Rightarrow> c ((x - userSpace v) mod PAGESIZE (hp v)))"

abbreviation vheap :: "uint32 \<Rightarrow> vm \<Rightarrow> pt_heap" where
  "vheap t v \<equiv> put_bytes (hp v) (vbytes t v)"

lemma faulted_vbytes: "faulted T t v v' \<Longrightarrow> u \<in> T \<Longrightarrow> vbytes u v' = vbytes u v"
  using same_vm_sizes [of v v'] same_vm_runs [of v v'] by (auto simp: faulted_def vbytes_def fun_eq_iff same_vm_def cong: option.case_cong)

lemma placed_home: "running T t v \<Longrightarrow> placed t v k \<Longrightarrow> home t k v = Some (Mem k)"
  using home_at [of T v t k "Mem k"] by (auto simp: running_def placed_def)

lemma page_offset: "userSpace v \<le> x \<Longrightarrow> page_addr v (page_of v x) + (x - userSpace v) mod PAGESIZE (hp v) = x"
  by (simp add: page_of_def)

text \<open>An access that returns sees the thread's own byte.\<close>

lemma placed_byte:
  assumes r: "running T t v" and p: "placed t v (page_of v x)" and x: "userSpace v \<le> x"
  shows "vbytes t v x = pt_bytes (hp v) x"
proof -
  have "0 < PAGESIZE (hp v)" using r by (auto simp: running_def paged_def vm_ok_def)
  then show ?thesis
    using placed_home [OF r p] p x page_offset [OF x]
    by (auto simp: vbytes_def virt_def placed_def slot_at.simps get_page_def)
qed

text \<open>
  A write to places in order is a write to the thread's own memory, and to no other thread's.
\<close>

definition in_place :: "uint32 \<Rightarrow> vm \<Rightarrow> addr \<Rightarrow> bool" where
  "in_place t v x \<longleftrightarrow> userSpace v \<le> x \<and> placed t v (page_of v x)"

definition wrote :: "uint32 set \<Rightarrow> uint32 \<Rightarrow> bytes \<Rightarrow> vm \<Rightarrow> vm \<Rightarrow> bool" where
  "wrote T t m v v' \<longleftrightarrow> running T t v' \<and> vbytes t v' = m \<and> (\<forall>u \<in> T. u \<noteq> t \<longrightarrow> (\<forall>k. virt u k v' = virt u k v)) \<and>
     (\<forall>k. virt t k v' = None \<longleftrightarrow> virt t k v = None) \<and> same_vm v v' \<and> stays t v v' \<and> (loose v \<longrightarrow> loose v') \<and> card (free_slots v') = card (free_slots v)"

lemma set_bytes_entry [simp]: "entry (set_bytes m v) s = entry v s" "slot_ok (set_bytes m v) s = slot_ok v s" "lives (set_bytes m v) t k s = lives v t k s"
  by (cases s; simp add: slot_at.simps lives_def)+

lemma set_bytes_home [simp]: "home t k (set_bytes m v) = home t k v"
  by (simp add: home_def in_memory_at_def on_disk_at_def cong: option.case_cong)

lemma set_bytes_placed [simp]: "placed t (set_bytes m v) k = placed t v k" "page_of (set_bytes m v) x = page_of v x"
  by (simp_all add: placed_def page_of_def)

lemma set_bytes_runs [simp]: "owner (set_bytes m v) = owner v" "current_thread (set_bytes m v) = current_thread v"
  by (simp_all add: owner_def current_thread_def)

lemma running_set_bytes: "running T t v \<Longrightarrow> running T t (set_bytes m v)"
  by (simp add: running_def paged_def shielded_def vm_ok_def)

lemma set_bytes_elsewhere:
  assumes r: "running T t v" and u: "u \<in> T" and o: "\<And>x. m x \<noteq> pt_bytes (hp v) x \<Longrightarrow> in_place t v x"
    and h: "home u k v = Some s" and ne: "\<And>i. s = Mem i \<Longrightarrow> \<not> lives v t i (Mem i)"
  shows "virt u k (set_bytes m v) = virt u k v"
proof (cases s)
  case (Mem i)
  have pos: "0 < PAGESIZE (hp v)" using r by (auto simp: running_def paged_def vm_ok_def)
  have "m (page_addr v i + j) = pt_bytes (hp v) (page_addr v i + j)" if "j < PAGESIZE (hp v)" for j
  proof (rule ccontr)
    assume "m (page_addr v i + j) \<noteq> pt_bytes (hp v) (page_addr v i + j)"
    then have "placed t v (page_of v (page_addr v i + j))" using o by (auto simp: in_place_def)
    moreover have "page_of v (page_addr v i + j) = i" using that pos by (simp add: page_of_def div_add1_eq)
    ultimately show False using ne [OF Mem] by (simp add: placed_def)
  qed
  then show ?thesis using h Mem by (auto simp: virt_def slot_at.simps get_page_def fun_eq_iff)
next
  case (Disk i)
  then show ?thesis using h by (simp add: virt_def slot_at.simps)
qed

lemma set_bytes_wrote:
  assumes r: "running T t v" and o: "\<And>x. m x \<noteq> pt_bytes (hp v) x \<Longrightarrow> in_place t v x"
  shows "wrote T t (\<lambda>x. if in_place t v x then m x else vbytes t v x) v (set_bytes m v)"
proof -
  let ?w = "set_bytes m v"
  have p: "paged T v" and t: "t \<in> T" using r by (auto simp: running_def)
  have other: "virt u k ?w = virt u k v" if u: "u \<in> T" "u \<noteq> t" for u k
  proof (cases "home u k v")
    case (Some s)
    then have "lives v u k s" using home_at [OF p u(1)] by blast
    then show ?thesis using u(2) by (intro set_bytes_elsewhere [OF r u(1) o Some]) (auto simp: lives_def)
  qed (simp add: virt_def)
  have own: "virt t k ?w = virt t k v" if k: "k < npages v" "\<not> lives v t k (Mem k)" for k
  proof (cases "home t k v")
    case (Some s)
    then have s: "lives v t k s" using home_at [OF p t] by blast
    have "\<not> lives v t i (Mem i)" if "s = Mem i" for i
    proof
      assume l: "lives v t i (Mem i)"
      then have "i < npages v" "(of_nat i :: uint32) = of_nat k" using s that by (auto simp: lives_def)
      then show False using of_nat_page [of i v k] k l by simp
    qed
    then show ?thesis by (intro set_bytes_elsewhere [OF r t o Some])
  qed (simp add: virt_def)
  have low: "m x = pt_bytes (hp v) x" if "x < userSpace v" for x using o [of x] that by (auto simp: in_place_def)
  have "vbytes t ?w x = (if in_place t v x then m x else vbytes t v x)" for x
  proof (cases "in_place t v x")
    case True
    then have "vbytes t ?w x = pt_bytes (hp ?w) x"
      by (intro placed_byte [OF running_set_bytes [OF r]]) (auto simp: in_place_def)
    then show ?thesis using True by simp
  next
    case False
    show ?thesis
    proof (cases "x < userSpace v \<or> npages v \<le> page_of v x")
      case True
      then show ?thesis using False low by (auto simp: vbytes_def)
    next
      case user: False
      let ?k = "page_of v x"
      have pos: "0 < PAGESIZE (hp v)" using p by (auto simp: paged_def vm_ok_def)
      have "virt t ?k ?w = virt t ?k v"
      proof (cases "lives v t ?k (Mem ?k)")
        case True
        then have np: "\<not> prot (sc v) ?k" using False user by (auto simp: in_place_def placed_def)
        have "m (page_addr v ?k + j) = pt_bytes (hp v) (page_addr v ?k + j)" if "j < PAGESIZE (hp v)" for j
        proof -
          have "page_of v (page_addr v ?k + j) = ?k" using that pos by (simp add: page_of_def div_add1_eq)
          then show ?thesis using o [of "page_addr v ?k + j"] np by (auto simp: in_place_def placed_def)
        qed
        then show ?thesis using home_at [OF p t, of ?k "Mem ?k"] True by (auto simp: virt_def slot_at.simps get_page_def fun_eq_iff)
      qed (use own user in simp)
      then show ?thesis using False user by (simp add: vbytes_def cong: option.case_cong)
    qed
  qed
  moreover have "same_vm v ?w" using low by (simp add: same_vm_def)
  moreover have "virt t k ?w = None \<longleftrightarrow> virt t k v = None" for k by (simp add: virt_def)
  moreover have "loose ?w = loose v" "free_slots ?w = free_slots v" by (simp_all add: loose_def free_slots_def)
  ultimately show ?thesis using running_set_bytes [OF r] other by (auto simp: wrote_def stays_def)
qed

end
