(* ===== verification/PtThreadHeap.thy ===== *)
theory PtThreadHeap
  imports PtVirtual
begin

text \<open>
  The thread branch of the allocator over demand paging.  While the loops of \<open>myallocate\<close> and
  \<open>freeAndMerge\<close> walk a thread's blocks, pages of other threads are in the way and faults bring the
  right ones; the result is that of the same loops over the thread's own memory, so first fit and
  coalescing hold for thread heaps, and no thread's allocation touches another thread's memory.
\<close>

section \<open>Two memories that agree on some addresses\<close>

definition hdr_in :: "(addr \<Rightarrow> bool) \<Rightarrow> addr \<Rightarrow> bool" where
  "hdr_in S a \<longleftrightarrow> (\<forall>x. a \<le> x \<and> x < a + PT_BLOCK_SIZE \<longrightarrow> S x)"

text \<open>\<open>m\<close> and \<open>w\<close> agree on \<open>S\<close>, and outside it are still \<open>m0\<close> and \<open>w0\<close>.\<close>

definition twin :: "(addr \<Rightarrow> bool) \<Rightarrow> bytes \<Rightarrow> bytes \<Rightarrow> bytes \<Rightarrow> bytes \<Rightarrow> bool" where
  "twin S m0 w0 m w \<longleftrightarrow> (\<forall>x. if S x then m x = w x else m x = m0 x \<and> w x = w0 x)"

lemma twin_load:
  assumes "twin S m0 w0 m w" "hdr_in S a"
  shows "load32 m a = load32 w a"
proof -
  have "load_le m a 4 = load_le w a 4" by (rule load_le_cong) (use assms in \<open>auto simp: twin_def hdr_in_def PT_BLOCK_SIZE_def\<close>)
  then show ?thesis by (simp add: load32_def)
qed

lemma twin_upd:
  assumes t: "twin S m0 w0 m w" and a: "hdr_in S a" and f: "f = g"
  shows "twin S m0 w0 (upd32 f a m) (upd32 g a w)"
  using t a twin_load [OF t a] unfolding f twin_def hdr_in_def upd32_def store32_def store_le_apply PT_BLOCK_SIZE_def by auto

lemma twin_next: "twin S m0 w0 m w \<Longrightarrow> hdr_in S a \<Longrightarrow> getNextBlock m a = getNextBlock w a"
  by (simp add: getNextBlock_def twin_load)

lemma twin_carve:
  assumes t: "twin S m0 w0 m w" and a: "hdr_in S b" "hdr_in S (b + unat (of_nat (n + PT_BLOCK_SIZE) :: uint32))"
  shows "twin S m0 w0 (carve m b n) (carve w b n)"
proof -
  let ?s = "of_nat (n + PT_BLOCK_SIZE) :: uint32" and ?c = "b + unat (of_nat (n + PT_BLOCK_SIZE) :: uint32)"
  note t1 = twin_upd [OF t a(2) refl, of "\<lambda>w. setBlockIsF w 1"]
  note t2 = twin_upd [OF t1 a(2), OF arg_cong [OF twin_load [OF t1 a(1)], of "\<lambda>z w. setBlockSize w (getBlockSize z - ?s)"]]
  note t3 = twin_upd [OF t2 a(2), OF arg_cong [OF twin_load [OF t2 a(1)], of "\<lambda>z w. setBlockIsNext w (getBlockIsNext z)"]]
  note t4 = twin_upd [OF t3 a(1) refl, of "\<lambda>w. setBlockSize w (of_nat n)"]
  note t5 = twin_upd [OF t4 a(1) refl, of "\<lambda>w. setBlockIsNext w 1"]
  show ?thesis unfolding carve_def Let_def by (rule twin_upd [OF t5 a(1) refl])
qed

lemma twin_merge:
  assumes t: "twin S m0 w0 (pt_bytes h) (pt_bytes k)" and mem: "memory k = memory h" and a: "hdr_in S b" "q \<noteq> NULL \<Longrightarrow> hdr_in S q"
    "getNextBlock (pt_bytes h) b \<noteq> NULL \<Longrightarrow> hdr_in S (getNextBlock (pt_bytes h) b)"
    and m: "pt_merge_at k q b = Some (put_bytes k w')"
  shows "\<exists>m'. pt_merge_at h q b = Some (put_bytes h m') \<and> twin S m0 w0 m' w'"
proof -
  let ?f = "\<lambda>w. setBlockIsF w (1 :: uint32)" and ?H = "of_nat PT_BLOCK_SIZE :: uint32"
  note t1 = twin_upd [OF t a(1) refl, of ?f]
  let ?m1 = "upd32 ?f b (pt_bytes h)" and ?w1 = "upd32 ?f b (pt_bytes k)"
  define x where "x = getNextBlock ?m1 b"
  have x: "getNextBlock ?w1 b = x" "x \<noteq> NULL \<Longrightarrow> hdr_in S x"
    using twin_next [OF t1 a(1)] a(3) mark_free_fields by (simp_all add: x_def)
  define nx where "nx m1 = (let m = upd32 (\<lambda>w. setBlockSize w (getBlockSize w + getBlockSize (load32 m1 x) + ?H)) b m1
    in upd32 (\<lambda>w. setBlockIsNext w (getBlockIsNext (load32 m x))) b m)" for m1
  have tn: "twin S m0 w0 (nx ?m1) (nx ?w1)" if "x \<noteq> NULL"
  proof -
    note s1 = twin_upd [OF t1 a(1), OF arg_cong [OF twin_load [OF t1 x(2) [OF that]], of "\<lambda>z w. setBlockSize w (getBlockSize w + getBlockSize z + ?H)"]]
    show ?thesis unfolding nx_def Let_def
      by (rule twin_upd [OF s1 a(1), OF arg_cong [OF twin_load [OF s1 x(2) [OF that]], of "\<lambda>z w. setBlockIsNext w (getBlockIsNext z)"]])
  qed
  define m2 where "m2 = (if x \<noteq> NULL \<and> getBlockIsF (load32 ?m1 x) = 1 then nx ?m1 else ?m1)"
  define w2 where "w2 = (if x \<noteq> NULL \<and> getBlockIsF (load32 ?w1 x) = 1 then nx ?w1 else ?w1)"
  have t2: "twin S m0 w0 m2 w2" using tn t1 twin_load [OF t1 x(2)] by (auto simp: m2_def w2_def)
  define pv where "pv m2 = (let m = upd32 (\<lambda>w. setBlockSize w (getBlockSize (load32 m2 b) + getBlockSize w + ?H)) q m2
    in upd32 (\<lambda>w. setBlockIsNext w (getBlockIsNext (load32 m b))) q m)" for m2
  have tp: "twin S m0 w0 (pv m2) (pv w2)" if "q \<noteq> NULL"
  proof -
    note s1 = twin_upd [OF t2 a(2) [OF that], OF arg_cong [OF twin_load [OF t2 a(1)], of "\<lambda>z w. setBlockSize w (getBlockSize z + getBlockSize w + ?H)"]]
    show ?thesis unfolding pv_def Let_def
      by (rule twin_upd [OF s1 a(2) [OF that], OF arg_cong [OF twin_load [OF s1 a(1)], of "\<lambda>z w. setBlockIsNext w (getBlockIsNext z)"]])
  qed
  have t3: "twin S m0 w0 (if q \<noteq> NULL \<and> getBlockIsF (load32 m2 q) = 1 then pv m2 else m2) (if q \<noteq> NULL \<and> getBlockIsF (load32 w2 q) = 1 then pv w2 else w2)"
    using tp t2 twin_load [OF t2 a(2)] by auto
  have ok: "\<not> (x \<noteq> NULL \<and> \<not> ok_hdr h x)" using m x(1) mem by (auto simp: pt_merge_at_def Let_def ok_hdr_def split: if_split_asm)
  have e: "pt_merge_at h q b = Some (put_bytes h (if q \<noteq> NULL \<and> getBlockIsF (load32 m2 q) = 1 then pv m2 else m2))"
    using ok unfolding pt_merge_at_def Let_def x_def [symmetric] m2_def nx_def pv_def by simp
  have "pt_merge_at k q b = Some (put_bytes k (if q \<noteq> NULL \<and> getBlockIsF (load32 w2 q) = 1 then pv w2 else w2))"
    using ok mem unfolding pt_merge_at_def Let_def x(1) w2_def nx_def pv_def by (simp add: ok_hdr_def)
  then have "Some (put_bytes k w') = Some (put_bytes k (if q \<noteq> NULL \<and> getBlockIsF (load32 w2 q) = 1 then pv w2 else w2))" unfolding m .
  from arg_cong [OF this, of "\<lambda>r. pt_bytes (the r)"] have "w' = (if q \<noteq> NULL \<and> getBlockIsF (load32 w2 q) = 1 then pv w2 else w2)" by simp
  then show ?thesis using e t3 by blast
qed

text \<open>A write whose counterpart in the thread's memory is known.\<close>

lemma wrote_twin:
  assumes r: "running T t v" and t: "twin (in_place t v) (pt_bytes (hp v)) (vbytes t v) m w"
  shows "wrote T t w v (set_bytes m v)"
proof -
  have "in_place t v x" if "m x \<noteq> pt_bytes (hp v) x" for x using t that by (meson twin_def)
  from set_bytes_wrote [OF r this] have "wrote T t (\<lambda>x. if in_place t v x then m x else vbytes t v x) v (set_bytes m v)" .
  moreover have "(\<lambda>x. if in_place t v x then m x else vbytes t v x) = w" using t by (auto simp: twin_def fun_eq_iff)
  ultimately show ?thesis by simp
qed

lemma twin_start: "running T t v \<Longrightarrow> twin (in_place t v) (pt_bytes (hp v)) (vbytes t v) (pt_bytes (hp v)) (vbytes t v)"
  using placed_byte by (simp add: twin_def in_place_def)

lemma faulted_wrote: "faulted T t v v1 \<Longrightarrow> wrote T t m v1 v' \<Longrightarrow> wrote T t m v v'"
  using same_vm_trans [of v v1 v'] same_vm_sizes [of v v1] stays_trans [of t v v1 v'] by (auto simp: faulted_def wrote_def running_def)

lemma faulted_same: "faulted T t v v' \<Longrightarrow> wrote T t (vbytes t v) v v'"
  using faulted_vbytes [of T t v v' t] by (auto simp: faulted_def wrote_def running_def)

text \<open>What the loops need of the thread's heap: it lies in pages the thread has.\<close>

definition in_heap :: "uint32 set \<Rightarrow> uint32 \<Rightarrow> nat \<Rightarrow> vm \<Rightarrow> bool" where
  "in_heap T t n v \<longleftrightarrow> running T t v \<and> has_pages t n v"

lemma touch_block:
  assumes h: "in_heap T t n v" and as: "\<forall>a \<in> set as. userSpace v \<le> a \<and> a + PT_BLOCK_SIZE \<le> page_addr v n"
  obtains v' where "touch_hdrs as v = Some v'" "faulted T t v v'" "in_heap T t n v'" "vbytes t v' = vbytes t v" "userSpace v' = userSpace v"
    "PAGESIZE (hp v') = PAGESIZE (hp v)" "memory (hp v') = memory (hp v)" "\<And>a. a \<in> set as \<Longrightarrow> hdr_in (in_place t v') a"
proof -
  obtain v' where v': "touch_hdrs as v = Some v'" "faulted T t v v'" "\<And>a x. a \<in> set as \<Longrightarrow> a \<le> x \<Longrightarrow> x < a + PT_BLOCK_SIZE \<Longrightarrow> placed t v' (page_of v x)"
    using touch_hdrs_ok [OF _ _ as] h unfolding in_heap_def by metis
  have same: "same_vm v v'" and t: "t \<in> T" using v'(2) h by (auto simp: faulted_def in_heap_def running_def)
  have "hdr_in (in_place t v') a" if "a \<in> set as" for a
    using v'(3) [OF that] as that same_vm_sizes [OF same] same_vm_runs(3) [OF same] by (auto simp: hdr_in_def in_place_def)
  moreover have "in_heap T t n v'" using v'(2) faulted_has_pages [OF v'(2) t] h by (simp add: in_heap_def faulted_def)
  ultimately show thesis
    using v'(1,2) faulted_vbytes [OF v'(2) t] same_vm_sizes [OF same] same by (intro that [of v']) (auto simp: same_vm_def)
qed

section \<open>The search\<close>

lemma thread_carve_ok:
  assumes h: "in_heap T t k v" and b: "userSpace v \<le> b" "b + PT_BLOCK_SIZE + (n + PT_BLOCK_SIZE) \<le> page_addr v k" and n: "n + PT_BLOCK_SIZE < 2 ^ 32"
  obtains v' where "thread_carve b n v = Some v'" "wrote T t (carve (vbytes t v) b n) v v'"
proof -
  have u: "unat (of_nat (n + PT_BLOCK_SIZE) :: uint32) = n + PT_BLOCK_SIZE" using unat_of_nat32 [OF n] .
  let ?c = "b + unat (of_nat (n + PT_BLOCK_SIZE) :: uint32)"
  have bd: "\<forall>a \<in> set [?c, b]. userSpace v \<le> a \<and> a + PT_BLOCK_SIZE \<le> page_addr v k" unfolding u using b by auto
  obtain v1 where v1: "touch_hdrs [?c, b] v = Some v1" "faulted T t v v1" "in_heap T t k v1" "vbytes t v1 = vbytes t v"
    "\<And>a. a \<in> set [?c, b] \<Longrightarrow> hdr_in (in_place t v1) a"
    by (rule touch_block [OF h bd]) (rule that)
  have r: "running T t v1" using v1(3) by (simp add: in_heap_def)
  have "wrote T t (carve (vbytes t v1) b n) v1 (set_bytes (carve (pt_bytes (hp v1)) b n) v1)"
    by (intro wrote_twin [OF r] twin_carve [OF twin_start [OF r]] v1(5)) simp_all
  then have "wrote T t (carve (vbytes t v) b n) v (set_bytes (carve (pt_bytes (hp v1)) b n) v1)"
    using faulted_wrote [OF v1(2)] v1(4) by simp
  then show thesis using v1(1) by (intro that) (simp_all add: thread_carve_def)
qed

lemma threadFit_step:
  assumes h: "in_heap T t k v" and b: "userSpace v \<le> b" and c: "pt_chain (vbytes t v) b ((z, f) # bs)" and a: "pt_arena (page_addr v k) (hp v) b ((z, f) # bs)"
  shows "f \<Longrightarrow> z = n \<Longrightarrow> \<exists>v'. threadFit_from v n b = Some (v', b + PT_BLOCK_SIZE, b) \<and> wrote T t (upd32 (\<lambda>w. setBlockIsF w 0) b (vbytes t v)) v v'"
    "f \<Longrightarrow> n + PT_BLOCK_SIZE \<le> z \<Longrightarrow> \<exists>v'. threadFit_from v n b = Some (v', b + PT_BLOCK_SIZE, b) \<and> wrote T t (carve (vbytes t v) b n) v v'"
    "\<not> (f \<and> z = n) \<Longrightarrow> \<not> (f \<and> n + PT_BLOCK_SIZE \<le> z) \<Longrightarrow>
       \<exists>v1. faulted T t v v1 \<and> threadFit_from v n b = (if bs = [] then Some (v1, NULL, b) else threadFit_from v1 n (b + PT_BLOCK_SIZE + z))"
proof -
  have bd: "\<forall>a \<in> set [b]. userSpace v \<le> a \<and> a + PT_BLOCK_SIZE \<le> page_addr v k" using b a by (auto simp: pt_arena_def)
  obtain v1 where v1: "touch_hdrs [b] v = Some v1" "faulted T t v v1" "in_heap T t k v1" "vbytes t v1 = vbytes t v" "userSpace v1 = userSpace v"
    "PAGESIZE (hp v1) = PAGESIZE (hp v)" "memory (hp v1) = memory (hp v)" "\<And>a. a \<in> set [b] \<Longrightarrow> hdr_in (in_place t v1) a"
    by (rule touch_block [OF h bd]) (rule that)
  have r: "running T t v1" using v1(3) by (simp add: in_heap_def)
  note tw = twin_start [OF r] and hb = v1(8) [of b, simplified]
  let ?m = "pt_bytes (hp v1)" and ?w = "load32 (vbytes t v) b"
  have ld: "load32 ?m b = ?w" "getNextBlock ?m b = getNextBlock (vbytes t v) b"
    using twin_load [OF tw hb] twin_next [OF tw hb] v1(4) by auto
  have w: "getBlockIsF ?w = 1 \<longleftrightarrow> f" "unat (getBlockSize ?w) = z" "getNextBlock (vbytes t v) b = (if bs = [] then NULL else b + PT_BLOCK_SIZE + z)"
    using c by (auto simp: hdr_free_def hdr_size_def)
  have z: "z + PT_BLOCK_SIZE \<le> 8388608" using pt_arena_size [OF a] by linarith
  have le: "of_nat (n + PT_BLOCK_SIZE) \<le> getBlockSize ?w \<longleftrightarrow> n + PT_BLOCK_SIZE \<le> z" if "n \<le> z"
    using unat_of_nat32 [of "n + PT_BLOCK_SIZE"] that z w(2) by (simp add: word_le_nat_alt PT_BLOCK_SIZE_def)
  note unf = threadFit_from.simps [of v n b] v1(1) ld w Let_def
  show "\<exists>v'. threadFit_from v n b = Some (v', b + PT_BLOCK_SIZE, b) \<and> wrote T t (upd32 (\<lambda>w. setBlockIsF w 0) b (vbytes t v)) v v'" if "f" "z = n"
  proof -
    have "wrote T t (upd32 (\<lambda>w. setBlockIsF w 0) b (vbytes t v1)) v1 (set_bytes (upd32 (\<lambda>w. setBlockIsF w 0) b ?m) v1)"
      by (intro wrote_twin [OF r] twin_upd [OF tw hb refl])
    then have "wrote T t (upd32 (\<lambda>w. setBlockIsF w 0) b (vbytes t v)) v (set_bytes (upd32 (\<lambda>w. setBlockIsF w 0) b ?m) v1)"
      using faulted_wrote [OF v1(2)] v1(4) by simp
    moreover have "getBlockIsF ?w \<noteq> 0" using w(1) that by auto
    ultimately show ?thesis using that by (simp add: unf)
  qed
  show "\<exists>v'. threadFit_from v n b = Some (v', b + PT_BLOCK_SIZE, b) \<and> wrote T t (carve (vbytes t v) b n) v v'" if "f" "n + PT_BLOCK_SIZE \<le> z"
  proof -
    have b2: "userSpace v1 \<le> b" "b + PT_BLOCK_SIZE + (n + PT_BLOCK_SIZE) \<le> page_addr v1 k"
      using b a that(2) v1(5,6) by (auto simp: pt_arena_def)
    have n: "n + PT_BLOCK_SIZE < 2 ^ 32" using that z by simp
    obtain v' where v': "thread_carve b n v1 = Some v'" "wrote T t (carve (vbytes t v1) b n) v1 v'"
      by (rule thread_carve_ok [OF v1(3) b2 n])
    have "getBlockIsF ?w \<noteq> 0" "z \<noteq> n" "n \<le> z" using w(1) that by (auto simp: PT_BLOCK_SIZE_def)
    then have "threadFit_from v n b = Some (v', b + PT_BLOCK_SIZE, b)" using that v'(1) le by (simp add: unf del: of_nat_add)
    then show ?thesis using faulted_wrote [OF v1(2) v'(2)] v1(4) by simp
  qed
  show "\<exists>v1. faulted T t v v1 \<and> threadFit_from v n b = (if bs = [] then Some (v1, NULL, b) else threadFit_from v1 n (b + PT_BLOCK_SIZE + z))"
    if "\<not> (f \<and> z = n)" "\<not> (f \<and> n + PT_BLOCK_SIZE \<le> z)"
  proof -
    have "(getBlockIsF ?w = 0 \<or> z < n) \<or> \<not> (getBlockIsF ?w = 1 \<and> (z = n \<or> of_nat (n + PT_BLOCK_SIZE) \<le> getBlockSize ?w))"
      using that le w(1) by (cases "n \<le> z") auto
    then have "threadFit_from v n b = (if bs = [] then Some (v1, NULL, b) else threadFit_from v1 n (b + PT_BLOCK_SIZE + z))"
      using that le by (auto simp: unf simp del: of_nat_add)
    then show ?thesis using v1(2) by blast
  qed
qed

text \<open>The search over real memory, with its faults, is the search over the thread's memory.\<close>

lemma threadFit_refines:
  assumes "in_heap T t k v" "userSpace v \<le> b" "pt_chain (vbytes t v) b bs" "pt_arena (page_addr v k) (hp v) b bs"
  shows "\<exists>v' p m' q. threadFit_from v n b = Some (v', p, q) \<and> firstFit_from (vheap t v) n b = Some (put_bytes (hp v) m', p) \<and> wrote T t m' v v' \<and>
    (if p = NULL then q = b + span PT_BLOCK_SIZE (butlast bs) else p = q + PT_BLOCK_SIZE)"
  using assms
proof (induction bs arbitrary: v b)
  case (Cons x bs)
  obtain z f where x: "x = (z, f)" by (cases x)
  note h = Cons.prems(1) and b = Cons.prems(2) and c = Cons.prems(3) [unfolded x] and a = Cons.prems(4) [unfolded x]
  have a': "pt_arena (page_addr v k) (vheap t v) b ((z, f) # bs)" and c': "pt_chain (pt_bytes (vheap t v)) b ((z, f) # bs)" using a c by auto
  note step = threadFit_step [OF h b c a, of n]
  consider (fit) "f" "z = n" | (split) "f" "n + PT_BLOCK_SIZE \<le> z" | (skip) "\<not> (f \<and> z = n)" "\<not> (f \<and> n + PT_BLOCK_SIZE \<le> z)" by blast
  then show ?case
  proof cases
    case fit
    have e: "firstFit_from (vheap t v) n b = Some (put_bytes (hp v) (upd32 (\<lambda>w. setBlockIsF w 0) b (vbytes t v)), b + PT_BLOCK_SIZE)"
      using firstFit_exact [of "vheap t v" b n bs] c' a' fit by simp
    show ?thesis using step(1) [OF fit] e by (auto simp: PT_BLOCK_SIZE_def)
  next
    case split
    have e: "firstFit_from (vheap t v) n b = Some (put_bytes (hp v) (carve (vbytes t v) b n), b + PT_BLOCK_SIZE)"
      using firstFit_split [of "vheap t v" b z bs _ n] c' a' split by simp
    show ?thesis using step(2) [OF split] e by (auto simp: PT_BLOCK_SIZE_def)
  next
    case skip
    from step(3) [OF skip] obtain v1 where v1: "faulted T t v v1"
      "threadFit_from v n b = (if bs = [] then Some (v1, NULL, b) else threadFit_from v1 n (b + PT_BLOCK_SIZE + z))" by blast
    have e: "firstFit_from (vheap t v) n b = (if bs = [] then Some (vheap t v, NULL) else firstFit_from (vheap t v) n (b + PT_BLOCK_SIZE + z))"
      using firstFit_skip [OF c' a' skip] .
    show ?thesis
    proof (cases "bs = []")
      case True
      then show ?thesis using v1 e faulted_same [OF v1(1)] by auto
    next
      case ne: False
      let ?b = "b + PT_BLOCK_SIZE + z"
      have same: "same_vm v v1" and t: "t \<in> T" using v1(1) h by (auto simp: faulted_def in_heap_def running_def)
      have vb: "vbytes t v1 = vbytes t v" using faulted_vbytes [OF v1(1) t] .
      have vh: "vheap t v1 = vheap t v" "put_bytes (hp v1) m = put_bytes (hp v) m" for m using same_vm_put [OF same] vb by simp_all
      have sz: "userSpace v1 = userSpace v" "PAGESIZE (hp v1) = PAGESIZE (hp v)" using same_vm_sizes [OF same] same by (auto simp: same_vm_def)
      have "in_heap T t k v1" using v1(1) faulted_has_pages [OF v1(1) t] h by (simp add: in_heap_def faulted_def)
      moreover have "pt_chain (vbytes t v1) ?b bs" using c ne vb by simp
      moreover have "pt_arena (page_addr v1 k) (hp v1) ?b bs" using pt_arena_tail [OF a] same sz by (simp add: pt_arena_def same_vm_def)
      ultimately obtain v' p m' q where v': "threadFit_from v1 n ?b = Some (v', p, q)" "firstFit_from (vheap t v1) n ?b = Some (put_bytes (hp v1) m', p)"
        "wrote T t m' v1 v'" "if p = NULL then q = ?b + span PT_BLOCK_SIZE (butlast bs) else p = q + PT_BLOCK_SIZE" using Cons.IH [of v1 ?b] b sz by auto
      then show ?thesis using v1(2) e ne vh x faulted_wrote [OF v1(1) v'(3)] by (auto split: if_split_asm)
    qed
  qed
qed simp

section \<open>Freeing\<close>

lemma threadMerge_found:
  assumes h: "in_heap T t k v" and b: "userSpace v \<le> b" "b + PT_BLOCK_SIZE \<le> page_addr v k" and q: "q = NULL \<or> (userSpace v \<le> q \<and> q + PT_BLOCK_SIZE \<le> page_addr v k)"
    and x: "getNextBlock (vbytes t v) b = NULL \<or> (userSpace v \<le> getNextBlock (vbytes t v) b \<and> getNextBlock (vbytes t v) b + PT_BLOCK_SIZE \<le> page_addr v k)"
    and m: "pt_merge_at (vheap t v) q b = Some (put_bytes (hp v) w)"
  shows "\<exists>v'. threadMerge_from v b q b = Some (v', True) \<and> wrote T t w v v'"
proof -
  have bd: "\<forall>a \<in> set [b]. userSpace v \<le> a \<and> a + PT_BLOCK_SIZE \<le> page_addr v k" using b by simp
  obtain v1 where v1: "touch_hdrs [b] v = Some v1" "faulted T t v v1" "in_heap T t k v1" "vbytes t v1 = vbytes t v" "userSpace v1 = userSpace v"
    "PAGESIZE (hp v1) = PAGESIZE (hp v)" "\<And>a. a \<in> set [b] \<Longrightarrow> hdr_in (in_place t v1) a"
    by (rule touch_block [OF h bd]) (rule that)
  have r1: "running T t v1" using v1(3) by (simp add: in_heap_def)
  define y where "y = getNextBlock (pt_bytes (hp v1)) b"
  have y: "y = getNextBlock (vbytes t v) b" using twin_next [OF twin_start [OF r1] v1(7)] v1(4) by (simp add: y_def)
  let ?as = "filter (\<lambda>b. b \<noteq> NULL) [y, q, b]"
  have bd2: "\<forall>a \<in> set ?as. userSpace v1 \<le> a \<and> a + PT_BLOCK_SIZE \<le> page_addr v1 k" using b q x y v1(5,6) by auto
  obtain v2 where v2: "touch_hdrs ?as v1 = Some v2" "faulted T t v1 v2" "in_heap T t k v2" "vbytes t v2 = vbytes t v1" "userSpace v2 = userSpace v1"
    "\<And>a. a \<in> set ?as \<Longrightarrow> hdr_in (in_place t v2) a"
    by (rule touch_block [OF v1(3) bd2]) (rule that)
  have r2: "running T t v2" using v2(3) by (simp add: in_heap_def)
  have same: "same_vm v v2" using v1(2) v2(2) same_vm_trans by (auto simp: faulted_def)
  note tw = twin_start [OF r2]
  have bn: "b \<noteq> NULL" using b r1 v1(5) by (auto simp: userSpace_def running_def LIBPAGES_def PT_BLOCK_SIZE_def)
  have hb: "hdr_in (in_place t v2) b" using v2(6) bn by simp
  have "getNextBlock (pt_bytes (hp v2)) b = y" using twin_next [OF tw hb] v2(4) v1(4) y by simp
  then have nx: "getNextBlock (pt_bytes (hp v2)) b \<noteq> NULL \<Longrightarrow> hdr_in (in_place t v2) (getNextBlock (pt_bytes (hp v2)) b)" using v2(6) by simp
  have hq: "q \<noteq> NULL \<Longrightarrow> hdr_in (in_place t v2) q" using v2(6) by simp
  have k: "pt_merge_at (vheap t v2) q b = Some (put_bytes (vheap t v2) w)"
    using m v1(4) v2(4) same_vm_put [OF same] by simp
  obtain m' where m': "pt_merge_at (hp v2) q b = Some (put_bytes (hp v2) m')" "twin (in_place t v2) (pt_bytes (hp v2)) (vbytes t v2) m' w"
    using twin_merge [of "in_place t v2" "pt_bytes (hp v2)" "vbytes t v2" "hp v2" "vheap t v2" b q w] tw hb nx hq k by auto
  have "threadMerge_from v b q b = Some (set_bytes m' v2, True)"
    by (subst threadMerge_from.simps) (simp add: v1(1) Let_def y_def [symmetric] v2(1) [simplified] m'(1) set_bytes_def)
  moreover have "wrote T t w v (set_bytes m' v2)"
    using faulted_wrote [OF v1(2) faulted_wrote [OF v2(2) wrote_twin [OF r2 m'(2)]]] .
  ultimately show ?thesis by blast
qed

lemma threadMerge_refines:
  assumes "in_heap T t k v" "userSpace v \<le> b" "pt_chain (vbytes t v) b bs" "pt_arena (page_addr v k) (hp v) b bs"
    "q = NULL \<or> (userSpace v \<le> q \<and> q + PT_BLOCK_SIZE \<le> page_addr v k)" "pt_freeAndMerge_from (vheap t v) x q b = Some (put_bytes (hp v) w, r)"
  shows "\<exists>v'. threadMerge_from v x q b = Some (v', r) \<and> wrote T t w v v'"
  using assms
proof (induction bs arbitrary: v b q)
  case (Cons y bs)
  obtain z f where y: "y = (z, f)" by (cases y)
  note h = Cons.prems(1) and b = Cons.prems(2) and c = Cons.prems(3) [unfolded y] and a = Cons.prems(4) [unfolded y] and q = Cons.prems(5)
  have c': "pt_chain (pt_bytes (vheap t v)) b ((z, f) # bs)" and ok: "ok_hdr (vheap t v) b" using c pt_arena_ok [OF a] by (auto simp: ok_hdr_def)
  have nx: "getNextBlock (vbytes t v) b = (if bs = [] then NULL else b + PT_BLOCK_SIZE + z)" using c by simp
  have be: "b + PT_BLOCK_SIZE \<le> page_addr v k" using a by (simp add: pt_arena_def)
  show ?case
  proof (cases "b = x")
    case True
    then obtain hm where m: "pt_merge_at (vheap t v) q b = Some hm" "hm = put_bytes (hp v) w" "r"
      using Cons.prems(6) ok by (subst (asm) pt_freeAndMerge_from.simps) auto
    have "b + PT_BLOCK_SIZE + z + PT_BLOCK_SIZE \<le> page_addr v k" if "bs \<noteq> []" using a that by (cases bs) (auto simp: pt_arena_def)
    then show ?thesis using threadMerge_found [OF h b be q] nx b m True by auto
  next
    case False
    have bd: "\<forall>a \<in> set [b]. userSpace v \<le> a \<and> a + PT_BLOCK_SIZE \<le> page_addr v k" using b be by simp
    obtain v1 where v1: "touch_hdrs [b] v = Some v1" "faulted T t v v1" "in_heap T t k v1" "vbytes t v1 = vbytes t v" "userSpace v1 = userSpace v"
      "PAGESIZE (hp v1) = PAGESIZE (hp v)" "\<And>a. a \<in> set [b] \<Longrightarrow> hdr_in (in_place t v1) a"
      by (rule touch_block [OF h bd]) (rule that)
    have same: "same_vm v v1" using v1(2) by (simp add: faulted_def)
    have "running T t v1" using v1(3) by (simp add: in_heap_def)
    from twin_next [OF twin_start [OF this] v1(7)] have n1: "getNextBlock (pt_bytes (hp v1)) b = (if bs = [] then NULL else b + PT_BLOCK_SIZE + z)"
      using nx v1(4) by simp
    have u: "threadMerge_from v x q b = (if bs = [] then Some (v1, False) else threadMerge_from v1 x b (b + PT_BLOCK_SIZE + z))"
      using False by (subst threadMerge_from.simps) (simp add: v1(1) n1 Let_def)
    have w: "pt_freeAndMerge_from (vheap t v) x q b = (if bs = [] then Some (vheap t v, False) else pt_freeAndMerge_from (vheap t v) x b (b + PT_BLOCK_SIZE + z))"
      using False ok nx by (subst pt_freeAndMerge_from.simps) (simp add: Let_def)
    show ?thesis
    proof (cases "bs = []")
      case True
      then have e: "Some (put_bytes (hp v) w, r) = Some (vheap t v, False)" using w Cons.prems(6) by simp
      from arg_cong [OF this, of "\<lambda>r. pt_bytes (fst (the r))"] have "w = vbytes t v" by simp
      then show ?thesis using u True e faulted_same [OF v1(2)] by auto
    next
      case ne: False
      let ?b = "b + PT_BLOCK_SIZE + z"
      have "pt_chain (vbytes t v1) ?b bs" using c ne v1(4) by simp
      moreover have "pt_arena (page_addr v1 k) (hp v1) ?b bs" using pt_arena_tail [OF a] same v1(5,6) by (simp add: pt_arena_def same_vm_def)
      moreover have "pt_freeAndMerge_from (vheap t v1) x b ?b = Some (put_bytes (hp v1) w, r)"
        using w Cons.prems(6) ne same_vm_put [OF same] v1(4) by simp
      ultimately obtain v' where "threadMerge_from v1 x b ?b = Some (v', r)" "wrote T t w v1 v'"
        using Cons.IH [OF v1(3), of ?b b] b be v1(5,6) by auto
      then show ?thesis using u ne faulted_wrote [OF v1(2)] by auto
    qed
  qed
qed simp

lemma heap_arena:
  assumes h: "in_heap T t k v" and c: "pt_chain (vbytes t v) (userSpace v) bs" and s: "span PT_BLOCK_SIZE bs = PAGESIZE (hp v) * k" and m: "0 < memory (hp v)"
  shows "pt_arena (page_addr v k) (hp v) (userSpace v) bs"
proof -
  have "0 < k" using c s by (cases bs) (auto simp: PT_BLOCK_SIZE_def intro: gr0I)
  then have n: "0 < npages v" "page_addr v k \<le> page_addr v (npages v)" using h by (auto simp: in_heap_def has_pages_def)
  then show ?thesis using order_trans [OF n(2) pages_in_memory [OF n(1)]] s m by (simp add: pt_arena_def userSpace_def)
qed

section \<open>Properties\<close>

text \<open>
  C11. Demand paging is transparent.  When the running thread touches an address of a page it has, the
  access returns, after a fault that moved pages if need be; the byte found there is the thread's own,
  and no thread's memory has changed.  Touching a page it has not ends the process when that page is
  protected; when it is not protected, the page table says that it is free, and the access returns at once.
\<close>

theorem fault_transparent:
  assumes r: "running T t v" and a: "userSpace v \<le> a" "page_of v a < npages v"
  shows "case virt t (page_of v a) v of
      Some c \<Rightarrow> \<exists>v'. touch a v = Some v' \<and> running T t v' \<and> accessible v' a \<and> pt_bytes (hp v') a = c ((a - userSpace v) mod PAGESIZE (hp v)) \<and>
        (\<forall>u \<in> T. \<forall>k. virt u k v' = virt u k v)
    | None \<Rightarrow> if prot (sc v) (page_of v a) then touch a v = Some v \<and> getPageIsF (entry v (Mem (page_of v a))) \<noteq> 0 else touch a v = None"
proof (cases "virt t (page_of v a) v")
  case (Some c)
  then obtain v' where v': "touch a v = Some v'" "faulted T t v v'" "placed t v' (page_of v a)" using touch_ok [OF r a] by blast
  have same: "same_vm v v'" and r': "running T t v'" and vi: "\<forall>u \<in> T. \<forall>k. virt u k v' = virt u k v" using v'(2) by (auto simp: faulted_def)
  note sz = same_vm_sizes [OF same] same_vm_runs(3) [OF same, of a]
  have t: "t \<in> T" using r by (simp add: running_def)
  have "pt_bytes (hp v') a = vbytes t v' a" using placed_byte [OF r', of a] v'(3) a sz by simp
  also have "\<dots> = c ((a - userSpace v) mod PAGESIZE (hp v))" using vi t Some a sz same by (simp add: vbytes_def same_vm_def)
  finally show ?thesis using Some v'(1,3) r' vi sz by (auto simp: accessible_def placed_def)
next
  case None
  have p: "paged T v" and t: "t \<in> T" and o: "owner v = t" and ok: "vm_ok v" and sh: "shielded T t v" using r by (auto simp: running_def paged_def)
  obtain th where th: "current_thread v = Some th" using r by (auto simp: running_def)
  have "\<not> lives v t (page_of v a) (Mem (page_of v a))" using None virt_lives [OF p t] by blast
  then have free: "getPageIsF (entry v (Mem (page_of v a))) \<noteq> 0" if "prot (sc v) (page_of v a)" using that sh a(2) by (auto simp: shielded_def)
  have "home (owner v) (page_of v a) v = None" using None o by (simp add: virt_def)
  moreover have "a < page_addr v (npages v)" using page_of_less [of v a] ok a by (simp add: vm_ok_def)
  ultimately have "sigHandler a v = Some ExitSegfault" using sigHandler_home(1) [OF ok th a(1)] by simp
  then show ?thesis using None free a by (simp add: touch_def accessible_def)
qed

lemma demo_lives:
  "lives (demo_at c x y m) t k s \<longleftrightarrow> (s = Mem 0 \<and> getPageIsF x = 0 \<and> getPageThID x = t \<and> getPagePgID x = of_nat k) \<or>
     (s = Mem 1 \<and> getPageIsF y = 0 \<and> getPageThID y = t \<and> getPagePgID y = of_nat k)"
proof (cases s)
  case (Mem i)
  consider "i = 0" | "i = 1" | "1 < i" by linarith
  then show ?thesis using Mem by cases (auto simp: lives_def slot_at.simps nth_Cons split: nat.split)
next
  case (Disk i)
  then show ?thesis by (auto simp: lives_def slot_at.simps)
qed

lemma demo_running_in:
  assumes xy: "(x, y) = (0x300, 0x200) \<or> (x, y) = (0x200, 0x300) \<or> (x, y) = (0x300, 0x400)" and T: "0 \<notin> T" "2 \<in> T"
  shows "running T 2 (demo_at c x y m)"
proof -
  have e: "getPageThID (entry (demo_at c x y m) (Mem i)) = 0 \<and> getPageIsF (entry (demo_at c x y m) (Mem i)) = 1" if "2 \<le> i" "i < 1848" for i
    using that by (auto simp: slot_at.simps nth_Cons split: nat.split)
  have "paged T (demo_at c x y m)"
    unfolding paged_def
  proof (intro conjI allI impI ballI)
    fix i assume i: "i < npages (demo_at c x y m)" "getPageIsF (entry (demo_at c x y m) (Mem i)) \<noteq> 0"
    consider "i = 0" | "i = 1" | "2 \<le> i" by linarith
    then show "getPageThID (entry (demo_at c x y m) (Mem i)) \<notin> T" using i e [of i] xy T(1) by cases (auto simp: slot_at.simps)
  next
    fix s let ?e = "entry (demo_at c x y m) s"
    assume "slot_ok (demo_at c x y m) s \<and> getPageIsF ?e = 0 \<and> getPageThID ?e \<in> T"
    then have "lives (demo_at c x y m) (getPageThID ?e) (unat (getPagePgID ?e)) s" by (simp add: lives_def)
    then have "getPagePgID ?e = 0" using xy by (auto simp: demo_lives)
    then show "unat (getPagePgID ?e) < npages (demo_at c x y m)" by simp
  qed (use xy in \<open>auto simp: demo_vm_ok demo_lives\<close>)
  moreover have "shielded T 2 (demo_at c x y m)"
    unfolding shielded_def
  proof (intro allI impI disjI2 conjI ballI)
    fix k assume k: "k < npages (demo_at c x y m)" "prot (sc (demo_at c x y m)) k"
    show "getPageIsF (entry (demo_at c x y m) (Mem k)) \<noteq> 0" using k e [of k] by simp
    fix u s show "\<not> lives (demo_at c x y m) u k s" using k of_nat_page [of k "demo_at c x y m" 0] xy by (auto simp: demo_lives)
  qed
  ultimately show ?thesis using T(2) by (simp add: running_def PT_BLOCK_SIZE_def)
qed

lemma demo_running: "(x, y) = (0x300, 0x200) \<or> (x, y) = (0x200, 0x300) \<or> (x, y) = (0x300, 0x400) \<Longrightarrow> running {2, 3} 2 (demo_at c x y m)"
  by (rule demo_running_in) simp_all

theorem fault_transparent_witness:
  "\<exists>v'. touch 823300 demo_vm = Some v' \<and> accessible v' 823300 \<and> (\<forall>u \<in> {2, 3}. \<forall>k. virt u k v' = virt u k demo_vm)"
  using fault_transparent [of "{2, 3}" 2 demo_vm 823300, OF demo_running] by (auto simp: demo_home virt_def)

lemma thread_search:
  assumes h: "in_heap T t k v" and c: "pt_chain (vbytes t v) (userSpace v) bs" and s: "span PT_BLOCK_SIZE bs = PAGESIZE (hp v) * k" and m: "0 < memory (hp v)"
  obtains v' p bs' m' where "ff_alloc PT_BLOCK_SIZE (userSpace v) n bs = Some (p, bs')" "threadFit_from v n (userSpace v) = Some (v', p, p - PT_BLOCK_SIZE)" "p \<noteq> NULL"
      "wrote T t m' v v'" "pt_chain m' (userSpace v) bs'" "same_live PT_BLOCK_SIZE (userSpace v) bs (vbytes t v) m'"
  | v' where "ff_alloc PT_BLOCK_SIZE (userSpace v) n bs = None" "threadFit_from v n (userSpace v) = Some (v', NULL, userSpace v + span PT_BLOCK_SIZE (butlast bs))"
      "wrote T t (vbytes t v) v v'"
proof -
  note a = heap_arena [OF h c s m]
  obtain v' p m' q where v': "threadFit_from v n (userSpace v) = Some (v', p, q)" "firstFit_from (vheap t v) n (userSpace v) = Some (put_bytes (hp v) m', p)"
    "wrote T t m' v v'" "if p = NULL then q = userSpace v + span PT_BLOCK_SIZE (butlast bs) else p = q + PT_BLOCK_SIZE" using threadFit_refines [OF h order_refl c a] by blast
  have cv: "pt_chain (pt_bytes (vheap t v)) (userSpace v) bs" and av: "pt_arena (page_addr v k) (vheap t v) (userSpace v) bs" using c a by simp_all
  show thesis
  proof (cases "ff_alloc PT_BLOCK_SIZE (userSpace v) n bs")
    case None
    have e: "Some (put_bytes (hp v) m', p) = Some (vheap t v, NULL)" using pt_loops.search_refines_None [OF cv av None] v'(2) by simp
    from arg_cong [OF this, of "\<lambda>r. pt_bytes (fst (the r))"] have "m' = vbytes t v" by simp
    then show thesis using that(2) None e v' by simp
  next
    case (Some r)
    obtain p' bs' where r: "r = (p', bs')" by (cases r)
    obtain m2 where m2: "firstFit_from (vheap t v) n (userSpace v) = Some (put_bytes (vheap t v) m2, p')" "pt_chain m2 (userSpace v) bs'"
      "same_live PT_BLOCK_SIZE (userSpace v) bs (vbytes t v) m2" using pt_loops.search_refines_Some [OF cv av Some [unfolded r]] by auto
    have e: "Some (put_bytes (hp v) m', p) = Some (put_bytes (hp v) m2, p')" using m2(1) v'(2) by simp
    from arg_cong [OF this, of "\<lambda>r. pt_bytes (fst (the r))"] have "m' = m2" by simp
    moreover have "p' = p" "p' \<noteq> NULL" using e ff_alloc_bounds [OF Some [unfolded r]] by (auto simp: PT_BLOCK_SIZE_def)
    ultimately show thesis using Some r v' m2(2,3) by (intro that(1) [of p' bs' v' m2]) simp_all
  qed
qed

text \<open>
  The first-fit search of a thread request, which runs over real memory and takes faults, answers
  what first fit over the block list of the thread's own memory answers: on success that block is
  marked or split in the thread's memory, its other live bytes and every other thread's memory are
  as before; when nothing fits, no thread's memory has changed and the last block is where the search ends.
\<close>

theorem thread_search_first_fit:
  assumes h: "in_heap T t k v" and c: "pt_chain (vbytes t v) (userSpace v) bs" and s: "span PT_BLOCK_SIZE bs = PAGESIZE (hp v) * k" and m: "0 < memory (hp v)"
  shows "\<exists>v'. (\<forall>u \<in> T. u \<noteq> t \<longrightarrow> (\<forall>i. virt u i v' = virt u i v)) \<and> running T t v' \<and>
    (case ff_alloc PT_BLOCK_SIZE (userSpace v) n bs of
       Some (p, bs') \<Rightarrow> threadFit_from v n (userSpace v) = Some (v', p, p - PT_BLOCK_SIZE) \<and> pt_chain (vbytes t v') (userSpace v) bs' \<and>
         same_live PT_BLOCK_SIZE (userSpace v) bs (vbytes t v) (vbytes t v')
     | None \<Rightarrow> threadFit_from v n (userSpace v) = Some (v', NULL, userSpace v + span PT_BLOCK_SIZE (butlast bs)) \<and> vbytes t v' = vbytes t v)"
  by (rule thread_search [OF assms, of n]) (force simp: wrote_def)+

lemma demo_vbytes:
  assumes "home 2 0 (demo_pages x y m) = Some (Mem i)" "j < 4096"
  shows "vbytes 2 (demo_pages x y m) (823296 + j) = m (823296 + 4096 * i + j)"
  using assms by (simp add: vbytes_def virt_def slot_at.simps get_page_def)

lemma load32_bytes: "load32 m a = of_nat (unat (m a) + 256 * (unat (m (a + 1)) + 256 * (unat (m (a + 2)) + 256 * unat (m (a + 3)))))"
proof -
  have four: "(4 :: nat) = Suc (Suc (Suc (Suc 0)))" by simp
  have "load_le m a 4 = unat (m a) + 256 * (unat (m (a + 1)) + 256 * (unat (m (a + 2)) + 256 * unat (m (a + 3))))"
    unfolding four load_le.simps by (simp add: numeral_2_eq_2 numeral_3_eq_3)
  then show ?thesis by (simp add: load32_def)
qed

lemma demo_load:
  assumes "home 2 0 (demo_pages x y m) = Some (Mem i)" "j < 4093"
  shows "load32 (vbytes 2 (demo_pages x y m)) (823296 + j) = load32 m (823296 + 4096 * i + j)"
  using demo_vbytes [OF assms(1), of j] demo_vbytes [OF assms(1), of "j + 1"] demo_vbytes [OF assms(1), of "j + 2"] demo_vbytes [OF assms(1), of "j + 3"] assms(2)
  by (simp add: load32_bytes add.assoc)

lemma demo_chain: "pt_chain (vbytes 2 demo_vm) 823296 [(4092, True)]"
proof -
  have "load32 (vbytes 2 demo_vm) 823296 = 0xFFC01" using demo_load [OF demo_home, of 0] by (simp add: load32_bytes)
  then show ?thesis by (simp add: hdr_word_defs block_word_defs)
qed

lemma demo_in_heap:
  assumes "(x, y) = (0x300, 0x200) \<or> (x, y) = (0x200, 0x300)"
  shows "in_heap {2, 3} 2 1 (demo_pages x y m)"
proof -
  have r: "running {2, 3} 2 (demo_pages x y m)" by (rule demo_running) (use assms in blast)
  have "\<exists>s. lives (demo_pages x y m) 2 0 s" using assms by (auto simp: demo_lives)
  then have "virt 2 0 (demo_pages x y m) \<noteq> None" using virt_lives [of "{2, 3}" "demo_pages x y m" 2 0] r by (simp add: running_def)
  then show ?thesis using r by (simp add: in_heap_def has_pages_def)
qed

theorem thread_search_first_fit_witness:
  "\<exists>v'. threadFit_from demo_vm 100 823296 = Some (v', 823300, 823296) \<and> pt_chain (vbytes 2 v') 823296 [(100, False), (3988, True)] \<and>
     (\<forall>i. virt 3 i v' = virt 3 i demo_vm)"
  using thread_search_first_fit [of "{2, 3}" 2 1 demo_vm "[(4092, True)]" 100, OF demo_in_heap] demo_chain by (auto simp: PT_BLOCK_SIZE_def)

lemma thread_free:
  assumes h: "in_heap T t k v" and c: "pt_chain (vbytes t v) (userSpace v) bs" and s: "span PT_BLOCK_SIZE bs = PAGESIZE (hp v) * k" and m: "0 < memory (hp v)"
    and first: "lives v t 0 (Mem 0)" and pg: "getPageThID pg = t" and f: "ff_free PT_BLOCK_SIZE (userSpace v) x bs = Some bs'"
  obtains v' m' where "freeAndMerge_thread x pg v = Some (v', True)" "wrote T t m' v v'" "pt_chain m' (userSpace v) bs'" "same_live PT_BLOCK_SIZE (userSpace v) bs (vbytes t v) m'"
proof -
  note a = heap_arena [OF h c s m]
  have cv: "pt_chain (pt_bytes (vheap t v)) (userSpace v) bs" and av: "pt_arena (page_addr v k) (vheap t v) (userSpace v) bs" using c a by simp_all
  obtain m' where m': "pt_freeAndMerge_from (vheap t v) x NULL (userSpace v) = Some (put_bytes (hp v) m', True)" "pt_chain m' (userSpace v) bs'"
    "same_live PT_BLOCK_SIZE (userSpace v) bs (vbytes t v) m'" using pt_loops.walk_refines [OF cv av f] by auto
  obtain v' where v': "threadMerge_from v x NULL (userSpace v) = Some (v', True)" "wrote T t m' v v'"
    using threadMerge_refines [OF h order_refl c a _ m'(1)] by auto
  have "first_from (\<lambda>i. getPageThID (pages (sc v) ! i) = getPageThID pg) 0 (npages v) = Some 0"
    using first pg by (auto simp: first_from_Some lives_def slot_at.simps)
  then have "freeAndMerge_thread x pg v = Some (v', True)" using v'(1) by (simp add: freeAndMerge_thread_def)
  then show thesis using v'(2) m'(2,3) by (rule that)
qed

text \<open>
  Freeing a block of a thread, when the thread's first page is in its place: the block becomes
  free in the thread's memory and merges with free neighbours, as in the abstract block list; its
  other live bytes and every other thread's memory are as before.
\<close>

theorem thread_free_coalesces:
  assumes h: "in_heap T t k v" and c: "pt_chain (vbytes t v) (userSpace v) bs" and s: "span PT_BLOCK_SIZE bs = PAGESIZE (hp v) * k" and m: "0 < memory (hp v)"
    and first: "lives v t 0 (Mem 0)" and pg: "getPageThID pg = t" and f: "ff_free PT_BLOCK_SIZE (userSpace v) x bs = Some bs'"
  shows "\<exists>v'. freeAndMerge_thread x pg v = Some (v', True) \<and> running T t v' \<and> pt_chain (vbytes t v') (userSpace v) bs' \<and>
    same_live PT_BLOCK_SIZE (userSpace v) bs (vbytes t v) (vbytes t v') \<and> (\<forall>u \<in> T. u \<noteq> t \<longrightarrow> (\<forall>i. virt u i v' = virt u i v))"
  by (rule thread_free [OF assms]) (auto simp: wrote_def)

text \<open>Page 0 of thread 2 in place, with a block of 100 bytes taken.\<close>

abbreviation taken_vm :: vm where
  "taken_vm \<equiv> demo_pages 0x200 0x300 ((\<lambda>_. 0)(823296 := 0x10, 823297 := 0x64, 823400 := 0x01, 823401 := 0x94, 823402 := 0x0F))"

lemma taken_chain: "pt_chain (vbytes 2 taken_vm) 823296 [(100, False), (3988, True)]"
proof -
  have "home 2 0 taken_vm = Some (Mem 0)" using home_at [of "{2, 3}" taken_vm 2 0 "Mem 0"] demo_running by (auto simp: running_def demo_lives)
  from demo_load [OF this, of 0] demo_load [OF this, of 104]
  have "load32 (vbytes 2 taken_vm) 823296 = 0x6410" "load32 (vbytes 2 taken_vm) 823400 = 0xF9401" by (simp_all add: load32_bytes)
  then show ?thesis by (simp add: hdr_word_defs block_word_defs PT_BLOCK_SIZE_def)
qed

theorem thread_free_coalesces_witness:
  "\<exists>v'. freeAndMerge_thread 823296 0x200 taken_vm = Some (v', True) \<and> pt_chain (vbytes 2 v') 823296 [(4092, True)]"
  using thread_free_coalesces [of "{2, 3}" 2 1 taken_vm "[(100, False), (3988, True)]" "0x200" 823296 "[(4092, True)]", OF demo_in_heap] taken_chain
  by (auto simp: PT_BLOCK_SIZE_def demo_lives)

end
