(* ===== verification/PtGrow.thy ===== *)
theory PtGrow
  imports PtThreadHeap
begin

text \<open>
  Adding a page to a thread: the slot with the page's number is vacated, its page kept in another
  slot, and given to the thread.  Every page of every thread keeps its contents.
\<close>

section \<open>The new entry\<close>

lemma page_root_byte: "x < a \<or> a + PT_BLOCK_SIZE \<le> x \<Longrightarrow> page_root m a n x = m x"
  by (simp add: page_root_def mem_simps)

lemma page_root_elsewhere:
  assumes "PT_BLOCK_SIZE \<le> n" "0 < i"
  shows "get_page (page_root m a n) (a + n * i) n = get_page m (a + n * i) n"
proof -
  have "n \<le> n * i" using assms(2) by simp
  then have "a + PT_BLOCK_SIZE \<le> a + n * i + k" for k using assms(1) by linarith
  then show ?thesis by (auto simp: get_page_def fun_eq_iff page_root_byte)
qed

lemma initializePage_slots:
  assumes ok: "vm_ok v" and k: "k < npages v" "k < 2 ^ 16" and th: "current_thread v = Some th" and num: "pageNum (pthreads (sc v) th) = int k"
    and t: "owner v = t" "unat t < 2 ^ 8" and ps: "PT_BLOCK_SIZE \<le> PAGESIZE (hp v)"
  obtains v' where "initializePage k v = Some v'" "vm_ok v'" "npages v' = npages v" "ndisk v' = ndisk v" "owner v' = t" "current_thread v' = Some th"
    "PAGESIZE (hp v') = PAGESIZE (hp v)" "pageNum (pthreads (sc v') th) = int (Suc k)" "\<And>s. s \<noteq> Mem k \<Longrightarrow> slot_at v' s = slot_at v s"
    "getPageIsF (entry v' (Mem k)) = 0" "getPageThID (entry v' (Mem k)) = t" "getPagePgID (entry v' (Mem k)) = of_nat k"
    "\<And>i. prot (sc v') i \<longleftrightarrow> prot (sc v) i \<or> (k = 0 \<and> i = 0)" "userSpace v' = userSpace v" "memory (hp v') = memory (hp v)"
    "pt_bytes (hp v') = (if k = 0 then page_root (pt_bytes (hp v)) (userSpace v) (PAGESIZE (hp v)) else pt_bytes (hp v))"
proof -
  let ?pg = "pages (sc v) ! k"
  let ?e = "setPageIsF (setPageThID (setPagePgID ?pg (of_nat k)) t) 0"
  let ?w = "v\<lparr>sc := upd_thread th (\<lambda>d. d\<lparr>pageNum := pageNum d + 1\<rparr>) (sc v)\<rparr>"
  let ?x = "if k = 0 then set_bytes (page_root (pt_bytes (hp v)) (userSpace v) (PAGESIZE (hp v))) (mprotect 0 True ?w) else ?w"
  let ?v = "set_entry k ?e ?x"
  have u: "unat (of_nat k :: uint32) < 2 ^ 16" using k(2) by (simp add: unat_of_nat)
  have e: "getPageIsF ?e = 0" "getPageThID ?e = t" "getPagePgID ?e = of_nat k" using u t(2) by (simp_all add: bits_simps)
  have z: "(of_nat k :: uint32) = 0 \<longleftrightarrow> k = 0" using k(2) of_nat_page [of k v 0] k(1) by auto
  have tt: "t = word_of_int (tid (pthreads (sc v) th))" and up: "scd_up (sc v)" and thn: "th = threadID (nodes (sc v) (current (sc v)))" "current (sc v) \<noteq> NULL" "th \<noteq> NULL"
    using th t(1) by (auto simp: owner_def current_thread_def split: if_split_asm)
  have len: "k < length (pages (sc v))" using ok k(1) by (simp add: vm_ok_def)
  have run: "initializePage k v = Some ?v"
    using len up th num e(3) z tt by (simp add: initializePage_def Let_def)
  have sz: "npages ?v = npages v" "ndisk ?v = ndisk v" "userSpace ?v = userSpace v" by simp_all
  have hp: "PAGESIZE (hp ?v) = PAGESIZE (hp v)" "memory (hp ?v) = memory (hp v)" by simp_all
  have pgs: "pages (sc ?v) = (pages (sc v))[k := ?e]" by (simp add: upd_thread_def)
  have bts: "pt_bytes (hp ?v) = (if k = 0 then page_root (pt_bytes (hp v)) (userSpace v) (PAGESIZE (hp v)) else pt_bytes (hp v))" by simp
  have other: "slot_at ?v s = slot_at v s" if "s \<noteq> Mem k" for s
    using that page_root_elsewhere [OF ps] by (cases s) (auto simp: slot_at.simps pgs sz hp bts upd_thread_def)
  have own: "owner ?v = t" "current_thread ?v = Some th" using t(1) up thn by (simp_all add: owner_def current_thread_def upd_thread_def)
  have en: "entry ?v (Mem k) = ?e" using len unfolding slot_at.simps pgs by simp
  have pr: "prot (sc ?v) i \<longleftrightarrow> prot (sc v) i \<or> (k = 0 \<and> i = 0)" for i by (simp add: upd_thread_def)
  have vo: "vm_ok ?v" using ok up unfolding vm_ok_def sz hp pgs by (simp add: upd_thread_def)
  have pn: "pageNum (pthreads (sc ?v) th) = int (Suc k)" using num by (simp add: upd_thread_def)
  have e': "getPageIsF (entry ?v (Mem k)) = 0" "getPageThID (entry ?v (Mem k)) = t" "getPagePgID (entry ?v (Mem k)) = of_nat k"
    unfolding en by (rule e)+
  show thesis by (rule that [of ?v]) (fact run vo sz own hp pn e' bts | erule other | rule pr)+
qed

section \<open>A page more\<close>

text \<open>The slot \<open>Mem k\<close> now has page \<open>k\<close> of thread \<open>t\<close>; what it had is in \<open>d\<close>, the lowest free slot.\<close>

definition given :: "uint32 \<Rightarrow> nat \<Rightarrow> slot \<Rightarrow> vm \<Rightarrow> vm \<Rightarrow> bool" where
  "given t k d v v' \<longleftrightarrow> vm_ok v' \<and> npages v' = npages v \<and> (\<forall>s. slot_ok v' s = slot_ok v s) \<and> k < npages v \<and> slot_ok v d \<and> getPageIsF (entry v d) = 1 \<and>
     getPageIsF (entry v' (Mem k)) = 0 \<and> getPageThID (entry v' (Mem k)) = t \<and> getPagePgID (entry v' (Mem k)) = of_nat k \<and>
     (d \<noteq> Mem k \<longrightarrow> slot_at v' d = slot_at v (Mem k)) \<and> (\<forall>s. slot_ok v s \<and> s \<noteq> d \<and> s \<noteq> Mem k \<longrightarrow> slot_at v' s = slot_at v s) \<and>
     (\<forall>i. prot (sc v') i \<longleftrightarrow> (if Mem i = d \<and> i \<noteq> k then False else i = k \<or> prot (sc v) i)) \<and>
     (\<forall>i < npages v. getPageIsF (entry v (Mem i)) = 1 \<longrightarrow> (\<exists>j \<le> i. d = Mem j)) \<and>
     userSpace v' = userSpace v \<and> PAGESIZE (hp v') = PAGESIZE (hp v) \<and> memory (hp v') = memory (hp v) \<and> (\<forall>x < userSpace v. pt_bytes (hp v') x = pt_bytes (hp v) x)"

lemma lives_given:
  assumes "given t k d v v'"
  shows "lives v' u j s \<longleftrightarrow> (if s = Mem k then u = t \<and> (of_nat j :: uint32) = of_nat k else if s = d then lives v u j (Mem k) else lives v u j s)"
proof -
  note g = assms [unfolded given_def]
  consider "s = Mem k" | "s = d" "s \<noteq> Mem k" | "s \<noteq> d" "s \<noteq> Mem k" by blast
  then show ?thesis
  proof cases
    case 1
    then show ?thesis using g by (auto simp: lives_def)
  next
    case 2
    then have "slot_at v' s = slot_at v (Mem k)" "slot_ok v' s" "slot_ok v (Mem k)" using g by auto
    then show ?thesis using 2 by (simp add: lives_def)
  next
    case 3
    then have "slot_ok v' s = slot_ok v s" "slot_ok v s \<Longrightarrow> slot_at v' s = slot_at v s" using g by auto
    then show ?thesis using 3 by (auto simp: lives_def)
  qed
qed

lemma paged_given:
  assumes p: "paged T v" and g: "given t k d v v'" and none: "\<And>s. \<not> lives v t k s"
  shows "paged T v'"
  unfolding paged_def
proof (intro conjI allI impI ballI)
  show "vm_ok v'" using g by (simp add: given_def)
next
  fix i assume i: "i < npages v'" "getPageIsF (entry v' (Mem i)) \<noteq> 0"
  then have n: "i < npages v" "i \<noteq> k" using g by (auto simp: given_def)
  note c = g [unfolded given_def]
  define j where "j = (if Mem i = d then k else i)"
  have old: "\<forall>s. slot_ok v s \<and> s \<noteq> d \<and> s \<noteq> Mem k \<longrightarrow> slot_at v' s = slot_at v s" and mv: "d \<noteq> Mem k \<longrightarrow> slot_at v' d = slot_at v (Mem k)" and kn: "k < npages v"
    using c by blast+
  have "slot_at v' (Mem i) = slot_at v (Mem j)"
  proof (cases "Mem i = d")
    case True
    then show ?thesis using mv n(2) by (auto simp: j_def)
  next
    case False
    then show ?thesis using old [rule_format, of "Mem i"] n by (simp add: j_def)
  qed
  moreover have "j < npages v" using kn n by (simp add: j_def)
  ultimately show "getPageThID (entry v' (Mem i)) \<notin> T" using p i(2) by (simp add: paged_def)
next
  fix u j s s' assume u: "u \<in> T" and l: "lives v' u j s" "lives v' u j s'"
  have one: "lives v u j a \<Longrightarrow> lives v u j b \<Longrightarrow> a = b" for a b using p u by (auto simp: paged_def)
  have no: "\<not> lives v u j a" if "u = t" "(of_nat j :: uint32) = of_nat k" for a using none [of a] that by (auto simp: lives_def)
  define f where "f s = (if s = d then Mem k else s)" for s
  have old: "lives v u j (f a)" if "lives v' u j a" "a \<noteq> Mem k" for a using that by (simp add: lives_given [OF g] f_def split: if_split_asm)
  have new: "\<not> lives v u j a" if "lives v' u j (Mem k)" for a using that no by (simp add: lives_given [OF g])
  show "s = s'"
  proof (cases "s = Mem k \<or> s' = Mem k")
    case True
    then show ?thesis using l old new by metis
  next
    case False
    then have "f s = f s'" using l old one by blast
    then show ?thesis using False by (auto simp: f_def split: if_split_asm)
  qed
next
  fix s assume s: "slot_ok v' s \<and> getPageIsF (entry v' s) = 0 \<and> getPageThID (entry v' s) \<in> T"
  then have l: "lives v' (getPageThID (entry v' s)) (unat (getPagePgID (entry v' s))) s" by (simp add: lives_def)
  have kn: "k < npages v" "npages v' = npages v" using g by (simp_all add: given_def)
  show "unat (getPagePgID (entry v' s)) < npages v'"
  proof (cases "s = Mem k")
    case True
    then show ?thesis using g kn npages_bound [of v] by (simp add: given_def unat_of_nat32)
  next
    case False
    define a where "a = (if s = d then Mem k else s)"
    have "lives v (getPageThID (entry v' s)) (unat (getPagePgID (entry v' s))) a" using l False by (simp add: lives_given [OF g] a_def split: if_split_asm)
    then have "slot_ok v a" "getPageIsF (entry v a) = 0" "getPageThID (entry v a) \<in> T" "getPagePgID (entry v a) = getPagePgID (entry v' s)"
      using s by (auto simp: lives_def)
    then have "unat (getPagePgID (entry v a)) < npages v" using p unfolding paged_def by blast
    then show ?thesis using \<open>getPagePgID (entry v a) = _\<close> kn by simp
  qed
qed

lemma shielded_given:
  assumes sh: "shielded T t v" and g: "given t k d v v'"
  shows "shielded T t v'"
  unfolding shielded_def
proof (intro allI impI)
  fix i assume i: "i < npages v'" "prot (sc v') i"
  then have n: "i < npages v" "k < npages v" using g by (auto simp: given_def)
  show "lives v' t i (Mem i) \<or> getPageIsF (entry v' (Mem i)) \<noteq> 0 \<and> (\<forall>u\<in>T. \<forall>s. \<not> lives v' u i s)"
  proof (cases "i = k")
    case True
    then show ?thesis by (simp add: lives_given [OF g])
  next
    case False
    then have d: "Mem i \<noteq> d" "prot (sc v) i" using g i(2) by (auto simp: given_def split: if_split_asm)
    have e: "entry v' (Mem i) = entry v (Mem i)" using g n d(1) False by (simp add: given_def)
    have "(of_nat i :: uint32) \<noteq> of_nat k" using of_nat_page [OF n] False by simp
    then show ?thesis using sh n(1) d e False by (auto simp: shielded_def lives_given [OF g])
  qed
qed

lemma virt_given:
  assumes p: "paged T v" and g: "given t k d v v'" and none: "\<And>s. \<not> lives v t k s" and u: "u \<in> T" "j < npages v" "(u, j) \<noteq> (t, k)"
  shows "virt u j v' = virt u j v"
proof (cases "home u j v")
  case None
  have "\<not> (u = t \<and> (of_nat j :: uint32) = of_nat k)" using of_nat_page [of j v k] u g by (auto simp: given_def)
  then have "\<not> lives v' u j s" for s using None home_None [OF p u(1)] by (auto simp: lives_given [OF g])
  then show ?thesis using None home_None [OF paged_given [OF p g none] u(1)] by (simp add: virt_def)
next
  case (Some s)
  then have l: "lives v u j s" using home_at [OF p u(1)] by blast
  have sd: "s \<noteq> d" using l g by (auto simp: lives_def given_def)
  let ?s = "if s = Mem k then d else s"
  have ds: "d \<noteq> Mem k" if "s = Mem k" using that sd by auto
  have "lives v' u j ?s" using l sd ds by (auto simp: lives_given [OF g])
  then have "home u j v' = Some ?s" using home_at [OF paged_given [OF p g none] u(1)] by blast
  moreover have "slot_at v' ?s = slot_at v s" using g sd ds l by (auto simp: given_def lives_def)
  ultimately show ?thesis using Some by (simp add: virt_def)
qed

lemma finite_free: "finite (free_slots v)"
proof -
  have "free_slots v \<subseteq> Mem ` {..<npages v} \<union> Disk ` {..<ndisk v}"
  proof
    fix s assume "s \<in> free_slots v"
    then show "s \<in> Mem ` {..<npages v} \<union> Disk ` {..<ndisk v}" by (cases s) (auto simp: free_slots_def)
  qed
  then show ?thesis by (rule finite_subset) simp
qed

text \<open>The lowest free slot is used; none lies below the thread's own pages.\<close>

lemma free_given:
  assumes r: "running T t v" and lo: "loose v" and h: "has_pages t k v" and g: "given t k d v v'"
  shows "free_slots v' = free_slots v - {d}" "loose v'"
proof -
  note c = g [unfolded given_def]
  have p: "paged T v" and t: "t \<in> T" using r by (auto simp: running_def)
  have kn: "k < npages v" "npages v' = npages v" and dd: "slot_ok v d" "getPageIsF (entry v d) = 1" using c by auto
  have low: "getPageIsF (entry v (Mem j)) \<noteq> 1" if j: "j < k" for j
  proof -
    obtain s where "lives v t j s" using h j virt_lives [OF p t] unfolding has_pages_def by blast
    then show ?thesis using loose_used [OF r lo t] j kn by simp
  qed
  have same: "d = Mem k" if f: "getPageIsF (entry v (Mem k)) = 1"
  proof -
    obtain j where "j \<le> k" "d = Mem j" using c f kn(1) by blast
    then show ?thesis using low [of j] dd by (cases "j = k") auto
  qed
  show fs: "free_slots v' = free_slots v - {d}"
  proof (rule set_eqI)
    fix s
    consider "s = Mem k" | "s = d" "s \<noteq> Mem k" | "s \<noteq> d" "s \<noteq> Mem k" by blast
    then show "s \<in> free_slots v' \<longleftrightarrow> s \<in> free_slots v - {d}"
    proof cases
      case 1
      then show ?thesis using c same by (auto simp: free_slots_def)
    next
      case 2
      then have "entry v' d = entry v (Mem k)" using c by simp
      then show ?thesis using 2 same by (auto simp: free_slots_def)
    next
      case 3
      then have "slot_ok v' s = slot_ok v s" "slot_ok v s \<Longrightarrow> slot_at v' s = slot_at v s" using c by auto
      then show ?thesis using 3 by (auto simp: free_slots_def)
    qed
  qed
  show "loose v'"
    unfolding loose_def
  proof (intro allI impI)
    fix i assume i: "i < npages v'" "getPageIsF (entry v' (Mem i)) = 1"
    then have "Mem i \<in> free_slots v - {d}" unfolding fs [symmetric] by (simp add: free_slots_def)
    then show "prot (sc v') i" using c lo i(1) kn(2) by (auto simp: free_slots_def loose_def)
  qed
qed

lemma new_page:
  assumes r: "running T t v" and th: "current_thread v = Some th" and num: "pageNum (pthreads (sc v) th) = int k" and k: "k < npages v" "k < 2 ^ 16"
    and t: "unat t < 2 ^ 8" and none: "virt t k v = None" and lo: "loose v" and nf: "\<not> full v"
  obtains v1 v' d where "makeRoom k v = Some (True, v1)" "initializePage k v1 = Some v'" "given t k d v v'" "running T t v'" "current_thread v' = Some th"
    "pageNum (pthreads (sc v') th) = int (Suc k)" "same_vm v v1" "pt_bytes (hp v') = (if k = 0 then page_root (pt_bytes (hp v1)) (userSpace v1) (PAGESIZE (hp v1)) else pt_bytes (hp v1))"
proof -
  have p: "paged T v" and ok: "vm_ok v" and ps: "PT_BLOCK_SIZE \<le> PAGESIZE (hp v)" and tT: "t \<in> T" using r by (auto simp: running_def paged_def)
  have lo': "prot (sc v) i" if "i < npages v" "getPageIsF (pages (sc v) ! i) = 1" for i using lo that by (simp add: loose_def slot_at.simps)
  obtain v1 d where v1: "makeRoom k v = Some (True, v1)" "vacated k d v v1"
    by (rule makeRoom_slots [OF ok k(1) lo']) (use nf that in auto)
  have same: "same_vm v v1" and ok1: "vm_ok v1" using v1(2) by (auto simp: vacated_def)
  note sz = same_vm_sizes [OF same] and rn = same_vm_runs [OF same]
  have a: "k < npages v1" "current_thread v1 = Some th" "pageNum (pthreads (sc v1) th) = int k" "owner v1 = t" "PT_BLOCK_SIZE \<le> PAGESIZE (hp v1)"
    using k(1) th num r ps sz rn same by (auto simp: running_def same_vm_def)
  obtain v' where v': "initializePage k v1 = Some v'" "vm_ok v'" "npages v' = npages v1" "ndisk v' = ndisk v1" "owner v' = t" "current_thread v' = Some th"
    "PAGESIZE (hp v') = PAGESIZE (hp v1)" "pageNum (pthreads (sc v') th) = int (Suc k)" "\<And>s. s \<noteq> Mem k \<Longrightarrow> slot_at v' s = slot_at v1 s"
    "getPageIsF (entry v' (Mem k)) = 0" "getPageThID (entry v' (Mem k)) = t" "getPagePgID (entry v' (Mem k)) = of_nat k"
    "\<And>i. prot (sc v') i \<longleftrightarrow> prot (sc v1) i \<or> (k = 0 \<and> i = 0)" "userSpace v' = userSpace v1" "memory (hp v') = memory (hp v1)"
    "pt_bytes (hp v') = (if k = 0 then page_root (pt_bytes (hp v1)) (userSpace v1) (PAGESIZE (hp v1)) else pt_bytes (hp v1))"
    by (rule initializePage_slots [OF ok1 a(1) k(2) a(2,3,4) t a(5)]) (rule that)
  have so: "slot_ok v' s = slot_ok v s" for s using v'(3,4) sz by (cases s) auto
  have g: "given t k d v v'"
    unfolding given_def
  proof (intro conjI allI impI)
    note vac = v1(2) [unfolded vacated_def]
    show "slot_ok v d" "getPageIsF (entry v d) = 1" using vac by auto
    show "slot_at v' d = slot_at v (Mem k)" if "d \<noteq> Mem k" using vac that v'(9) [OF that] by auto
    show "slot_at v' s = slot_at v s" if "slot_ok v s \<and> s \<noteq> d \<and> s \<noteq> Mem k" for s using vac that v'(9) [of s] by auto
    show "prot (sc v') i \<longleftrightarrow> (if Mem i = d \<and> i \<noteq> k then False else i = k \<or> prot (sc v) i)" for i using vac v'(13) by auto
    show "\<exists>j \<le> i. d = Mem j" if "i < npages v" "getPageIsF (entry v (Mem i)) = 1" for i using vac that by blast
    show "pt_bytes (hp v') x = pt_bytes (hp v) x" if "x < userSpace v" for x
      using that same sz v'(16) page_root_byte [of x "userSpace v1"] by (simp add: same_vm_def)
    show "PAGESIZE (hp v') = PAGESIZE (hp v)" "memory (hp v') = memory (hp v)" using v'(7,15) same by (simp_all add: same_vm_def)
  qed (use v' sz so k(1) in simp_all)
  have n: "\<not> lives v t k s" for s using none virt_lives [OF p tT] by blast
  have "running T t v'"
    using r paged_given [OF p g n] shielded_given [OF _ g, of T] v'(5-7) same ps by (auto simp: running_def same_vm_def)
  then show thesis using v1(1) v'(1,6,8,16) g same by (intro that)
qed

text \<open>
  A thread gets its next page: if any slot is free, room is made and the page set up, the thread
  then has it, and every other page of every thread, wherever it has gone, has its contents.
\<close>

theorem new_page_keeps_memory:
  assumes "running T t v" "current_thread v = Some th" "pageNum (pthreads (sc v) th) = int k" "k < npages v" "k < 2 ^ 16" "unat t < 2 ^ 8"
    "virt t k v = None" "loose v" "\<not> full v"
  shows "\<exists>v1 v'. makeRoom k v = Some (True, v1) \<and> initializePage k v1 = Some v' \<and> running T t v' \<and> virt t k v' \<noteq> None \<and>
    (\<forall>u \<in> T. \<forall>j < npages v. (u, j) \<noteq> (t, k) \<longrightarrow> virt u j v' = virt u j v) \<and> pageNum (pthreads (sc v') th) = int (Suc k)"
proof -
  obtain v1 v' d where v': "makeRoom k v = Some (True, v1)" "initializePage k v1 = Some v'" "given t k d v v'" "running T t v'" "current_thread v' = Some th"
    "pageNum (pthreads (sc v') th) = int (Suc k)"
    using new_page [OF assms] by metis
  have p: "paged T v" "paged T v'" and t: "t \<in> T" using assms(1) v'(4) by (auto simp: running_def)
  have n: "\<not> lives v t k s" for s using assms(7) virt_lives [OF p(1) t] by blast
  have "lives v' t k (Mem k)" by (simp add: lives_given [OF v'(3)])
  then have "virt t k v' \<noteq> None" using virt_lives [OF p(2) t] by blast
  then show ?thesis using v' virt_given [OF p(1) v'(3) n] by blast
qed

lemma demo_loose:
  assumes "getPageIsF x = 0" "getPageIsF y = 0"
  shows "loose (demo_at c x y m)"
  unfolding loose_def
proof (intro allI impI)
  fix i assume "i < npages (demo_at c x y m)" "getPageIsF (entry (demo_at c x y m) (Mem i)) = 1"
  then show "prot (sc (demo_at c x y m)) i" using assms by (cases i; cases "i - 1") (auto simp: slot_at.simps)
qed

lemma demo_not_full: "\<not> full (demo_at c x y m)"
proof -
  have "slot_ok (demo_at c x y m) (Mem 2) \<and> getPageIsF (entry (demo_at c x y m) (Mem 2)) = 1" by (simp add: slot_at.simps)
  then show ?thesis unfolding full_def by blast
qed

theorem new_page_keeps_memory_witness:
  "\<exists>v1 v'. makeRoom 1 demo_vm = Some (True, v1) \<and> initializePage 1 v1 = Some v' \<and> virt 2 1 v' \<noteq> None \<and> virt 2 0 v' = virt 2 0 demo_vm \<and> virt 3 0 v' = virt 3 0 demo_vm"
proof -
  have r: "running {2, 3} 2 demo_vm" by (rule demo_running) simp
  have "virt 2 1 demo_vm = None" using virt_lives [of "{2, 3}" demo_vm 2 1] r by (auto simp: running_def demo_lives)
  then show ?thesis using new_page_keeps_memory [OF r, of 200 1] demo_loose demo_not_full by fastforce
qed

end
