(* ===== verification/PtAlign.thy ===== *)
theory PtAlign
  imports PtGrow
begin

text \<open>
  What a thread's request does before its heap is searched: \<open>alignPages\<close>, and the first page.  The
  loops of \<open>alignPages\<close> only ever bring a page from the slot of its own number, so in memory they
  move nothing; a first page found in any other slot counts as none.
\<close>

section \<open>Aligning\<close>

lemma of_nat_disk: "k < ndisk v \<Longrightarrow> unat (of_nat k :: uint32) = k"
proof -
  assume "k < ndisk v"
  moreover have "ndisk v \<le> 16777216" unfolding ndisk_def DISK_MEMORY_def by (rule div_le_dividend)
  ultimately show ?thesis by (simp add: unat_of_nat)
qed

lemma of_nat_mem: "k < npages v \<Longrightarrow> unat (of_nat k :: uint32) = k"
  using npages_bound [of v] by (simp add: unat_of_nat)

lemma align_mem_ok:
  assumes "running T t v" "set is \<subseteq> {..< npages v}"
  shows "\<exists>v'. align_mem t is v = Some v' \<and> faulted T t v v' \<and> (\<forall>s. slot_at v' s = slot_at v s) \<and> (\<forall>i \<in> set is. lives v t i (Mem i) \<longrightarrow> placed t v' i)"
  using assms
proof (induction "is" arbitrary: v)
  case Nil
  then show ?case by (simp add: faulted_refl)
next
  case (Cons i "is")
  have i: "i < npages v" and p: "paged T v" and t: "t \<in> T" and ok: "vm_ok v" using Cons.prems by (auto simp: running_def paged_def)
  have len: "i < length (pages (sc v))" using i ok by (simp add: vm_ok_def)
  let ?pg = "pages (sc v) ! i"
  have e: "entry v (Mem i) = ?pg" by (simp add: slot_at.simps)
  show ?case
  proof (cases "getPageThID ?pg = t \<and> of_nat i = getPagePgID ?pg")
    case True
    have l: "lives v t i (Mem i)" using True p t i e by (auto simp: lives_def paged_def)
    let ?v = "mprotect i True v"
    have sl: "slot_at ?v s = slot_at v s" for s by (rule slot_at_cong(1)) simp_all
    have sz: "npages ?v = npages v" "ndisk ?v = ndisk v" by (simp_all add: npages_def ndisk_def)
    have "exchanged (Mem i) (Mem i) v ?v" using ok sl sz by (simp add: exchanged_def exch_def vm_ok_def same_vm_def)
    then have f: "faulted T t v ?v" "placed t ?v i" using brought [OF Cons.prems(1) l i, of ?v] by auto
    have "set is \<subseteq> {..< npages ?v}" "running T t ?v" using Cons.prems(2) sz f(1) by (auto simp: faulted_def)
    from Cons.IH [OF this(2,1)] obtain v' where v': "align_mem t is ?v = Some v'" "faulted T t ?v v'" "\<forall>s. slot_at v' s = slot_at ?v s"
      "\<forall>i \<in> set is. lives ?v t i (Mem i) \<longrightarrow> placed t v' i" by blast
    have run: "align_mem t (i # is) v = Some v'" using True len v'(1) of_nat_mem [OF i] by (simp add: pageSwap_def Let_def flip: True [THEN conjunct2])
    have "placed t v' j" if "j \<in> set (i # is)" "lives v t j (Mem j)" for j
      using that v'(2,4) f(2) sl sz by (auto simp: faulted_def lives_def)
    then show ?thesis using run faulted_trans [OF f(1) v'(2)] v'(3) sl by auto
  next
    case False
    from Cons.IH [OF Cons.prems(1)] Cons.prems(2) obtain v' where v': "align_mem t is v = Some v'" "faulted T t v v'" "\<forall>s. slot_at v' s = slot_at v s"
      "\<forall>i \<in> set is. lives v t i (Mem i) \<longrightarrow> placed t v' i" by auto
    have "\<not> lives v t i (Mem i)" using False e by (auto simp: lives_def)
    then show ?thesis using False len v' by (auto simp: Let_def)
  qed
qed

lemma align_disk_ok:
  assumes "running T t v" "set is \<subseteq> {..< ndisk v}" "distinct is"
  shows "\<exists>v'. align_disk t is v = Some v' \<and> faulted T t v v' \<and>
    (\<forall>i < npages v. i \<in> set is \<and> lives v t i (Disk i) \<or> slot_at v' (Mem i) = slot_at v (Mem i)) \<and> (\<forall>i \<in> set is. lives v t i (Disk i) \<longrightarrow> placed t v' i)"
  using assms
proof (induction "is" arbitrary: v)
  case Nil
  then show ?case by (simp add: faulted_refl)
next
  case (Cons i "is")
  have i: "i < ndisk v" and p: "paged T v" and t: "t \<in> T" and ok: "vm_ok v" using Cons.prems by (auto simp: running_def paged_def)
  have len: "i < length (diskPages v)" using i ok by (simp add: vm_ok_def)
  let ?pg = "diskPages v ! i"
  have l: "lives v t i (Disk i) \<longleftrightarrow> getPageIsF ?pg = 0 \<and> getPageThID ?pg = t \<and> of_nat i = getPagePgID ?pg"
    using i by (auto simp: lives_def slot_at.simps)
  show ?case
  proof (cases "lives v t i (Disk i)")
    case True
    then have pg: "getPageIsF ?pg = 0" "getPageThID ?pg = t" "getPagePgID ?pg = of_nat i" using l by auto
    have "unat (getPagePgID (entry v (Disk i))) < npages v" using p True t unfolding paged_def lives_def by blast
    then have im: "i < npages v" using pg of_nat_disk [OF i] by (simp add: slot_at.simps)
    obtain v1 where v1: "swapToMemFromDisk i i v = Some v1" "exchanged (Mem i) (Disk i) v v1" "prot (sc v1) = (prot (sc v))(i := False)"
      by (rule swapToMemFromDisk_slots [OF ok im i])
    let ?v = "mprotect i True v1"
    have sl: "slot_at ?v s = slot_at v1 s" for s by (rule slot_at_cong(1)) simp_all
    have sz: "npages ?v = npages v1" "ndisk ?v = ndisk v1" "userSpace ?v = userSpace v1" by (simp_all add: npages_def ndisk_def userSpace_def)
    have ex: "exchanged (Mem i) (Disk i) v ?v" using v1(2) sl sz by (auto simp: exchanged_def vm_ok_def same_vm_def)
    then have f: "faulted T t v ?v" "placed t ?v i" using brought [OF Cons.prems(1) True im, of ?v] v1(3) by auto
    have same: "same_vm v ?v" using ex by (simp add: exchanged_def)
    note sm = same_vm_sizes [OF same]
    have "set is \<subseteq> {..< ndisk ?v}" "running T t ?v" "distinct is" using Cons.prems sm f(1) by (auto simp: faulted_def)
    from Cons.IH [OF this(2,1,3)] obtain v' where v': "align_disk t is ?v = Some v'" "faulted T t ?v v'"
      "\<forall>i < npages ?v. i \<in> set is \<and> lives ?v t i (Disk i) \<or> slot_at v' (Mem i) = slot_at ?v (Mem i)" "\<forall>i \<in> set is. lives ?v t i (Disk i) \<longrightarrow> placed t v' i" by blast
    have run: "align_disk t (i # is) v = Some v'" using pg len v1(1) v'(1) of_nat_disk [OF i] by (simp add: Let_def)
    have so: "slot_ok v (Mem i)" "slot_ok v (Disk i)" using i im by simp_all
    have other: "lives ?v t j (Disk j) = lives v t j (Disk j)" if "j \<noteq> i" for j using that lives_exchanged [OF ex so] by (simp add: exch_def)
    have nm: "slot_at ?v (Mem j) = slot_at v (Mem j)" if "j \<noteq> i" "j < npages v" for j using that ex by (auto simp: exchanged_def exch_def)
    have "placed t v' j" if "j \<in> set (i # is)" "lives v t j (Disk j)" for j
      using that v'(2,4) f(2) other by (cases "j = i") (auto simp: faulted_def)
    moreover have "j \<in> set (i # is) \<and> lives v t j (Disk j) \<or> slot_at v' (Mem j) = slot_at v (Mem j)" if "j < npages v" for j
      using that v'(3) nm other True sm by (cases "j = i") auto
    ultimately show ?thesis using run faulted_trans [OF f(1) v'(2)] by blast
  next
    case False
    from Cons.IH [OF Cons.prems(1)] Cons.prems(2,3) obtain v' where v': "align_disk t is v = Some v'" "faulted T t v v'"
      "\<forall>i < npages v. i \<in> set is \<and> lives v t i (Disk i) \<or> slot_at v' (Mem i) = slot_at v (Mem i)" "\<forall>i \<in> set is. lives v t i (Disk i) \<longrightarrow> placed t v' i" by auto
    have "align_disk t (i # is) v = Some v'" using False l len v'(1) by (auto simp: Let_def)
    then show ?thesis using False v'(2-4) by auto
  qed
qed

lemma alignPages_ok:
  assumes r: "running T t v"
  obtains v' where "alignPages v = Some v'" "faulted T t v v'" "\<And>i. i < npages v \<Longrightarrow> lives v t i (Disk i) \<or> slot_at v' (Mem i) = slot_at v (Mem i)"
    "\<And>i. i < npages v \<Longrightarrow> lives v t i (Mem i) \<or> lives v t i (Disk i) \<Longrightarrow> placed t v' i"
proof -
  have up: "scd_up (sc v)" using r by (simp add: running_def paged_def vm_ok_def)
  obtain th where th: "current_thread v = Some th" using r by (auto simp: running_def)
  then have tid: "word_of_int (tid (pthreads (sc v) th)) = t" using r by (auto simp: running_def owner_def current_thread_def split: if_split_asm)
  have sub: "set [0..<n] \<subseteq> {..< n}" for n :: nat by auto
  obtain v1 where v1: "align_mem t [0..<npages v] v = Some v1" "faulted T t v v1" "\<forall>s. slot_at v1 s = slot_at v s"
    "\<forall>i \<in> set [0..<npages v]. lives v t i (Mem i) \<longrightarrow> placed t v1 i" using align_mem_ok [OF r sub] by blast
  have same: "same_vm v v1" and r1: "running T t v1" using v1(2) by (auto simp: faulted_def)
  note sz = same_vm_sizes [OF same]
  obtain v2 where v2: "align_disk t [0..<ndisk v1] v1 = Some v2" "faulted T t v1 v2"
    "\<forall>i < npages v1. i \<in> set [0..<ndisk v1] \<and> lives v1 t i (Disk i) \<or> slot_at v2 (Mem i) = slot_at v1 (Mem i)" "\<forall>i \<in> set [0..<ndisk v1]. lives v1 t i (Disk i) \<longrightarrow> placed t v2 i"
    using align_disk_ok [OF r1 sub distinct_upt] by blast
  have l: "lives v1 t i s = lives v t i s" for i s using v1(3) same_vm_slot_ok [OF same] by (simp add: lives_def)
  have d: "lives v t i (Disk i) \<Longrightarrow> i < ndisk v" for i by (simp add: lives_def)
  show thesis
  proof (rule that)
    show "alignPages v = Some v2" using up th tid v1(1) v2(1) by (simp add: alignPages_def)
    show "faulted T t v v2" by (rule faulted_trans [OF v1(2) v2(2)])
    show "lives v t i (Disk i) \<or> slot_at v2 (Mem i) = slot_at v (Mem i)" if "i < npages v" for i
      using that v2(3) l sz v1(3) by auto
    show "placed t v2 i" if "i < npages v" "lives v t i (Mem i) \<or> lives v t i (Disk i)" for i
      using that v1(4) v2(2,4) l d sz by (auto simp: faulted_def)
  qed
qed

section \<open>The first page\<close>

lemma full_free: "full v \<longleftrightarrow> card (free_slots v) = 0"
  using finite_free [of v] by (auto simp: full_def free_slots_def)

lemma thread_runs:
  assumes "running T t v" "current_thread v = Some th"
  shows "word_of_int (tid (pthreads (sc v) th)) = t" "scd_up (sc v)"
  using assms by (auto simp: running_def owner_def current_thread_def split: if_split_asm)

text \<open>A thread one of whose pages is in slot 0, or whose first page is in slot 0 of the swap file, has its pages.\<close>

lemma ownFirstPage_keeps:
  assumes r: "running T t v" and n: "0 < npages v" and o: "getPageThID (entry v (Mem 0)) = t \<or> lives v t 0 (Disk 0)"
  shows "\<exists>v'. ownFirstPage v = Some (True, v') \<and> faulted T t v v'"
proof -
  obtain v1 where v1: "alignPages v = Some v1" "faulted T t v v1" "\<And>i. i < npages v \<Longrightarrow> lives v t i (Disk i) \<or> slot_at v1 (Mem i) = slot_at v (Mem i)"
    "\<And>i. i < npages v \<Longrightarrow> lives v t i (Mem i) \<or> lives v t i (Disk i) \<Longrightarrow> placed t v1 i"
    by (rule alignPages_ok [OF r]) (rule that)
  have r1: "running T t v1" and same: "same_vm v v1" using v1(2) by (auto simp: faulted_def)
  obtain th where th: "current_thread v1 = Some th" using r1 by (auto simp: running_def)
  have len: "pages (sc v1) \<noteq> []" using r1 n same_vm_sizes [OF same] by (auto simp: running_def paged_def vm_ok_def)
  have "getPageThID (entry v1 (Mem 0)) = t"
  proof (cases "lives v t 0 (Disk 0)")
    case True
    then show ?thesis using v1(4) [OF n] by (simp add: placed_def lives_def)
  qed (use o v1(3) [OF n] in simp)
  then have "getPageThID (pages (sc v1) ! 0) = t" by (simp add: slot_at.simps)
  then show ?thesis using v1(1,2) th len thread_runs [OF r1 th] by (simp add: ownFirstPage_def)
qed

text \<open>A thread with no page at all gets its first one: one free block that fills the page.\<close>

lemma ownFirstPage_first:
  assumes r: "running T t v" and th: "current_thread v = Some th" and num: "pageNum (pthreads (sc v) th) = 0" and n: "0 < npages v" and t8: "unat t < 2 ^ 8"
    and none: "\<And>k s. \<not> lives v t k s" and lo: "loose v" and nf: "\<not> full v"
  obtains v1 v2 v' where "ownFirstPage v = Some (True, v')" "faulted T t v v1" "makeRoom 0 v1 = Some (True, v2)" "initializePage 0 v2 = Some v'"
    "pt_chain (vbytes t v') (userSpace v) [(PAGESIZE (hp v) - PT_BLOCK_SIZE, True)]"
proof -
  obtain v1 where v1: "alignPages v = Some v1" "faulted T t v v1" "\<And>i. i < npages v \<Longrightarrow> lives v t i (Disk i) \<or> slot_at v1 (Mem i) = slot_at v (Mem i)"
    "\<And>i. i < npages v \<Longrightarrow> lives v t i (Mem i) \<or> lives v t i (Disk i) \<Longrightarrow> placed t v1 i"
    by (rule alignPages_ok [OF r]) (rule that)
  have r1: "running T t v1" and same: "same_vm v v1" and vt: "\<And>k. virt t k v1 = virt t k v" and lo1: "loose v1" and fs: "card (free_slots v1) = card (free_slots v)"
    using v1(2) r lo by (auto simp: faulted_def running_def)
  have p: "paged T v" "paged T v1" and tT: "t \<in> T" using r r1 by (auto simp: running_def)
  have th1: "current_thread v1 = Some th" and num1: "pageNum (pthreads (sc v1) th) = int 0" and n1: "0 < npages v1"
    using th num n same_vm_runs [OF same] same_vm_sizes [OF same] same by (simp_all add: same_vm_def)
  have none1: "virt t 0 v1 = None" using vt virt_lives [OF p(1) tT, of 0] none by auto
  have nf1: "\<not> full v1" using nf fs by (simp add: full_free)
  have "getPageThID (entry v1 (Mem 0)) \<noteq> t"
  proof
    assume a: "getPageThID (entry v1 (Mem 0)) = t"
    then have "getPageThID (entry v (Mem 0)) = t" using v1(3) [OF n] none by auto
    then have "lives v t (unat (getPagePgID (entry v (Mem 0)))) (Mem 0)" using p(1) tT n by (auto simp: lives_def paged_def)
    then show False using none by blast
  qed
  then have first: "getPageThID (pages (sc v1) ! 0) \<noteq> t" by (simp add: slot_at.simps)
  obtain v2 v' d where v': "makeRoom 0 v1 = Some (True, v2)" "initializePage 0 v2 = Some v'" "given t 0 d v1 v'" "running T t v'" "current_thread v' = Some th"
    "pageNum (pthreads (sc v') th) = int (Suc 0)" "same_vm v1 v2" "pt_bytes (hp v') = (if (0 :: nat) = 0 then page_root (pt_bytes (hp v2)) (userSpace v2) (PAGESIZE (hp v2)) else pt_bytes (hp v2))"
    by (rule new_page [OF r1 th1 num1 n1 _ t8 none1 lo1 nf1]) (use that in auto)
  have len: "pages (sc v1) \<noteq> []" using p(2) n1 by (auto simp: paged_def vm_ok_def)
  have run: "ownFirstPage v = Some (True, v')" using v1(1) th1 len first thread_runs [OF r1 th1] v'(1,2) by (simp add: ownFirstPage_def)
  have sz: "userSpace v2 = userSpace v" "PAGESIZE (hp v2) = PAGESIZE (hp v)" "userSpace v' = userSpace v" "PAGESIZE (hp v') = PAGESIZE (hp v)" "npages v' = npages v"
    using same_vm_sizes [OF same] same same_vm_sizes [OF v'(7)] v'(7) v'(3) by (auto simp: same_vm_def given_def)
  have ps: "PT_BLOCK_SIZE \<le> PAGESIZE (hp v)" "0 < PAGESIZE (hp v)" using r by (auto simp: running_def paged_def vm_ok_def)
  have pl: "placed t v' 0" using v'(3) n sz(5) lives_given [OF v'(3)] by (auto simp: placed_def given_def)
  have "in_place t v' x" if "userSpace v \<le> x" "x < userSpace v + PT_BLOCK_SIZE" for x
    using that pl ps sz page_of_less [of v' x 1] by (auto simp: in_place_def)
  then have "hdr_in (in_place t v') (userSpace v)" by (simp add: hdr_in_def)
  then have ld: "load32 (vbytes t v') (userSpace v) = load32 (page_root (pt_bytes (hp v2)) (userSpace v) (PAGESIZE (hp v))) (userSpace v)"
    using twin_load [OF twin_start [OF v'(4)]] v'(8) sz by simp
  have big: "PAGESIZE (hp v) - PT_BLOCK_SIZE < 2 ^ 24"
  proof -
    have "PAGESIZE (hp v) \<le> PT_MAX_MEMORY" using n div_less [of PT_MAX_MEMORY "PAGESIZE (hp v)"] by (cases "PT_MAX_MEMORY < PAGESIZE (hp v)") (auto simp: npages_def)
    then show ?thesis by (simp add: PT_MAX_MEMORY_def)
  qed
  have "pt_chain (vbytes t v') (userSpace v) [(PAGESIZE (hp v) - PT_BLOCK_SIZE, True)]"
    using big by (simp add: hdr_word_defs ld page_root_def load32_upd32_same bits_simps unat_of_nat)
  then show thesis using run v1(2) v'(1,2) by (intro that)
qed

text \<open>
  C37. A thread's first page that is in memory, but in a slot other than 0, is lost to the thread's next
  request.  \<open>alignPages\<close> does not bring it, slot 0 names another thread, and so the request is
  taken for the thread's first: slot 0 is entered as the thread's page \<open>k\<close>, its next number, and is
  accessible, so no fault will bring the first page; the blocks the search then walks over are the
  bytes another thread's page left there.
\<close>

theorem displaced_first_page_lost:
  assumes r: "running T t v" and th: "current_thread v = Some th" and num: "pageNum (pthreads (sc v) th) = int k" and k: "0 < k" "k < 2 ^ 16" and t8: "unat t < 2 ^ 8"
    and n: "0 < npages v" and l: "lives v t 0 (Mem i)" and o: "getPageThID (pages (sc v) ! 0) \<noteq> t" and lo: "loose v" and nf: "\<not> full v"
  shows "\<exists>v'. ownFirstPage v = Some (True, v') \<and> getPageThID (pages (sc v') ! 0) = t \<and> getPagePgID (pages (sc v') ! 0) = of_nat k \<and> touch (userSpace v) v' = Some v' \<and>
    (\<forall>x < PAGESIZE (hp v). pt_bytes (hp v') (userSpace v + x) = pt_bytes (hp v) (userSpace v + x))"
proof -
  obtain v1 where v1: "alignPages v = Some v1" "faulted T t v v1" "\<And>i. i < npages v \<Longrightarrow> lives v t i (Disk i) \<or> slot_at v1 (Mem i) = slot_at v (Mem i)"
    "\<And>i. i < npages v \<Longrightarrow> lives v t i (Mem i) \<or> lives v t i (Disk i) \<Longrightarrow> placed t v1 i"
    by (rule alignPages_ok [OF r]) (rule that)
  have r1: "running T t v1" and same: "same_vm v v1" and lo1: "loose v1" and fs: "card (free_slots v1) = card (free_slots v)" using v1(2) lo by (auto simp: faulted_def)
  have ok1: "vm_ok v1" and p: "paged T v" and tT: "t \<in> T" using r r1 by (auto simp: running_def paged_def)
  have "\<not> lives v t 0 (Disk 0)" using l p tT unfolding paged_def by blast
  then have s0: "slot_at v1 (Mem 0) = slot_at v (Mem 0)" using v1(3) [OF n] by blast
  have th1: "current_thread v1 = Some th" and n1: "0 < npages v1" using th n same_vm_runs [OF same] same_vm_sizes [OF same] by simp_all
  have nf1: "\<not> full v1" using nf fs by (simp add: full_free)
  have lo': "prot (sc v1) i" if "i < npages v1" "getPageIsF (pages (sc v1) ! i) = 1" for i using lo1 that by (simp add: loose_def slot_at.simps)
  obtain v2 d where v2: "makeRoom 0 v1 = Some (True, v2)" "vacated 0 d v1 v2"
    by (rule makeRoom_slots [OF ok1 n1 lo']) (use nf1 that in auto)
  have same2: "same_vm v1 v2" and ok2: "vm_ok v2" and s2: "snd (slot_at v2 (Mem 0)) = snd (slot_at v1 (Mem 0))" and pr: "prot (sc v2) 0" using v2(2) by (auto simp: vacated_def)
  note sz = same_vm_sizes [OF same] same_vm_sizes [OF same2] and tt = thread_runs [OF r1 th1]
  have th2: "current_thread v2 = Some th" "pageNum (pthreads (sc v2) th) = int k" "tid (pthreads (sc v2) th) = tid (pthreads (sc v1) th)" "scd_up (sc v2)"
    using th1 num same same2 same_vm_runs [OF same2] tt by (simp_all add: same_vm_def)
  let ?e = "setPageIsF (setPageThID (setPagePgID (pages (sc v2) ! 0) (of_nat k)) t) 0"
  let ?w = "set_entry 0 ?e (v2\<lparr>sc := upd_thread th (\<lambda>d. d\<lparr>pageNum := pageNum d + 1\<rparr>) (sc v2)\<rparr>)"
  have u: "unat (of_nat k :: uint32) = k" using k(2) by (simp add: unat_of_nat)
  have e: "getPageThID ?e = t" "getPagePgID ?e = of_nat k" using u k(2) t8 by (simp_all add: bits_simps)
  have kz: "(of_nat k :: uint32) \<noteq> 0" using u k(1) by auto
  have len: "0 < length (pages (sc v2))" "pages (sc v1) \<noteq> []" using ok1 ok2 n1 sz by (auto simp: vm_ok_def)
  have ini: "initializePage 0 v2 = Some ?w" using len(1) th2 tt kz e(2) by (simp add: initializePage_def Let_def)
  have "getPageThID (pages (sc v1) ! 0) \<noteq> t" using s0 o by (simp add: slot_at.simps)
  then have run: "ownFirstPage v = Some (True, ?w)" using v1(1) th1 len tt v2(1) ini by (simp add: ownFirstPage_def)
  have us: "userSpace ?w = userSpace v" "PAGESIZE (hp v2) = PAGESIZE (hp v)" using sz same same2 by (simp_all add: same_vm_def)
  have pg0: "pages (sc ?w) ! 0 = ?e" using len(1) by (simp add: upd_thread_def)
  have acc: "touch (userSpace v) ?w = Some ?w" using pr us(1) by (simp add: touch_def accessible_def page_of_def upd_thread_def)
  have "pt_bytes (hp v2) (userSpace v + x) = pt_bytes (hp v) (userSpace v + x)" if "x < PAGESIZE (hp v)" for x
  proof -
    have "get_page (pt_bytes (hp v2)) (userSpace v) (PAGESIZE (hp v)) x = get_page (pt_bytes (hp v)) (userSpace v) (PAGESIZE (hp v)) x"
      using s2 s0 sz us(2) same by (simp add: slot_at.simps same_vm_def)
    then show ?thesis using that by (simp add: get_page_def)
  qed
  then show ?thesis using run pg0 e acc by auto
qed

text \<open>\<open>demo_vm\<close>: thread 2 has its one page in slot 1, thread 3 has the page in slot 0.\<close>

theorem displaced_first_page_lost_witness:
  "\<exists>v'. ownFirstPage demo_vm = Some (True, v') \<and> getPagePgID (pages (sc v') ! 0) = 1 \<and> touch 823296 v' = Some v'"
proof -
  have r: "running {2, 3} 2 demo_vm" by (rule demo_running) simp
  show ?thesis using displaced_first_page_lost [OF r, of 200 1 1] demo_loose demo_not_full by (fastforce simp: demo_lives)
qed

end
