(* ===== verification/PtThreadAlloc.thy ===== *)
theory PtThreadAlloc
  imports PtAlign
begin

text \<open>
  The whole thread branch of \<open>myallocate\<close>: gathering pages for a thread's heap, growing its last
  block, aligning pages and the first page of a thread.
\<close>

section \<open>Steps that leave the pages alone\<close>

definition same_pages :: "vm \<Rightarrow> vm \<Rightarrow> bool" where
  "same_pages v v' \<longleftrightarrow> pt_bytes (hp v') = pt_bytes (hp v) \<and> memory (hp v') = memory (hp v) \<and> PAGESIZE (hp v') = PAGESIZE (hp v) \<and> diskPages v' = diskPages v \<and>
     swpFile v' = swpFile v \<and> pages (sc v') = pages (sc v) \<and> prot (sc v') = prot (sc v) \<and> pthreads (sc v') = pthreads (sc v) \<and> nodes (sc v') = nodes (sc v) \<and>
     current (sc v') = current (sc v) \<and> scd_up (sc v') = scd_up (sc v)"

lemma same_pages_sizes:
  assumes "same_pages v v'"
  shows "npages v' = npages v" "ndisk v' = ndisk v" "userSpace v' = userSpace v" "page_of v' x = page_of v x" "owner v' = owner v" "current_thread v' = current_thread v"
  using assms by (simp_all add: same_pages_def npages_def ndisk_def userSpace_def page_of_def owner_def current_thread_def)

lemma same_pages_slots:
  assumes "same_pages v v'"
  shows "slot_at v' s = slot_at v s" "slot_ok v' s = slot_ok v s"
  using assms same_pages_sizes [OF assms] by (cases s; simp add: slot_at.simps same_pages_def)+

lemma same_pages_view:
  assumes "same_pages v v'"
  shows "lives v' t k s = lives v t k s" "home t k v' = home t k v" "virt t k v' = virt t k v" "vbytes t v' = vbytes t v" "loose v' = loose v" "free_slots v' = free_slots v"
    "has_pages t n v' = has_pages t n v" "running T t v' = running T t v"
proof -
  note s = same_pages_slots [OF assms] same_pages_sizes [OF assms]
  show l: "lives v' t k s = lives v t k s" for t k s by (simp add: lives_def s)
  show h: "home t k v' = home t k v" for t k
    using assms by (simp add: home_def in_memory_at_def on_disk_at_def s same_pages_def cong: option.case_cong)
  show w: "virt t k v' = virt t k v" for t k by (simp add: virt_def h s)
  show "vbytes t v' = vbytes t v" using assms by (simp add: vbytes_def fun_eq_iff s w same_pages_def cong: option.case_cong)
  show "loose v' = loose v" "free_slots v' = free_slots v" using assms by (simp_all add: loose_def free_slots_def s same_pages_def)
  show "has_pages t n v' = has_pages t n v" by (simp add: has_pages_def s w)
  show "running T t v' = running T t v"
    using assms by (simp add: running_def paged_def shielded_def vm_ok_def s l same_pages_def)
qed

text \<open>Ending the pause of the timer changes nothing else.\<close>

lemma resume_same:
  assumes "scd_up (sc v)"
  obtains v' where "resume_timer v = Some v'" "same_pages v v'" "same_vm v v'"
  by (rule resume_timer_ok [OF assms]) (use that assms in \<open>auto simp: same_pages_def same_vm_def\<close>)

lemma wrote_same: "wrote T t m v v1 \<Longrightarrow> same_pages v1 v2 \<Longrightarrow> same_vm v1 v2 \<Longrightarrow> wrote T t m v v2"
  using same_pages_view [of v1 v2] same_vm_trans [of v v1 v2] by (simp add: wrote_def stays_def)

section \<open>A heap with more pages\<close>

text \<open>What growing needs: the thread has exactly its pages \<open>0\<close> to \<open>k - 1\<close>, and free pages can be used.\<close>

definition grows :: "uint32 set \<Rightarrow> uint32 \<Rightarrow> addr \<Rightarrow> nat \<Rightarrow> vm \<Rightarrow> bool" where
  "grows T t th k v \<longleftrightarrow> in_heap T t k v \<and> loose v \<and> current_thread v = Some th \<and> pageNum (pthreads (sc v) th) = int k \<and>
     (\<forall>j < npages v. k \<le> j \<longrightarrow> virt t j v = None) \<and> unat t < 2 ^ 8 \<and> 0 < memory (hp v)"

text \<open>The thread has \<open>n\<close> pages more; nothing has changed in other threads' memory.\<close>

definition extended :: "uint32 set \<Rightarrow> uint32 \<Rightarrow> addr \<Rightarrow> nat \<Rightarrow> nat \<Rightarrow> vm \<Rightarrow> vm \<Rightarrow> bool" where
  "extended T t th k n v v' \<longleftrightarrow> grows T t th (k + n) v' \<and> npages v' = npages v \<and> userSpace v' = userSpace v \<and> PAGESIZE (hp v') = PAGESIZE (hp v) \<and>
     memory (hp v') = memory (hp v) \<and> (\<forall>u \<in> T. u \<noteq> t \<longrightarrow> (\<forall>j < npages v. virt u j v' = virt u j v)) \<and> stays t v v' \<and> card (free_slots v') + n = card (free_slots v) \<and>
     (\<forall>x < userSpace v. pt_bytes (hp v') x = pt_bytes (hp v) x)"

lemma grows_wrote:
  assumes g: "grows T t th k v" and w: "wrote T t m v v'"
  shows "extended T t th k 0 v v'"
proof -
  have same: "same_vm v v'" using w by (simp add: wrote_def)
  note sz = same_vm_sizes [OF same] and rn = same_vm_runs [OF same]
  have "in_heap T t k v'" using g w sz by (auto simp: grows_def in_heap_def has_pages_def wrote_def)
  moreover have "loose v'" "\<forall>j < npages v. k \<le> j \<longrightarrow> virt t j v' = None" using g w by (auto simp: grows_def wrote_def)
  ultimately have "grows T t th k v'" using g sz rn same by (auto simp: grows_def same_vm_def)
  then show ?thesis using sz same w by (simp add: extended_def same_vm_def wrote_def)
qed

lemma extended_trans:
  assumes a: "extended T t th k i v v'" and c: "extended T t th (k + i) j v' v''"
  shows "extended T t th k (i + j) v v''"
proof -
  note a = a [unfolded extended_def] and c = c [unfolded extended_def]
  have "virt u m v'' = virt u m v" if "u \<in> T" "u \<noteq> t" "m < npages v" for u m using a c that by simp
  then show ?thesis using a c stays_trans [of t v v' v''] by (simp add: extended_def add.assoc)
qed

lemma extended_after: "extended T t th k 0 v v' \<Longrightarrow> extended T t th k n v' v'' \<Longrightarrow> extended T t th k n v v''"
  using extended_trans [of T t th k 0 v v' n v''] by simp

lemma extended_wrote: "extended T t th k n v v' \<Longrightarrow> wrote T t m v' v'' \<Longrightarrow> extended T t th k n v v''"
  using extended_trans [of T t th k n v v' 0 v''] grows_wrote [of T t th "k + n" v' m v''] by (simp add: extended_def)

lemma grows_runs:
  assumes "grows T t th k v"
  shows "running T t v" "has_pages t k v" "t \<in> T" "paged T v" "0 < PAGESIZE (hp v)" "PT_BLOCK_SIZE \<le> PAGESIZE (hp v)" "scd_up (sc v)" "next_page v = Some k"
  using assms by (auto simp: grows_def in_heap_def running_def paged_def vm_ok_def next_page_def)

section \<open>Gathering pages\<close>

lemma vbytes_given:
  assumes p: "paged T v" and g: "given t k d v v'" and none: "\<And>s. \<not> lives v t k s" and u: "u \<in> T" "x < userSpace v \<or> page_of v x \<noteq> k"
  shows "vbytes u v' x = vbytes u v x"
proof -
  have c: "npages v' = npages v" "userSpace v' = userSpace v" "PAGESIZE (hp v') = PAGESIZE (hp v)" "x < userSpace v \<Longrightarrow> pt_bytes (hp v') x = pt_bytes (hp v) x"
    using g by (simp_all add: given_def)
  then have pg: "page_of v' x = page_of v x" by (simp add: page_of_def)
  show ?thesis
    using virt_given [OF p g none u(1), of "page_of v x"] u(2) c pg by (auto simp: vbytes_def cong: option.case_cong)
qed

lemma load32_agree:
  assumes "\<And>x. a \<le> x \<Longrightarrow> x < a + PT_BLOCK_SIZE \<Longrightarrow> m' x = m x"
  shows "load32 m' a = load32 m a"
  unfolding load32_def by (subst load_le_cong [of a 4 m' m]) (use assms in \<open>auto simp: PT_BLOCK_SIZE_def\<close>)

text \<open>One page more: room is made and the page set up.\<close>

lemma add_page:
  assumes g: "grows T t th k v" and k: "k < npages v" "k < 2 ^ 16" and fr: "0 < card (free_slots v)"
  obtains v1 v' where "makeRoom k v = Some (True, v1)" "initializePage k v1 = Some v'" "extended T t th k 1 v v'" "\<And>x. x < page_addr v k \<Longrightarrow> vbytes t v' x = vbytes t v x"
proof -
  note r = grows_runs [OF g]
  have th: "current_thread v = Some th" and num: "pageNum (pthreads (sc v) th) = int k" and t: "unat t < 2 ^ 8" and none: "virt t k v = None" and lo: "loose v"
    using g k(1) by (auto simp: grows_def)
  have nl: "\<not> lives v t k s" for s using none virt_lives [OF r(4,3)] by blast
  have nf: "\<not> full v" using fr by (simp add: full_free)
  obtain v1 v' d where v': "makeRoom k v = Some (True, v1)" "initializePage k v1 = Some v'" "given t k d v v'" "running T t v'" "current_thread v' = Some th"
    "pageNum (pthreads (sc v') th) = int (Suc k)"
    by (rule new_page [OF r(1) th num k t none lo nf]) (rule that)
  have sz: "npages v' = npages v" "userSpace v' = userSpace v" "PAGESIZE (hp v') = PAGESIZE (hp v)" "memory (hp v') = memory (hp v)" using v'(3) by (simp_all add: given_def)
  note vg = virt_given [OF r(4) v'(3) nl]
  have vk: "virt t j v' \<noteq> None" if "j < Suc k" for j
  proof (cases "j = k")
    case True
    have "lives v' t k (Mem k)" by (simp add: lives_given [OF v'(3)])
    then show ?thesis using True virt_lives [OF _ r(3), of v' k] v'(4) by (auto simp: running_def)
  next
    case False
    then show ?thesis using vg [OF r(3), of j] that k(1) r(2) by (auto simp: has_pages_def)
  qed
  have h: "in_heap T t (k + 1) v'" using vk v'(4) k(1) sz(1) by (auto simp: in_heap_def has_pages_def)
  note fg = free_given [OF r(1) lo r(2) v'(3)]
  have "virt t j v' = None" if "j < npages v" "k + 1 \<le> j" for j using that vg [OF r(3), of j] g by (auto simp: grows_def)
  then have gr: "grows T t th (k + 1) v'" using h fg(2) v'(5,6) t sz g by (auto simp: grows_def)
  have d: "d \<in> free_slots v" using v'(3) by (simp add: given_def free_slots_def)
  then have "card (free_slots v') + 1 = card (free_slots v)" unfolding fg(1) using card_Suc_Diff1 [OF finite_free] by fastforce
  moreover have "stays t v v'"
    unfolding stays_def
  proof (intro allI impI)
    fix j assume j: "j < npages v" "lives v t j (Mem j)"
    then have "d \<noteq> Mem j" using d by (auto simp: free_slots_def lives_def)
    then show "lives v' t j (Mem j)" using j by (simp add: lives_given [OF v'(3)])
  qed
  moreover have "virt u j v' = virt u j v" if "u \<in> T" "u \<noteq> t" "j < npages v" for u j using vg that by simp
  moreover have "\<forall>x < userSpace v. pt_bytes (hp v') x = pt_bytes (hp v) x" using v'(3) by (simp add: given_def)
  ultimately have ex: "extended T t th k 1 v v'" using gr sz unfolding extended_def by simp
  have "vbytes t v' x = vbytes t v x" if "x < page_addr v k" for x
  proof (rule vbytes_given [OF r(4) v'(3) nl r(3)])
    show "x < userSpace v \<or> page_of v x \<noteq> k" using page_of_less [OF r(5), of x k] that by (cases "x < userSpace v") auto
  qed
  then show thesis using that v'(1,2) ex by blast
qed

text \<open>
  The thread's heap has \<open>n\<close> pages more and the block at \<open>b\<close> is so much larger; below the new pages
  nothing else has changed.
\<close>

definition grown :: "uint32 set \<Rightarrow> uint32 \<Rightarrow> addr \<Rightarrow> nat \<Rightarrow> nat \<Rightarrow> addr \<Rightarrow> vm \<Rightarrow> vm \<Rightarrow> bool" where
  "grown T t th k n b v v' \<longleftrightarrow> extended T t th k n v v' \<and> (\<forall>x < page_addr v k. x < b \<or> b + PT_BLOCK_SIZE \<le> x \<longrightarrow> vbytes t v' x = vbytes t v x) \<and>
     load32 (vbytes t v') b = ((\<lambda>w. setBlockSize w (getBlockSize w + of_nat (PAGESIZE (hp v)))) ^^ n) (load32 (vbytes t v) b)"

lemma gather_step:
  assumes g: "grows T t th k v" and k: "k < npages v" "k < 2 ^ 16" and fr: "0 < card (free_slots v)" and b: "userSpace v \<le> b" "b + PT_BLOCK_SIZE \<le> page_addr v k"
  obtains v' where "gatherPages (Suc n) b v = gatherPages n b v'" "grown T t th k 1 b v v'"
proof -
  obtain v1 v2 where v2: "makeRoom k v = Some (True, v1)" "initializePage k v1 = Some v2" "extended T t th k 1 v v2" "\<And>x. x < page_addr v k \<Longrightarrow> vbytes t v2 x = vbytes t v x"
    by (rule add_page [OF g k fr]) (rule that)
  have sz: "userSpace v2 = userSpace v" "PAGESIZE (hp v2) = PAGESIZE (hp v)" and h2: "in_heap T t (k + 1) v2" using v2(3) by (auto simp: extended_def grows_def)
  have bd: "\<forall>a \<in> set [b]. userSpace v2 \<le> a \<and> a + PT_BLOCK_SIZE \<le> page_addr v2 (k + 1)" using b sz by simp
  obtain v3 where v3: "touch_hdrs [b] v2 = Some v3" "faulted T t v2 v3" "in_heap T t (k + 1) v3" "vbytes t v3 = vbytes t v2" "userSpace v3 = userSpace v2"
    "PAGESIZE (hp v3) = PAGESIZE (hp v2)" "memory (hp v3) = memory (hp v2)" "\<And>a. a \<in> set [b] \<Longrightarrow> hdr_in (in_place t v3) a"
    by (rule touch_block [OF h2 bd]) (rule that)
  let ?f = "\<lambda>w. setBlockSize w (getBlockSize w + of_nat (PAGESIZE (hp v)))"
  let ?v = "set_bytes (upd32 ?f b (pt_bytes (hp v3))) v3"
  have r3: "running T t v3" using v3(3) by (simp add: in_heap_def)
  have "wrote T t (upd32 ?f b (vbytes t v3)) v3 ?v" by (rule wrote_twin [OF r3 twin_upd [OF twin_start [OF r3] v3(8) refl]]) simp
  then have w: "wrote T t (upd32 ?f b (vbytes t v2)) v2 ?v" using faulted_wrote [OF v3(2)] v3(4) by simp
  have run: "gatherPages (Suc n) b v = gatherPages n b ?v" using grows_runs(8) [OF g] v2(1,2) v3(1,6) sz by simp
  have vb: "vbytes t ?v = upd32 ?f b (vbytes t v2)" using w by (simp add: wrote_def)
  have "load32 (vbytes t v2) b = load32 (vbytes t v) b" by (rule load32_agree) (use v2(4) b in auto)
  then have "grown T t th k 1 b v ?v" using extended_wrote [OF v2(3) w] v2(4) by (simp add: grown_def vb upd32_byte load32_upd32_same)
  then show thesis using run by (rule that [rotated])
qed

lemma grown_bytes: "grown T t th k n b v v' \<Longrightarrow> x < page_addr v k \<Longrightarrow> x < b \<or> b + PT_BLOCK_SIZE \<le> x \<Longrightarrow> vbytes t v' x = vbytes t v x"
  unfolding grown_def by (elim conjE disjE) simp_all

lemma grown_trans:
  assumes g: "grown T t th k i b v v'" and g': "grown T t th (k + i) j b v' v''"
  shows "grown T t th k (i + j) b v v''"
  unfolding grown_def
proof (intro conjI allI impI)
  have a: "extended T t th k i v v'" and c: "extended T t th (k + i) j v' v''" using g g' by (simp_all add: grown_def)
  have sz: "userSpace v' = userSpace v" "PAGESIZE (hp v') = PAGESIZE (hp v)" using a by (simp_all add: extended_def)
  show "extended T t th k (i + j) v v''" by (rule extended_trans [OF a c])
  show "vbytes t v'' x = vbytes t v x" if "x < page_addr v k" "x < b \<or> b + PT_BLOCK_SIZE \<le> x" for x
  proof -
    have "x < page_addr v' (k + i)" using that(1) sz by (simp add: add_mult_distrib2)
    then show ?thesis using grown_bytes [OF g that] grown_bytes [OF g' _ that(2)] by simp
  qed
  let ?f = "\<lambda>w. setBlockSize w (getBlockSize w + of_nat (PAGESIZE (hp v)))"
  have "load32 (vbytes t v'') b = (?f ^^ j) (load32 (vbytes t v') b)" "load32 (vbytes t v') b = (?f ^^ i) (load32 (vbytes t v) b)" using g g' sz by (simp_all add: grown_def)
  then show "load32 (vbytes t v'') b = (?f ^^ (i + j)) (load32 (vbytes t v) b)" by (simp add: funpow_add add.commute [of i])
qed

lemma gatherPages_ok:
  assumes "grows T t th k v" "k + n \<le> npages v" "k + n \<le> 2 ^ 16" "n \<le> card (free_slots v)" "userSpace v \<le> b" "b + PT_BLOCK_SIZE \<le> page_addr v k"
  shows "\<exists>v'. gatherPages n b v = Some v' \<and> grown T t th k n b v v'"
  using assms
proof (induction n arbitrary: k v)
  case 0
  then show ?case by (simp add: grown_def extended_def stays_refl)
next
  case (Suc n)
  have k: "k < npages v" "k < 2 ^ 16" and fr: "0 < card (free_slots v)" using Suc.prems(2-4) by auto
  obtain v1 where v1: "gatherPages (Suc n) b v = gatherPages n b v1" "grown T t th k 1 b v v1"
    by (rule gather_step [OF Suc.prems(1) k fr Suc.prems(5,6)])
  have e: "extended T t th k 1 v v1" using v1(2) by (simp add: grown_def)
  note e = e [unfolded extended_def]
  have "b + PT_BLOCK_SIZE \<le> page_addr v1 (k + 1)" using e Suc.prems(6) by simp
  then obtain v' where v': "gatherPages n b v1 = Some v'" "grown T t th (k + 1) n b v1 v'"
    using Suc.IH [of "k + 1" v1] e Suc.prems by auto
  then show ?case using v1(1) grown_trans [OF v1(2) v'(2)] by auto
qed

text \<open>The size of a block that grows by whole pages, as long as it fits its field.\<close>

lemma grow_size:
  assumes "unat (getBlockSize w) + n * p < 2 ^ 24"
  shows "unat (getBlockSize (((\<lambda>w. setBlockSize w (getBlockSize w + of_nat p)) ^^ n) w)) = unat (getBlockSize w) + n * p \<and>
    getBlockIsF (((\<lambda>w. setBlockSize w (getBlockSize w + of_nat p)) ^^ n) w) = getBlockIsF w \<and>
    getBlockIsNext (((\<lambda>w. setBlockSize w (getBlockSize w + of_nat p)) ^^ n) w) = getBlockIsNext w"
  using assms
proof (induction n)
  case (Suc n)
  let ?g = "\<lambda>w. setBlockSize w (getBlockSize w + of_nat p)"
  let ?w = "(?g ^^ n) w"
  have ih: "unat (getBlockSize ?w) = unat (getBlockSize w) + n * p" "getBlockIsF ?w = getBlockIsF w" "getBlockIsNext ?w = getBlockIsNext w"
    using Suc by auto
  have p: "unat (of_nat p :: uint32) = p" using Suc.prems by (simp add: unat_of_nat)
  have "unat (getBlockSize ?w + of_nat p) = unat (getBlockSize w) + Suc n * p"
    using Suc.prems ih(1) p by (simp add: unat_word_ariths)
  then have "unat (getBlockSize ?w + of_nat p) < 2 ^ 24" "unat (getBlockSize ?w + of_nat p) = unat (getBlockSize w) + Suc n * p" using Suc.prems by simp_all
  then show ?case using ih by (simp add: bits_simps)
qed simp

section \<open>Growing the last block\<close>

lemma isEnoughPages_free: "isEnoughPages q v = (let p = q sdiv int (PAGESIZE (hp v)) + 1 in if p \<le> int (card (free_slots v)) then p else 0)"
proof -
  let ?A = "{i. i < npages v \<and> getPageIsF (pages (sc v) ! i) = 1}" and ?B = "{i. i < ndisk v \<and> getPageIsF (diskPages v ! i) = 1}"
  have len: "length (filter (\<lambda>i. P i) [0..<n]) = card {i. i < n \<and> P i}" for P :: "nat \<Rightarrow> bool" and n
    using length_filter_conv_card [of P "[0..<n]"] by (simp cong: conj_cong)
  have "free_slots v = Mem ` ?A \<union> Disk ` ?B"
  proof (rule set_eqI)
    fix s show "s \<in> free_slots v \<longleftrightarrow> s \<in> Mem ` ?A \<union> Disk ` ?B" by (cases s) (auto simp: free_slots_def slot_at.simps)
  qed
  moreover have "card (Mem ` ?A \<union> Disk ` ?B) = card (Mem ` ?A) + card (Disk ` ?B)" by (rule card_Un_disjoint) auto
  moreover have "card (Mem ` ?A) = card ?A" "card (Disk ` ?B) = card ?B" by (auto intro: card_image inj_onI)
  ultimately show ?thesis by (simp add: isEnoughPages_def len Let_def)
qed

lemma enough_exact:
  assumes "0 < PAGESIZE (hp v)" "q div PAGESIZE (hp v) + 1 = p" "p \<le> card (free_slots v)"
  shows "isEnoughPages (int q) v = int p"
proof -
  have "int q sdiv int (PAGESIZE (hp v)) = int (q div PAGESIZE (hp v))" using assms(1) by (simp add: signed_divide_int_def zdiv_int sgn_if)
  then show ?thesis using assms(2,3) by (auto simp: isEnoughPages_free Let_def)
qed

lemma missing_bytes:
  fixes w :: uint32
  assumes "unat (getBlockSize w) = z" "z \<le> q" "q < 2 ^ 31"
  shows "sint (of_nat q - getBlockSize w) = int (q - z)"
proof -
  have "getBlockSize w = of_nat z" by (simp add: assms(1) [symmetric])
  then have "of_nat q - getBlockSize w = (of_nat (q - z) :: uint32)" using assms(2) by (simp add: of_nat_diff)
  moreover have "sint (of_nat (q - z) :: uint32) = int (q - z)"
    using assms(3) c_int_nat [of "q - z"] by (simp add: c_int_def)
  ultimately show ?thesis by simp
qed

lemma room_left:
  assumes "b + PT_BLOCK_SIZE + n \<le> m + PT_MAX_MEMORY" "m \<le> b"
  shows "\<not> of_int (int m + int PT_MAX_MEMORY - (int b + int PT_BLOCK_SIZE)) < (of_nat n :: uint32)" "n < 8388608"
proof -
  define X where "X = m + PT_MAX_MEMORY - (b + PT_BLOCK_SIZE)"
  have x: "n \<le> X" "X < 8388608" using assms by (simp_all add: X_def PT_MAX_MEMORY_def PT_BLOCK_SIZE_def)
  then show "n < 8388608" by simp
  have "int m + int PT_MAX_MEMORY - (int b + int PT_BLOCK_SIZE) = int X" using assms(1) by (simp add: X_def)
  then have "(of_int (int m + int PT_MAX_MEMORY - (int b + int PT_BLOCK_SIZE)) :: uint32) = of_nat X" by simp
  then show "\<not> of_int (int m + int PT_MAX_MEMORY - (int b + int PT_BLOCK_SIZE)) < (of_nat n :: uint32)"
    using x unat_of_nat32 [of X] unat_of_nat32 [of n] by (simp add: word_less_nat_alt del: of_int_add of_int_diff)
qed

text \<open>The free block at the end of a heap is carved, and the timer goes on.\<close>

lemma carve_end:
  assumes c: "pt_chain m u (xs @ [(z, True)])" and b: "b = u + span PT_BLOCK_SIZE xs" and n: "n + PT_BLOCK_SIZE \<le> z" "n + PT_BLOCK_SIZE < 2 ^ 32"
  shows "pt_chain (carve m b n) u (xs @ [(n, False), (z - n - PT_BLOCK_SIZE, True)])"
proof -
  have o: "only_headers PT_BLOCK_SIZE {b, b + PT_BLOCK_SIZE + n} m (carve m b n)" by (rule carve_only [OF n(2)])
  have c1: "pt_chain m b [(z, True)]" using pt_hdr.chain_drop [OF c] b by simp
  then have h: "hdr_size m b = z" "getNextBlock m b = NULL" by simp_all
  have t: "pt_chain (carve m b n) b [(n, False), (z - n - PT_BLOCK_SIZE, True)]"
    using pt_hdr.chain_split [OF c1 n(1) o] carve_fields [of n m b] n(1) h by auto
  have "carve m b n x = m x" if "u \<le> x" "x < u + span PT_BLOCK_SIZE xs" for x using only_headersD [OF o, of x] that b by auto
  then show ?thesis using pt_hdr.chain_new_tail [OF c, of "[(n, False), (z - n - PT_BLOCK_SIZE, True)]" "carve m b n"] t b by simp
qed

lemma finish_growth:
  assumes g: "grows T t th k v" and c: "pt_chain (vbytes t v) (userSpace v) (xs @ [(z, True)])" and s: "span PT_BLOCK_SIZE (xs @ [(z, True)]) = PAGESIZE (hp v) * k"
    and b: "b = userSpace v + span PT_BLOCK_SIZE xs" and n: "n + PT_BLOCK_SIZE \<le> z" "n + PT_BLOCK_SIZE < 2 ^ 32"
  obtains v1 v' where "thread_carve b n v = Some v1" "resume_timer v1 = Some v'" "wrote T t (vbytes t v') v v'"
    "pt_chain (vbytes t v') (userSpace v) (xs @ [(n, False), (z - n - PT_BLOCK_SIZE, True)])" "\<And>x. x < b \<Longrightarrow> vbytes t v' x = vbytes t v x"
proof -
  have h: "in_heap T t k v" using g by (simp add: grows_def)
  have "page_addr v k = b + PT_BLOCK_SIZE + z" using s b by simp
  then have e: "userSpace v \<le> b" "b + PT_BLOCK_SIZE + (n + PT_BLOCK_SIZE) \<le> page_addr v k" using b n by simp_all
  obtain v1 where v1: "thread_carve b n v = Some v1" "wrote T t (carve (vbytes t v) b n) v v1" by (rule thread_carve_ok [OF h e n(2)])
  have "scd_up (sc v1)" using v1(2) by (auto simp: wrote_def running_def paged_def vm_ok_def)
  then obtain v' where v': "resume_timer v1 = Some v'" "same_pages v1 v'" "same_vm v1 v'" by (rule resume_same)
  have w: "wrote T t (carve (vbytes t v) b n) v v'" by (rule wrote_same [OF v1(2) v'(2,3)])
  then have vb: "vbytes t v' = carve (vbytes t v) b n" by (simp add: wrote_def)
  have "carve (vbytes t v) b n x = vbytes t v x" if "x < b" for x using only_headersD [OF carve_only [OF n(2)], of b x] that by auto
  then show thesis using that [OF v1(1) v'(1)] w carve_end [OF c b n] by (simp add: vb)
qed

section \<open>Growing\<close>

text \<open>
  How many pages a request of \<open>n\<close> bytes asks for when the last block has \<open>z\<close> bytes, and the blocks it
  leaves: the free last block grown by the new pages, or a new block that fills them.
\<close>

fun grow_pages :: "nat \<Rightarrow> nat \<Rightarrow> ablock \<Rightarrow> nat" where
  "grow_pages q n (z, f) = ((if f then n + PT_BLOCK_SIZE else n + 2 * PT_BLOCK_SIZE) - z) div q + 1"

fun grow_blocks :: "nat \<Rightarrow> nat \<Rightarrow> ablock list \<Rightarrow> ablock \<Rightarrow> ablock list" where
  "grow_blocks q n xs (z, True) = xs @ [(n, False), (z + q * grow_pages q n (z, True) - n - PT_BLOCK_SIZE, True)]"
| "grow_blocks q n xs (z, False) = xs @ [(z, False), (n, False), (q * grow_pages q n (z, False) - n - 2 * PT_BLOCK_SIZE, True)]"

fun grow_at :: "addr \<Rightarrow> ablock list \<Rightarrow> ablock \<Rightarrow> addr" where
  "grow_at u xs (z, f) = (if f then u + span PT_BLOCK_SIZE xs + PT_BLOCK_SIZE else u + span PT_BLOCK_SIZE xs + 2 * PT_BLOCK_SIZE + z)"

text \<open>
  The pages asked for are enough.  After a taken block they may not be: its size, which serves
  nothing, is subtracted from the request.
\<close>

fun grow_fits :: "nat \<Rightarrow> nat \<Rightarrow> ablock \<Rightarrow> bool" where
  "grow_fits q n (z, True) = (z < n + PT_BLOCK_SIZE)"
| "grow_fits q n (z, False) = (z \<le> n + 2 * PT_BLOCK_SIZE \<and> n + 2 * PT_BLOCK_SIZE \<le> q * grow_pages q n (z, False))"

lemma pages_suffice: "0 < q \<Longrightarrow> x < q * (x div q + 1)" for q x :: nat
  by (simp add: dividend_less_times_div algebra_simps)

text \<open>The last block's header, read through the thread's memory.\<close>

lemma last_header:
  assumes g: "grows T t th k v" and c: "pt_chain (vbytes t v) (userSpace v) (xs @ [(z, f)])" and s: "span PT_BLOCK_SIZE (xs @ [(z, f)]) = PAGESIZE (hp v) * k"
    and b: "b = userSpace v + span PT_BLOCK_SIZE xs"
  obtains v' where "touch_hdrs [b] v = Some v'" "extended T t th k 0 v v'" "vbytes t v' = vbytes t v" "load32 (pt_bytes (hp v')) b = load32 (vbytes t v) b"
    "f \<longleftrightarrow> getBlockIsF (load32 (vbytes t v) b) = 1" "unat (getBlockSize (load32 (vbytes t v) b)) = z" "getBlockIsNext (load32 (vbytes t v) b) = 0"
proof -
  have h: "in_heap T t k v" using g by (simp add: grows_def)
  have bd: "\<forall>a \<in> set [b]. userSpace v \<le> a \<and> a + PT_BLOCK_SIZE \<le> page_addr v k" using b s by simp
  obtain v1 where v1: "touch_hdrs [b] v = Some v1" "faulted T t v v1" "in_heap T t k v1" "vbytes t v1 = vbytes t v" "userSpace v1 = userSpace v"
    "PAGESIZE (hp v1) = PAGESIZE (hp v)" "memory (hp v1) = memory (hp v)" "\<And>a. a \<in> set [b] \<Longrightarrow> hdr_in (in_place t v1) a"
    by (rule touch_block [OF h bd]) (rule that)
  have "running T t v1" using v1(3) by (simp add: in_heap_def)
  then have ld: "load32 (pt_bytes (hp v1)) b = load32 (vbytes t v) b" using twin_load [OF twin_start v1(8)] v1(4) by simp
  have "pt_chain (vbytes t v) b [(z, f)]" using pt_hdr.chain_drop [OF c] b by simp
  then show thesis
    using that [OF v1(1) grows_wrote [OF g faulted_same [OF v1(2)]] v1(4) ld] by (auto simp: hdr_word_defs PT_BLOCK_SIZE_def split: if_split_asm)
qed

lemma grown_top:
  assumes "k + p \<le> npages v" "0 < p"
  shows "page_addr v k + PAGESIZE (hp v) * p \<le> memory (hp v) + PT_MAX_MEMORY"
proof -
  have "page_addr v (k + p) \<le> page_addr v (npages v)" using assms by simp
  also have "\<dots> \<le> memory (hp v) + PT_MAX_MEMORY" by (rule pages_in_memory) (use assms in simp)
  finally show ?thesis by (simp add: add_mult_distrib2)
qed

lemma growThread_free:
  assumes g: "grows T t th k v" and c: "pt_chain (vbytes t v) (userSpace v) (xs @ [(z, True)])" and s: "span PT_BLOCK_SIZE (xs @ [(z, True)]) = PAGESIZE (hp v) * k"
    and z: "z < n + PT_BLOCK_SIZE" and p: "p = grow_pages (PAGESIZE (hp v)) n (z, True)" "k + p \<le> npages v" "k + p \<le> 2 ^ 16" "p \<le> card (free_slots v)"
    and b: "b = userSpace v + span PT_BLOCK_SIZE xs"
  shows "\<exists>v'. growThread n b fl line v = Some (v', b + PT_BLOCK_SIZE) \<and> extended T t th k p v v' \<and>
    pt_chain (vbytes t v') (userSpace v) (grow_blocks (PAGESIZE (hp v)) n xs (z, True)) \<and> (\<forall>x < b. vbytes t v' x = vbytes t v x)"
proof -
  let ?P = "PAGESIZE (hp v)"
  have pos: "0 < ?P" using grows_runs [OF g] by simp
  have e: "page_addr v k = b + PT_BLOCK_SIZE + z" using s b by simp
  have q: "n + PT_BLOCK_SIZE - z < ?P * p" unfolding p(1) grow_pages.simps if_True by (rule pages_suffice [OF pos])
  have top: "page_addr v k + ?P * p \<le> memory (hp v) + PT_MAX_MEMORY" by (rule grown_top [OF p(2)]) (use p in simp)
  have mb: "memory (hp v) \<le> b" using b by (simp add: userSpace_def)
  have "b + PT_BLOCK_SIZE + (n + PT_BLOCK_SIZE) \<le> memory (hp v) + PT_MAX_MEMORY" using top e q z by linarith
  note left = room_left [OF this mb]
  have zs: "z + ?P * p < 2 ^ 24" using top e mb by (simp add: PT_MAX_MEMORY_def)
  obtain v1 where v1: "touch_hdrs [b] v = Some v1" "extended T t th k 0 v v1" "vbytes t v1 = vbytes t v" "load32 (pt_bytes (hp v1)) b = load32 (vbytes t v) b"
    "True \<longleftrightarrow> getBlockIsF (load32 (vbytes t v) b) = 1" "unat (getBlockSize (load32 (vbytes t v) b)) = z" "getBlockIsNext (load32 (vbytes t v) b) = 0"
    by (rule last_header [OF g c s b]) (rule that)
  define w where "w = load32 (vbytes t v) b"
  note w = v1(4-7) [folded w_def]
  have x1: "grows T t th k v1" "npages v1 = npages v" "userSpace v1 = userSpace v" "PAGESIZE (hp v1) = ?P" "card (free_slots v1) = card (free_slots v)"
    using v1(2) by (simp_all add: extended_def)
  have en: "isEnoughPages (sint (of_nat (n + PT_BLOCK_SIZE) - getBlockSize w)) v1 = int p"
    using missing_bytes [OF w(3), of "n + PT_BLOCK_SIZE"] enough_exact [of v1 "n + PT_BLOCK_SIZE - z" p] left(2) pos p(1,4) x1 z by simp
  have bk: "userSpace v1 \<le> b" "b + PT_BLOCK_SIZE \<le> page_addr v1 k" using b e x1 by simp_all
  obtain v2 where v2: "gatherPages p b v1 = Some v2" "grown T t th k p b v1 v2"
    using gatherPages_ok [OF x1(1) _ p(3) _ bk] x1 p by auto
  have x2: "extended T t th k p v1 v2" using v2(2) by (simp add: grown_def)
  have g2: "grows T t th (k + p) v2" "userSpace v2 = userSpace v" "PAGESIZE (hp v2) = ?P" using x2 x1 by (simp_all add: extended_def)
  have below: "vbytes t v2 x = vbytes t v x" if "x < b" for x using grown_bytes [OF v2(2)] that e v1(3) x1 by simp
  have "load32 (vbytes t v2) b = ((\<lambda>w. setBlockSize w (getBlockSize w + of_nat ?P)) ^^ p) w" using v2(2) v1(3) x1 by (simp add: grown_def w_def)
  then have "pt_chain (vbytes t v2) b [(z + ?P * p, True)]"
    using grow_size [of w p ?P] w zs by (simp add: hdr_word_defs mult.commute)
  then have c2: "pt_chain (vbytes t v2) (userSpace v2) (xs @ [(z + ?P * p, True)])"
    using pt_hdr.chain_new_tail [OF c, of "[(z + ?P * p, True)]" "vbytes t v2"] below b g2 by simp
  have s2: "span PT_BLOCK_SIZE (xs @ [(z + ?P * p, True)]) = PAGESIZE (hp v2) * (k + p)" using s g2 by (simp add: add_mult_distrib2)
  have b2: "b = userSpace v2 + span PT_BLOCK_SIZE xs" and n2: "n + PT_BLOCK_SIZE \<le> z + ?P * p" "n + PT_BLOCK_SIZE < 2 ^ 32" using b g2 q left(2) by simp_all
  obtain v3 v4 where v4: "thread_carve b n v2 = Some v3" "resume_timer v3 = Some v4" "wrote T t (vbytes t v4) v2 v4"
    "pt_chain (vbytes t v4) (userSpace v2) (xs @ [(n, False), (z + ?P * p - n - PT_BLOCK_SIZE, True)])" "\<And>x. x < b \<Longrightarrow> vbytes t v4 x = vbytes t v2 x"
    by (rule finish_growth [OF g2(1) c2 s2 b2 n2]) (rule that)
  have nz: "b \<noteq> 0" "0 < p" using mb g p(1) by (auto simp: grows_def)
  have "growThread n b fl line v = Some (v4, b + PT_BLOCK_SIZE)"
    using left(1) v1(1) w en v2(1) v4(1,2) nz by (simp add: growThread_def Let_def del: of_nat_add of_int_add of_int_diff gatherPages.simps)
  moreover have "extended T t th k p v v4" by (rule extended_after [OF v1(2) extended_wrote [OF x2 v4(3)]])
  ultimately show ?thesis using v4(4,5) below g2(2) p(1) by simp
qed

text \<open>After a taken block, the next page starts with a free block of its own.\<close>

lemma open_page_ok:
  assumes g: "grows T t th k v" and k: "k < npages v" "k < 2 ^ 16" and fr: "0 < card (free_slots v)" and b: "userSpace v \<le> b" "b + PT_BLOCK_SIZE \<le> page_addr v k"
    and ps: "PAGESIZE (hp v) < 2 ^ 24"
  obtains v' where "open_page b v = Some (True, page_addr v k, v')" "extended T t th k 1 v v'"
    "\<And>x. x < page_addr v k \<Longrightarrow> x < b \<or> b + PT_BLOCK_SIZE \<le> x \<Longrightarrow> vbytes t v' x = vbytes t v x"
    "load32 (vbytes t v') b = setBlockIsNext (load32 (vbytes t v) b) 1"
    "getBlockIsF (load32 (vbytes t v') (page_addr v k)) = 1" "unat (getBlockSize (load32 (vbytes t v') (page_addr v k))) = PAGESIZE (hp v) - PT_BLOCK_SIZE"
    "getBlockIsNext (load32 (vbytes t v') (page_addr v k)) = 0"
proof -
  let ?l = "page_addr v k" and ?P = "PAGESIZE (hp v)"
  obtain v1 v2 where v2: "makeRoom k v = Some (True, v1)" "initializePage k v1 = Some v2" "extended T t th k 1 v v2" "\<And>x. x < ?l \<Longrightarrow> vbytes t v2 x = vbytes t v x"
    by (rule add_page [OF g k fr]) (rule that)
  have sz: "userSpace v2 = userSpace v" "PAGESIZE (hp v2) = ?P" and h2: "in_heap T t (k + 1) v2" using v2(3) by (auto simp: extended_def grows_def)
  have bd: "\<forall>a \<in> set [?l, b]. userSpace v2 \<le> a \<and> a + PT_BLOCK_SIZE \<le> page_addr v2 (k + 1)" using b sz grows_runs(6) [OF g] by simp
  obtain v3 where v3: "touch_hdrs [?l, b] v2 = Some v3" "faulted T t v2 v3" "in_heap T t (k + 1) v3" "vbytes t v3 = vbytes t v2" "userSpace v3 = userSpace v2"
    "PAGESIZE (hp v3) = PAGESIZE (hp v2)" "memory (hp v3) = memory (hp v2)" "\<And>a. a \<in> set [?l, b] \<Longrightarrow> hdr_in (in_place t v3) a"
    by (rule touch_block [OF h2 bd]) (rule that)
  let ?m = "\<lambda>m. upd32 (\<lambda>w. setBlockIsNext w 1) b (page_root m ?l ?P)"
  let ?v = "set_bytes (?m (pt_bytes (hp v3))) v3"
  have r3: "running T t v3" using v3(3) by (simp add: in_heap_def)
  have "twin (in_place t v3) (pt_bytes (hp v3)) (vbytes t v3) (?m (pt_bytes (hp v3))) (?m (vbytes t v3))"
    unfolding page_root_def by (intro twin_upd twin_start [OF r3] v3(8) refl) simp_all
  from wrote_twin [OF r3 this] have w: "wrote T t (?m (vbytes t v2)) v2 ?v" using faulted_wrote [OF v3(2)] v3(4) by simp
  have vb: "vbytes t ?v = ?m (vbytes t v2)" using w by (simp add: wrote_def)
  have run: "open_page b v = Some (True, ?l, ?v)" using grows_runs(8) [OF g] v2(1,2) v3(1,6) sz by (simp add: open_page_def Let_def)
  have "load32 (vbytes t v2) b = load32 (vbytes t v) b" by (rule load32_agree) (use v2(4) b in auto)
  then have lb: "load32 (vbytes t ?v) b = setBlockIsNext (load32 (vbytes t v) b) 1"
    unfolding vb using b(2) by (simp add: page_root_def mem_simps)
  have ll: "load32 (vbytes t ?v) ?l = load32 (page_root (vbytes t v2) ?l ?P) ?l" unfolding vb using b(2) by (simp add: mem_simps)
  have u: "unat (of_nat (?P - PT_BLOCK_SIZE) :: uint32) = ?P - PT_BLOCK_SIZE" "?P - PT_BLOCK_SIZE < 2 ^ 24" using ps by (simp_all add: unat_of_nat)
  have "getBlockIsF (load32 (vbytes t ?v) ?l) = 1" "unat (getBlockSize (load32 (vbytes t ?v) ?l)) = ?P - PT_BLOCK_SIZE" "getBlockIsNext (load32 (vbytes t ?v) ?l) = 0"
    unfolding ll using u by (simp_all add: page_root_def load32_upd32_same bits_simps)
  moreover have "vbytes t ?v x = vbytes t v x" if "x < ?l" "x < b \<or> b + PT_BLOCK_SIZE \<le> x" for x
    using that v2(4) page_root_byte [of x ?l] by (simp add: vb upd32_byte)
  ultimately show thesis using that [OF run extended_wrote [OF v2(3) w] _ lb] by blast
qed

text \<open>The pages asked for after a taken block, before the new block is carved.\<close>

lemma taken_growth:
  assumes g: "grows T t th k v" and c: "pt_chain (vbytes t v) (userSpace v) (xs @ [(z, False)])" and s: "span PT_BLOCK_SIZE (xs @ [(z, False)]) = PAGESIZE (hp v) * k"
    and z: "z \<le> n + 2 * PT_BLOCK_SIZE" and room: "b + PT_BLOCK_SIZE + (n + PT_BLOCK_SIZE) \<le> memory (hp v) + PT_MAX_MEMORY"
    and p: "p = grow_pages (PAGESIZE (hp v)) n (z, False)" "k + p \<le> npages v" "k + p \<le> 2 ^ 16" "p \<le> card (free_slots v)"
    and b: "b = userSpace v + span PT_BLOCK_SIZE xs" and f: "getBlockIsF (load32 (vbytes t v) b) = 0"
  obtains v1 v2 v' where "growThread n b fl line v = (case thread_carve (page_addr v k) n v' of None \<Rightarrow> None
      | Some w \<Rightarrow> map_option (\<lambda>w. (w, page_addr v k + PT_BLOCK_SIZE)) (resume_timer w))"
    "extended T t th k p v v'" "pt_chain (vbytes t v') (userSpace v) (xs @ [(z, False), (PAGESIZE (hp v) * p - PT_BLOCK_SIZE, True)])"
    "\<And>x. x < page_addr v k \<Longrightarrow> x < b \<or> b + PT_BLOCK_SIZE \<le> x \<Longrightarrow> vbytes t v' x = vbytes t v x"
    "touch_hdrs [b] v = Some v1" "open_page b v1 = Some (True, page_addr v k, v2)" "gatherPages (p - 1) (page_addr v k) v2 = Some v'"
proof -
  let ?P = "PAGESIZE (hp v)" and ?l = "page_addr v k"
  have pos: "0 < ?P" using grows_runs [OF g] by simp
  have e: "?l = b + PT_BLOCK_SIZE + z" using s b by simp
  obtain p' where p': "p = Suc p'" using p(1) by auto
  have top: "?l + ?P * p \<le> memory (hp v) + PT_MAX_MEMORY" by (rule grown_top [OF p(2)]) (use p in simp)
  have mb: "memory (hp v) \<le> b" using b by (simp add: userSpace_def)
  note left = room_left [OF room mb]
  have zs: "?P * p < 2 ^ 24" using top e mb by (simp add: PT_MAX_MEMORY_def)
  then have ps: "?P < 2 ^ 24" by (simp add: p')
  obtain v1 where v1: "touch_hdrs [b] v = Some v1" "extended T t th k 0 v v1" "vbytes t v1 = vbytes t v" "load32 (pt_bytes (hp v1)) b = load32 (vbytes t v) b"
    "False \<longleftrightarrow> getBlockIsF (load32 (vbytes t v) b) = 1" "unat (getBlockSize (load32 (vbytes t v) b)) = z" "getBlockIsNext (load32 (vbytes t v) b) = 0"
    by (rule last_header [OF g c s b]) (rule that)
  define w where "w = load32 (vbytes t v) b"
  note w = v1(4,6,7) [folded w_def] f [folded w_def]
  have x1: "grows T t th k v1" "npages v1 = npages v" "userSpace v1 = userSpace v" "PAGESIZE (hp v1) = ?P" "card (free_slots v1) = card (free_slots v)"
    using v1(2) by (simp_all add: extended_def)
  have sum: "of_nat PT_BLOCK_SIZE + of_nat (n + PT_BLOCK_SIZE) = (of_nat (n + 2 * PT_BLOCK_SIZE) :: uint32)" by simp
  have en: "isEnoughPages (sint (of_nat PT_BLOCK_SIZE + of_nat (n + PT_BLOCK_SIZE) - getBlockSize w)) v1 = int p"
    unfolding sum using missing_bytes [OF w(2) z] enough_exact [of v1 "n + 2 * PT_BLOCK_SIZE - z" p] left(2) pos p(1,4) x1 by (simp add: PT_BLOCK_SIZE_def)
  have bk: "userSpace v1 \<le> b" "b + PT_BLOCK_SIZE \<le> page_addr v1 k" "k < npages v1" "k < 2 ^ 16" "0 < card (free_slots v1)" "PAGESIZE (hp v1) < 2 ^ 24" using b e x1 p p' ps by simp_all
  obtain v2 where v2: "open_page b v1 = Some (True, page_addr v1 k, v2)" "extended T t th k 1 v1 v2"
    "\<And>x. x < page_addr v1 k \<Longrightarrow> x < b \<or> b + PT_BLOCK_SIZE \<le> x \<Longrightarrow> vbytes t v2 x = vbytes t v1 x"
    "load32 (vbytes t v2) b = setBlockIsNext (load32 (vbytes t v1) b) 1"
    "getBlockIsF (load32 (vbytes t v2) (page_addr v1 k)) = 1" "unat (getBlockSize (load32 (vbytes t v2) (page_addr v1 k))) = PAGESIZE (hp v1) - PT_BLOCK_SIZE"
    "getBlockIsNext (load32 (vbytes t v2) (page_addr v1 k)) = 0"
    by (rule open_page_ok [OF x1(1) bk(3-5,1,2,6)]) (rule that)
  have l1: "page_addr v1 k = ?l" using x1 by simp
  have x2: "grows T t th (k + 1) v2" "npages v2 = npages v" "userSpace v2 = userSpace v" "PAGESIZE (hp v2) = ?P" "card (free_slots v2) + 1 = card (free_slots v)"
    using v2(2) x1 by (simp_all add: extended_def)
  have lk: "userSpace v2 \<le> ?l" "?l + PT_BLOCK_SIZE \<le> page_addr v2 (k + 1)" using x2 grows_runs(6) [OF g] by simp_all
  obtain v3 where v3: "gatherPages p' ?l v2 = Some v3" "grown T t th (k + 1) p' ?l v2 v3"
    using gatherPages_ok [OF x2(1) _ _ _ lk, of p'] x2 p p' by auto
  have ex: "extended T t th k p v1 v3" using extended_trans [OF v2(2)] v3(2) p' by (simp add: grown_def)
  have g3: "grows T t th (k + p) v3" "userSpace v3 = userSpace v" "PAGESIZE (hp v3) = ?P" using ex x1 by (simp_all add: extended_def)
  have old: "vbytes t v3 x = vbytes t v2 x" if "x < ?l" for x using grown_bytes [OF v3(2), of x] that x2 by simp
  have below: "vbytes t v3 x = vbytes t v x" if "x < ?l" "x < b \<or> b + PT_BLOCK_SIZE \<le> x" for x using old that v2(3) v1(3) l1 by simp
  have hb: "load32 (vbytes t v3) b = setBlockIsNext w 1"
    using load32_agree [of b "vbytes t v3" "vbytes t v2"] old e v2(4) v1(3) by (simp add: w_def)
  define d where "d = load32 (vbytes t v2) ?l"
  have "load32 (vbytes t v3) ?l = ((\<lambda>w. setBlockSize w (getBlockSize w + of_nat ?P)) ^^ p') d" using v3(2) x2 by (simp add: grown_def d_def)
  then have tl: "pt_chain (vbytes t v3) ?l [(?P * p - PT_BLOCK_SIZE, True)]"
    using grow_size [of d p' ?P] v2(5-7) zs p' x1 grows_runs(6) [OF g] unfolding l1 d_def [symmetric] by (simp add: hdr_word_defs mult.commute)
  have "pt_chain (vbytes t v3) b [(z, False), (?P * p - PT_BLOCK_SIZE, True)]"
    using tl w hb by (simp add: hdr_word_defs e bits_simps)
  then have ch: "pt_chain (vbytes t v3) (userSpace v) (xs @ [(z, False), (?P * p - PT_BLOCK_SIZE, True)])"
    using pt_hdr.chain_new_tail [OF c, of "[(z, False), (?P * p - PT_BLOCK_SIZE, True)]" "vbytes t v3"] below b e by simp
  have nz: "userSpace v \<noteq> 0" "(0 :: uint32) < of_nat PT_BLOCK_SIZE" "nat (int p - 1) = p'" "0 < p" using g p' by (simp_all add: PT_BLOCK_SIZE_def userSpace_def grows_def)
  have "growThread n b fl line v = (case thread_carve ?l n v3 of None \<Rightarrow> None | Some w \<Rightarrow> map_option (\<lambda>w. (w, ?l + PT_BLOCK_SIZE)) (resume_timer w))"
    using left(1) v1(1) w en v2(1) v3(1) nz l1 by (simp add: growThread_def Let_def del: of_nat_add of_int_add of_int_diff gatherPages.simps)
  then show thesis using that [OF _ extended_after [OF v1(2) ex] ch below v1(1)] v2(1) v3(1) p' l1 by simp
qed

lemma growThread_taken:
  assumes g: "grows T t th k v" and c: "pt_chain (vbytes t v) (userSpace v) (xs @ [(z, False)])" and s: "span PT_BLOCK_SIZE (xs @ [(z, False)]) = PAGESIZE (hp v) * k"
    and z: "z \<le> n + 2 * PT_BLOCK_SIZE" "n + 2 * PT_BLOCK_SIZE \<le> PAGESIZE (hp v) * p"
    and p: "p = grow_pages (PAGESIZE (hp v)) n (z, False)" "k + p \<le> npages v" "k + p \<le> 2 ^ 16" "p \<le> card (free_slots v)"
    and b: "b = userSpace v + span PT_BLOCK_SIZE xs" and f: "getBlockIsF (load32 (vbytes t v) b) = 0"
  shows "\<exists>v'. growThread n b fl line v = Some (v', b + 2 * PT_BLOCK_SIZE + z) \<and> extended T t th k p v v' \<and>
    pt_chain (vbytes t v') (userSpace v) (grow_blocks (PAGESIZE (hp v)) n xs (z, False)) \<and>
    (\<forall>x < b + PT_BLOCK_SIZE + z. x < b \<or> b + PT_BLOCK_SIZE \<le> x \<longrightarrow> vbytes t v' x = vbytes t v x)"
proof -
  let ?P = "PAGESIZE (hp v)" and ?l = "page_addr v k"
  have e: "?l = b + PT_BLOCK_SIZE + z" using s b by simp
  have "?l + ?P * p \<le> memory (hp v) + PT_MAX_MEMORY" by (rule grown_top [OF p(2)]) (use p in simp)
  then have room: "b + PT_BLOCK_SIZE + (n + PT_BLOCK_SIZE) \<le> memory (hp v) + PT_MAX_MEMORY" using e z by linarith
  have mb: "memory (hp v) \<le> b" using b by (simp add: userSpace_def)
  obtain v1 v2 v3 where v3: "growThread n b fl line v = (case thread_carve ?l n v3 of None \<Rightarrow> None | Some w \<Rightarrow> map_option (\<lambda>w. (w, ?l + PT_BLOCK_SIZE)) (resume_timer w))"
    "extended T t th k p v v3" "pt_chain (vbytes t v3) (userSpace v) (xs @ [(z, False), (?P * p - PT_BLOCK_SIZE, True)])"
    "\<And>x. x < ?l \<Longrightarrow> x < b \<or> b + PT_BLOCK_SIZE \<le> x \<Longrightarrow> vbytes t v3 x = vbytes t v x"
    by (rule taken_growth [OF g c s z(1) room p b f]) (rule that)
  have g3: "grows T t th (k + p) v3" "userSpace v3 = userSpace v" "PAGESIZE (hp v3) = ?P" using v3(2) by (simp_all add: extended_def)
  have c3: "pt_chain (vbytes t v3) (userSpace v3) ((xs @ [(z, False)]) @ [(?P * p - PT_BLOCK_SIZE, True)])" using v3(3) g3(2) by simp
  have s3: "span PT_BLOCK_SIZE ((xs @ [(z, False)]) @ [(?P * p - PT_BLOCK_SIZE, True)]) = PAGESIZE (hp v3) * (k + p)" using s g3 z(2) by (simp add: add_mult_distrib2)
  have b3: "?l = userSpace v3 + span PT_BLOCK_SIZE (xs @ [(z, False)])" and n3: "n + PT_BLOCK_SIZE \<le> ?P * p - PT_BLOCK_SIZE" "n + PT_BLOCK_SIZE < 2 ^ 32"
    using s g3 z(2) room_left(2) [OF room mb] by simp_all
  obtain v4 v5 where v5: "thread_carve ?l n v3 = Some v4" "resume_timer v4 = Some v5" "wrote T t (vbytes t v5) v3 v5"
    "pt_chain (vbytes t v5) (userSpace v3) ((xs @ [(z, False)]) @ [(n, False), (?P * p - PT_BLOCK_SIZE - n - PT_BLOCK_SIZE, True)])" "\<And>x. x < ?l \<Longrightarrow> vbytes t v5 x = vbytes t v3 x"
    by (rule finish_growth [OF g3(1) c3 s3 b3 n3]) (rule that)
  have "pt_chain (vbytes t v5) (userSpace v) (grow_blocks ?P n xs (z, False))"
    using v5(4) g3(2) unfolding grow_blocks.simps p(1) [symmetric] by (simp add: mult_2 diff_diff_left add_ac)
  then show ?thesis using v3(1,4) v5(1,2,5) extended_wrote [OF v3(2) v5(3)] e by (auto simp: mult_2 add_ac)
qed

end
