(* ===== verification/PtRequest.thy ===== *)
theory PtRequest
  imports PtThreadAlloc
begin

text \<open>
  Requests of threads as a whole: \<open>myallocate\<close> and \<open>mydeallocate\<close> for \<open>THREADREQ\<close>, from the pause of
  the timer to its end.  The specification is a block list: first fit over the thread's own memory,
  and where nothing fits the list grown by whole pages.
\<close>

section \<open>The specification\<close>

definition heap_request :: "nat \<Rightarrow> addr \<Rightarrow> nat \<Rightarrow> ablock list \<Rightarrow> addr \<times> ablock list" where
  "heap_request q u n bs =
     (case ff_alloc PT_BLOCK_SIZE u n bs of
        Some r \<Rightarrow> r
      | None \<Rightarrow> (grow_at u (butlast bs) (last bs), grow_blocks q n (butlast bs) (last bs)))"

definition request_pages :: "nat \<Rightarrow> addr \<Rightarrow> nat \<Rightarrow> ablock list \<Rightarrow> nat" where
  "request_pages q u n bs = (if ff_alloc PT_BLOCK_SIZE u n bs = None then grow_pages q n (last bs) else 0)"

text \<open>
  What the specification needs: a taken last block is marked with 0, as the allocator marks it; where
  pages are asked for, they are enough, they are there, and their numbers fit the page table.
\<close>

definition can_serve :: "uint32 \<Rightarrow> nat \<Rightarrow> nat \<Rightarrow> ablock list \<Rightarrow> vm \<Rightarrow> bool" where
  "can_serve t k n bs v \<longleftrightarrow>
     (let p = request_pages (PAGESIZE (hp v)) (userSpace v) n bs
      in (ff_alloc PT_BLOCK_SIZE (userSpace v) n bs = None \<longrightarrow> grow_fits (PAGESIZE (hp v)) n (last bs) \<and>
           (\<not> snd (last bs) \<longrightarrow> getBlockIsF (load32 (vbytes t v) (userSpace v + span PT_BLOCK_SIZE (butlast bs))) = 0)) \<and>
         k + p \<le> npages v \<and> k + p \<le> 2 ^ 16 \<and> p \<le> card (free_slots v))"

lemma heap_request_span:
  assumes ne: "bs \<noteq> []" and r: "heap_request q u n bs = (a, bs')" and fit: "ff_alloc PT_BLOCK_SIZE u n bs = None \<longrightarrow> grow_fits q n (last bs)" and q: "0 < q"
  shows "span PT_BLOCK_SIZE bs' = span PT_BLOCK_SIZE bs + q * request_pages q u n bs"
proof (cases "ff_alloc PT_BLOCK_SIZE u n bs")
  case None
  obtain z f where l: "last bs = (z, f)" by (cases "last bs")
  have bs: "bs = butlast bs @ [(z, f)]" using ne l by (metis append_butlast_last_id)
  have b: "span PT_BLOCK_SIZE bs = span PT_BLOCK_SIZE (butlast bs) + PT_BLOCK_SIZE + z" by (subst bs) simp
  have g: "grow_fits q n (z, f)" "bs' = grow_blocks q n (butlast bs) (z, f)" "request_pages q u n bs = grow_pages q n (z, f)"
    using None r fit l by (auto simp: heap_request_def request_pages_def)
  show ?thesis
  proof (cases f)
    case True
    have "n + PT_BLOCK_SIZE - z < q * grow_pages q n (z, True)" unfolding grow_pages.simps if_True by (rule pages_suffice [OF q])
    then show ?thesis using g b True by (simp del: grow_pages.simps)
  next
    case False
    then show ?thesis using g b by (simp del: grow_pages.simps)
  qed
qed (use r ff_alloc_span in \<open>auto simp: heap_request_def request_pages_def\<close>)

section \<open>Searching and growing\<close>

lemma growThread_ok:
  assumes g: "grows T t th k v" and c: "pt_chain (vbytes t v) (userSpace v) (xs @ [(z, f)])" and s: "span PT_BLOCK_SIZE (xs @ [(z, f)]) = PAGESIZE (hp v) * k"
    and fit: "grow_fits (PAGESIZE (hp v)) n (z, f)" and p: "p = grow_pages (PAGESIZE (hp v)) n (z, f)" "k + p \<le> npages v" "k + p \<le> 2 ^ 16" "p \<le> card (free_slots v)"
    and b: "b = userSpace v + span PT_BLOCK_SIZE xs" and flag: "\<not> f \<Longrightarrow> getBlockIsF (load32 (vbytes t v) b) = 0"
  shows "\<exists>v'. growThread n b fl line v = Some (v', grow_at (userSpace v) xs (z, f)) \<and> extended T t th k p v v' \<and>
    pt_chain (vbytes t v') (userSpace v) (grow_blocks (PAGESIZE (hp v)) n xs (z, f)) \<and> same_live PT_BLOCK_SIZE (userSpace v) (xs @ [(z, f)]) (vbytes t v) (vbytes t v')"
proof (cases f)
  case True
  then have z: "z < n + PT_BLOCK_SIZE" and c': "pt_chain (vbytes t v) (userSpace v) (xs @ [(z, True)])" and s': "span PT_BLOCK_SIZE (xs @ [(z, True)]) = PAGESIZE (hp v) * k"
    and p': "p = grow_pages (PAGESIZE (hp v)) n (z, True)" using fit c s p(1) by simp_all
  obtain v' where v': "growThread n b fl line v = Some (v', b + PT_BLOCK_SIZE)" "extended T t th k p v v'"
    "pt_chain (vbytes t v') (userSpace v) (grow_blocks (PAGESIZE (hp v)) n xs (z, True))" "\<forall>x < b. vbytes t v' x = vbytes t v x"
    using growThread_free [OF g c' s' z p' p(2-4) b] by blast
  have "same_live PT_BLOCK_SIZE (userSpace v) (xs @ [(z, f)]) (vbytes t v) (vbytes t v')" by (rule pt_hdr.same_live_last) (use v'(4) b True in auto)
  then show ?thesis using v' b True by auto
next
  case False
  then have z: "z \<le> n + 2 * PT_BLOCK_SIZE" "n + 2 * PT_BLOCK_SIZE \<le> PAGESIZE (hp v) * p" and c': "pt_chain (vbytes t v) (userSpace v) (xs @ [(z, False)])"
    and s': "span PT_BLOCK_SIZE (xs @ [(z, False)]) = PAGESIZE (hp v) * k" and p': "p = grow_pages (PAGESIZE (hp v)) n (z, False)"
    using fit c s p(1) by simp_all
  obtain v' where v': "growThread n b fl line v = Some (v', b + 2 * PT_BLOCK_SIZE + z)" "extended T t th k p v v'"
    "pt_chain (vbytes t v') (userSpace v) (grow_blocks (PAGESIZE (hp v)) n xs (z, False))"
    "\<forall>x < b + PT_BLOCK_SIZE + z. x < b \<or> b + PT_BLOCK_SIZE \<le> x \<longrightarrow> vbytes t v' x = vbytes t v x"
    using growThread_taken [OF g c' s' z p' p(2-4) b flag [OF False]] by blast
  have "same_live PT_BLOCK_SIZE (userSpace v) (xs @ [(z, f)]) (vbytes t v) (vbytes t v')" by (rule pt_hdr.same_live_last) (use v'(4) b in auto)
  then show ?thesis using v' b False by (auto simp: add.assoc)
qed

text \<open>The rest of a request, once the thread's first page is its own.\<close>

lemma search_or_grow:
  assumes g: "grows T t th k v" and c: "pt_chain (vbytes t v) (userSpace v) bs" and s: "span PT_BLOCK_SIZE bs = PAGESIZE (hp v) * k" and ne: "bs \<noteq> []"
    and can: "can_serve t k n bs v" and r: "heap_request (PAGESIZE (hp v)) (userSpace v) n bs = (a, bs')" and p: "p = request_pages (PAGESIZE (hp v)) (userSpace v) n bs"
  shows "\<exists>v'. (case threadFit_from v n (userSpace v) of None \<Rightarrow> None | Some (v, p, prev) \<Rightarrow>
      if p \<noteq> NULL then map_option (\<lambda>v. (v, p)) (resume_timer v) else growThread n prev fl line v) = Some (v', a) \<and>
    extended T t th k p v v' \<and> pt_chain (vbytes t v') (userSpace v) bs' \<and> same_live PT_BLOCK_SIZE (userSpace v) bs (vbytes t v) (vbytes t v')"
proof -
  have h: "in_heap T t k v" and m: "0 < memory (hp v)" using g by (auto simp: grows_def)
  show ?thesis
  proof (rule thread_search [OF h c s m, of n])
    fix v1 q cs m' assume f: "ff_alloc PT_BLOCK_SIZE (userSpace v) n bs = Some (q, cs)" "threadFit_from v n (userSpace v) = Some (v1, q, q - PT_BLOCK_SIZE)" "q \<noteq> NULL"
      "wrote T t m' v v1" "pt_chain m' (userSpace v) cs" "same_live PT_BLOCK_SIZE (userSpace v) bs (vbytes t v) m'"
    have e: "a = q" "bs' = cs" "p = 0" using r p f(1) by (simp_all add: heap_request_def request_pages_def)
    have "scd_up (sc v1)" using f(4) by (auto simp: wrote_def running_def paged_def vm_ok_def)
    then obtain v' where v': "resume_timer v1 = Some v'" "same_pages v1 v'" "same_vm v1 v'" by (rule resume_same)
    have w: "wrote T t m' v v'" by (rule wrote_same [OF f(4) v'(2,3)])
    then have "vbytes t v' = m'" by (simp add: wrote_def)
    then show ?thesis using f v'(1) e grows_wrote [OF g w] by simp
  next
    fix v1 assume f: "ff_alloc PT_BLOCK_SIZE (userSpace v) n bs = None" "threadFit_from v n (userSpace v) = Some (v1, NULL, userSpace v + span PT_BLOCK_SIZE (butlast bs))"
      "wrote T t (vbytes t v) v v1"
    obtain z fr where l: "last bs = (z, fr)" by (cases "last bs")
    have bs: "bs = butlast bs @ [(z, fr)]" using ne l by (metis append_butlast_last_id)
    have x1: "extended T t th k 0 v v1" and vb: "vbytes t v1 = vbytes t v" using grows_wrote [OF g f(3)] f(3) by (auto simp: wrote_def)
    have g1: "grows T t th k v1" "npages v1 = npages v" "userSpace v1 = userSpace v" "PAGESIZE (hp v1) = PAGESIZE (hp v)" "card (free_slots v1) = card (free_slots v)"
      using x1 by (simp_all add: extended_def)
    have e: "p = grow_pages (PAGESIZE (hp v)) n (z, fr)" "a = grow_at (userSpace v) (butlast bs) (z, fr)" "bs' = grow_blocks (PAGESIZE (hp v)) n (butlast bs) (z, fr)"
      using p r f(1) l by (auto simp: request_pages_def heap_request_def)
    have fit: "grow_fits (PAGESIZE (hp v)) n (z, fr)" and num: "k + p \<le> npages v" "k + p \<le> 2 ^ 16" "p \<le> card (free_slots v)"
      and flag: "\<not> fr \<Longrightarrow> getBlockIsF (load32 (vbytes t v) (userSpace v + span PT_BLOCK_SIZE (butlast bs))) = 0"
      using can f(1) l p by (auto simp: can_serve_def Let_def)
    have n1: "grow_fits (PAGESIZE (hp v1)) n (z, fr)" "p = grow_pages (PAGESIZE (hp v1)) n (z, fr)" "k + p \<le> npages v1" "p \<le> card (free_slots v1)"
      and f1: "\<And>x. \<not> fr \<Longrightarrow> x = userSpace v1 + span PT_BLOCK_SIZE (butlast bs) \<Longrightarrow> getBlockIsF (load32 (vbytes t v1) x) = 0"
      using fit e(1) num flag g1 vb by (simp_all del: grow_pages.simps)
    have c1: "pt_chain (vbytes t v1) (userSpace v1) (butlast bs @ [(z, fr)])" "span PT_BLOCK_SIZE (butlast bs @ [(z, fr)]) = PAGESIZE (hp v1) * k"
      using c s g1 vb bs by simp_all
    obtain v' where v': "growThread n (userSpace v1 + span PT_BLOCK_SIZE (butlast bs)) fl line v1 = Some (v', grow_at (userSpace v1) (butlast bs) (z, fr))" "extended T t th k p v1 v'"
      "pt_chain (vbytes t v') (userSpace v1) (grow_blocks (PAGESIZE (hp v1)) n (butlast bs) (z, fr))"
      "same_live PT_BLOCK_SIZE (userSpace v1) (butlast bs @ [(z, fr)]) (vbytes t v1) (vbytes t v')"
      using growThread_ok [OF g1(1) c1 n1(1-3) num(2) n1(4) refl f1] by blast
    then show ?thesis using f(2) g1(3,4) vb e(2,3) extended_after [OF x1 v'(2)] bs [symmetric] by (simp del: grow_at.simps)
  qed
qed

section \<open>Requests\<close>

text \<open>The pause of the timer and the alignment of pages change nothing a thread sees.\<close>

lemma hold_same:
  assumes "scd_up (sc v)"
  obtains v' where "hold_timer v = Some v'" "same_pages v v'" "same_vm v v'" "pt_root (hp v') = pt_root (hp v)"
  by (rule hold_timer_ok [OF assms]) (use that assms in \<open>auto simp: same_pages_def same_vm_def\<close>)

lemma running_same: "running T t v \<Longrightarrow> same_pages v v' \<Longrightarrow> same_vm v v' \<Longrightarrow> faulted T t v v'"
  using same_pages_view [of v v'] same_pages_sizes [of v v'] same_pages_slots [of v v'] by (auto simp: faulted_def placed_def same_pages_def stays_def)

lemma faulted_serves:
  assumes g: "grows T t th k v" and f: "faulted T t v v'"
  shows "extended T t th k 0 v v'" "vbytes t v' = vbytes t v" "can_serve t k n bs v' = can_serve t k n bs v"
proof -
  show x: "extended T t th k 0 v v'" by (rule grows_wrote [OF g faulted_same [OF f]])
  show vb: "vbytes t v' = vbytes t v" using faulted_vbytes [OF f] grows_runs(3) [OF g] by blast
  show "can_serve t k n bs v' = can_serve t k n bs v" using x vb by (simp add: can_serve_def extended_def)
qed

lemma serve_thread:
  assumes up: "scd_up (sc v)" and root: "pt_root (hp v) \<noteq> NULL" and h: "hold_timer v = Some v1" "same_pages v v1" "same_vm v v1"
  shows "myallocate fl line n THREADREQ v = myallocate_thread fl line n v1"
  using assms by (simp add: myallocate_def same_vm_def THREADREQ_def LIBRARYREQ_def DISKREQ_def)

text \<open>How a request starts: the timer is held and the thread's first page is made its own.\<close>

lemma serve_start:
  assumes r: "running T t v" and n0: "0 < npages v" and root: "pt_root (hp v) \<noteq> NULL" and own: "getPageThID (pages (sc v) ! 0) = t \<or> lives v t 0 (Disk 0)"
  obtains v' where "faulted T t v v'" "myallocate fl line n THREADREQ v = (case threadFit_from v' n (userSpace v') of None \<Rightarrow> None | Some (v, p, prev) \<Rightarrow>
      if p \<noteq> NULL then map_option (\<lambda>v. (v, p)) (resume_timer v) else growThread n prev fl line v)"
proof -
  have up: "scd_up (sc v)" using r by (auto simp: running_def paged_def vm_ok_def)
  obtain v1 where v1: "hold_timer v = Some v1" "same_pages v v1" "same_vm v v1" by (rule hold_same [OF up])
  have f1: "faulted T t v v1" by (rule running_same [OF r v1(2,3)])
  have r1: "running T t v1" and n1: "0 < npages v1" using f1 n0 same_vm_sizes [OF v1(3)] by (simp_all add: faulted_def)
  have "getPageThID (entry v1 (Mem 0)) = t \<or> lives v1 t 0 (Disk 0)" using own v1(2) same_pages_view(1) [OF v1(2)] by (simp add: slot_at.simps same_pages_def)
  from ownFirstPage_keeps [OF r1 n1 this] obtain v2 where v2: "ownFirstPage v1 = Some (True, v2)" "faulted T t v1 v2" by blast
  have "myallocate fl line n THREADREQ v = (case threadFit_from v2 n (userSpace v2) of None \<Rightarrow> None | Some (v, p, prev) \<Rightarrow>
      if p \<noteq> NULL then map_option (\<lambda>v. (v, p)) (resume_timer v) else growThread n prev fl line v)"
    using serve_thread [OF up root v1] v2(1) by (simp add: myallocate_thread_def)
  then show thesis by (rule that [OF faulted_trans [OF f1 v2(2)]])
qed

text \<open>A request that a free block of the heap is large enough for needs no page, and no free page it could use.\<close>

lemma serve_fit:
  assumes h: "in_heap T t k v" and c: "pt_chain (vbytes t v) (userSpace v) bs" and s: "span PT_BLOCK_SIZE bs = PAGESIZE (hp v) * k" and m: "0 < memory (hp v)" and k: "0 < k"
    and root: "pt_root (hp v) \<noteq> NULL" and own: "getPageThID (pages (sc v) ! 0) = t \<or> lives v t 0 (Disk 0)" and fit: "ff_alloc PT_BLOCK_SIZE (userSpace v) n bs = Some (a, bs')"
  obtains v' where "myallocate fl line n THREADREQ v = Some (v', a)" "wrote T t (vbytes t v') v v'" "pt_chain (vbytes t v') (userSpace v) bs'"
    "same_live PT_BLOCK_SIZE (userSpace v) bs (vbytes t v) (vbytes t v')"
proof -
  have r: "running T t v" "has_pages t k v" using h by (simp_all add: in_heap_def)
  have n0: "0 < npages v" and tT: "t \<in> T" using r k by (auto simp: has_pages_def running_def)
  obtain v2 where v2: "faulted T t v v2" "myallocate fl line n THREADREQ v = (case threadFit_from v2 n (userSpace v2) of None \<Rightarrow> None | Some (v, p, prev) \<Rightarrow>
      if p \<noteq> NULL then map_option (\<lambda>v. (v, p)) (resume_timer v) else growThread n prev fl line v)"
    by (rule serve_start [OF r(1) n0 root own]) (rule that)
  have same: "same_vm v v2" using v2(1) by (simp add: faulted_def)
  note sz = same_vm_sizes [OF same] and vb = faulted_vbytes [OF v2(1) tT]
  have h2: "in_heap T t k v2" using v2(1) faulted_has_pages [OF v2(1) tT] r(2) by (simp add: in_heap_def faulted_def)
  have c2: "pt_chain (vbytes t v2) (userSpace v2) bs" "span PT_BLOCK_SIZE bs = PAGESIZE (hp v2) * k" "0 < memory (hp v2)" "ff_alloc PT_BLOCK_SIZE (userSpace v2) n bs = Some (a, bs')"
    using c s m fit sz vb same by (simp_all add: same_vm_def)
  show thesis
  proof (rule thread_search [OF h2 c2(1-3), of n])
    fix v1 q cs m' assume f: "ff_alloc PT_BLOCK_SIZE (userSpace v2) n bs = Some (q, cs)" "threadFit_from v2 n (userSpace v2) = Some (v1, q, q - PT_BLOCK_SIZE)" "q \<noteq> NULL"
      "wrote T t m' v2 v1" "pt_chain m' (userSpace v2) cs" "same_live PT_BLOCK_SIZE (userSpace v2) bs (vbytes t v2) m'"
    have "scd_up (sc v1)" using f(4) by (auto simp: wrote_def running_def paged_def vm_ok_def)
    then obtain v' where v': "resume_timer v1 = Some v'" "same_pages v1 v'" "same_vm v1 v'" by (rule resume_same)
    have w: "wrote T t m' v v'" by (rule faulted_wrote [OF v2(1) wrote_same [OF f(4) v'(2,3)]])
    then have "vbytes t v' = m'" by (simp add: wrote_def)
    then show thesis using that [of v'] v2(2) f c2(4) v'(1) w sz vb by simp
  qed (use c2(4) in simp)
qed

lemma serve_request:
  assumes g: "grows T t th k v" and c: "pt_chain (vbytes t v) (userSpace v) bs" and s: "span PT_BLOCK_SIZE bs = PAGESIZE (hp v) * k" and ne: "bs \<noteq> []"
    and can: "can_serve t k n bs v" and root: "pt_root (hp v) \<noteq> NULL" and own: "getPageThID (pages (sc v) ! 0) = t \<or> lives v t 0 (Disk 0)"
    and r: "heap_request (PAGESIZE (hp v)) (userSpace v) n bs = (a, bs')" and p: "p = request_pages (PAGESIZE (hp v)) (userSpace v) n bs"
  obtains v' where "myallocate fl line n THREADREQ v = Some (v', a)" "extended T t th k p v v'" "pt_chain (vbytes t v') (userSpace v) bs'"
    "span PT_BLOCK_SIZE bs' = PAGESIZE (hp v) * (k + p)" "same_live PT_BLOCK_SIZE (userSpace v) bs (vbytes t v) (vbytes t v')"
proof -
  have "0 < k" using s ne by (cases k; cases bs) (auto simp: PT_BLOCK_SIZE_def)
  then have n0: "0 < npages v" using grows_runs(2) [OF g] by (auto simp: has_pages_def)
  obtain v2 where v2: "faulted T t v v2" "myallocate fl line n THREADREQ v = (case threadFit_from v2 n (userSpace v2) of None \<Rightarrow> None | Some (v, p, prev) \<Rightarrow>
      if p \<noteq> NULL then map_option (\<lambda>v. (v, p)) (resume_timer v) else growThread n prev fl line v)"
    by (rule serve_start [OF grows_runs(1) [OF g] n0 root own]) (rule that)
  note x = faulted_serves [OF g v2(1)]
  have sz: "grows T t th k v2" "npages v2 = npages v" "userSpace v2 = userSpace v" "PAGESIZE (hp v2) = PAGESIZE (hp v)" using x(1) by (simp_all add: extended_def)
  have c2: "pt_chain (vbytes t v2) (userSpace v2) bs" "span PT_BLOCK_SIZE bs = PAGESIZE (hp v2) * k" "can_serve t k n bs v2"
    "heap_request (PAGESIZE (hp v2)) (userSpace v2) n bs = (a, bs')" "p = request_pages (PAGESIZE (hp v2)) (userSpace v2) n bs"
    using c s can r p x(2,3) sz by simp_all
  obtain v' where v': "myallocate fl line n THREADREQ v = Some (v', a)" "extended T t th k p v2 v'" "pt_chain (vbytes t v') (userSpace v2) bs'"
    "same_live PT_BLOCK_SIZE (userSpace v2) bs (vbytes t v2) (vbytes t v')"
    using search_or_grow [OF sz(1) c2(1,2) ne c2(3-5)] v2(2) by auto
  have "span PT_BLOCK_SIZE bs' = PAGESIZE (hp v) * (k + p)"
    using heap_request_span [OF ne r] grows_runs(5) [OF g] can s by (simp add: p can_serve_def Let_def add_mult_distrib2)
  then show thesis using that [OF v'(1) extended_after [OF x(1) v'(2)]] v'(3,4) sz x(2) by simp
qed

text \<open>The first request of a thread: its first page is one free block.\<close>

lemma serve_first:
  assumes g: "grows T t th 0 v" and root: "pt_root (hp v) \<noteq> NULL" and bs: "bs = [(PAGESIZE (hp v) - PT_BLOCK_SIZE, True)]"
    and r: "heap_request (PAGESIZE (hp v)) (userSpace v) n bs = (a, bs')" and p: "p = request_pages (PAGESIZE (hp v)) (userSpace v) n bs"
    and room: "Suc p \<le> npages v" "Suc p \<le> 2 ^ 16" "Suc p \<le> card (free_slots v)"
  obtains v' where "myallocate fl line n THREADREQ v = Some (v', a)" "extended T t th 0 (Suc p) v v'" "pt_chain (vbytes t v') (userSpace v) bs'"
    "span PT_BLOCK_SIZE bs' = PAGESIZE (hp v) * Suc p"
proof -
  have up: "scd_up (sc v)" and P: "paged T v" and tT: "t \<in> T" using grows_runs [OF g] by simp_all
  obtain v1 where v1: "hold_timer v = Some v1" "same_pages v v1" "same_vm v v1" by (rule hold_same [OF up])
  have f1: "faulted T t v v1" by (rule running_same [OF grows_runs(1) [OF g] v1(2,3)])
  have x1: "extended T t th 0 0 v v1" by (rule faulted_serves(1) [OF g f1])
  have sz1: "grows T t th 0 v1" "npages v1 = npages v" "userSpace v1 = userSpace v" "PAGESIZE (hp v1) = PAGESIZE (hp v)" "card (free_slots v1) = card (free_slots v)"
    using x1 by (simp_all add: extended_def)
  note R = grows_runs [OF sz1(1)]
  have none: "\<not> lives v1 t k s" for k s
  proof
    assume l: "lives v1 t k s"
    then have "unat (getPagePgID (entry v1 s)) < npages v1" using R(3,4) unfolding paged_def lives_def by blast
    moreover have "lives v1 t (unat (getPagePgID (entry v1 s))) s" using l by (simp add: lives_def)
    moreover have "virt t j v1 = None" if "j < npages v1" for j using sz1(1) that by (simp add: grows_def)
    ultimately show False using virt_lives [OF R(4,3)] by blast
  qed
  have c0: "current_thread v1 = Some th" "pageNum (pthreads (sc v1) th) = 0" "unat t < 2 ^ 8" "loose v1" using sz1(1) by (simp_all add: grows_def)
  have n1: "0 < npages v1" "\<not> full v1" using room sz1 by (simp_all add: full_free)
  obtain v2 v3 v4 where v4: "ownFirstPage v1 = Some (True, v4)" "faulted T t v1 v2" "makeRoom 0 v2 = Some (True, v3)" "initializePage 0 v3 = Some v4"
    "pt_chain (vbytes t v4) (userSpace v1) [(PAGESIZE (hp v1) - PT_BLOCK_SIZE, True)]"
    by (rule ownFirstPage_first [OF R(1) c0(1,2) n1(1) c0(3) none c0(4) n1(2)]) (rule that)
  have x2: "extended T t th 0 0 v1 v2" by (rule faulted_serves(1) [OF sz1(1) v4(2)])
  have sz2: "grows T t th 0 v2" "npages v2 = npages v" "card (free_slots v2) = card (free_slots v)" using x2 sz1 by (simp_all add: extended_def)
  have "extended T t th 0 1 v2 v4" by (rule add_page [OF sz2(1)]) (use n1 sz1 sz2 room v4(3,4) in auto)
  then have x4: "extended T t th 0 1 v v4" by (rule extended_after [OF x1 extended_after [OF x2]])
  then have sz: "grows T t th 1 v4" "npages v4 = npages v" "userSpace v4 = userSpace v" "PAGESIZE (hp v4) = PAGESIZE (hp v)" "card (free_slots v4) + 1 = card (free_slots v)"
    by (simp_all add: extended_def)
  have ps: "PT_BLOCK_SIZE \<le> PAGESIZE (hp v)" "0 < PAGESIZE (hp v)" using grows_runs [OF g] by simp_all
  have can: "can_serve t 1 n bs v4" using room sz ps by (auto simp: can_serve_def Let_def bs p)
  have c: "pt_chain (vbytes t v4) (userSpace v4) bs" "span PT_BLOCK_SIZE bs = PAGESIZE (hp v4) * 1" "bs \<noteq> []"
    "heap_request (PAGESIZE (hp v4)) (userSpace v4) n bs = (a, bs')" "p = request_pages (PAGESIZE (hp v4)) (userSpace v4) n bs"
    using v4(5) sz sz1 ps bs r p by simp_all
  obtain v' where v': "(case threadFit_from v4 n (userSpace v4) of None \<Rightarrow> None | Some (v, p, prev) \<Rightarrow>
      if p \<noteq> NULL then map_option (\<lambda>v. (v, p)) (resume_timer v) else growThread n prev fl line v) = Some (v', a)"
    "extended T t th 1 p v4 v'" "pt_chain (vbytes t v') (userSpace v4) bs'"
    using search_or_grow [OF sz(1) c(1-3) can c(4,5)] by blast
  have run: "myallocate fl line n THREADREQ v = Some (v', a)" using serve_thread [OF up root v1] v4(1) v'(1) by (simp add: myallocate_thread_def)
  have "span PT_BLOCK_SIZE bs' = PAGESIZE (hp v) * Suc p"
    using heap_request_span [OF c(3) r] can c(2) sz ps(2) by (simp add: p can_serve_def Let_def)
  then show thesis using that [OF run] extended_trans [OF x4] v'(2,3) sz by simp
qed

text \<open>
  C10. A thread's request, when the thread's first page is in slot 0 of memory or of the swap file, no free
  page in memory is protected, there are as many free pages as the request needs, and the last block of the
  heap is such that the pages the code asks for suffice: \<open>myallocate\<close> then answers what first fit over
  the thread's block list answers.  The block comes from the first free block of the thread's own memory that is large enough, or from the
  pages the heap has grown by; the thread's heap is then again a chain of blocks over exactly its
  pages, the bytes of its live blocks are as they were, and so is every other thread's memory,
  whatever faults, swaps and moves to disk the request has caused.
\<close>

theorem thread_request_refines:
  assumes "grows T t th k v" "pt_chain (vbytes t v) (userSpace v) bs" "span PT_BLOCK_SIZE bs = PAGESIZE (hp v) * k" "bs \<noteq> []"
    "can_serve t k n bs v" "pt_root (hp v) \<noteq> NULL" "getPageThID (pages (sc v) ! 0) = t \<or> lives v t 0 (Disk 0)"
    "heap_request (PAGESIZE (hp v)) (userSpace v) n bs = (a, bs')" "p = request_pages (PAGESIZE (hp v)) (userSpace v) n bs"
  shows "\<exists>v'. myallocate fl line n THREADREQ v = Some (v', a) \<and> grows T t th (k + p) v' \<and>
    pt_chain (vbytes t v') (userSpace v) bs' \<and> span PT_BLOCK_SIZE bs' = PAGESIZE (hp v) * (k + p) \<and>
    same_live PT_BLOCK_SIZE (userSpace v) bs (vbytes t v) (vbytes t v') \<and> (\<forall>u \<in> T. u \<noteq> t \<longrightarrow> (\<forall>j < npages v. virt u j v' = virt u j v))"
  by (rule serve_request [OF assms]) (auto simp: extended_def)

text \<open>Thread 2 has its page in place with 3988 bytes free, and asks for 5000: a page more, with thread 3's page moved out of the way.\<close>

lemma demo_grows: "grows {2, 3} 2 200 1 (demo_pages 0x200 0x300 m)"
proof -
  let ?v = "demo_pages 0x200 0x300 m"
  have h: "in_heap {2, 3} 2 1 ?v" by (rule demo_in_heap) simp
  have p: "paged {2, 3} ?v" using h by (simp add: in_heap_def running_def)
  have "virt 2 j ?v = None" if "1 \<le> j" "j < npages ?v" for j
  proof -
    have "\<not> lives ?v 2 j s" for s using that of_nat_page [of j ?v 0] by (auto simp: demo_lives)
    then show ?thesis using virt_lives [OF p, of 2 j] by auto
  qed
  then show ?thesis using h demo_loose by (auto simp: grows_def)
qed

text \<open>Thread 2 has no page yet; threads 3 and 4 have the first two.\<close>

abbreviation fresh_vm :: vm where
  "fresh_vm \<equiv> demo_at 0 0x300 0x400 (\<lambda>_. 0)"

lemma fresh_grows: "grows {2, 3} 2 200 0 fresh_vm"
proof -
  have r: "running {2, 3} 2 fresh_vm" by (rule demo_running) simp
  then have "virt 2 j fresh_vm = None" for j using virt_lives [of "{2, 3}" fresh_vm 2 j] by (auto simp: running_def demo_lives)
  then show ?thesis using r demo_loose by (auto simp: grows_def in_heap_def has_pages_def)
qed

theorem thread_request_refines_witness:
  "\<exists>v'. myallocate ''t.c'' 1 5000 THREADREQ taken_vm = Some (v', 823404) \<and> pt_chain (vbytes 2 v') 823296 [(100, False), (5000, False), (3080, True)] \<and>
     virt 3 0 v' = virt 3 0 taken_vm"
proof -
  have "0 < card (free_slots taken_vm)" using demo_not_full by (simp add: full_free)
  then have can: "can_serve 2 1 5000 [(100, False), (3988, True)] taken_vm" by (simp add: can_serve_def request_pages_def PT_BLOCK_SIZE_def)
  have r: "heap_request (PAGESIZE (hp taken_vm)) (userSpace taken_vm) 5000 [(100, False), (3988, True)] = (823404, [(100, False), (5000, False), (3080, True)])"
    by (simp add: heap_request_def PT_BLOCK_SIZE_def)
  have root: "pt_root (hp taken_vm) \<noteq> NULL" by (simp add: demo_at_def)
  show ?thesis
    using thread_request_refines [OF demo_grows _ _ _ can root _ r refl] taken_chain by (fastforce simp: PT_BLOCK_SIZE_def)
qed

text \<open>
  The first request of a thread: it gets a page of its own at the start of the user space, the page
  another thread may have there is moved away first, and the block comes from the thread's fresh
  heap, grown if the request is larger than a page.  Every other thread's memory is as before.
\<close>

theorem first_request_refines:
  assumes "grows T t th 0 v" "pt_root (hp v) \<noteq> NULL" "bs = [(PAGESIZE (hp v) - PT_BLOCK_SIZE, True)]"
    "heap_request (PAGESIZE (hp v)) (userSpace v) n bs = (a, bs')" "p = request_pages (PAGESIZE (hp v)) (userSpace v) n bs"
    "Suc p \<le> npages v" "Suc p \<le> 2 ^ 16" "Suc p \<le> card (free_slots v)"
  shows "\<exists>v'. myallocate fl line n THREADREQ v = Some (v', a) \<and> grows T t th (Suc p) v' \<and> pt_chain (vbytes t v') (userSpace v) bs' \<and>
    span PT_BLOCK_SIZE bs' = PAGESIZE (hp v) * Suc p \<and> (\<forall>u \<in> T. u \<noteq> t \<longrightarrow> (\<forall>j < npages v. virt u j v' = virt u j v))"
  by (rule serve_first [OF assms]) (auto simp: extended_def)

theorem first_request_refines_witness:
  "\<exists>v'. myallocate ''t.c'' 1 100 THREADREQ fresh_vm = Some (v', 823300) \<and> pt_chain (vbytes 2 v') 823296 [(100, False), (3988, True)] \<and> virt 3 0 v' = virt 3 0 fresh_vm"
proof -
  have "0 < card (free_slots fresh_vm)" using demo_not_full by (simp add: full_free)
  moreover have "pt_root (hp fresh_vm) \<noteq> NULL" by (simp add: demo_at_def)
  ultimately show ?thesis
    using first_request_refines [of "{2, 3}" 2 200 fresh_vm "[(4092, True)]" 100 823300 "[(100, False), (3988, True)]" 0 "''t.c''" 1, OF fresh_grows]
    by (auto simp: PT_BLOCK_SIZE_def heap_request_def request_pages_def)
qed

section \<open>Freeing\<close>

lemma page_word_thread: "getPageThID 0 = 0"
  by (simp add: getPageThID_def)

lemma free_request:
  assumes h: "in_heap T t k v" and c: "pt_chain (vbytes t v) (userSpace v) bs" and s: "span PT_BLOCK_SIZE bs = PAGESIZE (hp v) * k" and m: "0 < memory (hp v)"
    and first: "lives v t 0 (Mem 0)" and t0: "t \<noteq> 0" and l: "(q, z) \<in> set (live PT_BLOCK_SIZE (userSpace v) bs)" "0 < z"
  obtains v' bs' where "mydeallocate fl line q THREADREQ v = Some v'" "ff_free PT_BLOCK_SIZE (userSpace v) (q - PT_BLOCK_SIZE) bs = Some bs'"
    "wrote T t (vbytes t v') v v'" "pt_chain (vbytes t v') (userSpace v) bs'" "same_live PT_BLOCK_SIZE (userSpace v) bs (vbytes t v) (vbytes t v')"
proof -
  let ?b = "q - PT_BLOCK_SIZE"
  have r: "running T t v" and k: "k \<le> npages v" using h by (auto simp: in_heap_def has_pages_def)
  have up: "scd_up (sc v)" and n0: "0 < npages v" and tT: "t \<in> T" using r first by (auto simp: running_def paged_def vm_ok_def lives_def)
  obtain v1 where v1: "hold_timer v = Some v1" "same_pages v v1" "same_vm v v1" by (rule hold_same [OF up])
  have f1: "faulted T t v v1" by (rule running_same [OF r v1(2,3)])
  note s1 = same_vm_sizes [OF v1(3)]
  have P1: "PAGESIZE (hp v1) = PAGESIZE (hp v)" "memory (hp v1) = memory (hp v)" using v1(3) by (simp_all add: same_vm_def)
  have h1: "in_heap T t k v1" using f1 faulted_has_pages [OF f1 tT] h by (simp add: in_heap_def faulted_def)
  have bd: "userSpace v + PT_BLOCK_SIZE \<le> q" "q + z \<le> page_addr v k" using live_bounds [OF l(1)] s by auto
  have top: "page_addr v k \<le> memory (hp v) + PT_MAX_MEMORY"
    using pages_in_memory [OF n0] k by (meson add_left_mono le_trans mult_le_mono2)
  have inm: "inMemSpace (hp v1) q" using bd top l(2) P1 by (simp add: inMemSpace_def userSpace_def)
  have bt: "\<forall>a \<in> set [?b]. userSpace v1 \<le> a \<and> a + PT_BLOCK_SIZE \<le> page_addr v1 k" using bd s1 P1 by auto
  obtain v2 where v2: "touch_hdrs [?b] v1 = Some v2" "faulted T t v1 v2" "in_heap T t k v2" "vbytes t v2 = vbytes t v1" "userSpace v2 = userSpace v1"
    "PAGESIZE (hp v2) = PAGESIZE (hp v1)" "memory (hp v2) = memory (hp v1)" "\<And>a. a \<in> set [?b] \<Longrightarrow> hdr_in (in_place t v2) a"
    by (rule touch_block [OF h1 bt]) (rule that)
  note f2 = faulted_trans [OF f1 v2(2)]
  have vb: "vbytes t v2 = vbytes t v" using faulted_vbytes [OF f2 tT] .
  have r2: "running T t v2" using v2(3) by (simp add: in_heap_def)
  have "load32 (pt_bytes (hp v2)) ?b = load32 (vbytes t v) ?b" using twin_load [OF twin_start [OF r2] v2(8)] vb by simp
  then have nf: "getBlockIsF (load32 (pt_bytes (hp v2)) ?b) \<noteq> 1" using pt_hdr.live_head_taken [OF c l(1)] by (simp add: hdr_free_def)
  obtain th where th: "current_thread v2 = Some th" using r2 by (auto simp: running_def)
  note tt = thread_runs [OF r2 th]
  have fst2: "lives v2 t 0 (Mem 0)" using f2 n0 first by (simp add: faulted_def stays_def)
  let ?pg = "pages (sc v2) ! 0"
  have pg: "getPageThID ?pg = t" "0 < npages v2" using fst2 by (auto simp: lives_def slot_at.simps)
  have "first_from (\<lambda>i. getPageThID (pages (sc v2) ! i) = t) 0 (npages v2) = Some 0" using pg by (simp add: first_from_Some)
  then have "findPage (tid (pthreads (sc v2) th)) v2 = ?pg" using tt(1) by (simp add: findPage_def)
  moreover have "?pg \<noteq> 0" using pg(1) t0 page_word_thread by auto
  ultimately have find: "findPage (tid (pthreads (sc v2) th)) v2 = ?pg" "?pg \<noteq> 0" by simp_all
  obtain bs' where bs': "ff_free PT_BLOCK_SIZE (userSpace v) ?b bs = Some bs'" using ff_free_of_live [OF _ l(1)] by (auto simp: PT_BLOCK_SIZE_def)
  have c2: "pt_chain (vbytes t v2) (userSpace v2) bs" "span PT_BLOCK_SIZE bs = PAGESIZE (hp v2) * k" "0 < memory (hp v2)" "ff_free PT_BLOCK_SIZE (userSpace v2) ?b bs = Some bs'"
    using c s m bs' vb v2(5-7) s1 P1 by simp_all
  obtain v3 m' where v3: "freeAndMerge_thread ?b ?pg v2 = Some (v3, True)" "wrote T t m' v2 v3" "pt_chain m' (userSpace v2) bs'" "same_live PT_BLOCK_SIZE (userSpace v2) bs (vbytes t v2) m'"
    by (rule thread_free [OF v2(3) c2(1-3) fst2 pg(1) c2(4)])
  have "scd_up (sc v3)" using v3(2) by (auto simp: wrote_def running_def paged_def vm_ok_def)
  then obtain v' where v': "resume_timer v3 = Some v'" "same_pages v3 v'" "same_vm v3 v'" by (rule resume_same)
  have w: "wrote T t m' v v'" by (rule faulted_wrote [OF f2 wrote_same [OF v3(2) v'(2,3)]])
  have run: "mydeallocate fl line q THREADREQ v = Some v'"
    using v1(1) inm v2(1) nf th tt(2) find v3(1) v'(1) by (simp add: mydeallocate_def mydeallocate_thread_def Let_def THREADREQ_def LIBRARYREQ_def)
  show thesis using that [OF run bs'] w v3(3,4) v2(5) s1 vb by (simp add: wrote_def)
qed

text \<open>
  C13. Freeing a live block of a thread whose first page is in its place: \<open>mydeallocate\<close> takes the block
  out of the thread's block list, merging it with free neighbours; the bytes of the other blocks,
  and every other thread's memory, are as before.
\<close>

theorem thread_free_refines:
  assumes "in_heap T t k v" "pt_chain (vbytes t v) (userSpace v) bs" "span PT_BLOCK_SIZE bs = PAGESIZE (hp v) * k" "0 < memory (hp v)"
    "lives v t 0 (Mem 0)" "t \<noteq> 0" "(q, z) \<in> set (live PT_BLOCK_SIZE (userSpace v) bs)" "0 < z"
  shows "\<exists>v' bs'. mydeallocate fl line q THREADREQ v = Some v' \<and> ff_free PT_BLOCK_SIZE (userSpace v) (q - PT_BLOCK_SIZE) bs = Some bs' \<and>
    running T t v' \<and> pt_chain (vbytes t v') (userSpace v) bs' \<and> same_live PT_BLOCK_SIZE (userSpace v) bs (vbytes t v) (vbytes t v') \<and>
    (\<forall>u \<in> T. u \<noteq> t \<longrightarrow> (\<forall>j. virt u j v' = virt u j v))"
  by (rule free_request [OF assms]) (auto simp: wrote_def)

theorem thread_free_refines_witness:
  "\<exists>v'. mydeallocate ''t.c'' 2 823300 THREADREQ taken_vm = Some v' \<and> pt_chain (vbytes 2 v') 823296 [(4092, True)]"
  using thread_free_refines [of "{2, 3}" 2 1 taken_vm "[(100, False), (3988, True)]" 823300 100 "''t.c''" 2, OF demo_in_heap] taken_chain
  by (auto simp: PT_BLOCK_SIZE_def demo_lives)

text \<open>
  C14. Round trip of a thread: in a heap with no two free blocks side by side, a request served from the
  heap's own blocks and its free leave the thread with the block list it had, the bytes of its live
  blocks, and every other thread's memory, whatever the two calls moved.
\<close>

theorem thread_roundtrip:
  assumes g: "grows T t th k v" and c: "pt_chain (vbytes t v) (userSpace v) bs" and s: "span PT_BLOCK_SIZE bs = PAGESIZE (hp v) * k" and co: "coalesced bs"
    and root: "pt_root (hp v) \<noteq> NULL" and first: "lives v t 0 (Mem 0)" and t0: "t \<noteq> 0" and n: "0 < n"
    and f: "ff_alloc PT_BLOCK_SIZE (userSpace v) n bs = Some (q, bs')" and k: "k \<le> 2 ^ 16"
  shows "\<exists>v1 v2. myallocate fl line n THREADREQ v = Some (v1, q) \<and> mydeallocate fl' line' q THREADREQ v1 = Some v2 \<and> running T t v2 \<and>
    pt_chain (vbytes t v2) (userSpace v) bs \<and> same_live PT_BLOCK_SIZE (userSpace v) bs (vbytes t v) (vbytes t v2) \<and>
    (\<forall>u \<in> T. u \<noteq> t \<longrightarrow> (\<forall>j < npages v. virt u j v2 = virt u j v))"
proof -
  have kn: "k \<le> npages v" using grows_runs(2) [OF g] by (simp add: has_pages_def)
  have ne: "bs \<noteq> []" using f by auto
  have can: "can_serve t k n bs v" using f kn k by (simp add: can_serve_def request_pages_def)
  have r: "heap_request (PAGESIZE (hp v)) (userSpace v) n bs = (q, bs')" "0 = request_pages (PAGESIZE (hp v)) (userSpace v) n bs" using f by (simp_all add: heap_request_def request_pages_def)
  have own: "getPageThID (pages (sc v) ! 0) = t \<or> lives v t 0 (Disk 0)" using first by (simp add: lives_def slot_at.simps)
  obtain v1 where v1: "myallocate fl line n THREADREQ v = Some (v1, q)" "extended T t th k 0 v v1" "pt_chain (vbytes t v1) (userSpace v) bs'"
    "span PT_BLOCK_SIZE bs' = PAGESIZE (hp v) * (k + 0)" "same_live PT_BLOCK_SIZE (userSpace v) bs (vbytes t v) (vbytes t v1)"
    by (rule serve_request [OF g c s ne can root own r])
  have sz: "in_heap T t k v1" "userSpace v1 = userSpace v" "PAGESIZE (hp v1) = PAGESIZE (hp v)" "0 < memory (hp v1)" "npages v1 = npages v"
    using v1(2) by (simp_all add: extended_def grows_def)
  have fst1: "lives v1 t 0 (Mem 0)" using v1(2) first by (auto simp: extended_def stays_def lives_def)
  have lv: "set (live PT_BLOCK_SIZE (userSpace v) bs') = insert (q, n) (set (live PT_BLOCK_SIZE (userSpace v) bs))" by (rule ff_alloc_live [OF f])
  have c1: "pt_chain (vbytes t v1) (userSpace v1) bs'" "span PT_BLOCK_SIZE bs' = PAGESIZE (hp v1) * k" "(q, n) \<in> set (live PT_BLOCK_SIZE (userSpace v1) bs')" using v1 sz lv by simp_all
  obtain v2 cs where v2: "mydeallocate fl' line' q THREADREQ v1 = Some v2" "ff_free PT_BLOCK_SIZE (userSpace v1) (q - PT_BLOCK_SIZE) bs' = Some cs"
    "wrote T t (vbytes t v2) v1 v2" "pt_chain (vbytes t v2) (userSpace v1) cs" "same_live PT_BLOCK_SIZE (userSpace v1) bs' (vbytes t v1) (vbytes t v2)"
    by (rule free_request [OF sz(1) c1(1,2) sz(4) fst1 t0 c1(3) n])
  have "cs = bs" using ff_alloc_free [OF _ co f] v2(2) sz by (simp add: PT_BLOCK_SIZE_def)
  moreover have "same_live PT_BLOCK_SIZE (userSpace v) bs (vbytes t v) (vbytes t v2)" using v1(5) v2(5) lv sz(2) unfolding same_live_def by fastforce
  moreover have "virt u j v2 = virt u j v" if "u \<in> T" "u \<noteq> t" "j < npages v" for u j using v1(2) v2(3) that by (simp add: extended_def wrote_def)
  ultimately show ?thesis using v1(1) v2(1,3,4) sz(2) by (intro exI [of _ v1] exI [of _ v2]) (simp add: wrote_def)
qed

theorem thread_roundtrip_witness:
  "\<exists>v1 v2. myallocate ''t.c'' 1 1000 THREADREQ taken_vm = Some (v1, 823404) \<and> mydeallocate ''t.c'' 2 823404 THREADREQ v1 = Some v2 \<and>
     pt_chain (vbytes 2 v2) 823296 [(100, False), (3988, True)]"
proof -
  have "pt_root (hp taken_vm) \<noteq> NULL" by (simp add: demo_at_def)
  then show ?thesis
    using thread_roundtrip [of "{2, 3}" 2 200 1 taken_vm "[(100, False), (3988, True)]" 1000 823404 _ "''t.c''" 1 "''t.c''" 2, OF demo_grows] taken_chain
    by (auto simp: PT_BLOCK_SIZE_def demo_lives)
qed

section \<open>Where the pages are too few\<close>

text \<open>
  The slots behind the thread's pages, up to \<open>j\<close>, are free: nothing has to be moved for its next pages.
\<close>

definition quiet :: "uint32 \<Rightarrow> addr \<Rightarrow> nat \<Rightarrow> nat \<Rightarrow> vm \<Rightarrow> bool" where
  "quiet t th k j v \<longleftrightarrow> vm_ok v \<and> owner v = t \<and> current_thread v = Some th \<and> pageNum (pthreads (sc v) th) = int k \<and> unat t < 2 ^ 8 \<and> PT_BLOCK_SIZE \<le> PAGESIZE (hp v) \<and>
     j < npages v \<and> (\<forall>i < k. getPageIsF (entry v (Mem i)) \<noteq> 1) \<and> (\<forall>i. k \<le> i \<and> i \<le> j \<longrightarrow> getPageIsF (entry v (Mem i)) = 1 \<and> prot (sc v) i)"

text \<open>What stays: the layout of memory, the accessible pages, and the entries outside \<open>K\<close>.\<close>

definition beside :: "nat set \<Rightarrow> vm \<Rightarrow> vm \<Rightarrow> bool" where
  "beside K v v' \<longleftrightarrow> npages v' = npages v \<and> userSpace v' = userSpace v \<and> PAGESIZE (hp v') = PAGESIZE (hp v) \<and> memory (hp v') = memory (hp v) \<and>
     (\<forall>i. prot (sc v) i \<longrightarrow> prot (sc v') i) \<and> (\<forall>i. i \<notin> K \<longrightarrow> entry v' (Mem i) = entry v (Mem i))"

lemma beside_trans: "beside K v v1 \<Longrightarrow> beside J v1 v2 \<Longrightarrow> beside (K \<union> J) v v2"
  by (auto simp: beside_def)

lemma beside_accessible: "beside K v v' \<Longrightarrow> accessible v a \<Longrightarrow> accessible v' a"
  by (auto simp: beside_def accessible_def page_of_def)

lemma quiet_bytes [simp]: "quiet t th k j (set_bytes m v) = quiet t th k j v" "beside K v (set_bytes m w) = beside K v w"
  by (auto simp: quiet_def beside_def vm_ok_def slot_at.simps)

lemma touch_hdrs_open: "list_all (ok_hdr (hp v)) as \<Longrightarrow> list_all (\<lambda>a. accessible v a \<and> accessible v (a + 3)) as \<Longrightarrow> touch_hdrs as v = Some v"
proof -
  assume a: "list_all (ok_hdr (hp v)) as" "list_all (\<lambda>a. accessible v a \<and> accessible v (a + 3)) as"
  have "list_all (accessible v) xs \<Longrightarrow> touch_each xs v = Some v" for xs by (induction xs) (simp_all add: touch_def)
  moreover have "list_all (accessible v) (concat (map (\<lambda>a. [a, a + 3]) as))" using a(2) by (induction as) simp_all
  ultimately show ?thesis using a by (simp add: touch_hdrs_def)
qed

lemma quiet_page:
  assumes q: "quiet t th k j v" and k: "k \<le> j" "k < 2 ^ 16"
  obtains v' where "next_page v = Some k" "makeRoom k v = Some (True, v)" "initializePage k v = Some v'" "quiet t th (Suc k) j v'" "beside {k} v v'"
proof -
  have f: "first_from (\<lambda>i. getPageIsF (pages (sc v) ! i) = 1) 0 (npages v) = Some k" using q k by (auto simp: quiet_def first_from_Some slot_at.simps)
  have m: "makeRoom k v = Some (True, v)" by (simp add: makeRoom_def moveToFreeSpace_def f)
  have n: "next_page v = Some k" using q by (simp add: quiet_def next_page_def vm_ok_def)
  have c: "vm_ok v" "k < npages v" "current_thread v = Some th" "pageNum (pthreads (sc v) th) = int k" "owner v = t" "unat t < 2 ^ 8" "PT_BLOCK_SIZE \<le> PAGESIZE (hp v)"
    using q k by (simp_all add: quiet_def)
  obtain v' where v': "initializePage k v = Some v'" "vm_ok v'" "npages v' = npages v" "ndisk v' = ndisk v" "owner v' = t" "current_thread v' = Some th"
    "PAGESIZE (hp v') = PAGESIZE (hp v)" "pageNum (pthreads (sc v') th) = int (Suc k)" "\<And>s. s \<noteq> Mem k \<Longrightarrow> slot_at v' s = slot_at v s"
    "getPageIsF (entry v' (Mem k)) = 0" "getPageThID (entry v' (Mem k)) = t" "getPagePgID (entry v' (Mem k)) = of_nat k"
    "\<And>i. prot (sc v') i \<longleftrightarrow> prot (sc v) i \<or> (k = 0 \<and> i = 0)" "userSpace v' = userSpace v" "memory (hp v') = memory (hp v)"
    "pt_bytes (hp v') = (if k = 0 then page_root (pt_bytes (hp v)) (userSpace v) (PAGESIZE (hp v)) else pt_bytes (hp v))"
    by (rule initializePage_slots [OF c(1,2) k(2) c(3-7)]) (rule that)
  have s: "i \<noteq> k \<Longrightarrow> entry v' (Mem i) = entry v (Mem i)" for i using v'(9) by simp
  have "getPageIsF (entry v' (Mem i)) \<noteq> 1" if "i < Suc k" for i using that q s [of i] v'(10) by (cases "i = k") (auto simp: quiet_def)
  then have "quiet t th (Suc k) j v'" using q v' s by (simp add: quiet_def)
  moreover have "beside {k} v v'" using v' s by (simp add: beside_def)
  ultimately show thesis using that m n v'(1) by blast
qed

lemma quiet_gather:
  "gatherPages p l v = Some v' \<Longrightarrow> quiet t th k j v \<Longrightarrow> k + p \<le> Suc j \<Longrightarrow> k + p \<le> 2 ^ 16 \<Longrightarrow> ok_hdr (hp v) l \<Longrightarrow> accessible v l \<Longrightarrow> accessible v (l + 3) \<Longrightarrow>
   quiet t th (k + p) j v' \<and> beside {k..<k + p} v v'"
proof (induction p arbitrary: k v)
  case (Suc p)
  have kj: "k \<le> j" "k < 2 ^ 16" using Suc.prems(3,4) by simp_all
  obtain w where w: "next_page v = Some k" "makeRoom k v = Some (True, v)" "initializePage k v = Some w" "quiet t th (Suc k) j w" "beside {k} v w" by (rule quiet_page [OF Suc.prems(2) kj])
  let ?w = "set_bytes (upd32 (\<lambda>x. setBlockSize x (getBlockSize x + of_nat (PAGESIZE (hp w)))) l (pt_bytes (hp w))) w"
  have b: "beside {k} v ?w" and a: "ok_hdr (hp w) l" "accessible w l" "accessible w (l + 3)"
    using w(5) Suc.prems(5-7) beside_accessible [OF w(5)] by (simp_all add: ok_hdr_def beside_def)
  have "touch_hdrs [l] w = Some w" using touch_hdrs_open [of w "[l]"] a by simp
  then have "gatherPages p l ?w = Some v'" using Suc.prems(1) w(1-3) by simp
  moreover have "accessible ?w l" "accessible ?w (l + 3)" "ok_hdr (hp ?w) l" using beside_accessible [OF b] Suc.prems(6,7) a(1) by (simp_all add: ok_hdr_def)
  ultimately have "quiet t th (Suc k + p) j v'" "beside {Suc k..<Suc k + p} ?w v'" using Suc.IH [of ?w "Suc k"] w(4) Suc.prems(3,4) by simp_all
  moreover have "{k} \<union> {Suc k..<Suc k + p} = {k..<k + Suc p}" by auto
  ultimately show ?case using beside_trans [OF b] by fastforce
qed (simp add: beside_def)

lemma quiet_open:
  assumes o: "open_page b v = Some (True, l, v')" and q: "quiet t th k j v" and k: "k \<le> j" "k < 2 ^ 16"
    and b: "ok_hdr (hp v) b" "accessible v b" "accessible v (b + 3)"
  shows "quiet t th (Suc k) j v'" "beside {k} v v'"
proof -
  obtain w where w: "next_page v = Some k" "makeRoom k v = Some (True, v)" "initializePage k v = Some w" "quiet t th (Suc k) j w" "beside {k} v w" by (rule quiet_page [OF q k])
  let ?l = "page_addr w k"
  have sz: "userSpace w = userSpace v" "PAGESIZE (hp w) = PAGESIZE (hp v)" "npages w = npages v" "memory (hp w) = memory (hp v)" using w(5) by (simp_all add: beside_def)
  have ps: "4 \<le> PAGESIZE (hp v)" "prot (sc v) k" "k < npages v" using q k by (simp_all add: quiet_def PT_BLOCK_SIZE_def)
  then have "page_of w ?l = k" "page_of w (?l + 3) = k" using sz by (simp_all add: page_of_def add.assoc div_mult_self4)
  then have a: "accessible w ?l" "accessible w (?l + 3)" using ps(2) w(5) by (simp_all add: accessible_def beside_def)
  have "Suc k * PAGESIZE (hp v) \<le> npages v * PAGESIZE (hp v)" using ps(3) by (intro mult_le_mono1) simp
  then have "?l + PT_BLOCK_SIZE \<le> page_addr v (npages v)" using ps(1) sz by (simp add: PT_BLOCK_SIZE_def mult.commute)
  also have "\<dots> \<le> memory (hp v) + PT_MAX_MEMORY" by (rule pages_in_memory) (use ps in simp)
  finally have "ok_hdr (hp w) ?l" using sz by (simp add: ok_hdr_def userSpace_def)
  then have "touch_hdrs [?l, b] w = Some w" using touch_hdrs_open [of w "[?l, b]"] a b beside_accessible [OF w(5)] sz by (simp add: ok_hdr_def)
  then have "\<exists>m. v' = set_bytes m w" using o w(1-3) by (auto simp: open_page_def Let_def)
  then show "quiet t th (Suc k) j v'" "beside {k} v v'" using w(4,5) by auto
qed

text \<open>In such a state a heap that ends in a taken block gets its pages one after the other.\<close>

lemma quiet_taken:
  assumes g: "grows T t th k v" and c: "pt_chain (vbytes t v) (userSpace v) (xs @ [(z, False)])" and s: "span PT_BLOCK_SIZE (xs @ [(z, False)]) = PAGESIZE (hp v) * k"
    and z: "z \<le> n + 2 * PT_BLOCK_SIZE" and room: "b + PT_BLOCK_SIZE + (n + PT_BLOCK_SIZE) \<le> memory (hp v) + PT_MAX_MEMORY"
    and p: "p = grow_pages (PAGESIZE (hp v)) n (z, False)" "k + p \<le> npages v" "k + p \<le> 2 ^ 16" "p \<le> card (free_slots v)"
    and b: "b = userSpace v + span PT_BLOCK_SIZE xs" and f: "getBlockIsF (load32 (vbytes t v) b) = 0"
    and q: "quiet t th k j v" "k + p \<le> j" and own: "accessible v b" "accessible v (b + 3)"
    and l: "ok_hdr (hp v) (page_addr v k)" "accessible v (page_addr v k)" "accessible v (page_addr v k + 3)"
  obtains v' where "growThread n b fl line v = (case thread_carve (page_addr v k) n v' of None \<Rightarrow> None | Some w \<Rightarrow> map_option (\<lambda>w. (w, page_addr v k + PT_BLOCK_SIZE)) (resume_timer w))"
    "extended T t th k p v v'" "quiet t th (k + p) j v'" "beside ({k} \<union> {Suc k..<k + p}) v v'"
proof -
  let ?l = "page_addr v k"
  obtain v1 v2 v3 where v3: "growThread n b fl line v = (case thread_carve ?l n v3 of None \<Rightarrow> None | Some w \<Rightarrow> map_option (\<lambda>w. (w, ?l + PT_BLOCK_SIZE)) (resume_timer w))"
    "extended T t th k p v v3" "touch_hdrs [b] v = Some v1" "open_page b v1 = Some (True, ?l, v2)" "gatherPages (p - 1) ?l v2 = Some v3"
    by (rule taken_growth [OF g c s z room p b f]) (rule that)
  have p0: "0 < p" using p(1) by simp
  have ob: "ok_hdr (hp v) b" using b room by (simp add: ok_hdr_def userSpace_def)
  have "v1 = v" using v3(3) touch_hdrs_open [of v "[b]"] ob own by simp
  then have q2: "quiet t th (Suc k) j v2" "beside {k} v v2" using quiet_open [OF _ q(1) _ _ ob own, of ?l v2] v3(4) q(2) p(3) p0 by simp_all
  have "ok_hdr (hp v2) ?l" "accessible v2 ?l" "accessible v2 (?l + 3)" using l beside_accessible [OF q2(2)] q2(2) by (simp_all add: ok_hdr_def beside_def)
  then have "quiet t th (Suc k + (p - 1)) j v3 \<and> beside {Suc k..<Suc k + (p - 1)} v2 v3" using quiet_gather [OF v3(5) q2(1)] q(2) p(3) p0 by simp
  then have "quiet t th (k + p) j v3" "beside ({k} \<union> {Suc k..<k + p}) v v3" using beside_trans [OF q2(2), of "{Suc k..<k + p}" v3] p0 by simp_all
  then show thesis by (rule that [OF v3(1,2)])
qed

lemma quiet_carve:
  assumes q: "quiet t th k j v" "k \<le> page_of v a" "page_of v (a + 3) \<le> j" and u: "a = l + n + PT_BLOCK_SIZE" "n + PT_BLOCK_SIZE < 2 ^ 32"
    and h: "ok_hdr (hp v) a" "ok_hdr (hp v) l" "accessible v l" "accessible v (l + 3)"
  obtains v' where "thread_carve l n v = Some (set_bytes (carve (pt_bytes (hp v)) l n) v)" "resume_timer (set_bytes (carve (pt_bytes (hp v)) l n) v) = Some v'"
    "virt w i v' = virt w i (set_bytes (carve (pt_bytes (hp v)) l n) v)" "\<And>s. entry v' s = entry v s"
proof -
  have "page_of v a \<le> page_of v (a + 3)" unfolding page_of_def by (intro div_le_mono) simp
  then have "prot (sc v) (page_of v a)" "prot (sc v) (page_of v (a + 3))" using q by (simp_all add: quiet_def)
  then have "accessible v a" "accessible v (a + 3)" by (simp_all add: accessible_def)
  then have "touch_hdrs [a, l] v = Some v" using touch_hdrs_open [of v "[a, l]"] h by simp
  moreover have "unat (of_nat (n + PT_BLOCK_SIZE) :: uint32) = n + PT_BLOCK_SIZE" using u(2) by (intro unat_of_nat32)
  ultimately have tc: "thread_carve l n v = Some (set_bytes (carve (pt_bytes (hp v)) l n) v)" using u(1) by (simp add: thread_carve_def add.assoc del: of_nat_add)
  let ?w = "set_bytes (carve (pt_bytes (hp v)) l n) v"
  have "scd_up (sc ?w)" using q(1) by (simp add: quiet_def vm_ok_def)
  then obtain v' where v': "resume_timer ?w = Some v'" "same_pages ?w v'" "same_vm ?w v'" by (rule resume_same)
  show thesis using that [OF tc v'(1)] same_pages_view(3) [OF v'(2)] same_pages_slots [OF v'(2)] by simp
qed

text \<open>
  C38. A request after a taken last block may get too few pages: the size of the taken block, which serves
  nothing, is subtracted from the bytes that are needed.  When the pages are fewer than the request
  and its header need, and the slots behind the thread's pages are free, the call returns a block all the same: its
  last byte is in a page the thread does not have, in a slot that the page table says is free.
\<close>

theorem growth_after_taken_short:
  assumes g: "grows T t th k v" and c: "pt_chain (vbytes t v) (userSpace v) (xs @ [(z, False)])" and s: "span PT_BLOCK_SIZE (xs @ [(z, False)]) = PAGESIZE (hp v) * k"
    and z: "z \<le> n + 2 * PT_BLOCK_SIZE" and p: "p = grow_pages (PAGESIZE (hp v)) n (z, False)" "k + p \<le> npages v" "k + p \<le> 2 ^ 16" "p \<le> card (free_slots v)"
    and b: "b = userSpace v + span PT_BLOCK_SIZE xs" and f: "getBlockIsF (load32 (vbytes t v) b) = 0"
    and short: "PAGESIZE (hp v) * p < n + PT_BLOCK_SIZE" and top: "j = page_of v (page_addr v k + n + PT_BLOCK_SIZE + 3)"
    and q: "quiet t th k j v" and own: "accessible v b" "accessible v (b + 3)"
  shows "\<exists>v' a. growThread n b fl line v = Some (v', a) \<and> a = page_addr v k + PT_BLOCK_SIZE \<and> virt t (page_of v (a + n - 1)) v' = None \<and>
    getPageIsF (entry v' (Mem (page_of v (a + n - 1)))) = 1"
proof -
  let ?l = "page_addr v k" and ?j = "page_of v (page_addr v k + PT_BLOCK_SIZE + n - 1)" and ?h = "page_addr v k + n + PT_BLOCK_SIZE"
  have pos: "0 < PAGESIZE (hp v)" using grows_runs [OF g] by simp
  have us: "userSpace v \<le> ?l + PT_BLOCK_SIZE + n - 1" "userSpace v \<le> ?h + 3" "userSpace v \<le> ?h" by (simp_all add: PT_BLOCK_SIZE_def)
  have jn: "j < npages v" using q by (simp add: quiet_def)
  have "?h + 3 < page_addr v (npages v)" using page_of_less [OF pos us(2)] jn top by simp
  also have "\<dots> \<le> memory (hp v) + PT_MAX_MEMORY" by (rule pages_in_memory) (use jn in simp)
  finally have hi: "?h + 3 < memory (hp v) + PT_MAX_MEMORY" .
  have room: "b + PT_BLOCK_SIZE + (n + PT_BLOCK_SIZE) \<le> memory (hp v) + PT_MAX_MEMORY" and lo: "memory (hp v) \<le> b" using hi s b by (simp_all add: userSpace_def)
  have "page_addr v (k + p) \<le> ?l + PT_BLOCK_SIZE + n - 1" using short by (simp add: PT_BLOCK_SIZE_def add_mult_distrib2)
  then have kj: "k + p \<le> ?j" "?j \<le> j" "k + p \<le> page_of v ?h"
    using page_of_less [OF pos us(1), of "k + p"] page_of_less [OF pos us(3), of "k + p"] unfolding top page_of_def by (auto simp: PT_BLOCK_SIZE_def intro!: div_le_mono)
  have "4 \<le> PAGESIZE (hp v)" "prot (sc v) k" using q kj by (simp_all add: quiet_def PT_BLOCK_SIZE_def)
  moreover from this have "page_of v ?l = k" "page_of v (?l + 3) = k" by (simp_all add: page_of_def add.assoc div_mult_self4)
  ultimately have al: "accessible v ?l" "accessible v (?l + 3)" by (simp_all add: accessible_def)
  have ol: "ok_hdr (hp v) ?l" "ok_hdr (hp v) ?h" using hi by (simp_all add: ok_hdr_def userSpace_def PT_BLOCK_SIZE_def)
  have kpj: "k + p \<le> j" using kj by simp
  obtain v3 where v3: "growThread n b fl line v = (case thread_carve ?l n v3 of None \<Rightarrow> None | Some w \<Rightarrow> map_option (\<lambda>w. (w, ?l + PT_BLOCK_SIZE)) (resume_timer w))"
    "extended T t th k p v v3" "quiet t th (k + p) j v3" "beside ({k} \<union> {Suc k..<k + p}) v v3"
    by (rule quiet_taken [OF g c s z room p b f q kpj own ol(1) al])
  have sz: "page_of v3 a = page_of v a" "ok_hdr (hp v3) a = ok_hdr (hp v) a" for a using v3(4) by (simp_all add: beside_def page_of_def ok_hdr_def)
  have "k + p \<le> page_of v3 ?h" "page_of v3 (?h + 3) \<le> j" "n + PT_BLOCK_SIZE < 2 ^ 32" "ok_hdr (hp v3) ?h" "ok_hdr (hp v3) ?l"
    using kj top ol room_left(2) [OF room lo] by (simp_all add: sz)
  then obtain v' where v': "thread_carve ?l n v3 = Some (set_bytes (carve (pt_bytes (hp v3)) ?l n) v3)" "resume_timer (set_bytes (carve (pt_bytes (hp v3)) ?l n) v3) = Some v'"
    "virt t ?j v' = virt t ?j (set_bytes (carve (pt_bytes (hp v3)) ?l n) v3)" "\<And>s. entry v' s = entry v3 s"
    using quiet_carve [OF v3(3), of ?h ?l n t ?j] beside_accessible [OF v3(4)] al by metis
  have "virt t ?j v3 = None" using v3(2) kj jn by (simp add: extended_def grows_def)
  then have "virt t ?j v' = None" using v'(3) by (simp add: virt_def)
  moreover have "getPageIsF (entry v' (Mem ?j)) = 1" using v3(3) kj v'(4) by (simp add: quiet_def)
  ultimately show ?thesis using v3(1) v'(1,2) by simp
qed

text \<open>
  Thread 2's page, the only one in use, is one taken block of 4092 bytes; 5000 bytes more would need two pages, the code asks for one,
  and the block it returns ends in slot 2, which is free.
\<close>

definition lone_bytes :: bytes where
  "lone_bytes = (\<lambda>_. 0)(823297 := 0xFC, 823298 := 0x0F)"

definition lone_vm :: vm where
  "lone_vm = mprotect 0 True (mprotect 1 True (demo_pages 0x200 1 lone_bytes))"

lemma lone_fields [simp]:
  "hp lone_vm = hp (demo_pages 0x200 1 lone_bytes)" "pages (sc lone_vm) = 0x200 # 1 # replicate 1846 1" "diskPages lone_vm = replicate 4096 1" "swpFile lone_vm = swpFile (demo_pages 0x200 1 lone_bytes)"
  "pthreads (sc lone_vm) = pthreads (sc (demo_pages 0x200 1 lone_bytes))" "scd_up (sc lone_vm)"
  by (simp_all add: lone_vm_def)

lemma lone_slots [simp]:
  "npages lone_vm = 1848" "ndisk lone_vm = 4096" "userSpace lone_vm = 823296" "page_of lone_vm a = (a - 823296) div 4096" "prot (sc lone_vm) i" "owner lone_vm = 2" "current_thread lone_vm = Some 200"
proof -
  have v: "npages lone_vm = npages (demo_pages 0x200 1 lone_bytes)" "ndisk lone_vm = ndisk (demo_pages 0x200 1 lone_bytes)" "userSpace lone_vm = userSpace (demo_pages 0x200 1 lone_bytes)"
    unfolding npages_def ndisk_def userSpace_def lone_fields by (rule refl)+
  then show "npages lone_vm = 1848" "ndisk lone_vm = 4096" "userSpace lone_vm = 823296" by simp_all
  then show "page_of lone_vm a = (a - 823296) div 4096" by (simp add: page_of_def)
  show "prot (sc lone_vm) i" by (simp add: lone_vm_def)
  have "owner lone_vm = owner (demo_pages 0x200 1 lone_bytes)" "current_thread lone_vm = current_thread (demo_pages 0x200 1 lone_bytes)" by (simp_all add: lone_vm_def owner_def current_thread_def)
  then show "owner lone_vm = 2" "current_thread lone_vm = Some 200" by simp_all
qed

lemma lone_slot: "slot_at lone_vm s = slot_at (demo_pages 0x200 1 lone_bytes) s" "slot_ok lone_vm s = slot_ok (demo_pages 0x200 1 lone_bytes) s"
  by (cases s; simp add: slot_at.simps)+

lemma lone_lives: "lives lone_vm t k s \<longleftrightarrow> s = Mem 0 \<and> t = 2 \<and> of_nat k = (0 :: uint32)"
  using demo_lives [of 1 "0x200" 1 lone_bytes t k s] by (auto simp: lives_def lone_slot)

lemma lone_free: "1 \<le> i \<Longrightarrow> i < 1848 \<Longrightarrow> entry lone_vm (Mem i) = 1"
  by (cases i; cases "i - 1") (auto simp: slot_at.simps)

lemma lone_running: "running {2, 3} 2 lone_vm"
proof -
  have z: "entry lone_vm (Mem 0) = 0x200" by (simp add: slot_at.simps)
  have "getPageThID (entry lone_vm (Mem i)) \<notin> {2, 3}" if "i < npages lone_vm" "getPageIsF (entry lone_vm (Mem i)) \<noteq> 0" for i
    using that z lone_free [of i] by (cases i) (auto simp: lone_slots)
  moreover have "unat (getPagePgID (entry lone_vm s)) < npages lone_vm" if "slot_ok lone_vm s \<and> getPageIsF (entry lone_vm s) = 0 \<and> getPageThID (entry lone_vm s) \<in> {2, 3}" for s
  proof -
    have "lives lone_vm (getPageThID (entry lone_vm s)) (unat (getPagePgID (entry lone_vm s))) s" using that by (simp add: lives_def)
    then show ?thesis by (auto simp: lone_lives slot_at.simps)
  qed
  ultimately have "paged {2, 3} lone_vm" unfolding paged_def by (auto simp: lone_lives vm_ok_def)
  moreover have "shielded {2, 3} 2 lone_vm"
    unfolding shielded_def
  proof (intro allI impI)
    fix k assume k: "k < npages lone_vm" "prot (sc lone_vm) k"
    show "lives lone_vm 2 k (Mem k) \<or> (getPageIsF (entry lone_vm (Mem k)) \<noteq> 0 \<and> (\<forall>u \<in> {2, 3}. \<forall>s. \<not> lives lone_vm u k s))"
      using k lone_free [of k] of_nat_page [of k lone_vm 0] by (cases k) (auto simp: lone_lives)
  qed
  ultimately show ?thesis by (simp add: running_def lone_slots PT_BLOCK_SIZE_def)
qed

lemma lone_grows: "grows {2, 3} 2 200 1 lone_vm" "quiet 2 200 1 2 lone_vm"
proof -
  note r = lone_running
  have p: "paged {2, 3} lone_vm" using r by (simp add: running_def)
  have "virt 2 j lone_vm = None" if "1 \<le> j" "j < npages lone_vm" for j
    using virt_lives [OF p, of 2 j] of_nat_page [of j lone_vm 0] that by (auto simp: lone_lives)
  moreover have "virt 2 0 lone_vm \<noteq> None" using virt_lives [OF p, of 2 0] by (simp add: lone_lives)
  moreover have "loose lone_vm" by (simp add: loose_def)
  ultimately show "grows {2, 3} 2 200 1 lone_vm" using r by (simp add: grows_def in_heap_def has_pages_def lone_slots)
  have "entry lone_vm (Mem 0) = 0x200" by (simp add: slot_at.simps)
  then show "quiet 2 200 1 2 lone_vm" using lone_free by (simp add: quiet_def vm_ok_def PT_BLOCK_SIZE_def)
qed

lemma lone_chain: "pt_chain (vbytes 2 lone_vm) 823296 [(4092, False)]" "getBlockIsF (load32 (vbytes 2 lone_vm) 823296) = 0"
proof -
  have h: "home 2 0 lone_vm = Some (Mem 0)" using home_at [of "{2, 3}" lone_vm 2 0 "Mem 0"] lone_running by (simp add: running_def lone_lives)
  have "vbytes 2 lone_vm (823296 + x) = lone_bytes (823296 + x)" if "x < 4" for x
    using that h by (simp add: vbytes_def virt_def slot_at.simps get_page_def)
  from this [of 0] this [of 1] this [of 2] this [of 3] have l: "load32 (vbytes 2 lone_vm) 823296 = 0xFFC00" by (simp add: load32_bytes lone_bytes_def)
  show "pt_chain (vbytes 2 lone_vm) 823296 [(4092, False)]" by (simp add: l hdr_word_defs block_word_defs)
  show "getBlockIsF (load32 (vbytes 2 lone_vm) 823296) = 0" by (simp add: l block_word_defs)
qed

theorem growth_after_taken_short_witness:
  "\<exists>v'. growThread 5000 823296 ''t.c'' 1 lone_vm = Some (v', 827396) \<and> virt 2 2 v' = None \<and> getPageIsF (entry v' (Mem 2)) = 1"
proof -
  have "Mem 1 \<in> free_slots lone_vm" using lone_free [of 1] by (simp add: free_slots_def lone_slots)
  then have fr: "0 < card (free_slots lone_vm)" using finite_free card_gt_0_iff by blast
  have r: "\<exists>v' a. growThread 5000 823296 ''t.c'' 1 lone_vm = Some (v', a) \<and> a = page_addr lone_vm 1 + PT_BLOCK_SIZE \<and> virt 2 (page_of lone_vm (a + 5000 - 1)) v' = None \<and>
      getPageIsF (entry v' (Mem (page_of lone_vm (a + 5000 - 1)))) = 1"
    by (rule growth_after_taken_short [where xs = "[]" and z = 4092 and p = 1 and j = 2, OF lone_grows(1)])
      (use fr lone_chain lone_grows(2) in \<open>simp_all add: PT_BLOCK_SIZE_def lone_slots accessible_def\<close>)
  then show ?thesis by (auto simp: lone_slots PT_BLOCK_SIZE_def)
qed

end
