(* ===== verification/PtSwitch.thy ===== *)
theory PtSwitch
  imports PtRequest
begin

text \<open>
  The scheduler and the pages: what a call of \<open>schedule\<close> does to the threads' memory.  The pages of the
  thread that leaves the processor are protected, so the next thread faults on every one of them;
  no page moves.  When the thread that leaves has ended, its pages in memory become free, and are
  protected all the same.
\<close>

section \<open>A switch\<close>

lemma switched_slots:
  assumes "pages s' = pages (sc v)"
  shows "slot_at (v\<lparr>sc := s'\<rparr>) s = slot_at v s" "npages (v\<lparr>sc := s'\<rparr>) = npages v" "ndisk (v\<lparr>sc := s'\<rparr>) = ndisk v" "slot_ok (v\<lparr>sc := s'\<rparr>) s = slot_ok v s"
    "lives (v\<lparr>sc := s'\<rparr>) t k s = lives v t k s" "home t k (v\<lparr>sc := s'\<rparr>) = home t k v" "virt t k (v\<lparr>sc := s'\<rparr>) = virt t k v"
proof -
  show e: "slot_at (v\<lparr>sc := s'\<rparr>) s = slot_at v s" "npages (v\<lparr>sc := s'\<rparr>) = npages v" "ndisk (v\<lparr>sc := s'\<rparr>) = ndisk v" "slot_ok (v\<lparr>sc := s'\<rparr>) s = slot_ok v s" for s
    using slot_at_cong [of "v\<lparr>sc := s'\<rparr>" v] assms by simp_all
  show "lives (v\<lparr>sc := s'\<rparr>) t k s = lives v t k s" by (simp add: lives_def e)
  show h: "home t k (v\<lparr>sc := s'\<rparr>) = home t k v" using assms by (simp add: home_def in_memory_at_def on_disk_at_def e cong: option.case_cong)
  show "virt t k (v\<lparr>sc := s'\<rparr>) = virt t k v" by (simp add: virt_def h e)
qed

lemma switch_running:
  assumes r: "running T t v" and pg: "pages s' = pages (sc v)" and up: "scd_up s'" and pr: "prot s' = switched_prot (sc v) s'"
    and cur: "current s' \<noteq> NULL" "threadID (nodes s' (current s')) \<noteq> NULL" and id: "tid (pthreads s' (threadID (nodes s' (current s')))) = id_of (sc v) (current s')"
    and u: "word_of_int (id_of (sc v) (current s')) \<in> T"
  shows "running T (owner (v\<lparr>sc := s'\<rparr>)) (v\<lparr>sc := s'\<rparr>)" "loose v \<Longrightarrow> loose (v\<lparr>sc := s'\<rparr>)"
proof -
  let ?v = "v\<lparr>sc := s'\<rparr>" and ?i = "id_of (sc v) (current (sc v))"
  note e = switched_slots [OF pg]
  have P: "paged T v" and sh: "shielded T t v" and ps: "PT_BLOCK_SIZE \<le> PAGESIZE (hp v)" and t: "word_of_int ?i = t" "t \<in> T"
    using r by (auto simp: running_def owner_def id_of_def)
  have len: "length (pages (sc v)) = npages v" using P by (simp add: paged_def vm_ok_def)
  have own: "owner ?v = word_of_int (id_of (sc v) (current s'))" "current_thread ?v \<noteq> None" using cur id up by (simp_all add: owner_def current_thread_def)
  have "vm_ok ?v" using P pg up e by (simp add: paged_def vm_ok_def)
  then have p: "paged T ?v" using P e by (simp add: paged_def)
  have off: "prot (sc v) k" "id_of (sc v) (current s') \<noteq> ?i \<Longrightarrow> getPageThID (entry v (Mem k)) \<noteq> t" if "k < npages v" "prot s' k" for k
    using that t(1) len pr by (auto simp: switched_prot_def protectAllPages_def slot_at.simps split: if_split_asm)
  have "shielded T (owner ?v) ?v"
    unfolding shielded_def e
  proof (intro allI impI)
    fix k assume k: "k < npages v" "prot (sc ?v) k"
    have s: "lives v t k (Mem k) \<or> getPageIsF (entry v (Mem k)) \<noteq> 0 \<and> (\<forall>u \<in> T. \<forall>s. \<not> lives v u k s)" using sh k off(1) [of k] unfolding shielded_def by simp
    show "lives v (owner ?v) k (Mem k) \<or> getPageIsF (entry v (Mem k)) \<noteq> 0 \<and> (\<forall>u \<in> T. \<forall>s. \<not> lives v u k s)"
    proof (cases "id_of (sc v) (current s') = ?i")
      case True
      then show ?thesis using s own(1) t(1) by simp
    next
      case False
      then show ?thesis using s off(2) [of k] k by (auto simp: lives_def)
    qed
  qed
  then show "running T (owner ?v) ?v" using p own u ps by (simp add: running_def)
  show "loose ?v" if lo: "loose v"
    unfolding loose_def e
  proof (intro allI impI)
    fix i assume i: "i < npages v" "getPageIsF (entry v (Mem i)) = 1"
    then have "prot (sc v) i" "getPageThID (entry v (Mem i)) \<notin> T" using lo P by (auto simp: loose_def paged_def)
    then show "prot (sc ?v) i" using t pr by (auto simp: switched_prot_def protectAllPages_def slot_at.simps)
  qed
qed

lemma schedule_alive:
  assumes inv: "sched_inv s L Th" and st: "status (nodes s (current s)) \<noteq> EXITING"
  obtains s' where "schedule s = Some s'" "kept s s'" "pages s' = pages s" "pthreads s' = pthreads s" "prot s' = switched_prot s s'"
    "current s' \<in> insert (current s) (everyone L)" "scd_up s'" "current s' \<noteq> NULL" "threadID (nodes s' (current s')) \<noteq> NULL"
    "tid (pthreads s' (threadID (nodes s' (current s')))) = id_of s (current s')"
proof -
  obtain s1 L1 where s1: "schedule s = Option.bind (requeue s1) dispatch" "sched_inv s1 L1 Th" "current s1 = current s"
    "status (nodes s1 (current s)) = status (nodes s (current s))" "everyone L1 = everyone L" "kept s s1" "same_tables s s1"
    by (rule schedule_split [OF inv]) (rule that)
  have st1: "status (nodes s1 (current s1)) \<noteq> EXITING" using st s1(3,4) by simp
  have r1: "runs s1" "qsys (current s1) s1 L1" "scd_up s1" using s1(2) by (auto simp: sched_inv_def)
  have id1: "id_of s1 = id_of s" by (rule kept_ids [OF s1(6)])
  show thesis
  proof (cases "ready_level (requeued s1 L1)")
    case None
    obtain s' where s': "Option.bind (requeue s1) dispatch = Some s'" "current s' = current s1" "kept s1 s'"
      "status (nodes s1 (current s1)) \<noteq> EXITING \<longrightarrow> same_tables s1 s'"
      by (rule schedule_none [OF s1(2) None]) (rule that)
    have tb: "same_tables s s'" using same_tables_trans [OF s1(7)] s'(4) st1 by blast
    have k: "kept s s'" by (rule kept_trans [OF s1(6) s'(3)])
    have c: "current s' = current s" using s'(2) s1(3) by simp
    have "scd_up s'" "current s' \<noteq> NULL" "threadID (nodes s' (current s')) \<noteq> NULL" "tid (pthreads s' (threadID (nodes s' (current s')))) = id_of s (current s')"
      using k c r1 s1(3,6) by (simp_all add: kept_def runs_def id_of_def)
    then show thesis using s1(1) s'(1) k c tb by (intro that [of s']) (simp_all add: same_tables_def switched_prot_def)
  next
    case (Some i)
    obtain s' where s': "Option.bind (requeue s1) dispatch = Some s'" "sched_inv s' ((requeued s1 L1)(Run i := tl (requeued s1 L1 (Run i)))) Th"
      "current s' = hd (requeued s1 L1 (Run i))" "kept s1 s'"
      "status (nodes s1 (current s1)) \<noteq> EXITING \<longrightarrow> pages s' = pages s1 \<and> pthreads s' = pthreads s1 \<and> prot s' = switched_prot s1 s'"
      by (rule schedule_some [OF s1(2) Some]) (rule that)
    have k: "kept s s'" by (rule kept_trans [OF s1(6) s'(4)])
    have e: "pages s' = pages s1" "pthreads s' = pthreads s1" "prot s' = switched_prot s1 s'" using s'(5) st1 by auto
    have pg: "pages s' = pages s" "pthreads s' = pthreads s" using e s1(7) by (simp_all add: same_tables_def)
    have pr: "prot s' = switched_prot s s'" using e(3) s1(3,7) unfolding switched_prot_def id1 by (simp add: same_tables_def protectAllPages_def)
    have "current s' \<in> set (requeued s1 L1 (Run i))" using s'(3) ready_level_Some(2) [OF Some] by simp
    then have "current s' \<in> everyone (requeued s1 L1)" by (rule in_everyone)
    then have u: "current s' \<in> insert (current s) (everyone L)" using requeued_everyone [OF r1(2)] s1(3,5) st1 by simp
    have "runs s'" "scd_up s'" using s'(2) by (simp_all add: sched_inv_def)
    then have "scd_up s'" "current s' \<noteq> NULL" "threadID (nodes s' (current s')) \<noteq> NULL" "tid (pthreads s' (threadID (nodes s' (current s')))) = id_of s (current s')"
      using k by (simp_all add: runs_def kept_def id_of_def)
    then show thesis using s1(1) s'(1) k pg pr u by (intro that [of s']) simp_all
  qed
qed

text \<open>
  A call of \<open>schedule\<close> when the running thread has not ended, whether its time is up, it yields or it
  waits: every thread's memory is as it was, and whichever thread runs next may only touch without
  a fault pages that are its own and in place, or free.  So the guarantees of accesses and requests hold for it.
\<close>

theorem schedule_keeps_memory:
  assumes r: "running T t v" and inv: "sched_inv (sc v) L Th" and st: "status (nodes (sc v) (current (sc v))) \<noteq> EXITING"
    and ids: "\<forall>x \<in> everyone L. word_of_int (id_of (sc v) x) \<in> T"
  shows "\<exists>s'. schedule (sc v) = Some s' \<and> running T (owner (v\<lparr>sc := s'\<rparr>)) (v\<lparr>sc := s'\<rparr>) \<and> (loose v \<longrightarrow> loose (v\<lparr>sc := s'\<rparr>)) \<and>
    (\<forall>u \<in> T. \<forall>k. virt u k (v\<lparr>sc := s'\<rparr>) = virt u k v)"
proof -
  obtain s' where s': "schedule (sc v) = Some s'" "pages s' = pages (sc v)" "prot s' = switched_prot (sc v) s'" "current s' \<in> insert (current (sc v)) (everyone L)" "scd_up s'"
    "current s' \<noteq> NULL" "threadID (nodes s' (current s')) \<noteq> NULL" "tid (pthreads s' (threadID (nodes s' (current s')))) = id_of (sc v) (current s')"
    by (rule schedule_alive [OF inv st]) (rule that)
  have "word_of_int (id_of (sc v) (current (sc v))) \<in> T" using r by (auto simp: running_def owner_def id_of_def)
  then have u: "word_of_int (id_of (sc v) (current s')) \<in> T" using ids s'(4) by auto
  show ?thesis using s'(1) switch_running [OF r s'(2,5,3,6-8) u] switched_slots(7) [OF s'(2)] by auto
qed

lemma demo_sched_inv: "sched_inv (sc (demo_at c x y m)) (demo_layout True 0) [300, 200]"
proof -
  let ?s = "sc (demo_at c x y m)" and ?d = "demo NEUTRAL True 0"
  have d: "sched_inv ?d (demo_layout True 0) [300, 200]" by (rule demo_inv) (simp add: RUN_QUEUE_SIZE_def)
  have e: "nodes ?s = nodes ?d" "queues ?s = queues ?d" "runQ ?s = runQ ?d" "promotionQ ?s = promotionQ ?d" "joinHead ?s = joinHead ?d" "current ?s = current ?d"
    "threadNum ?s = threadNum ?d" "lib_room ?s = lib_room ?d" "scd_up ?s = scd_up ?d" "threadsHead ?s = threadsHead ?d"
    "tid (pthreads ?s t) = tid (pthreads ?d t)" "tnext (pthreads ?s t) = tnext (pthreads ?d t)" for t
    by (simp_all add: demo_at_def upd_thread_def)
  have "id_of ?s = id_of ?d" by (simp add: id_of_def fun_eq_iff e)
  then show ?thesis using d qsys_cong [OF e(1-5), of 20 "demo_layout True 0"] by (simp add: sched_inv_def runs_def ids_ok_def thread_list_def e)
qed

lemma demo_ids: "x \<in> everyone (demo_layout True 0) \<Longrightarrow> word_of_int (id_of (sc (demo_at c a b m)) x) \<in> {1, 2, 3 :: uint32}"
  by (auto simp: demo_everyone id_of_def demo_at_def upd_thread_def)

text \<open>The time of thread 2 is up: thread 3 runs, and both have their memory.\<close>

theorem schedule_keeps_memory_witness:
  "\<exists>s'. schedule (sc taken_vm) = Some s' \<and> virt 2 0 (taken_vm\<lparr>sc := s'\<rparr>) = virt 2 0 taken_vm \<and> virt 3 0 (taken_vm\<lparr>sc := s'\<rparr>) = virt 3 0 taken_vm"
proof -
  have r: "running {1, 2, 3} 2 taken_vm" by (rule demo_running_in) simp_all
  have st: "status (nodes (sc taken_vm) (current (sc taken_vm))) \<noteq> EXITING" by (simp add: demo_at_def upd_thread_def demo_node_def)
  show ?thesis using schedule_keeps_memory [OF r demo_sched_inv st] demo_ids by fastforce
qed

section \<open>The end of a thread\<close>

text \<open>The running thread has ended and another one runs: its pages are free and protected, its node is gone.\<close>

lemma schedule_ended:
  assumes inv: "sched_inv s L Th" and st: "status (nodes s (current s)) = EXITING" and run: "schedule s = Some s'" and sw: "current s' \<noteq> current s"
  obtains L' where "sched_inv s' L' Th" "insert (current s') (everyone L') \<subseteq> everyone L" "kept s s'" "pages s' = dead_pages s" "\<And>i. prot s' i = (\<not> own_page s i \<and> prot s i)"
    "\<And>t. pageNum (pthreads s' t) = pageNum (pthreads s t)" "id_of s (current s') \<noteq> id_of s (current s)"
proof -
  obtain s1 L1 where s1: "schedule s = Option.bind (requeue s1) dispatch" "sched_inv s1 L1 Th" "current s1 = current s"
    "status (nodes s1 (current s)) = status (nodes s (current s))" "everyone L1 = everyone L" "kept s s1" "same_tables s s1"
    by (rule schedule_split [OF inv]) (rule that)
  have st1: "status (nodes s1 (current s1)) = EXITING" using st s1(3,4) by simp
  have q1: "qsys (current s1) s1 L1" and io: "inj_on (id_of s) (insert (current s) (everyone L))" using s1(2) inv by (auto simp: sched_inv_def ids_ok_def)
  have id1: "id_of s1 = id_of s" by (rule kept_ids [OF s1(6)])
  have "ready_level (requeued s1 L1) \<noteq> None"
  proof
    assume n: "ready_level (requeued s1 L1) = None"
    obtain s2 where "Option.bind (requeue s1) dispatch = Some s2" "current s2 = current s1" by (rule schedule_none [OF s1(2) n]) (rule that)
    then show False using s1(1,3) run sw by simp
  qed
  then obtain i where i: "ready_level (requeued s1 L1) = Some i" by blast
  obtain s2 where s2: "Option.bind (requeue s1) dispatch = Some s2" "sched_inv s2 ((requeued s1 L1)(Run i := tl (requeued s1 L1 (Run i)))) Th"
    "current s2 = hd (requeued s1 L1 (Run i))" "kept s1 s2" "status (nodes s1 (current s1)) = EXITING \<longrightarrow> pthreads s2 = pthreads (died (id_of s1 (current s1)) Th s1)"
    "status (nodes s1 (current s1)) = EXITING \<longrightarrow> pages s2 = dead_pages s1 \<and>
       (\<forall>i. id_of s1 (current s2) \<noteq> id_of s1 (current s1) \<longrightarrow> prot s2 i = (\<not> own_page s1 i \<and> prot s1 i))"
    by (rule schedule_some [OF s1(2) i]) (rule that)
  have e: "s2 = s'" using s1(1) s2(1) run by simp
  let ?L = "(requeued s1 L1)(Run i := tl (requeued s1 L1 (Run i)))"
  have ev: "everyone (requeued s1 L1) = everyone L" using requeued_everyone [OF q1] st1 s1(5) by simp
  have c: "current s' \<in> everyone L" using s2(3) ready_level_Some(2) [OF i] in_everyone [of "current s2" "requeued s1 L1" "Run i"] ev e by simp
  have "set (?L p) \<subseteq> set (requeued s1 L1 p)" for p using list.set_sel(2) [of "requeued s1 L1 (Run i)"] by (cases "requeued s1 L1 (Run i)") auto
  then have "everyone ?L \<subseteq> everyone (requeued s1 L1)" unfolding everyone_def by blast
  then have sub: "insert (current s') (everyone ?L) \<subseteq> everyone L" using c ev by simp
  have d: "id_of s (current s') \<noteq> id_of s (current s)" using inj_onD [OF io, of "current s'" "current s"] c sw by auto
  have op: "own_page s1 i = own_page s i" "dead_pages s1 = dead_pages s" for i using s1(3,7) id1 by (simp_all add: own_page_def dead_pages_def same_tables_def)
  have "pageNum (pthreads s' t) = pageNum (pthreads s t)" for t
    using s2(5) st1 e s1(7) by (auto simp: died_def upd_thread_def same_tables_def split: option.split)
  moreover have "prot s' i = (\<not> own_page s i \<and> prot s i)" "pages s' = dead_pages s" for i
    using s2(6) st1 e d id1 s1(3,7) op by (simp_all add: same_tables_def)
  ultimately show thesis using that [of ?L] s2(2) e sub kept_trans [OF s1(6) s2(4)] d by simp
qed

text \<open>When another thread is ready, it is one of those that runs next.\<close>

lemma ended_hands_over:
  assumes inv: "sched_inv s L Th" and st: "status (nodes s (current s)) = EXITING" and r: "ready s"
  obtains s' where "schedule s = Some s'" "current s' \<noteq> current s"
proof -
  obtain s1 L1 where s1: "schedule s = Option.bind (requeue s1) dispatch" "sched_inv s1 L1 Th" "current s1 = current s"
    "status (nodes s1 (current s)) = status (nodes s (current s))" "(\<Union>l. set (L1 (Run l))) = (\<Union>l. set (L (Run l)))"
    by (rule schedule_split [OF inv]) (rule that)
  have q1: "qsys (current s1) s1 L1" and st1: "status (nodes s1 (current s1)) = EXITING" using s1(2-4) st by (simp_all add: sched_inv_def)
  obtain i where i: "ready_level (requeued s1 L1) = Some i" by (rule ready_after [OF inv r s1(2,5)])
  obtain s' where s': "Option.bind (requeue s1) dispatch = Some s'" "current s' = hd (requeued s1 L1 (Run i))" by (rule schedule_some [OF s1(2) i]) (rule that)
  have "current s' \<in> everyone (requeued s1 L1)" using s'(2) ready_level_Some(2) [OF i] by (intro in_everyone [of _ _ "Run i"]) simp
  then have "current s' \<in> everyone L1" using requeued_everyone [OF q1] st1 by simp
  moreover have "current s1 \<notin> everyone L1" using qsys_good [OF q1] by (auto simp: everyone_def good_node_def)
  ultimately have "current s' \<noteq> current s" using s1(3) by auto
  then show thesis using that [of s'] s1(1) s'(1) by simp
qed

text \<open>The entries of the thread that ended are free; no page has moved, and no other entry has changed.\<close>

lemma ended_slots:
  assumes r: "running T t v" and pg: "pages s' = dead_pages (sc v)"
  shows "slot_ok (v\<lparr>sc := s'\<rparr>) s = slot_ok v s" "slot_ok v s \<Longrightarrow> getPageThID (entry (v\<lparr>sc := s'\<rparr>) s) = getPageThID (entry v s)" "slot_ok v s \<Longrightarrow> getPagePgID (entry (v\<lparr>sc := s'\<rparr>) s) = getPagePgID (entry v s)"
    "slot_ok v s \<Longrightarrow> getPageThID (entry v s) \<noteq> t \<Longrightarrow> entry (v\<lparr>sc := s'\<rparr>) s = entry v s" "u \<noteq> t \<Longrightarrow> lives (v\<lparr>sc := s'\<rparr>) u k s = lives v u k s" "virt u k (v\<lparr>sc := s'\<rparr>) = virt u k v"
proof -
  let ?v = "v\<lparr>sc := s'\<rparr>"
  have len: "length (pages (sc v)) = npages v" and t: "word_of_int (id_of (sc v) (current (sc v))) = t" using r by (auto simp: running_def paged_def vm_ok_def owner_def id_of_def)
  show ok: "slot_ok ?v s = slot_ok v s" for s by (cases s) (simp_all add: npages_def ndisk_def)
  have pages: "pages s' ! i = (if getPageThID (pages (sc v) ! i) = t then setPageIsF (pages (sc v) ! i) 1 else pages (sc v) ! i)" if "i < npages v" for i
    using that len t by (simp add: pg dead_pages_def)
  show th: "getPageThID (entry ?v s) = getPageThID (entry v s)" if "slot_ok v s" for s using that pages by (cases s) (simp_all add: slot_at.simps bits_simps)
  show "getPagePgID (entry ?v s) = getPagePgID (entry v s)" if "slot_ok v s" for s using that pages by (cases s) (simp_all add: slot_at.simps bits_simps)
  show e: "entry ?v s = entry v s" if "slot_ok v s" "getPageThID (entry v s) \<noteq> t" for s using that pages by (cases s) (auto simp: slot_at.simps)
  show "lives ?v u k s = lives v u k s" if "u \<noteq> t" using ok th [of s] e [of s] that unfolding lives_def by metis
  have n: "npages ?v = npages v" by (simp add: npages_def)
  have "in_memory_at u k ?v = in_memory_at u k v" unfolding in_memory_at_def n by (rule first_from_cong) (use pages in \<open>simp add: bits_simps\<close>)
  then have h: "home u k ?v = home u k v" by (simp add: home_def on_disk_at_def ndisk_def cong: option.case_cong)
  moreover have "snd (slot_at ?v s) = snd (slot_at v s)" for s by (cases s) (simp_all add: slot_at.simps userSpace_def)
  ultimately show "virt u k ?v = virt u k v" by (simp add: virt_def)
qed

lemma ended_running:
  assumes r: "running T t v" and pg: "pages s' = dead_pages (sc v)" and pr: "\<And>i. prot s' i = (\<not> own_page (sc v) i \<and> prot (sc v) i)" and up: "scd_up s'"
    and u: "owner (v\<lparr>sc := s'\<rparr>) \<in> T - {t}" "current_thread (v\<lparr>sc := s'\<rparr>) \<noteq> None"
  shows "running (T - {t}) (owner (v\<lparr>sc := s'\<rparr>)) (v\<lparr>sc := s'\<rparr>)"
proof -
  let ?v = "v\<lparr>sc := s'\<rparr>"
  note e = ended_slots [OF r pg]
  have P: "paged T v" and sh: "shielded T t v" and ps: "PT_BLOCK_SIZE \<le> PAGESIZE (hp v)" and t: "word_of_int (id_of (sc v) (current (sc v))) = t"
    using r by (auto simp: running_def owner_def id_of_def)
  have n: "npages ?v = npages v" "length (pages (sc v)) = npages v" "length (pages s') = npages v" using P pg by (simp_all add: npages_def paged_def vm_ok_def dead_pages_def)
  have "vm_ok ?v" using P n up by (simp add: paged_def vm_ok_def ndisk_def)
  moreover have "getPageThID (entry ?v (Mem i)) \<notin> T - {t}" if "i < npages v" "getPageIsF (entry ?v (Mem i)) \<noteq> 0" for i
    using e(2,4) [of "Mem i"] that P unfolding paged_def by (cases "getPageThID (entry v (Mem i)) = t") auto
  moreover have "unat (getPagePgID (entry ?v s)) < npages v" if "slot_ok v s" "getPageIsF (entry ?v s) = 0" "getPageThID (entry ?v s) \<in> T - {t}" for s
    using e(2-4) [of s] that P unfolding paged_def by auto
  ultimately have p: "paged (T - {t}) ?v" using P e(1,5) n(1) unfolding paged_def by auto
  have "shielded (T - {t}) (owner ?v) ?v"
    unfolding shielded_def n
  proof (intro allI impI disjI2)
    fix k assume k: "k < npages v" "prot (sc ?v) k"
    then have th: "getPageThID (entry v (Mem k)) \<noteq> t" and "prot (sc v) k" using pr t n(2) by (auto simp: own_page_def slot_at.simps)
    then have "getPageIsF (entry v (Mem k)) \<noteq> 0" "\<forall>u \<in> T. \<forall>s. \<not> lives v u k s" using sh k(1) unfolding shielded_def by (auto simp: lives_def)
    then show "getPageIsF (entry ?v (Mem k)) \<noteq> 0 \<and> (\<forall>u \<in> T - {t}. \<forall>s. \<not> lives ?v u k s)" using e(4) [of "Mem k"] th k(1) e(5) by auto
  qed
  then show ?thesis using p u ps by (simp add: running_def)
qed

text \<open>
  C39. The pages a thread leaves behind: when a thread ends and another one is ready, its pages in memory are
  marked free, and then protected as the pages of any thread that leaves the processor.  They are
  free and cannot be written, so what relies on free pages being accessible, the copy that makes
  room for another page, faults there.
\<close>

theorem exit_protects_free_pages:
  assumes r: "running T t v" and inv: "sched_inv (sc v) L Th" and st: "status (nodes (sc v) (current (sc v))) = EXITING" and cy: "cycles (sc v) < 100"
    and other: "L (Run l) \<noteq> []" "l < RUN_QUEUE_SIZE" and i: "i < npages v" "getPageThID (pages (sc v) ! i) = t"
  shows "\<exists>s'. schedule (sc v) = Some s' \<and> getPageIsF (pages s' ! i) = 1 \<and> \<not> prot s' i"
proof -
  let ?s = "sc v"
  obtain s1 L1 where s1: "schedule ?s = Option.bind (requeue s1) dispatch" "sched_inv s1 L1 Th" "kept ?s s1"
    "cycles ?s < 100 \<Longrightarrow> L1 = L \<and> nodes s1 = nodes ?s \<and> pthreads s1 = pthreads ?s \<and> current s1 = current ?s" "same_tables ?s s1"
    by (rule schedule_split [OF inv]) (rule that)
  note e = s1(4) [OF cy]
  have st1: "status (nodes s1 (current s1)) = EXITING" and runs: "runs s1" and q: "qsys (current s1) s1 L1" and io: "ids_ok s1 L1"
    using st e s1(2) by (auto simp: sched_inv_def)
  have len: "i < length (pages s1)" using r i s1(5) by (auto simp: running_def paged_def vm_ok_def same_tables_def)
  have t: "word_of_int (id_of s1 (current s1)) = t" using r e by (auto simp: running_def owner_def id_of_def)
  obtain k where k: "ready_level (requeued s1 L1) = Some k" using requeued_ready [of s1 L1] other e runs by auto
  obtain s' where s': "Option.bind (requeue s1) dispatch = Some s'" "current s' = hd (requeued s1 L1 (Run k))"
    "status (nodes s1 (current s1)) = EXITING \<longrightarrow> pages s' = dead_pages s1 \<and>
       (\<forall>i. id_of s1 (current s') \<noteq> id_of s1 (current s1) \<longrightarrow> prot s' i = (\<not> own_page s1 i \<and> prot s1 i))"
    by (rule schedule_some [OF s1(2) k]) (rule that)
  have "current s' \<in> everyone (requeued s1 L1)" using s'(2) ready_level_Some(2) [OF k] by (intro in_everyone [of _ _ "Run k"]) simp
  then have ev: "current s' \<in> everyone L1" using requeued_everyone [OF q] st1 by simp
  moreover have "current s1 \<notin> everyone L1" using qsys_good [OF q] by (auto simp: everyone_def good_node_def)
  moreover have inj: "inj_on (id_of s1) (insert (current s1) (everyone L1))" using io by (simp add: ids_ok_def)
  ultimately have "id_of s1 (current s') \<noteq> id_of s1 (current s1)" using inj_onD [OF inj, of "current s'" "current s1"] by auto
  moreover have "getPageThID (pages s1 ! i) = t" using i(2) s1(5) by (simp add: same_tables_def)
  then have "pages s' ! i = setPageIsF (pages s1 ! i) 1" "own_page s1 i" using s'(3) st1 len t by (simp_all add: dead_pages_def own_page_def)
  ultimately show ?thesis using s1(1) s'(1,3) st1 by (intro exI [of _ s']) (simp add: bits_simps)
qed

text \<open>Thread 2 ends; thread 3 is ready.\<close>

abbreviation dying :: sched where
  "dying \<equiv> upd_node 20 (status_update (\<lambda>_. EXITING)) (sc taken_vm)"

lemma dying_inv: "sched_inv dying (demo_layout True 0) [300, 200]"
proof -
  let ?d = "demo EXITING True 0"
  have d: "sched_inv ?d (demo_layout True 0) [300, 200]" by (rule demo_inv) (simp add: RUN_QUEUE_SIZE_def)
  have e: "nodes dying = nodes ?d" "queues dying = queues ?d" "runQ dying = runQ ?d" "promotionQ dying = promotionQ ?d" "joinHead dying = joinHead ?d" "current dying = current ?d"
    "threadNum dying = threadNum ?d" "lib_room dying = lib_room ?d" "scd_up dying = scd_up ?d" "threadsHead dying = threadsHead ?d"
    "tid (pthreads dying t) = tid (pthreads ?d t)" "tnext (pthreads dying t) = tnext (pthreads ?d t)" for t
    by (auto simp: demo_at_def upd_thread_def upd_node_def demo_def demo_node_def fun_eq_iff)
  have i: "id_of dying = id_of ?d" by (simp only: id_of_def [abs_def] e)
  show ?thesis using d qsys_cong [OF e(1-5), of 20 "demo_layout True 0"] unfolding sched_inv_def runs_def ids_ok_def thread_list_def e i by simp
qed

theorem exit_protects_free_pages_witness:
  "\<exists>s'. schedule dying = Some s' \<and> getPageIsF (pages s' ! 0) = 1 \<and> \<not> prot s' 0"
proof -
  have r: "running {1, 2, 3} 2 taken_vm" by (rule demo_running_in) simp_all
  have e: "pages dying = pages (sc taken_vm)" "scd_up dying" "prot dying = switched_prot (sc taken_vm) dying" "current dying \<noteq> NULL" "threadID (nodes dying (current dying)) \<noteq> NULL"
    "tid (pthreads dying (threadID (nodes dying (current dying)))) = id_of (sc taken_vm) (current dying)" "word_of_int (id_of (sc taken_vm) (current dying)) \<in> {1, 2, 3 :: uint32}"
    by (simp_all add: demo_at_def upd_thread_def upd_node_def switched_prot_def id_of_def demo_node_def)
  have o: "owner (taken_vm\<lparr>sc := dying\<rparr>) = 2" by (simp add: owner_def demo_at_def upd_thread_def upd_node_def demo_node_def)
  have r': "running {1, 2, 3} 2 (taken_vm\<lparr>sc := dying\<rparr>)" using switch_running(1) [OF r e] o by simp
  have "status (nodes dying (current dying)) = EXITING" "cycles dying < 100" by (simp_all add: demo_at_def upd_thread_def upd_node_def)
  then show ?thesis
    using exit_protects_free_pages [OF r', of "demo_layout True 0" "[300, 200]" 0 0] dying_inv switched_slots(2) [OF e(1)] e(1) by (simp add: RUN_QUEUE_SIZE_def)
qed

end
