(* ===== verification/PtFrame.thy ===== *)
theory PtFrame
  imports PtSwitch
begin

text \<open>
  What the operations of the virtual memory leave alone: the queues, the nodes, the running thread and
  the list of threads.  Of a thread's descriptor only the number of pages changes, and only that of
  the running thread.  So the invariant of the scheduler holds across faults and requests.
\<close>

definition vm_frame :: "vm \<Rightarrow> vm \<Rightarrow> bool" where
  "vm_frame v v' \<longleftrightarrow> nodes (sc v') = nodes (sc v) \<and> queues (sc v') = queues (sc v) \<and> runQ (sc v') = runQ (sc v) \<and> promotionQ (sc v') = promotionQ (sc v) \<and>
     joinHead (sc v') = joinHead (sc v) \<and> current (sc v') = current (sc v) \<and> threadsHead (sc v') = threadsHead (sc v) \<and> now (sc v') = now (sc v) \<and>
     lib_room (sc v') = lib_room (sc v) \<and> scd_up (sc v') = scd_up (sc v) \<and> threadNum (sc v') = threadNum (sc v) \<and>
     (\<forall>t. tid (pthreads (sc v') t) = tid (pthreads (sc v) t) \<and> tnext (pthreads (sc v') t) = tnext (pthreads (sc v) t) \<and>
       exitArg (pthreads (sc v') t) = exitArg (pthreads (sc v) t) \<and>
       (t \<noteq> threadID (nodes (sc v) (current (sc v))) \<longrightarrow> pageNum (pthreads (sc v') t) = pageNum (pthreads (sc v) t))) \<and>
     pt_root (hp v') = pt_root (hp v)"

lemma vm_frame_refl: "vm_frame v v"
  by (simp add: vm_frame_def)

lemma vm_frame_trans: "vm_frame v v' \<Longrightarrow> vm_frame v' v'' \<Longrightarrow> vm_frame v v''"
  by (simp add: vm_frame_def)

lemma vm_frame_current: "vm_frame v v' \<Longrightarrow> current_thread v' = current_thread v"
  by (simp add: vm_frame_def current_thread_def)

lemma vm_frame_sched: "vm_frame v v' \<Longrightarrow> sched_inv (sc v) L Th \<Longrightarrow> sched_inv (sc v') L Th"
  by (erule sched_inv_cong) (simp_all add: vm_frame_def kept_def)

lemma vm_frame_basic:
  "vm_frame v (mprotect i b v)" "vm_frame v (set_entry i w v)" "vm_frame v (set_disk_entry i w v)" "vm_frame v (set_bytes m v)" "vm_frame v (v_say x v)"
  "vm_frame v (v\<lparr>sc := pause_timer (sc v)\<rparr>)" "vm_frame v (v\<lparr>sc := unpause_timer (sc v)\<rparr>)" "vm_frame v (v\<lparr>swpFile := f\<rparr>)"
  "vm_frame v (v\<lparr>hp := put_bytes (hp v) m\<rparr>)"
  by (simp_all add: vm_frame_def mprotect_def set_entry_def set_disk_entry_def set_bytes_def v_say_def say_def pause_timer_same unpause_timer_same)

lemma vm_frame_timer:
  "hold_timer v = Some v' \<Longrightarrow> vm_frame v v'" "resume_timer v = Some v' \<Longrightarrow> vm_frame v v'"
  by (auto simp: hold_timer_def resume_timer_def vm_frame_basic vm_frame_refl split: if_splits)

lemma vm_frame_pageSwap: "pageSwap i j v = Some v' \<Longrightarrow> vm_frame v v'"
  by (auto simp: pageSwap_def Let_def vm_frame_def mprotect_def set_entry_def set_bytes_def split: if_splits)

lemma vm_frame_fromDisk: "swapToMemFromDisk i j v = Some v' \<Longrightarrow> vm_frame v v'"
  by (auto simp: swapToMemFromDisk_def Let_def vm_frame_def mprotect_def set_entry_def set_disk_entry_def set_bytes_def pause_timer_same unpause_timer_same split: if_splits)

lemma frame_align_mem: "align_mem t is v = Some v' \<Longrightarrow> vm_frame v v'"
proof (induction "is" arbitrary: v)
  case (Cons i "is")
  let ?pg = "pages (sc v) ! i"
  show ?case
  proof (cases "getPageThID ?pg = t \<and> of_nat i = getPagePgID ?pg")
    case True
    then obtain w where w: "pageSwap i (unat (getPagePgID ?pg)) v = Some w" "align_mem t is (mprotect (unat (getPagePgID ?pg)) True w) = Some v'"
      using Cons.prems by (auto simp: Let_def split: if_splits option.splits)
    show ?thesis by (rule vm_frame_trans [OF vm_frame_pageSwap [OF w(1)] vm_frame_trans [OF vm_frame_basic(1) Cons.IH [OF w(2)]]])
  next
    case False
    then have "align_mem t is v = Some v'" using Cons.prems by (auto simp: Let_def split: if_splits)
    then show ?thesis by (rule Cons.IH)
  qed
qed (simp add: vm_frame_refl)

lemma frame_align_disk: "align_disk t is v = Some v' \<Longrightarrow> vm_frame v v'"
proof (induction "is" arbitrary: v)
  case (Cons i "is")
  let ?pg = "diskPages v ! i"
  show ?case
  proof (cases "getPageIsF ?pg = 0 \<and> getPageThID ?pg = t \<and> of_nat i = getPagePgID ?pg")
    case True
    then obtain w where w: "swapToMemFromDisk i (unat (getPagePgID ?pg)) v = Some w" "align_disk t is (mprotect (unat (getPagePgID ?pg)) True w) = Some v'"
      using Cons.prems by (auto simp: Let_def split: if_splits option.splits)
    show ?thesis by (rule vm_frame_trans [OF vm_frame_fromDisk [OF w(1)] vm_frame_trans [OF vm_frame_basic(1) Cons.IH [OF w(2)]]])
  next
    case False
    then have "align_disk t is v = Some v'" using Cons.prems by (auto simp: Let_def split: if_splits)
    then show ?thesis by (rule Cons.IH)
  qed
qed (simp add: vm_frame_refl)

lemma vm_frame_alignPages: "alignPages v = Some v' \<Longrightarrow> vm_frame v v'"
  by (auto simp: alignPages_def split: option.splits if_splits intro: vm_frame_trans [OF frame_align_mem frame_align_disk])

lemma vm_frame_initializePage: "initializePage i v = Some v' \<Longrightarrow> vm_frame v v'"
  by (auto simp: initializePage_def Let_def vm_frame_def current_thread_def mprotect_def set_entry_def set_bytes_def upd_thread_def split: if_splits option.splits)

section \<open>Accesses\<close>

lemma vm_frame_sigHandler: "sigHandler a v = Some (Resumes v') \<Longrightarrow> vm_frame v v'"
proof -
  assume s: "sigHandler a v = Some (Resumes v')"
  obtain w where w: "hold_timer v = Some w" using s by (auto simp: sigHandler_def split: option.splits)
  have "\<exists>u i. vm_frame w u \<and> resume_timer (mprotect i True u) = Some v'"
    using s w by (auto simp: sigHandler_def Let_def split: option.splits if_splits intro: vm_frame_refl vm_frame_pageSwap vm_frame_fromDisk)
  then obtain u i where u: "vm_frame w u" "resume_timer (mprotect i True u) = Some v'" by blast
  show ?thesis by (rule vm_frame_trans [OF vm_frame_timer(1) [OF w] vm_frame_trans [OF u(1) vm_frame_trans [OF vm_frame_basic(1) vm_frame_timer(2) [OF u(2)]]]])
qed

lemma vm_frame_touch: "touch a v = Some v' \<Longrightarrow> vm_frame v v'"
  by (auto simp: touch_def split: if_splits option.splits sig_result.splits intro: vm_frame_refl vm_frame_sigHandler)

lemma frame_touch_hdrs: "touch_hdrs as v = Some v' \<Longrightarrow> vm_frame v v'"
proof -
  have each: "touch_each xs u = Some w \<Longrightarrow> vm_frame u w" for xs u w
    by (induction xs arbitrary: u) (auto simp: vm_frame_refl split: option.splits intro: vm_frame_trans [OF vm_frame_touch])
  then show "touch_hdrs as v = Some v' \<Longrightarrow> vm_frame v v'" by (auto simp: touch_hdrs_def split: if_splits option.splits)
qed

lemma vm_frame_copy: "copy_faults a b v = Some v' \<Longrightarrow> vm_frame v v'"
proof (erule copy_faults.raw_induct [where P = "\<lambda>a b v v'. vm_frame v v'", rotated])
  fix f a b v v'
  assume ih: "\<And>a b v v'. f a b v = Some v' \<Longrightarrow> vm_frame v v'"
    and run: "(if \<not> accessible v a then (case touch a v of None \<Rightarrow> None | Some v \<Rightarrow> f a b v)
      else if \<not> accessible v b then (case touch b v of None \<Rightarrow> None | Some v \<Rightarrow> f a b v) else Some v) = Some v'"
  show "vm_frame v v'" using run by (auto simp: vm_frame_refl split: if_splits option.splits intro: vm_frame_trans [OF vm_frame_touch ih])
qed

lemma vm_frame_makeRoom: "makeRoom i v = Some (b, v') \<Longrightarrow> vm_frame v v'"
proof -
  have mem: "vm_frame v w" if m: "moveToFreeSpace i v = Some (c, w)" for c w
  proof (cases "w = v")
    case False
    then obtain k u where u: "copy_faults (page_addr v i) (page_addr v k) (set_entry k (pages (sc v) ! i) (mprotect i True v)) = Some u"
      "w = mprotect k False (set_entry i (setPageIsF (pages (sc u) ! i) 1) (set_bytes (put_page (pt_bytes (hp u)) (page_addr u k) (PAGESIZE (hp v)) (get_page (pt_bytes (hp u)) (page_addr u i) (PAGESIZE (hp v)))) u))"
      using m by (auto simp: moveToFreeSpace_def Let_def split: if_splits option.splits)
    have "vm_frame u w" unfolding u(2) by (rule vm_frame_trans [OF vm_frame_basic(4) vm_frame_trans [OF vm_frame_basic(2) vm_frame_basic(1)]])
    moreover have "vm_frame v (set_entry k (pages (sc v) ! i) (mprotect i True v))" by (rule vm_frame_trans [OF vm_frame_basic(1) vm_frame_basic(2)])
    ultimately show ?thesis using vm_frame_trans vm_frame_copy [OF u(1)] by blast
  qed (simp add: vm_frame_refl)
  have disk: "vm_frame u w" if "moveToDiskSpace i u = Some (c, w)" for c u w
    using that by (auto simp: moveToDiskSpace_def Let_def vm_frame_def mprotect_def set_entry_def set_disk_entry_def set_bytes_def pause_timer_same unpause_timer_same split: if_splits option.splits)
  assume "makeRoom i v = Some (b, v')"
  then show ?thesis by (auto simp: makeRoom_def split: option.splits bool.splits intro: mem vm_frame_trans [OF mem disk])
qed

section \<open>Requests\<close>

lemma vm_frame_gatherPages: "gatherPages n b v = Some v' \<Longrightarrow> vm_frame v v'"
proof (induction n arbitrary: v)
  case (Suc n)
  obtain p c v1 where p: "next_page v = Some p" "makeRoom p v = Some (c, v1)" using Suc.prems by (auto split: option.splits)
  note f1 = vm_frame_makeRoom [OF p(2)]
  show ?case
  proof (cases c)
    case False
    then show ?thesis using Suc.prems p vm_frame_trans [OF f1] vm_frame_basic(5) by auto
  next
    case True
    then obtain v2 v3 where v: "initializePage p v1 = Some v2" "touch_hdrs [b] v2 = Some v3"
      "gatherPages n b (set_bytes (upd32 (\<lambda>w. setBlockSize w (getBlockSize w + of_nat (PAGESIZE (hp v3)))) b (pt_bytes (hp v3))) v3) = Some v'"
      using Suc.prems p by (auto split: option.splits)
    show ?thesis
      by (rule vm_frame_trans [OF f1 vm_frame_trans [OF vm_frame_initializePage [OF v(1)] vm_frame_trans [OF frame_touch_hdrs [OF v(2)] vm_frame_trans [OF vm_frame_basic(4) Suc.IH [OF v(3)]]]]])
  qed
qed (simp add: vm_frame_refl)

lemma vm_frame_carve: "thread_carve b n v = Some v' \<Longrightarrow> vm_frame v v'"
  by (auto simp: thread_carve_def intro: vm_frame_trans [OF frame_touch_hdrs vm_frame_basic(4)])

lemma vm_frame_threadFit: "threadFit_from v n b = Some (v', p, q) \<Longrightarrow> vm_frame v v'"
proof -
  have "vm_frame v (fst r)" if "threadFit_from v n b = Some r" for r
  proof (rule threadFit_from.raw_induct [where P = "\<lambda>v n b r. vm_frame v (fst r)"])
    fix fit v n b r
    assume ih: "\<And>v n b r. fit v n b = Some r \<Longrightarrow> vm_frame v (fst r)"
      and e: "(case touch_hdrs [b] v of None \<Rightarrow> None | Some v \<Rightarrow>
        let m = pt_bytes (hp v); w = load32 m b; sizeWithBlock = (of_nat (n + PT_BLOCK_SIZE) :: uint32); next = getNextBlock m b
        in if (getBlockIsF w = 0 \<or> unat (getBlockSize w) < n) \<or> \<not> (getBlockIsF w = 1 \<and> (unat (getBlockSize w) = n \<or> sizeWithBlock \<le> getBlockSize w))
           then (if next = NULL then Some (v, NULL, b) else fit v n next)
           else if unat (getBlockSize w) = n then Some (set_bytes (upd32 (\<lambda>w. setBlockIsF w 0) b m) v, b + PT_BLOCK_SIZE, b)
           else map_option (\<lambda>v. (v, b + PT_BLOCK_SIZE, b)) (thread_carve b n v)) = Some r"
    obtain w where w: "touch_hdrs [b] v = Some w" using e by (auto split: option.splits)
    have "vm_frame w (fst r)"
      using e w ih by (auto simp: Let_def split: if_split_asm intro: vm_frame_refl vm_frame_basic(4) vm_frame_carve)
    then show "vm_frame v (fst r)" by (rule vm_frame_trans [OF frame_touch_hdrs [OF w]])
  qed (rule that)
  then show "threadFit_from v n b = Some (v', p, q) \<Longrightarrow> vm_frame v v'" by fastforce
qed

lemma frame_open_page: "open_page b v = Some (c, p, v') \<Longrightarrow> vm_frame v v'"
proof -
  assume o: "open_page b v = Some (c, p, v')"
  obtain i d v1 where v1: "next_page v = Some i" "makeRoom i v = Some (d, v1)" using o by (auto simp: open_page_def split: option.splits)
  have "vm_frame v1 v'"
  proof (cases d)
    case False
    then show ?thesis using o v1 by (auto simp: open_page_def vm_frame_basic(5))
  next
    case True
    then show ?thesis using o v1 by (auto simp: open_page_def Let_def split: option.splits intro: vm_frame_trans [OF vm_frame_initializePage vm_frame_trans [OF frame_touch_hdrs vm_frame_basic(4)]])
  qed
  then show ?thesis by (rule vm_frame_trans [OF vm_frame_makeRoom [OF v1(2)]])
qed

lemma vm_frame_growThread: "growThread n b fl line v = Some (v', p) \<Longrightarrow> vm_frame v v'"
proof -
  assume g: "growThread n b fl line v = Some (v', p)"
  let ?fail = "\<lambda>v. map_option (\<lambda>v. (v, NULL)) (resume_timer (v_say (PNotEnoughSpace line fl) v))"
  have fail: "vm_frame u w" if "?fail u = Some (w, q)" for u w q using that by (auto intro: vm_frame_trans [OF vm_frame_basic(5) vm_frame_timer(2)])
  show ?thesis
  proof (cases "?fail v = Some (v', p)")
    case False
    then obtain v1 where v1: "touch_hdrs [b] v = Some v1" using g by (auto simp: growThread_def Let_def split: if_split_asm option.split_asm)
    have "vm_frame v1 v'"
    proof (cases "?fail v1 = Some (v', p)")
      case False
      let ?w = "load32 (pt_bytes (hp v1)) b" and ?s = "of_nat (n + PT_BLOCK_SIZE) :: uint32"
      let ?x = "if getBlockIsF ?w = 0 then of_nat PT_BLOCK_SIZE else 0 :: uint32"
      let ?k = "isEnoughPages (sint (?x + ?s - getBlockSize ?w)) v1"
      let ?g = "if ?x > 0 then case open_page b v1 of None \<Rightarrow> None | Some (False, _, v) \<Rightarrow> Some (NULL, v)
          | Some (True, bl, v) \<Rightarrow> map_option (\<lambda>v. (bl, v)) (gatherPages (nat (?k - 1)) bl v)
        else map_option (\<lambda>v. (b, v)) (gatherPages (nat ?k) b v1)"
      let ?f = "\<lambda>c v2. if c = NULL then Some (v2, NULL) else case thread_carve c n v2 of None \<Rightarrow> None | Some v \<Rightarrow> map_option (\<lambda>v. (v, c + PT_BLOCK_SIZE)) (resume_timer v)"
      have "growThread n b fl line v = ?fail v \<or> growThread n b fl line v = ?fail v1 \<or> growThread n b fl line v = (case ?g of None \<Rightarrow> None | Some (c, v2) \<Rightarrow> ?f c v2)"
        unfolding growThread_def Let_def v1 option.case by meson
      then have "(case ?g of None \<Rightarrow> None | Some (c, v2) \<Rightarrow> ?f c v2) = Some (v', p)" using g False \<open>?fail v \<noteq> Some (v', p)\<close> by argo
      then obtain c v2 where r: "?g = Some (c, v2)" "?f c v2 = Some (v', p)" by (cases ?g) auto
      have "vm_frame v1 v2" using r(1) by (auto split: if_split_asm option.split_asm bool.split_asm intro: frame_open_page vm_frame_gatherPages vm_frame_trans [OF frame_open_page vm_frame_gatherPages])
      moreover have "vm_frame v2 v'" using r(2) by (auto split: if_split_asm option.split_asm intro: vm_frame_refl vm_frame_trans [OF vm_frame_carve vm_frame_timer(2)])
      ultimately show ?thesis by (rule vm_frame_trans)
    qed (rule fail)
    then show ?thesis by (rule vm_frame_trans [OF frame_touch_hdrs [OF v1]])
  qed (rule fail)
qed

lemma vm_frame_ownFirstPage: "ownFirstPage v = Some (b, v') \<Longrightarrow> vm_frame v v'"
proof -
  assume o: "ownFirstPage v = Some (b, v')"
  obtain w where w: "alignPages v = Some w" using o by (auto simp: ownFirstPage_def split: option.split_asm)
  have "vm_frame w v'"
  proof (cases "v' = w")
    case False
    then obtain c u where u: "makeRoom 0 w = Some (c, u)" "(if c then map_option (\<lambda>v. (True, v)) (initializePage 0 u) else Some (False, v_say PCouldNotAllocate u)) = Some (b, v')"
      using o w by (auto simp: ownFirstPage_def split: option.split_asm if_split_asm bool.split_asm)
    have "vm_frame u v'" using u(2) by (auto split: if_split_asm intro: vm_frame_initializePage vm_frame_basic(5))
    then show ?thesis by (rule vm_frame_trans [OF vm_frame_makeRoom [OF u(1)]])
  qed (simp add: vm_frame_refl)
  then show ?thesis by (rule vm_frame_trans [OF vm_frame_alignPages [OF w]])
qed

lemma vm_frame_request:
  assumes up: "scd_up (sc v)" and root: "pt_root (hp v) \<noteq> NULL" and r: "myallocate fl line n THREADREQ v = Some (v', p)"
  shows "vm_frame v v'"
proof -
  obtain v1 where v1: "hold_timer v = Some v1" "same_pages v v1" "same_vm v v1" by (rule hold_same [OF up])
  have m: "myallocate_thread fl line n v1 = Some (v', p)" using r serve_thread [OF up root v1] by simp
  obtain b v2 where v2: "ownFirstPage v1 = Some (b, v2)" using m by (auto simp: myallocate_thread_def split: option.split_asm)
  have "vm_frame v2 v'"
  proof (cases b)
    case True
    then obtain v3 q c where f: "threadFit_from v2 n (userSpace v2) = Some (v3, q, c)"
      "(if q \<noteq> NULL then map_option (\<lambda>v. (v, q)) (resume_timer v3) else growThread n c fl line v3) = Some (v', p)"
      using m v2 by (auto simp: myallocate_thread_def split: option.split_asm)
    have "vm_frame v3 v'" using f(2) by (auto split: if_split_asm intro: vm_frame_timer(2) vm_frame_growThread)
    then show ?thesis by (rule vm_frame_trans [OF vm_frame_threadFit [OF f(1)]])
  next
    case False
    then show ?thesis using m v2 by (simp add: myallocate_thread_def vm_frame_refl)
  qed
  then show ?thesis by (rule vm_frame_trans [OF vm_frame_timer(1) [OF v1(1)] vm_frame_trans [OF vm_frame_ownFirstPage [OF v2]]])
qed

section \<open>Frees\<close>

lemma vm_frame_threadMerge: "threadMerge_from v x p b = Some (v', c) \<Longrightarrow> vm_frame v v'"
proof -
  have merge: "pt_merge_at h p b = Some h' \<Longrightarrow> \<exists>m. h' = put_bytes h m" for h h' p b by (auto simp: pt_merge_at_def Let_def split: if_split_asm)
  have "vm_frame v (fst r)" if "threadMerge_from v x p b = Some r" for r
  proof (rule threadMerge_from.raw_induct [where P = "\<lambda>v x p b r. vm_frame v (fst r)"])
    fix walk v x p b r
    assume ih: "\<And>v x p b r. walk v x p b = Some r \<Longrightarrow> vm_frame v (fst r)"
      and e: "(case touch_hdrs [b] v of None \<Rightarrow> None | Some v \<Rightarrow>
        let next = getNextBlock (pt_bytes (hp v)) b
        in if b = x then case touch_hdrs (filter (\<lambda>b. b \<noteq> NULL) [next, p, b]) v of None \<Rightarrow> None
             | Some v \<Rightarrow> map_option (\<lambda>h. (v\<lparr>hp := h\<rparr>, True)) (pt_merge_at (hp v) p b)
           else if next = NULL then Some (v, False) else walk v x b next) = Some r"
    obtain w where w: "touch_hdrs [b] v = Some w" using e by (auto split: option.splits)
    have "vm_frame w (fst r)"
    proof (cases "b = x")
      case True
      then obtain u h where u: "touch_hdrs (filter (\<lambda>b. b \<noteq> NULL) [getNextBlock (pt_bytes (hp w)) b, p, b]) w = Some u" "pt_merge_at (hp u) p b = Some h" "fst r = u\<lparr>hp := h\<rparr>"
        using e w by (auto simp: Let_def simp del: filter.simps split: option.split_asm)
      obtain m where "h = put_bytes (hp u) m" using merge [OF u(2)] by blast
      then show ?thesis using vm_frame_trans [OF frame_touch_hdrs [OF u(1)] vm_frame_basic(9)] u(3) by simp
    qed (use e w ih in \<open>auto simp: Let_def vm_frame_refl split: if_split_asm\<close>)
    then show "vm_frame v (fst r)" by (rule vm_frame_trans [OF frame_touch_hdrs [OF w]])
  qed (rule that)
  then show "threadMerge_from v x p b = Some (v', c) \<Longrightarrow> vm_frame v v'" by fastforce
qed

lemma vm_frame_free:
  assumes f: "mydeallocate fl line q THREADREQ v = Some v'" and root: "pt_root (hp v') = pt_root (hp v)"
  shows "vm_frame v v'"
proof -
  have lib: "vm_frame u v'" if "mydeallocate_request fl l q u = Some v'" "pt_root (hp u) = pt_root (hp v)" for fl l u
  proof -
    note e = that
    obtain h where h: "resume_timer (u\<lparr>hp := h\<rparr>) = Some v'" using e(1) by (auto simp: mydeallocate_request_def split: option.split_asm)
    note vm_frame_timer(2) [OF h]
    then show ?thesis using e(2) root by (auto simp: vm_frame_def)
  qed
  have merge: "vm_frame u w" if "freeAndMerge_thread x pg u = Some (w, b)" for x pg u w b
    using that by (auto simp: freeAndMerge_thread_def split: option.split_asm intro: vm_frame_refl vm_frame_threadMerge)
  obtain v1 where v1: "hold_timer v = Some v1" "mydeallocate_thread fl line q v1 = Some v'"
    using f by (auto simp: mydeallocate_def THREADREQ_def LIBRARYREQ_def split: option.split_asm)
  note f1 = vm_frame_timer(1) [OF v1(1)]
  show ?thesis
  proof (cases "resume_timer (v_say (PNotCreated line fl) v1) = Some v'")
    case True
    then show ?thesis by (intro vm_frame_trans [OF f1 vm_frame_trans [OF vm_frame_basic(5) vm_frame_timer(2)]])
  next
    case False
    then obtain v2 where v2: "touch_hdrs [q - PT_BLOCK_SIZE] v1 = Some v2" using v1(2) by (auto simp: mydeallocate_thread_def Let_def split: if_split_asm option.split_asm)
    note f2 = vm_frame_trans [OF f1 frame_touch_hdrs [OF v2]]
    consider m where "resume_timer (v_say m v2) = Some v'" | u w l where "resume_timer v2 = Some u" "hold_timer u = Some w" "mydeallocate_request THIS_FILE l q w = Some v'"
      | pg w b where "freeAndMerge_thread (q - PT_BLOCK_SIZE) pg v2 = Some (w, b)" "resume_timer (if b then w else v_say (PNotCreated line fl) w) = Some v'"
      using v1(2) v2 False by (auto simp: mydeallocate_thread_def Let_def split: if_split_asm option.split_asm)
    then show ?thesis
    proof cases
      case 1
      then show ?thesis by (intro vm_frame_trans [OF f2 vm_frame_trans [OF vm_frame_basic(5) vm_frame_timer(2)]])
    next
      case 2
      have "vm_frame v w" by (rule vm_frame_trans [OF f2 vm_frame_trans [OF vm_frame_timer(2) [OF 2(1)] vm_frame_timer(1) [OF 2(2)]]])
      moreover from this have "vm_frame w v'" using lib [OF 2(3)] by (simp add: vm_frame_def)
      ultimately show ?thesis by (rule vm_frame_trans)
    next
      case 3
      have "vm_frame w v'" using 3(2) by (cases b) (auto intro: vm_frame_timer(2) vm_frame_trans [OF vm_frame_basic(5) vm_frame_timer(2)])
      then show ?thesis by (rule vm_frame_trans [OF f2 vm_frame_trans [OF merge [OF 3(1)]]])
    qed
  qed
qed

end
