(* ===== verification/PtRuns.thy ===== *)
theory PtRuns
  imports PtFrame
begin

text \<open>
  The memory of a program of threads as a state machine: threads load and store bytes, request and
  free blocks, and are switched, in any order.  Every thread's heap stays a chain of blocks over
  exactly its own pages, and what a thread has stored in a block is what it finds there.
\<close>

section \<open>Loads and stores\<close>

text \<open>A byte of the program, through the page protections and the signal handler.\<close>

definition load_byte :: "addr \<Rightarrow> vm \<Rightarrow> (byte \<times> vm) option" where
  "load_byte a v = map_option (\<lambda>v. (pt_bytes (hp v) a, v)) (touch a v)"

definition store_byte :: "addr \<Rightarrow> byte \<Rightarrow> vm \<Rightarrow> vm option" where
  "store_byte a b v = map_option (\<lambda>v. set_bytes ((pt_bytes (hp v))(a := b)) v) (touch a v)"

section \<open>The invariant\<close>

abbreviation th_word :: "vm \<Rightarrow> addr \<Rightarrow> uint32" where
  "th_word v th \<equiv> word_of_int (tid (pthreads (sc v) th))"

abbreviation th_pages :: "vm \<Rightarrow> addr \<Rightarrow> nat" where
  "th_pages v th \<equiv> nat (pageNum (pthreads (sc v) th))"

text \<open>
  The heap of a thread: its blocks \<open>bs\<close> are a chain over exactly the pages it has, and where \<open>M\<close> knows
  the last byte stored in a live block, that byte is there.
\<close>

definition thread_heap :: "addr \<Rightarrow> ablock list \<Rightarrow> (addr \<Rightarrow> byte option) \<Rightarrow> vm \<Rightarrow> bool" where
  "thread_heap th bs M v \<longleftrightarrow>
     0 \<le> pageNum (pthreads (sc v) th) \<and> th_pages v th \<le> npages v \<and> span PT_BLOCK_SIZE bs = PAGESIZE (hp v) * th_pages v th \<and>
     (\<forall>j < npages v. virt (th_word v th) j v \<noteq> None \<longleftrightarrow> j < th_pages v th) \<and>
     (bs \<noteq> [] \<longrightarrow> pt_chain (vbytes (th_word v th) v) (userSpace v) bs) \<and>
     (\<forall>(q, z) \<in> set (live PT_BLOCK_SIZE (userSpace v) bs). \<forall>x b. q \<le> x \<longrightarrow> x < q + z \<longrightarrow> M x = Some b \<longrightarrow> vbytes (th_word v th) v x = b)"

text \<open>The numbers a page entry can hold, 0 apart, which stands for none.\<close>

definition user_ids :: "uint32 set" where
  "user_ids = {u. 0 < unat u \<and> unat u < 2 ^ 8}"

text \<open>The numbers of threads that run or may still be created: all but those of threads that have ended.\<close>

definition live_ids :: "addr set \<Rightarrow> addr set \<Rightarrow> vm \<Rightarrow> uint32 set" where
  "live_ids D A v = user_ids - th_word v ` (D - A)"

text \<open>The library's own heap: \<open>B\<close> are the blocks of its pages, and the nodes \<open>N\<close> are in live blocks of it.\<close>

definition lib_heap :: "addr set \<Rightarrow> ablock list \<Rightarrow> vm \<Rightarrow> bool" where
  "lib_heap N B v \<longleftrightarrow> lib_rep (hp v) (memory (hp v)) B \<and> N \<subseteq> fst ` set (live PT_BLOCK_SIZE (memory (hp v)) B)"

lemma lib_heap_low:
  assumes l: "lib_heap N B v" and sz: "memory (hp v') = memory (hp v)" "PAGESIZE (hp v') = PAGESIZE (hp v)" "pt_root (hp v') = pt_root (hp v)"
    and lo: "\<forall>x < userSpace v. pt_bytes (hp v') x = pt_bytes (hp v) x"
  shows "lib_heap N B v'"
proof -
  have r: "pt_arena (lib_end (hp v)) (hp v) (memory (hp v)) B" "pt_chain (pt_bytes (hp v)) (memory (hp v)) B" "pt_root (hp v) = memory (hp v)" using l by (simp_all add: lib_heap_def lib_rep_def)
  have "pt_chain (pt_bytes (hp v')) (memory (hp v)) B = pt_chain (pt_bytes (hp v)) (memory (hp v)) B"
    by (rule pt_hdr.chain_within) (use lo r(1) in \<open>simp add: pt_arena_def userSpace_def\<close>)
  then show ?thesis using l r sz by (simp add: lib_heap_def lib_rep_def pt_arena_def)
qed

text \<open>
  \<open>N\<close> are the nodes and \<open>D\<close> the descriptors of the threads created so far, \<open>A\<close> those of the threads that
  have not ended, \<open>B\<close> the blocks of the library's heap, \<open>H\<close> those of each thread's heap and \<open>M\<close> what it has stored there.  A number no
  thread has yet has no page.
\<close>

definition mem_inv :: "ablock list \<Rightarrow> addr set \<Rightarrow> addr set \<Rightarrow> addr set \<Rightarrow> (addr \<Rightarrow> ablock list) \<Rightarrow> (addr \<Rightarrow> addr \<Rightarrow> byte option) \<Rightarrow> vm \<Rightarrow> bool" where
  "mem_inv B N D A H M v \<longleftrightarrow>
     accounted (sc v) N D A \<and> running (live_ids D A v) (owner v) v \<and> 0 < memory (hp v) \<and> pt_root (hp v) \<noteq> NULL \<and>
     inj_on (\<lambda>th. tid (pthreads (sc v) th)) D \<and> (\<forall>u \<in> user_ids - th_word v ` D. \<forall>j < npages v. virt u j v = None) \<and>
     (\<forall>th \<in> D. 0 < tid (pthreads (sc v) th) \<and> tid (pthreads (sc v) th) < 2 ^ 8 \<and> tid (pthreads (sc v) th) < threadNum (sc v)) \<and>
     (\<forall>th \<in> A. thread_heap th (H th) (M th) v) \<and> lib_heap N B v"

lemma word_id:
  assumes "0 < i" "i < 2 ^ 8"
  shows "uint (word_of_int i :: uint32) = i" "word_of_int i \<in> user_ids" "word_of_int i \<noteq> (0 :: uint32)"
proof -
  show u: "uint (word_of_int i :: uint32) = i" using assms by (simp add: uint_word_of_int)
  show "word_of_int i \<in> user_ids" using assms unfolding user_ids_def mem_Collect_eq unat_eq_nat_uint u by auto
  show "word_of_int i \<noteq> (0 :: uint32)"
  proof
    assume "word_of_int i = (0 :: uint32)"
    then show False using u assms(1) by (metis less_irrefl uint_0_eq)
  qed
qed

lemma th_word_eq:
  assumes i: "mem_inv B N D A H M v" and d: "th \<in> D" "u \<in> D"
  shows "th_word v th = th_word v u \<longleftrightarrow> th = u" "th_word v th \<in> user_ids" "th_word v th \<noteq> 0"
proof -
  have b: "0 < tid (pthreads (sc v) x)" "tid (pthreads (sc v) x) < 2 ^ 8" if "x \<in> D" for x using i that by (simp_all add: mem_inv_def)
  have "inj_on (\<lambda>th. tid (pthreads (sc v) th)) D" using i by (simp add: mem_inv_def)
  then show "th_word v th = th_word v u \<longleftrightarrow> th = u" using word_id(1) [OF b] d by (metis inj_onD)
  show "th_word v th \<in> user_ids" "th_word v th \<noteq> 0" using word_id(2,3) [OF b [OF d(1)]] by simp_all
qed

lemma alive_ids:
  assumes i: "mem_inv B N D A H M v" and a: "th \<in> A"
  shows "th \<in> D" "th_word v th \<in> live_ids D A v" "th_word v th \<noteq> 0"
proof -
  show d: "th \<in> D" using i a by (auto simp: mem_inv_def accounted_def)
  show "th_word v th \<noteq> 0" by (rule th_word_eq(3) [OF i d d])
  have "th_word v th \<noteq> th_word v u" if "u \<in> D - A" for u using th_word_eq(1) [OF i d, of u] that a by auto
  then show "th_word v th \<in> live_ids D A v" using th_word_eq(2) [OF i d d] by (auto simp: live_ids_def)
qed

lemma live_user: "t \<in> live_ids D A v \<Longrightarrow> unat t < 2 ^ 8" "t \<in> live_ids D A v \<Longrightarrow> t \<in> user_ids"
  by (auto simp: live_ids_def user_ids_def)

text \<open>The running thread.\<close>

lemma mem_current:
  assumes "mem_inv B N D A H M v"
  obtains th where "th \<in> A" "current_thread v = Some th" "threadID (nodes (sc v) (current (sc v))) = th" "owner v = th_word v th" "scd_up (sc v)"
    "running (live_ids D A v) (th_word v th) v" "thread_heap th (H th) (M th) v" "in_heap (live_ids D A v) (th_word v th) (th_pages v th) v"
    "loose v \<Longrightarrow> grows (live_ids D A v) (th_word v th) th (th_pages v th) v"
proof -
  let ?th = "threadID (nodes (sc v) (current (sc v)))"
  obtain L Th where i: "sched_inv (sc v) L Th" "?th \<in> A" using assms by (auto simp: mem_inv_def accounted_def)
  have c: "current_thread v = Some ?th" and up: "scd_up (sc v)" using i by (auto simp: sched_inv_def runs_def current_thread_def)
  have o: "owner v = th_word v ?th" by (simp add: owner_def)
  have r: "running (live_ids D A v) (th_word v ?th) v" and l: "0 < memory (hp v)" using assms o by (simp_all add: mem_inv_def)
  have h: "thread_heap ?th (H ?th) (M ?th) v" using assms i(2) by (simp add: mem_inv_def)
  then have "has_pages (th_word v ?th) (th_pages v ?th) v" by (auto simp: thread_heap_def has_pages_def)
  then have ih: "in_heap (live_ids D A v) (th_word v ?th) (th_pages v ?th) v" using r by (simp add: in_heap_def)
  moreover have "pageNum (pthreads (sc v) ?th) = int (th_pages v ?th)" "\<forall>j < npages v. th_pages v ?th \<le> j \<longrightarrow> virt (th_word v ?th) j v = None"
    using h by (auto simp: thread_heap_def)
  ultimately have "grows (live_ids D A v) (th_word v ?th) ?th (th_pages v ?th) v" if "loose v"
    using that l c live_user(1) [OF alive_ids(2) [OF assms i(2)]] by (simp add: grows_def)
  then show thesis using i(2) c o up r h ih by (intro that) simp_all
qed

lemma vbytes_cong:
  assumes "npages v' = npages v" "userSpace v' = userSpace v" "PAGESIZE (hp v') = PAGESIZE (hp v)" "\<forall>j < npages v. virt u j v' = virt u j v" "userSpace v \<le> x"
  shows "vbytes u v' x = vbytes u v x"
  using assms by (simp add: vbytes_def page_of_def cong: option.case_cong)

text \<open>A heap whose pages hold what they held, as those of other threads do.\<close>

lemma thread_heap_cong:
  assumes h: "thread_heap th bs M v" and sz: "npages v' = npages v" "userSpace v' = userSpace v" "PAGESIZE (hp v') = PAGESIZE (hp v)"
    and p: "tid (pthreads (sc v') th) = tid (pthreads (sc v) th)" "pageNum (pthreads (sc v') th) = pageNum (pthreads (sc v) th)"
    and vi: "\<forall>j < npages v. virt (th_word v th) j v' = virt (th_word v th) j v"
  shows "thread_heap th bs M v'"
proof -
  note vb = vbytes_cong [OF sz vi]
  have c: "pt_chain (vbytes (th_word v th) v') (userSpace v) bs = pt_chain (vbytes (th_word v th) v) (userSpace v) bs" by (rule pt_hdr.chain_above) (rule vb)
  have "vbytes (th_word v th) v' x = vbytes (th_word v th) v x" if "(q, z) \<in> set (live PT_BLOCK_SIZE (userSpace v) bs)" "q \<le> x" for q z x
    using vb live_bounds [OF that(1)] that(2) by simp
  then show ?thesis using h vi unfolding thread_heap_def sz p c by fastforce
qed

text \<open>A step of the running thread, which may change its own heap.\<close>

lemma vm_frame_accounted:
  assumes f: "vm_frame v v'" and a: "accounted (sc v) N D A"
  shows "accounted (sc v') N D A"
proof -
  obtain L Th where s: "sched_inv (sc v) L Th" "insert (current (sc v)) (everyone L) \<subseteq> N" "set Th \<union> A \<subseteq> D" "\<forall>x \<in> insert (current (sc v)) (everyone L). threadID (nodes (sc v) x) \<in> A"
    using a unfolding accounted_def by blast
  have "nodes (sc v') = nodes (sc v)" "current (sc v') = current (sc v)" using f by (simp_all add: vm_frame_def)
  then show ?thesis using vm_frame_sched [OF f s(1)] s(2-4) unfolding accounted_def by metis
qed

lemma mem_step:
  assumes i: "mem_inv B N D A H M v" and c: "current_thread v = Some th" and f: "vm_frame v v'" and r: "running (live_ids D A v) (th_word v th) v'"
    and sz: "npages v' = npages v" "userSpace v' = userSpace v" "PAGESIZE (hp v') = PAGESIZE (hp v)" "memory (hp v') = memory (hp v)"
    and o: "\<forall>u \<in> live_ids D A v. u \<noteq> th_word v th \<longrightarrow> (\<forall>j < npages v. virt u j v' = virt u j v)" and h: "thread_heap th bs m v'"
    and lo: "\<forall>x < userSpace v. pt_bytes (hp v') x = pt_bytes (hp v) x"
  shows "mem_inv B N D A (H(th := bs)) (M(th := m)) v'"
proof -
  have t: "tid (pthreads (sc v') u) = tid (pthreads (sc v) u)" "threadNum (sc v') = threadNum (sc v)" for u using f by (simp_all add: vm_frame_def)
  have th: "th \<in> A" "threadID (nodes (sc v) (current (sc v))) = th" by (rule mem_current [OF i], use c in simp)+
  have "thread_heap u (H u) (M u) v'" if u: "u \<in> A" "u \<noteq> th" for u
  proof (rule thread_heap_cong [OF _ sz(1-3) t(1)])
    show "thread_heap u (H u) (M u) v" using i u by (simp add: mem_inv_def)
    show "pageNum (pthreads (sc v') u) = pageNum (pthreads (sc v) u)" using f u(2) th(2) by (simp add: vm_frame_def)
    have "th_word v u \<noteq> th_word v th" using th_word_eq(1) [OF i] alive_ids(1) [OF i] u th(1) by simp
    then show "\<forall>j < npages v. virt (th_word v u) j v' = virt (th_word v u) j v" using o alive_ids(2) [OF i u(1)] by simp
  qed
  then have hs: "thread_heap u ((H(th := bs)) u) ((M(th := m)) u) v'" if "u \<in> A" for u using h that by simp
  have "owner v' = th_word v th" using f th(2) by (simp add: vm_frame_def owner_def)
  moreover have "accounted (sc v') N D A" using vm_frame_accounted [OF f] i by (simp add: mem_inv_def)
  moreover have "live_ids D A v' = live_ids D A v" by (simp add: live_ids_def t)
  moreover have "\<forall>u \<in> user_ids - th_word v ` D. \<forall>j < npages v. virt u j v' = None"
  proof (intro ballI allI impI)
    fix u j assume u: "u \<in> user_ids - th_word v ` D" and j: "j < npages v"
    have "virt u j v = None" using i u j by (simp add: mem_inv_def)
    moreover have "u \<in> live_ids D A v" "u \<noteq> th_word v th" using u alive_ids(1) [OF i th(1)] by (auto simp: live_ids_def)
    ultimately show "virt u j v' = None" using o j by simp
  qed
  moreover have rt: "pt_root (hp v') = pt_root (hp v)" using f by (simp add: vm_frame_def)
  moreover have "lib_heap N B v'" by (rule lib_heap_low [OF _ sz(4,3) rt lo]) (use i in \<open>simp add: mem_inv_def\<close>)
  ultimately show ?thesis using i r hs unfolding mem_inv_def t sz by simp
qed

section \<open>Accesses\<close>

text \<open>The running thread's heap after a call that has written some of its bytes and given it no page.\<close>

lemma thread_heap_wrote:
  assumes h: "thread_heap th bs M v" and w: "wrote T (th_word v th) m v v'" and s: "span PT_BLOCK_SIZE bs' = span PT_BLOCK_SIZE bs"
    and c: "bs' \<noteq> [] \<longrightarrow> pt_chain m (userSpace v) bs'"
    and l: "\<And>q z x b. (q, z) \<in> set (live PT_BLOCK_SIZE (userSpace v) bs') \<Longrightarrow> q \<le> x \<Longrightarrow> x < q + z \<Longrightarrow> M' x = Some b \<Longrightarrow> m x = b"
  shows "thread_heap th bs' M' v'"
proof -
  have e: "vbytes (th_word v th) v' = m" "same_vm v v'" "\<And>k. virt (th_word v th) k v' = None \<longleftrightarrow> virt (th_word v th) k v = None" using w by (auto simp: wrote_def)
  have p: "pthreads (sc v') = pthreads (sc v)" "PAGESIZE (hp v') = PAGESIZE (hp v)" using e(2) by (simp_all add: same_vm_def)
  note sz = same_vm_sizes [OF e(2), THEN conjunct1] same_vm_sizes [OF e(2), THEN conjunct2, THEN conjunct2]
  show ?thesis using h c l unfolding thread_heap_def p sz e(1) s e(3) by fast
qed

lemma mem_wrote:
  assumes i: "mem_inv B N D A H M v" and c: "current_thread v = Some th" and f: "vm_frame v v'" and w: "wrote (live_ids D A v) (th_word v th) m v v'" and h: "thread_heap th bs m' v'"
  shows "mem_inv B N D A (H(th := bs)) (M(th := m')) v'"
proof (rule mem_step [OF i c f])
  have s: "same_vm v v'" using w by (simp add: wrote_def)
  show "running (live_ids D A v) (th_word v th) v'" "\<forall>u \<in> live_ids D A v. u \<noteq> th_word v th \<longrightarrow> (\<forall>j < npages v. virt u j v' = virt u j v)"
    using w s by (simp_all add: wrote_def)
  show "npages v' = npages v" "userSpace v' = userSpace v" "PAGESIZE (hp v') = PAGESIZE (hp v)" "memory (hp v') = memory (hp v)"
    using same_vm_sizes [OF s] s by (simp_all add: same_vm_def)
  show "\<forall>x < userSpace v. pt_bytes (hp v') x = pt_bytes (hp v) x" using s by (simp add: same_vm_def)
qed (rule h)

lemma mem_touch:
  assumes i: "mem_inv B N D A H M v" and t: "touch a v = Some v'"
  shows "mem_inv B N D A H M v'"
proof -
  obtain th where th: "current_thread v = Some th" "running (live_ids D A v) (th_word v th) v" "thread_heap th (H th) (M th) v" by (rule mem_current [OF i])
  have w: "wrote (live_ids D A v) (th_word v th) (vbytes (th_word v th) v) v v'" by (rule faulted_same [OF touch_faulted [OF th(2) t]])
  have h: "thread_heap th (H th) (M th) v'"
    by (rule thread_heap_wrote [OF th(3) w]) (use th(3) in \<open>auto simp: thread_heap_def\<close>)
  show ?thesis using mem_wrote [OF i th(1) vm_frame_touch [OF t] w h] by simp
qed

text \<open>A byte of a live block is in one of the thread's pages, and an access to it returns with the page in place.\<close>

lemma live_access:
  assumes i: "mem_inv B N D A H M v" and c: "current_thread v = Some th" and l: "(q, z) \<in> set (live PT_BLOCK_SIZE (userSpace v) (H th))" "q \<le> a" "a < q + z"
  obtains v' where "touch a v = Some v'" "faulted (live_ids D A v) (th_word v th) v v'" "in_place (th_word v th) v' a"
proof -
  have r: "running (live_ids D A v) (th_word v th) v" and h: "thread_heap th (H th) (M th) v" by (rule mem_current [OF i], use c in simp)+
  have a: "userSpace v \<le> a" "a < page_addr v (th_pages v th)" using live_bounds [OF l(1)] l(2,3) h by (auto simp: thread_heap_def)
  have ps: "0 < PAGESIZE (hp v)" using r by (auto simp: running_def paged_def vm_ok_def)
  have pg: "page_of v a < th_pages v th" using page_of_less [OF ps a(1)] a(2) by blast
  then have n: "page_of v a < npages v" "virt (th_word v th) (page_of v a) v \<noteq> None" using h by (auto simp: thread_heap_def)
  obtain v' where v': "touch a v = Some v'" "faulted (live_ids D A v) (th_word v th) v v'" "placed (th_word v th) v' (page_of v a)" by (rule touch_ok [OF r a(1) n])
  have "in_place (th_word v th) v' a" using v'(2,3) a(1) same_vm_sizes [of v v'] by (simp add: in_place_def faulted_def same_vm_def page_of_def)
  then show thesis using that v' by blast
qed

lemma mem_store:
  assumes i: "mem_inv B N D A H M v" and c: "current_thread v = Some th" and l: "(q, z) \<in> set (live PT_BLOCK_SIZE (userSpace v) (H th))" "q \<le> a" "a < q + z"
  obtains v' where "store_byte a b v = Some v'" "mem_inv B N D A H (M(th := (M th)(a := Some b))) v'" "userSpace v' = userSpace v" "current_thread v' = Some th"
proof -
  let ?t = "th_word v th" and ?T = "live_ids D A v"
  have r: "running ?T ?t v" and h: "thread_heap th (H th) (M th) v" by (rule mem_current [OF i], use c in simp)+
  obtain v1 where v1: "touch a v = Some v1" "faulted ?T ?t v v1" "in_place ?t v1 a" by (rule live_access [OF i c l])
  let ?m = "(pt_bytes (hp v1))(a := b)" and ?v = "set_bytes ((pt_bytes (hp v1))(a := b)) v1"
  have r1: "running ?T ?t v1" and tT: "?t \<in> ?T" using v1(2) r by (simp_all add: faulted_def running_def)
  have "wrote ?T ?t (\<lambda>x. if in_place ?t v1 x then ?m x else vbytes ?t v1 x) v1 ?v" by (rule set_bytes_wrote [OF r1]) (use v1(3) in \<open>auto split: if_split_asm\<close>)
  moreover have "(\<lambda>x. if in_place ?t v1 x then ?m x else vbytes ?t v1 x) = (vbytes ?t v)(a := b)"
    using v1(3) faulted_vbytes [OF v1(2) tT] placed_byte [OF r1] by (auto simp: fun_eq_iff in_place_def)
  ultimately have w: "wrote ?T ?t ((vbytes ?t v)(a := b)) v ?v" using faulted_wrote [OF v1(2)] by simp
  have ne: "H th \<noteq> []" using l(1) by auto
  have c0: "pt_chain (vbytes ?t v) (userSpace v) (H th)" using h ne by (simp add: thread_heap_def)
  have "pt_chain ((vbytes ?t v)(a := b)) (userSpace v) (H th)" by (rule pt_hdr.chain_live [OF c0 l(1)]) (use l(2,3) in auto)
  then have h': "thread_heap th (H th) ((M th)(a := Some b)) ?v"
    by (intro thread_heap_wrote [OF h w]) (use h in \<open>auto simp: thread_heap_def split: if_split_asm\<close>)
  have f: "vm_frame v ?v" by (rule vm_frame_trans [OF vm_frame_touch [OF v1(1)] vm_frame_basic(4)])
  have "mem_inv B N D A H (M(th := (M th)(a := Some b))) ?v" using mem_wrote [OF i c f w h'] by simp
  moreover have "same_vm v ?v" using w by (simp add: wrote_def)
  then have "userSpace ?v = userSpace v" using same_vm_sizes by blast
  ultimately show thesis using that [of ?v] v1(1) c vm_frame_current [OF f] by (simp add: store_byte_def)
qed

section \<open>Requests and frees\<close>

lemma heap_request_live:
  assumes ne: "bs \<noteq> []" and r: "heap_request q u n bs = (a, bs')"
  shows "set (live PT_BLOCK_SIZE u bs') = insert (a, n) (set (live PT_BLOCK_SIZE u bs))"
proof (cases "ff_alloc PT_BLOCK_SIZE u n bs")
  case None
  obtain z f where l: "last bs = (z, f)" by (cases "last bs")
  have bs: "bs = butlast bs @ [(z, f)]" using ne l by (metis append_butlast_last_id)
  have e: "a = grow_at u (butlast bs) (z, f)" "bs' = grow_blocks q n (butlast bs) (z, f)" using None r l by (auto simp: heap_request_def)
  have "live PT_BLOCK_SIZE u bs = live PT_BLOCK_SIZE u (butlast bs) @ live PT_BLOCK_SIZE (u + span PT_BLOCK_SIZE (butlast bs)) [(z, f)]" by (subst bs) simp
  then show ?thesis using e by (cases f) (auto simp: add.assoc)
qed (use r ff_alloc_live in \<open>auto simp: heap_request_def\<close>)

definition forget :: "addr \<Rightarrow> nat \<Rightarrow> (addr \<Rightarrow> byte option) \<Rightarrow> addr \<Rightarrow> byte option" where
  "forget a n M = (\<lambda>x. if a \<le> x \<and> x < a + n then None else M x)"

lemma mem_extended:
  assumes i: "mem_inv B N D A H M v" and c: "current_thread v = Some th" and f: "vm_frame v v'"
    and x: "extended (live_ids D A v) (th_word v th) th (th_pages v th) p v v'" and s: "span PT_BLOCK_SIZE bs' = PAGESIZE (hp v) * (th_pages v th + p)"
    and ch: "pt_chain (vbytes (th_word v th) v') (userSpace v) bs'"
    and sl: "\<And>q z x. (q, z) \<in> set (live PT_BLOCK_SIZE (userSpace v) (H th)) \<Longrightarrow> q \<le> x \<Longrightarrow> x < q + z \<Longrightarrow> vbytes (th_word v th) v' x = vbytes (th_word v th) v x"
    and lv: "set (live PT_BLOCK_SIZE (userSpace v) bs') = insert (a, n) (set (live PT_BLOCK_SIZE (userSpace v) (H th)))"
  shows "mem_inv B N D A (H(th := bs')) (M(th := forget a n (M th))) v'"
proof -
  have h: "thread_heap th (H th) (M th) v" by (rule mem_current [OF i]) (use c in simp)
  have g: "grows (live_ids D A v) (th_word v th) th (th_pages v th + p) v'" and sz: "npages v' = npages v" "userSpace v' = userSpace v" "PAGESIZE (hp v') = PAGESIZE (hp v)" "memory (hp v') = memory (hp v)"
    and o: "\<forall>u \<in> live_ids D A v. u \<noteq> th_word v th \<longrightarrow> (\<forall>j < npages v. virt u j v' = virt u j v)"
    and lo: "\<forall>x < userSpace v. pt_bytes (hp v') x = pt_bytes (hp v) x" using x by (simp_all add: extended_def)
  have t: "tid (pthreads (sc v') th) = tid (pthreads (sc v) th)" using f by (simp add: vm_frame_def)
  have n: "pageNum (pthreads (sc v') th) = int (th_pages v th + p)" and hp: "has_pages (th_word v th) (th_pages v th + p) v'" and no: "\<forall>j < npages v'. th_pages v th + p \<le> j \<longrightarrow> virt (th_word v th) j v' = None"
    using g by (simp_all add: grows_def in_heap_def)
  have pg: "(virt (th_word v th) j v' \<noteq> None) = (j < th_pages v th + p)" if "j < npages v'" for j using hp no that by (cases "j < th_pages v th + p") (auto simp: has_pages_def)
  have old: "vbytes (th_word v th) v' x = b" if "(q, z) \<in> set (live PT_BLOCK_SIZE (userSpace v) bs')" "q \<le> x" "x < q + z" "forget a n (M th) x = Some b" for q z x b
  proof -
    have "(q, z) \<in> set (live PT_BLOCK_SIZE (userSpace v) (H th))" "M th x = Some b" using that lv by (auto simp: forget_def split: if_split_asm)
    then show ?thesis using that(2,3) sl h unfolding thread_heap_def by fastforce
  qed
  have "thread_heap th bs' (forget a n (M th)) v'" using n hp pg old s sz ch unfolding thread_heap_def t by (auto simp: has_pages_def)
  then show ?thesis using mem_step [OF i c f _ sz o _ lo] g by (simp add: grows_def in_heap_def)
qed

text \<open>
  When a request of the running thread is served: a free block is large enough, or the pages it may need
  are there and free pages can be written; a thread with a heap has its first page at the start of the
  user space (or first on disk), a thread with no heap starts with one free block.
\<close>

definition first_heap :: "vm \<Rightarrow> ablock list \<Rightarrow> ablock list" where
  "first_heap v bs = (if bs = [] then [(PAGESIZE (hp v) - PT_BLOCK_SIZE, True)] else bs)"

definition servable :: "addr \<Rightarrow> nat \<Rightarrow> ablock list \<Rightarrow> vm \<Rightarrow> bool" where
  "servable th n bs v \<longleftrightarrow>
     (if bs = []
      then (let p = Suc (request_pages (PAGESIZE (hp v)) (userSpace v) n (first_heap v bs)) in p \<le> npages v \<and> p \<le> 2 ^ 16 \<and> p \<le> card (free_slots v)) \<and> loose v
      else (ff_alloc PT_BLOCK_SIZE (userSpace v) n bs = None \<longrightarrow> can_serve (th_word v th) (th_pages v th) n bs v \<and> loose v) \<and>
        (getPageThID (pages (sc v) ! 0) = th_word v th \<or> lives v (th_word v th) 0 (Disk 0)))"

lemma wrote_live:
  assumes h: "thread_heap th bs M v" and w: "wrote T (th_word v th) (vbytes (th_word v th) v') v v'" and s: "span PT_BLOCK_SIZE bs' = span PT_BLOCK_SIZE bs"
    and c: "pt_chain (vbytes (th_word v th) v') (userSpace v) bs'" and sl: "same_live PT_BLOCK_SIZE (userSpace v) bs (vbytes (th_word v th) v) (vbytes (th_word v th) v')"
    and lv: "\<And>q z x b. (q, z) \<in> set (live PT_BLOCK_SIZE (userSpace v) bs') \<Longrightarrow> q \<le> x \<Longrightarrow> x < q + z \<Longrightarrow> M' x = Some b \<Longrightarrow>
      (q, z) \<in> set (live PT_BLOCK_SIZE (userSpace v) bs) \<and> M x = Some b"
  shows "thread_heap th bs' M' v'"
proof (rule thread_heap_wrote [OF h w s])
  fix q z x b assume a: "(q, z) \<in> set (live PT_BLOCK_SIZE (userSpace v) bs')" "q \<le> x" "x < q + z" "M' x = Some b"
  then show "vbytes (th_word v th) v' x = b" using lv [OF a] sl h unfolding same_live_def thread_heap_def by fastforce
qed (use c in simp)

lemma mem_request:
  assumes i: "mem_inv B N D A H M v" and c: "current_thread v = Some th" and s: "servable th n (H th) v"
    and r: "heap_request (PAGESIZE (hp v)) (userSpace v) n (first_heap v (H th)) = (a, bs')"
  obtains v' where "myallocate fl line n THREADREQ v = Some (v', a)" "mem_inv B N D A (H(th := bs')) (M(th := forget a n (M th))) v'" "(a, n) \<in> set (live PT_BLOCK_SIZE (userSpace v) bs')" "userSpace v' = userSpace v" "current_thread v' = Some th"
proof -
  note ret = that
  let ?T = "live_ids D A v" and ?t = "th_word v th"
  have g: "loose v \<Longrightarrow> grows ?T ?t th (th_pages v th) v" and ih: "in_heap ?T ?t (th_pages v th) v" and h: "thread_heap th (H th) (M th) v" and up: "scd_up (sc v)"
    by (rule mem_current [OF i], use c in simp)+
  have root: "pt_root (hp v) \<noteq> NULL" and m: "0 < memory (hp v)" using i by (simp_all add: mem_inv_def)
  have sp: "span PT_BLOCK_SIZE (H th) = PAGESIZE (hp v) * th_pages v th" using h by (simp add: thread_heap_def)
  let ?p = "request_pages (PAGESIZE (hp v)) (userSpace v) n (first_heap v (H th))"
  have lv: "set (live PT_BLOCK_SIZE (userSpace v) bs') = insert (a, n) (set (live PT_BLOCK_SIZE (userSpace v) (H th)))"
    using heap_request_live [OF _ r] by (auto simp: first_heap_def split: if_split_asm)
  have fin: thesis if al: "myallocate fl line n THREADREQ v = Some (v', a)" and inv: "vm_frame v v' \<Longrightarrow> mem_inv B N D A (H(th := bs')) (M(th := forget a n (M th))) v'" and us: "userSpace v' = userSpace v" for v'
  proof -
    have f: "vm_frame v v'" by (rule vm_frame_request [OF up root al])
    show thesis using ret [OF al inv [OF f]] lv us c vm_frame_current [OF f] by simp
  qed
  consider (first) "H th = []" | (fit) q cs where "H th \<noteq> []" "ff_alloc PT_BLOCK_SIZE (userSpace v) n (H th) = Some (q, cs)"
    | (grow) "H th \<noteq> []" "ff_alloc PT_BLOCK_SIZE (userSpace v) n (H th) = None" by fastforce
  then show thesis
  proof cases
    case first
    have lo: "loose v" and room: "Suc ?p \<le> npages v" "Suc ?p \<le> 2 ^ 16" "Suc ?p \<le> card (free_slots v)" using s first by (simp_all add: servable_def Let_def)
    have k: "th_pages v th = 0" using sp first grows_runs(5) [OF g [OF lo]] by simp
    have fh: "first_heap v (H th) = [(PAGESIZE (hp v) - PT_BLOCK_SIZE, True)]" using first by (simp add: first_heap_def)
    obtain v' where v': "myallocate fl line n THREADREQ v = Some (v', a)" "extended ?T ?t th 0 (Suc ?p) v v'" "pt_chain (vbytes ?t v') (userSpace v) bs'"
      "span PT_BLOCK_SIZE bs' = PAGESIZE (hp v) * Suc ?p"
      by (rule serve_first [OF g [OF lo, unfolded k] root fh r refl room])
    show thesis
    proof (rule fin [OF v'(1)])
      assume f: "vm_frame v v'"
      show "mem_inv B N D A (H(th := bs')) (M(th := forget a n (M th))) v'" by (rule mem_extended [OF i c f, of "Suc ?p"]) (use v' k first lv in auto)
    qed (use v'(2) in \<open>simp add: extended_def\<close>)
  next
    case fit
    have fh: "first_heap v (H th) = H th" using fit by (simp add: first_heap_def)
    then have e: "q = a" "cs = bs'" using r fit by (simp_all add: heap_request_def)
    have ch: "pt_chain (vbytes ?t v) (userSpace v) (H th)" and own: "getPageThID (pages (sc v) ! 0) = ?t \<or> lives v ?t 0 (Disk 0)"
      using h s fit by (simp_all add: thread_heap_def servable_def)
    have "0 < th_pages v th" using sp fit(1) by (cases "th_pages v th"; cases "H th") (auto simp: PT_BLOCK_SIZE_def)
    then obtain v' where v': "myallocate fl line n THREADREQ v = Some (v', a)" "wrote ?T ?t (vbytes ?t v') v v'" "pt_chain (vbytes ?t v') (userSpace v) bs'"
      "same_live PT_BLOCK_SIZE (userSpace v) (H th) (vbytes ?t v) (vbytes ?t v')"
      by (rule serve_fit [OF ih ch sp m _ root own fit(2) [unfolded e]])
    have th': "thread_heap th bs' (forget a n (M th)) v'"
      by (rule wrote_live [OF h v'(2) ff_alloc_span [OF fit(2) [unfolded e]] v'(3,4)]) (use lv in \<open>auto simp: forget_def split: if_split_asm\<close>)
    show thesis
    proof (rule fin [OF v'(1)])
      assume f: "vm_frame v v'"
      show "mem_inv B N D A (H(th := bs')) (M(th := forget a n (M th))) v'" by (rule mem_wrote [OF i c f v'(2) th'])
    qed (use v'(2) same_vm_sizes [of v v'] in \<open>simp add: wrote_def\<close>)
  next
    case grow
    have fh: "first_heap v (H th) = H th" using grow by (simp add: first_heap_def)
    have ch: "pt_chain (vbytes ?t v) (userSpace v) (H th)" and can: "can_serve ?t (th_pages v th) n (H th) v" "loose v" "getPageThID (pages (sc v) ! 0) = ?t \<or> lives v ?t 0 (Disk 0)"
      using h s grow by (simp_all add: thread_heap_def servable_def)
    have r': "heap_request (PAGESIZE (hp v)) (userSpace v) n (H th) = (a, bs')" "?p = request_pages (PAGESIZE (hp v)) (userSpace v) n (H th)" using r fh by simp_all
    obtain v' where v': "myallocate fl line n THREADREQ v = Some (v', a)" "extended ?T ?t th (th_pages v th) ?p v v'" "pt_chain (vbytes ?t v') (userSpace v) bs'"
      "span PT_BLOCK_SIZE bs' = PAGESIZE (hp v) * (th_pages v th + ?p)" "same_live PT_BLOCK_SIZE (userSpace v) (H th) (vbytes ?t v) (vbytes ?t v')"
      by (rule serve_request [OF g [OF can(2)] ch sp grow(1) can(1) root can(3) r'])
    show thesis
    proof (rule fin [OF v'(1)])
      assume f: "vm_frame v v'"
      show "mem_inv B N D A (H(th := bs')) (M(th := forget a n (M th))) v'" by (rule mem_extended [OF i c f v'(2,4,3) _ lv]) (use v'(5) in \<open>fastforce simp: same_live_def\<close>)
    qed (use v'(2) in \<open>simp add: extended_def\<close>)
  qed
qed

lemma mem_free:
  assumes i: "mem_inv B N D A H M v" and c: "current_thread v = Some th" and l: "(q, z) \<in> set (live PT_BLOCK_SIZE (userSpace v) (H th))" "0 < z"
    and first: "lives v (th_word v th) 0 (Mem 0)"
  obtains v' bs' where "mydeallocate fl line q THREADREQ v = Some v'" "ff_free PT_BLOCK_SIZE (userSpace v) (q - PT_BLOCK_SIZE) (H th) = Some bs'" "mem_inv B N D A (H(th := bs')) M v'"
proof -
  let ?t = "th_word v th"
  have ih: "in_heap (live_ids D A v) ?t (th_pages v th) v" and h: "thread_heap th (H th) (M th) v" and thA: "th \<in> A" by (rule mem_current [OF i], use c in simp)+
  have m: "0 < memory (hp v)" using i by (simp add: mem_inv_def)
  have ch: "pt_chain (vbytes ?t v) (userSpace v) (H th)" and sp: "span PT_BLOCK_SIZE (H th) = PAGESIZE (hp v) * th_pages v th" using h l(1) by (auto simp: thread_heap_def)
  obtain v' bs' where v': "mydeallocate fl line q THREADREQ v = Some v'" "ff_free PT_BLOCK_SIZE (userSpace v) (q - PT_BLOCK_SIZE) (H th) = Some bs'"
    "wrote (live_ids D A v) ?t (vbytes ?t v') v v'" "pt_chain (vbytes ?t v') (userSpace v) bs'" "same_live PT_BLOCK_SIZE (userSpace v) (H th) (vbytes ?t v) (vbytes ?t v')"
    by (rule free_request [OF ih ch sp m first alive_ids(3) [OF i thA] l])
  have f: "vm_frame v v'" by (rule vm_frame_free [OF v'(1)]) (use v'(3) in \<open>simp add: wrote_def same_vm_def\<close>)
  have "set (live PT_BLOCK_SIZE (userSpace v) bs') \<subseteq> set (live PT_BLOCK_SIZE (userSpace v) (H th))" using ff_free_live [OF _ v'(2)] by (auto simp: PT_BLOCK_SIZE_def)
  then have "thread_heap th bs' (M th) v'" by (intro wrote_live [OF h v'(3) ff_free_span [OF v'(2)] v'(4,5)]) blast
  then have "mem_inv B N D A (H(th := bs')) (M(th := M th)) v'" by (rule mem_wrote [OF i c f v'(3)])
  then show thesis using that [OF v'(1,2)] by simp
qed

end
