(* ===== verification/PtSteps.thy ===== *)
theory PtSteps
  imports PtRuns
begin

text \<open>
  The calls that switch, create and end threads, as steps of the memory of a program: what they keep of
  the invariant, and what becomes of the pages of a thread that ends.
\<close>

section \<open>Switches and creation\<close>

text \<open>A step of the scheduler: pages stay where they are; a new thread has a new number and no page.\<close>

lemma mem_sched:
  assumes i: "mem_inv B N D A H M v" and a: "accounted s' N' D' A'" and e: "pages s' = pages (sc v)" "prot s' = switched_prot (sc v) s'"
    and c: "threadID (nodes (sc v) (current s')) \<in> A" "threadID (nodes s' (current s')) = threadID (nodes (sc v) (current s'))"
    and k: "\<And>th. th \<in> D \<Longrightarrow> tid (pthreads s' th) = tid (pthreads (sc v) th) \<and> pageNum (pthreads s' th) = pageNum (pthreads (sc v) th)" and n: "threadNum (sc v) \<le> threadNum s'"
    and new: "D \<subseteq> D'" "D' - A' = D - A" "\<And>th. th \<in> D' - D \<Longrightarrow> tid (pthreads s' th) = threadNum (sc v) \<and> threadNum (sc v) < 2 ^ 8 \<and> threadNum (sc v) < threadNum s' \<and> pageNum (pthreads s' th) = 0 \<and> H th = []"
      "\<And>th u. th \<in> D' - D \<Longrightarrow> u \<in> D' - D \<Longrightarrow> th = u"
    and lib: "N' \<subseteq> fst ` set (live PT_BLOCK_SIZE (memory (hp v)) B)"
  shows "mem_inv B N' D' A' H M (v\<lparr>sc := s'\<rparr>)"
proof -
  let ?v = "v\<lparr>sc := s'\<rparr>"
  have r: "running (live_ids D A v) (owner v) v" using i by (simp add: mem_inv_def)
  have b: "0 < tid (pthreads (sc v) th)" "tid (pthreads (sc v) th) < 2 ^ 8" "tid (pthreads (sc v) th) < threadNum (sc v)" if "th \<in> D" for th
    using i that by (simp_all add: mem_inv_def)
  have up: "scd_up s'" "current s' \<noteq> NULL" "threadID (nodes s' (current s')) \<noteq> NULL" using a by (auto simp: accounted_def sched_inv_def runs_def)
  note cD = alive_ids [OF i c(1)]
  have id: "tid (pthreads s' (threadID (nodes s' (current s')))) = id_of (sc v) (current s')" "word_of_int (id_of (sc v) (current s')) \<in> live_ids D A v"
    using k [OF cD(1)] c(2) cD(2) by (simp_all add: id_of_def)
  note sw = switch_running(1) [OF r e(1) up(1) e(2) up(2,3) id] and sl = switched_slots [OF e(1)]
  have us: "userSpace ?v = userSpace v" by (simp add: userSpace_def)
  have w: "th_word ?v th = th_word v th" if "th \<in> D" for th using k [OF that] by simp
  have li: "live_ids D' A' ?v = live_ids D A v" using w unfolding live_ids_def new(2) by force
  have pos: "0 < threadNum (sc v)" using b(1,3) [OF cD(1)] by linarith
  have old: "thread_heap th (H th) (M th) ?v" if "th \<in> A" for th
    by (rule thread_heap_cong [OF _ sl(2) us]) (use k [OF alive_ids(1) [OF i that]] sl(7) i that in \<open>simp_all add: mem_inv_def\<close>)
  have fresh: "thread_heap th (H th) (M th) ?v" if "th \<in> D' - D" for th
  proof -
    have nu: "tid (pthreads s' th) = threadNum (sc v)" "threadNum (sc v) < 2 ^ 8" "pageNum (pthreads s' th) = 0" "H th = []" using new(3) [OF that] by simp_all
    note wi = word_id [OF pos nu(2)]
    have "th_word ?v th \<noteq> th_word v u" if "u \<in> D" for u using wi(1) word_id(1) [OF b(1,2) [OF that]] b(3) [OF that] nu(1) by (metis less_irrefl select_convs(2) surjective update_convs(2))
    then have "th_word ?v th \<in> user_ids - th_word v ` D" using wi(2) nu(1) by auto
    then have "virt (th_word ?v th) j ?v = None" if "j < npages v" for j using i that unfolding sl mem_inv_def by blast
    then show "thread_heap th (H th) (M th) ?v" using nu sl(2) by (simp add: thread_heap_def)
  qed
  have "A \<subseteq> D" "A' \<subseteq> D'" using i a by (auto simp: mem_inv_def accounted_def)
  then have "th \<in> A \<or> th \<in> D' - D" if "th \<in> A'" for th using that new(2) by blast
  then have hs: "thread_heap th (H th) (M th) ?v" if "th \<in> A'" for th using old fresh that by blast
  have "inj_on (\<lambda>th. tid (pthreads s' th)) D'"
  proof (rule inj_onI)
    fix x y assume xy: "x \<in> D'" "y \<in> D'" "tid (pthreads s' x) = tid (pthreads s' y)"
    have "inj_on (\<lambda>th. tid (pthreads (sc v) th)) D" using i by (simp add: mem_inv_def)
    then show "x = y" using xy k [of x] k [of y] b(3) [of x] b(3) [of y] new(3) [of x] new(3) [of y] new(4) [of x y] by (cases "x \<in> D"; cases "y \<in> D") (auto dest: inj_onD)
  qed
  moreover have "th_word v ` D \<subseteq> th_word ?v ` D'" using w new(1) by force
  then have "\<forall>u \<in> user_ids - th_word ?v ` D'. \<forall>j < npages v. virt u j v = None" using i unfolding mem_inv_def by blast
  moreover have "0 < tid (pthreads s' th)" "tid (pthreads s' th) < 2 ^ 8" "tid (pthreads s' th) < threadNum s'" if "th \<in> D'" for th
    using that k [of th] b [of th] n new(3) [of th] pos by (cases "th \<in> D"; force)+
  moreover have "lib_heap N' B ?v" using i lib by (simp add: mem_inv_def lib_heap_def)
  ultimately show ?thesis using i a sw hs unfolding mem_inv_def sl li by simp
qed

text \<open>A call that only marks the running thread and sets the timer.\<close>

lemma mem_mark:
  assumes i: "mem_inv B N D A H M v" and s: "accounted s' N D A" "current s' = current (sc v)" "pages s' = pages (sc v)" "pthreads s' = pthreads (sc v)" "prot s' = prot (sc v)"
    "threadNum s' = threadNum (sc v)" "\<And>x. threadID (nodes s' x) = threadID (nodes (sc v) x)"
  shows "mem_inv B N D A H M (v\<lparr>sc := s'\<rparr>)"
proof (rule mem_sched [OF i s(1,3)])
  have "threadID (nodes (sc v) (current (sc v))) \<in> A" by (rule mem_current [OF i]) simp
  then show "threadID (nodes (sc v) (current s')) \<in> A" using s(2) by simp
  show "N \<subseteq> fst ` set (live PT_BLOCK_SIZE (memory (hp v)) B)" using i by (simp add: mem_inv_def lib_heap_def)
qed (use s in \<open>simp_all add: switched_prot_def\<close>)

lemma mem_schedule:
  assumes i: "mem_inv B N D A H M v" and st: "status (nodes (sc v) (current (sc v))) \<noteq> EXITING" and w: "status (nodes (sc v) (current (sc v))) = JOINING \<longrightarrow> ready (sc v)"
  obtains s' where "schedule (sc v) = Some s'" "mem_inv B N D A H M (v\<lparr>sc := s'\<rparr>)"
proof -
  obtain L Th where s: "sched_inv (sc v) L Th" "insert (current (sc v)) (everyone L) \<subseteq> N" "set Th \<union> A \<subseteq> D" "\<forall>x \<in> insert (current (sc v)) (everyone L). threadID (nodes (sc v) x) \<in> A"
    using i by (auto simp: mem_inv_def accounted_def)
  obtain s' where s': "schedule (sc v) = Some s'" "kept (sc v) s'" "pages s' = pages (sc v)" "pthreads s' = pthreads (sc v)" "prot s' = switched_prot (sc v) s'"
    "current s' \<in> insert (current (sc v)) (everyone L)"
    by (rule schedule_alive [OF s(1) st]) (rule that)
  have "accounted s' N D A" using accounted_keeps [OF s] schedule_keeps [OF s(1) w st] s'(1) by simp
  moreover have "threadID (nodes s' x) = threadID (nodes (sc v) x)" "threadNum s' = threadNum (sc v)" for x using s'(2) by (simp_all add: kept_def)
  moreover have "N \<subseteq> fst ` set (live PT_BLOCK_SIZE (memory (hp v)) B)" using i by (simp add: mem_inv_def lib_heap_def)
  ultimately have "mem_inv B N D A H M (v\<lparr>sc := s'\<rparr>)" using s'(3-6) s(4) by (intro mem_sched [OF i]) auto
  then show thesis by (rule that [OF s'(1)])
qed

lemma mem_tick:
  assumes i: "mem_inv B N D A H M v" and st: "status (nodes (sc v) (current (sc v))) \<noteq> EXITING" and w: "status (nodes (sc v) (current (sc v))) = JOINING \<longrightarrow> ready (sc v)"
  obtains s' where "timerHandler (sc v) = Some s'" "mem_inv B N D A H M (v\<lparr>sc := s'\<rparr>)"
proof -
  let ?s = "(sc v)\<lparr>timer := (timer (sc v))\<lparr>val_usec := 0\<rparr>\<rparr>"
  have "accounted (sc (v\<lparr>sc := ?s\<rparr>)) N D A" by (rule vm_frame_accounted [of v]) (use i in \<open>simp_all add: vm_frame_def mem_inv_def\<close>)
  then have m: "mem_inv B N D A H M (v\<lparr>sc := ?s\<rparr>)" by (intro mem_mark [OF i]) simp_all
  obtain s' where "schedule ?s = Some s'" "mem_inv B N D A H M (v\<lparr>sc := ?s, sc := s'\<rparr>)"
    using mem_schedule [OF m] st w by (auto simp: ready_def)
  then show thesis using that by (simp add: timerHandler_def)
qed

lemma mark_current_tables:
  assumes "mark_current st s = Some s'"
  shows "pages s' = pages s" "prot s' = prot s" "pthreads s' = pthreads s" "threadNum s' = threadNum s" "current s' = current s"
  using assms by (auto simp: mark_current_def Let_def pause_timer_same unpause_timer_same upd_node_def split: if_split_asm)

lemma mem_yield:
  assumes i: "mem_inv B N D A H M v"
  obtains s' where "my_pthread_yield (sc v) = Some s'" "mem_inv B N D A H M (v\<lparr>sc := s'\<rparr>)"
proof -
  obtain L Th where s: "sched_inv (sc v) L Th" "insert (current (sc v)) (everyone L) \<subseteq> N" "set Th \<union> A \<subseteq> D" "\<forall>x \<in> insert (current (sc v)) (everyone L). threadID (nodes (sc v) x) \<in> A"
    using i by (auto simp: mem_inv_def accounted_def)
  obtain s1 where s1: "mark_current YIELDING (sc v) = Some s1" "sched_inv s1 L Th" "current s1 = current (sc v)" "status (nodes s1 (current (sc v))) = YIELDING"
    "\<And>x. threadID (nodes s1 x) = threadID (nodes (sc v) x)" by (rule mark_current_inv [OF s(1), of YIELDING]) auto
  have "accounted s1 N D A" using s s1 unfolding accounted_def by metis
  then have m: "mem_inv B N D A H M (v\<lparr>sc := s1\<rparr>)" by (intro mem_mark [OF i]) (use mark_current_tables [OF s1(1)] s1(5) in simp_all)
  have st: "status (nodes (sc (v\<lparr>sc := s1\<rparr>)) (current (sc (v\<lparr>sc := s1\<rparr>)))) = YIELDING" using s1(3,4) by simp
  obtain s' where "schedule s1 = Some s'" "mem_inv B N D A H M (v\<lparr>sc := s1, sc := s'\<rparr>)" using mem_schedule [OF m] st by auto
  then show thesis using that s1(1) s by (simp add: my_pthread_yield_def sched_inv_def)
qed

lemma mem_join:
  assumes i: "mem_inv B N D A H M v" and r: "ready (sc v)" and j: "my_pthread_join t (sc v) = Some (Waiting u s')"
  shows "mem_inv B N D A H M (v\<lparr>sc := s'\<rparr>)"
proof -
  let ?p = "pause_timer (sc v)"
  let ?s = "unpause_timer (upd_node (current (sc v)) (\<lambda>n. n\<lparr>status := JOINING, joinee := u\<rparr>) ?p)"
  obtain L Th where s: "sched_inv (sc v) L Th" "insert (current (sc v)) (everyone L) \<subseteq> N" "set Th \<union> A \<subseteq> D" "\<forall>x \<in> insert (current (sc v)) (everyone L). threadID (nodes (sc v) x) \<in> A"
    using i by (auto simp: mem_inv_def accounted_def)
  have e: "schedule ?s = Some s'" "u \<noteq> NULL"
    using j s(1) by (auto simp: my_pthread_join_def Let_def sched_inv_def pause_timer_same split: Option.bind_splits if_split_asm)
  have "sched_inv ?s L Th" using sched_inv_unpause [OF sched_inv_mark [OF sched_inv_pause [OF s(1)]]] e(2) by (simp add: pause_timer_same)
  then have "accounted ?s N D A" using s(2-4) unfolding accounted_def
    by (intro exI [of _ L] exI [of _ Th]) (simp add: pause_timer_same unpause_timer_same upd_node_def)
  then have m: "mem_inv B N D A H M (v\<lparr>sc := ?s\<rparr>)" by (intro mem_mark [OF i]) (simp_all add: pause_timer_same unpause_timer_same upd_node_def)
  have "ready ?s" using r by (simp add: ready_def pause_timer_same unpause_timer_same upd_node_def)
  then obtain s2 where "schedule ?s = Some s2" "mem_inv B N D A H M (v\<lparr>sc := ?s, sc := s2\<rparr>)"
    using mem_schedule [OF m] by (auto simp: pause_timer_same unpause_timer_same upd_node_def)
  then show ?thesis using e(1) by simp
qed

lemma enQ_tables:
  assumes "enQ q n s = Some s'"
  shows "pages s' = pages s" "prot s' = prot s" "current s' = current s" "pthreads s' = pthreads s" "threadNum s' = threadNum s" "threadID (nodes s' x) = threadID (nodes s x)"
  using assms by (auto simp: enQ_def Let_def upd_node_def upd_queue_def split: if_split_asm)

lemma create_tables:
  assumes c: "my_pthread_create a c st n th s = Some (0, s')" and up: "scd_up s"
  shows "pages s' = pages s" "prot s' = prot s" "current s' = current s" "t \<noteq> th \<Longrightarrow> pthreads s' t = pthreads s t" "tid (pthreads s' th) = threadNum s" "pageNum (pthreads s' th) = 0"
    "threadNum s' = threadNum s + 1" "x \<noteq> n \<Longrightarrow> threadID (nodes s' x) = threadID (nodes s x)"
proof -
  let ?p = "lib_request (lib_request (pause_timer s))"
  let ?s = "upd_thread th (\<lambda>t. t\<lparr>tid := threadNum s, isDead := 0, exitArg := NULL, pageNum := 0, tnext := NULL\<rparr>) ?p"
  obtain s1 s2 s3 where e: "addThread th (?s\<lparr>threadNum := threadNum s + 1\<rparr>) = Some s1" "createNode n c th s1 = Some s2" "enQ (runQ s2 0) n s2 = Some s3" "s' = unpause_timer s3"
    using c up by (auto simp: my_pthread_create_def Let_def upd_thread_def pause_timer_same lib_request_same split: if_split_asm bind_split_asm)
  note q = enQ_tables [OF e(3)]
  have s1: "s1 = (upd_thread th (tnext_update (\<lambda>_. threadsHead s)) (?s\<lparr>threadNum := threadNum s + 1\<rparr>))\<lparr>threadsHead := th\<rparr>"
    using e(1) by (auto simp: addThread_def upd_thread_def pause_timer_same lib_request_same split: if_split_asm)
  have s2: "pages s2 = pages s1" "prot s2 = prot s1" "current s2 = current s1" "pthreads s2 = pthreads s1" "threadNum s2 = threadNum s1" "x \<noteq> n \<Longrightarrow> threadID (nodes s2 x) = threadID (nodes s1 x)"
    using e(2) by (auto simp: createNode_def lib_request_same split: if_split_asm)
  show "pages s' = pages s" "prot s' = prot s" "current s' = current s" "t \<noteq> th \<Longrightarrow> pthreads s' t = pthreads s t" "tid (pthreads s' th) = threadNum s" "pageNum (pthreads s' th) = 0"
    "threadNum s' = threadNum s + 1" "x \<noteq> n \<Longrightarrow> threadID (nodes s' x) = threadID (nodes s x)"
    using q s2 by (simp_all add: e(4) s1 upd_thread_def unpause_timer_same pause_timer_same lib_request_same)
qed

lemma mem_create:
  assumes i: "mem_inv B N D A H M v" and n: "n \<noteq> NULL" "n \<notin> N" "th \<noteq> NULL" "th \<notin> D" and lib: "n \<in> fst ` set (live PT_BLOCK_SIZE (memory (hp v)) B)" and room: "threadNum (sc v) < 2 ^ 8" and c: "my_pthread_create a c st n th (sc v) = Some (0, s')"
  shows "mem_inv B (insert n N) (insert th D) (insert th A) (H(th := [])) (M(th := \<lambda>_. None)) (v\<lparr>sc := s'\<rparr>)"
proof -
  have up: "scd_up (sc v)" and cA: "threadID (nodes (sc v) (current (sc v))) \<in> A" "A \<subseteq> D" and cN: "current (sc v) \<in> N" and ac: "accounted (sc v) N D A"
    using i by (auto simp: mem_inv_def accounted_def sched_inv_def)
  note t = create_tables [OF c up]
  have m: "mem_inv B N D A (H(th := [])) (M(th := \<lambda>_. None)) v" using i n(4) cA(2) unfolding mem_inv_def by auto
  have "accounted s' (insert n N) (insert th D) (insert th A)" using accounted_create [OF ac n, of a c st] c by auto
  moreover have "threadID (nodes s' (current s')) = threadID (nodes (sc v) (current s'))" by (rule t(8)) (use cN n(2) t(3) in auto)
  moreover have "pthreads s' u = pthreads (sc v) u" if "u \<in> D" for u by (rule t(4)) (use that n(4) in auto)
  moreover have "insert n N \<subseteq> fst ` set (live PT_BLOCK_SIZE (memory (hp v)) B)" using i lib by (simp add: mem_inv_def lib_heap_def)
  ultimately show ?thesis using t(1-3,5-7) cA n(4) room by (intro mem_sched [OF m]) (auto simp: switched_prot_def)
qed

section \<open>The end of a thread\<close>

text \<open>
  The running thread ends and another one runs: the numbers of threads that may have pages are one
  fewer, and everyone else has the memory it had.
\<close>

lemma mem_ended:
  assumes i: "mem_inv B N D A H M v" and c: "current_thread v = Some th"
    and s: "sched_inv s L Th" "insert (current (sc v)) (everyone L) \<subseteq> N" "set Th \<union> A \<subseteq> D" "\<forall>x \<in> insert (current (sc v)) (everyone L). threadID (nodes (sc v) x) \<in> A"
    and m: "current s = current (sc v)" "pages s = pages (sc v)" "prot s = prot (sc v)" "threadNum s = threadNum (sc v)" "\<And>x. threadID (nodes s x) = threadID (nodes (sc v) x)"
      "\<And>t. tid (pthreads s t) = tid (pthreads (sc v) t) \<and> pageNum (pthreads s t) = pageNum (pthreads (sc v) t)"
    and e: "status (nodes s (current s)) = EXITING" "schedule s = Some s'" "current s' \<noteq> current (sc v)"
  shows "mem_inv B N D (A - {th}) H M (v\<lparr>sc := s'\<rparr>)"
proof -
  let ?v = "v\<lparr>sc := s'\<rparr>" and ?A = "A - {th}"
  have th: "th \<in> A" "threadID (nodes (sc v) (current (sc v))) = th" "running (live_ids D A v) (th_word v th) v" by (rule mem_current [OF i], use c in simp)+
  obtain L' where L': "sched_inv s' L' Th" "insert (current s') (everyone L') \<subseteq> everyone L" "kept s s'" "pages s' = dead_pages s" "\<And>i. prot s' i = (\<not> own_page s i \<and> prot s i)"
    "\<And>t. pageNum (pthreads s' t) = pageNum (pthreads s t)"
    by (rule schedule_ended [OF s(1) e(1,2)]) (use e(3) m(1) in simp_all)
  have ids: "id_of s = id_of (sc v)" using m(5,6) by (simp add: id_of_def fun_eq_iff)
  have pg: "pages s' = dead_pages (sc v)" "\<And>i. prot s' i = (\<not> own_page (sc v) i \<and> prot (sc v) i)" using L'(4,5) ids m(1-3) by (simp_all add: dead_pages_def own_page_def)
  have k: "tid (pthreads s' t) = tid (pthreads (sc v) t)" "pageNum (pthreads s' t) = pageNum (pthreads (sc v) t)" "threadID (nodes s' x) = threadID (nodes (sc v) x)" "threadNum s' = threadNum (sc v)" for t x
    using L'(3,6) m(4-6) by (simp_all add: kept_def)
  have q: "qsys (current s) s L" and inj: "inj_on (id_of s) (insert (current s) (everyone L))" using s(1) by (simp_all add: sched_inv_def ids_ok_def)
  have "current s \<notin> everyone L" using qsys_good [OF q] by (auto simp: everyone_def good_node_def)
  then have "threadID (nodes (sc v) x) \<noteq> th" if "x \<in> everyone L" for x using inj_onD [OF inj, of x "current s"] that th(2) m(1) unfolding ids id_of_def by auto
  then have al: "threadID (nodes s' x) \<in> ?A" if "x \<in> everyone L" for x using s(4) that k(3) by simp
  have acc: "accounted s' N D ?A" using L'(1,2) s(2,3) al unfolding accounted_def by (intro exI [of _ L'] exI [of _ Th]) blast
  have D: "A \<subseteq> D" using s(3) by blast
  let ?u = "threadID (nodes s' (current s'))"
  have u: "?u \<in> ?A" and up: "scd_up s'" "current s' \<noteq> NULL" "?u \<noteq> NULL" using al L'(1,2) by (auto simp: sched_inv_def runs_def)
  have "D - ?A = insert th (D - A)" using th(1) D by blast
  then have li: "live_ids D ?A ?v = live_ids D A v - {th_word v th}" using k(1) by (auto simp: live_ids_def)
  have "th_word v ?u \<noteq> th_word v th" using th_word_eq(1) [OF i, of ?u th] u th(1) D by auto
  then have o: "owner ?v \<in> live_ids D A v - {th_word v th}" using u k(1) alive_ids(2) [OF i, of ?u] by (simp add: owner_def)
  have cu: "current_thread ?v \<noteq> None" using up by (simp add: current_thread_def)
  note run = ended_running [OF th(3) pg up(1) o cu] and vi = ended_slots(6) [OF th(3) pg(1)]
  have sz: "npages ?v = npages v" "userSpace ?v = userSpace v" by (simp_all add: npages_def userSpace_def)
  have hs: "thread_heap t (H t) (M t) ?v" if "t \<in> ?A" for t by (rule thread_heap_cong [of _ _ _ v]) (use i that sz k vi in \<open>simp_all add: mem_inv_def\<close>)
  have "th_word ?v = th_word v" using k(1) by (simp add: fun_eq_iff)
  moreover have "lib_heap N B ?v" using i by (simp add: mem_inv_def lib_heap_def)
  ultimately show ?thesis using i acc run hs vi sz unfolding mem_inv_def li by (simp add: k)
qed

lemma ended_ready: "ready (unpause_timer s) = ready s" "ready (pause_timer s) = ready s" "ready (upd_node x f s) = ready s" "ready (upd_thread t g s) = ready s"
  by (simp_all add: ready_def unpause_timer_same pause_timer_same upd_node_def upd_thread_def)

lemma mem_exit:
  assumes i: "mem_inv B N D A H M v" and c: "current_thread v = Some th"
  shows "my_pthread_exit r (sc v) = Some s' \<Longrightarrow> current s' \<noteq> current (sc v) \<Longrightarrow> mem_inv B N D (A - {th}) H M (v\<lparr>sc := s'\<rparr>)"
    "ready (sc v) \<Longrightarrow> \<exists>s'. my_pthread_exit r (sc v) = Some s' \<and> current s' \<noteq> current (sc v)"
proof -
  obtain L Th where s: "sched_inv (sc v) L Th" "insert (current (sc v)) (everyone L) \<subseteq> N" "set Th \<union> A \<subseteq> D" "\<forall>x \<in> insert (current (sc v)) (everyone L). threadID (nodes (sc v) x) \<in> A"
    using i by (auto simp: mem_inv_def accounted_def)
  let ?s1 = "upd_node (current (sc v)) (status_update (\<lambda>_. EXITING)) (pause_timer (sc v))"
  let ?s = "unpause_timer (upd_thread (threadID (nodes ?s1 (current (sc v)))) (exitArg_update (\<lambda>_. r)) ?s1)"
  have "sched_inv ?s1 L Th" unfolding upd_status_mark using sched_inv_mark [OF sched_inv_pause [OF s(1)], of EXITING] by (simp add: pause_timer_same)
  then have inv: "sched_inv ?s L Th" by (intro sched_inv_unpause sched_inv_thread)
  have e: "my_pthread_exit r (sc v) = schedule ?s" using s(1) by (simp add: my_pthread_exit_def Let_def sched_inv_def runs_def pause_timer_same)
  have st: "status (nodes ?s (current ?s)) = EXITING" "current ?s = current (sc v)" by (simp_all add: unpause_timer_same upd_thread_def pause_timer_same)
  show "mem_inv B N D (A - {th}) H M (v\<lparr>sc := s'\<rparr>)" if "my_pthread_exit r (sc v) = Some s'" "current s' \<noteq> current (sc v)"
    by (rule mem_ended [OF i c inv s(2-4)]) (use that in \<open>simp_all add: e unpause_timer_same upd_thread_def pause_timer_same upd_node_def\<close>)
  show "\<exists>s'. my_pthread_exit r (sc v) = Some s' \<and> current s' \<noteq> current (sc v)" if "ready (sc v)"
    by (rule ended_hands_over [OF inv st(1)]) (use that e st(2) in \<open>auto simp: ended_ready\<close>)
qed

lemma mem_finish:
  assumes i: "mem_inv B N D A H M v" and c: "current_thread v = Some th"
  shows "terminationHandler (sc v) = Some s' \<Longrightarrow> current s' \<noteq> current (sc v) \<Longrightarrow> mem_inv B N D (A - {th}) H M (v\<lparr>sc := s'\<rparr>)"
    "ready (sc v) \<Longrightarrow> \<exists>s'. terminationHandler (sc v) = Some s' \<and> current s' \<noteq> current (sc v)"
proof -
  obtain L Th where s: "sched_inv (sc v) L Th" "insert (current (sc v)) (everyone L) \<subseteq> N" "set Th \<union> A \<subseteq> D" "\<forall>x \<in> insert (current (sc v)) (everyone L). threadID (nodes (sc v) x) \<in> A"
    using i by (auto simp: mem_inv_def accounted_def)
  obtain s1 where s1: "mark_current EXITING (sc v) = Some s1" "sched_inv s1 L Th" "current s1 = current (sc v)" "status (nodes s1 (current (sc v))) = EXITING"
    "\<And>x. threadID (nodes s1 x) = threadID (nodes (sc v) x)" by (rule mark_current_inv [OF s(1), of EXITING]) auto
  note t = mark_current_tables [OF s1(1)]
  have e: "terminationHandler (sc v) = schedule s1" using s1(1) by (simp add: terminationHandler_def)
  have st: "status (nodes s1 (current s1)) = EXITING" using s1(3,4) by simp
  show "mem_inv B N D (A - {th}) H M (v\<lparr>sc := s'\<rparr>)" if "terminationHandler (sc v) = Some s'" "current s' \<noteq> current (sc v)"
    by (rule mem_ended [OF i c s1(2) s(2-4) s1(3) t(1,2,4) s1(5) _ st]) (use that t(3) e in simp_all)
  have rd: "ready s1 = ready (sc v)" using s1(1) by (auto simp: mark_current_def Let_def ended_ready split: if_split_asm)
  show "\<exists>s'. terminationHandler (sc v) = Some s' \<and> current s' \<noteq> current (sc v)" if "ready (sc v)"
    by (rule ended_hands_over [OF s1(2) st]) (use that rd e s1(3) in auto)
qed

end
