(* ===== verification/PtLibrary.thy ===== *)
theory PtLibrary
  imports PtSteps
begin

text \<open>
  The library's own memory in a program of threads: its requests, releases and writes as steps that
  leave every thread's memory alone, and the array \<open>maintenance\<close> asks for and gives back.
\<close>

section \<open>Sequences of requests\<close>

text \<open>First fit, one request after the other, all of which succeed.\<close>

fun ff_allocs :: "addr \<Rightarrow> nat list \<Rightarrow> ablock list \<Rightarrow> (addr list \<times> ablock list) option" where
  "ff_allocs a [] bs = Some ([], bs)"
| "ff_allocs a (n # ns) bs =
     (case ff_alloc PT_BLOCK_SIZE a n bs of
        None \<Rightarrow> None
      | Some (p, bs') \<Rightarrow> map_option (\<lambda>(ps, bs''). (p # ps, bs'')) (ff_allocs a ns bs'))"

lemma ff_allocs_live:
  assumes "ff_allocs a ns bs = Some (ps, bs')"
  shows "set (live PT_BLOCK_SIZE a bs') = set (zip ps ns) \<union> set (live PT_BLOCK_SIZE a bs)" "length ps = length ns" "distinct ps"
    "set ps \<inter> fst ` set (live PT_BLOCK_SIZE a bs) = {}" "\<forall>p \<in> set ps. a < p"
  using assms
proof (induction ns arbitrary: bs ps)
  case (Cons n ns)
  {
    case 1
    then obtain p b1 qs where f: "ff_alloc PT_BLOCK_SIZE a n bs = Some (p, b1)" "ff_allocs a ns b1 = Some (qs, bs')" "ps = p # qs" by (auto split: option.split_asm)
    note ih = Cons.IH [OF f(2)] and lv = ff_alloc_live [OF f(1)]
    show "set (live PT_BLOCK_SIZE a bs') = set (zip ps (n # ns)) \<union> set (live PT_BLOCK_SIZE a bs)" using ih(1) lv f(3) by auto
    show "length ps = length (n # ns)" using ih(2) f(3) by simp
    have "p \<in> fst ` set (live PT_BLOCK_SIZE a b1)" using lv by force
    then show "distinct ps" using ih(3,4) f(3) by auto
    have "p \<notin> fst ` set (live PT_BLOCK_SIZE a bs)" using ff_alloc_fresh [OF PT_BLOCK_SIZE_pos(1) f(1)] by force
    then show "set ps \<inter> fst ` set (live PT_BLOCK_SIZE a bs) = {}" using ih(4) lv f(3) by auto
    have "a < p" using ff_alloc_bounds [OF f(1)] PT_BLOCK_SIZE_pos(1) by linarith
    then show "\<forall>p \<in> set ps. a < p" using ih(5) f(3) by simp
  }
qed simp_all

lemma ff_allocs_coalesced: "ff_allocs a ns bs = Some (ps, bs') \<Longrightarrow> coalesced bs \<Longrightarrow> coalesced bs'"
  by (induction ns arbitrary: bs ps) (auto split: option.split_asm dest: ff_alloc_coalesced)

text \<open>Requests of the library, by line and size, on its heap.\<close>

fun lib_allocs :: "(int \<times> nat) list \<Rightarrow> pt_heap \<Rightarrow> (pt_heap \<times> addr list) option" where
  "lib_allocs [] h = Some (h, [])"
| "lib_allocs ((line, n) # rs) h =
     (case myallocate_lib THIS_FILE line h n of
        None \<Rightarrow> None
      | Some (h, p) \<Rightarrow> map_option (\<lambda>(h, ps). (h, p # ps)) (lib_allocs rs h))"

lemma lib_allocs_ok:
  assumes "lib_rep h a bs" "ff_allocs a (map snd rs) bs = Some (ps, bs')"
  shows "\<exists>m. lib_allocs rs h = Some (put_bytes h m, ps) \<and> lib_rep (put_bytes h m) a bs' \<and> (\<forall>x \<ge> lib_end h. m x = pt_bytes h x)"
  using assms
proof (induction rs arbitrary: h bs ps)
  case Nil
  then show ?case by (intro exI [of _ "pt_bytes h"]) simp
next
  case (Cons r rs)
  obtain line n where r: "r = (line, n)" by (cases r)
  obtain p b1 qs where f: "ff_alloc PT_BLOCK_SIZE a n bs = Some (p, b1)" "ff_allocs a (map snd rs) b1 = Some (qs, bs')" "ps = p # qs"
    using Cons.prems(2) r by (auto split: option.split_asm)
  obtain m1 where m1: "myallocate_lib THIS_FILE line h n = Some (put_bytes h m1, p)" "lib_rep (put_bytes h m1) a b1" "\<forall>x \<ge> lib_end h. m1 x = pt_bytes h x"
    using myallocate_lib_Some [OF Cons.prems(1) f(1), of THIS_FILE line] by blast
  obtain m where "lib_allocs rs (put_bytes h m1) = Some (put_bytes (put_bytes h m1) m, qs)" "lib_rep (put_bytes (put_bytes h m1) m) a bs'"
    "\<forall>x \<ge> lib_end (put_bytes h m1). m x = pt_bytes (put_bytes h m1) x" using Cons.IH [OF m1(2) f(2)] by blast
  then show ?case using m1 f(3) r by (intro exI [of _ m]) simp
qed

section \<open>Steps of the library\<close>

text \<open>The library writes in its own pages, and its block list is as it says.\<close>

lemma mem_library:
  assumes i: "mem_inv B N D A H M v" and m: "\<And>x. userSpace v \<le> x \<Longrightarrow> m x = pt_bytes (hp v) x"
    and l: "lib_rep (put_bytes (hp v) m) (memory (hp v)) B'" and n: "N \<subseteq> fst ` set (live PT_BLOCK_SIZE (memory (hp v)) B')"
  shows "mem_inv B' N D A H M (set_bytes m v)"
proof -
  let ?v = "set_bytes m v"
  have "slot_at ?v s = slot_at v s" for s using m by (cases s) (auto simp: slot_at.simps get_page_def fun_eq_iff)
  then have vi: "virt u j ?v = virt u j v" for u j by (simp add: virt_def)
  have h: "thread_heap th (H th) (M th) ?v" if "th \<in> A" for th by (rule thread_heap_cong [of _ _ _ v]) (use i that vi in \<open>simp_all add: mem_inv_def\<close>)
  have "running (live_ids D A v) (owner v) v" using i by (simp add: mem_inv_def)
  then have "running (live_ids D A ?v) (owner ?v) ?v" using running_set_bytes by (simp add: live_ids_def)
  moreover have "lib_heap N B' ?v" using l n by (simp add: lib_heap_def set_bytes_def)
  ultimately show ?thesis using i h vi unfolding mem_inv_def by simp
qed

lemma mem_same:
  assumes i: "mem_inv B N D A H M v" and f: "vm_frame v v'" and s: "same_pages v v'" "same_vm v v'"
  shows "mem_inv B N D A H M v'"
proof -
  obtain th where th: "current_thread v = Some th" "running (live_ids D A v) (th_word v th) v" "thread_heap th (H th) (M th) v" by (rule mem_current [OF i])
  have w: "wrote (live_ids D A v) (th_word v th) (vbytes (th_word v th) v) v v'" by (rule faulted_same [OF running_same [OF th(2) s]])
  have h: "thread_heap th (H th) (M th) v'" by (rule thread_heap_wrote [OF th(3) w]) (use th(3) in \<open>auto simp: thread_heap_def\<close>)
  show ?thesis using mem_wrote [OF i th(1) f w h] by simp
qed

text \<open>A call of the library's allocator, between the pause of the timer and its end.\<close>

lemma mem_lib_call:
  assumes i: "mem_inv B N D A H M v" and n: "N \<subseteq> fst ` set (live PT_BLOCK_SIZE (memory (hp v)) B')"
    and f: "\<And>h. lib_rep h (memory h) B \<Longrightarrow> memory h = memory (hp v) \<Longrightarrow> \<exists>m. f h = Some (put_bytes h m, r) \<and> lib_rep (put_bytes h m) (memory h) B' \<and> (\<forall>x \<ge> lib_end h. m x = pt_bytes h x)"
  obtains v1 h v' where "hold_timer v = Some v1" "f (hp v1) = Some (h, r)" "resume_timer (v1\<lparr>hp := h\<rparr>) = Some v'" "mem_inv B' N D A H M v'" "pt_root (hp v1) \<noteq> NULL" "memory (hp v') = memory (hp v)"
proof -
  have up: "scd_up (sc v)" by (rule mem_current [OF i])
  obtain v1 where v1: "hold_timer v = Some v1" "same_pages v v1" "same_vm v v1" by (rule hold_same [OF up])
  have i1: "mem_inv B N D A H M v1" by (rule mem_same [OF i vm_frame_timer(1) [OF v1(1)] v1(2,3)])
  have e: "memory (hp v1) = memory (hp v)" and r1: "lib_rep (hp v1) (memory (hp v1)) B" using v1(3) i1 by (simp_all add: same_vm_def mem_inv_def lib_heap_def)
  obtain m where m: "f (hp v1) = Some (put_bytes (hp v1) m, r)" "lib_rep (put_bytes (hp v1) m) (memory (hp v1)) B'" "\<forall>x \<ge> lib_end (hp v1). m x = pt_bytes (hp v1) x"
    using f [OF r1 e] by blast
  have i2: "mem_inv B' N D A H M (set_bytes m v1)" by (rule mem_library [OF i1 _ m(2)]) (use m(3) n e in \<open>simp_all add: userSpace_def\<close>)
  have up2: "scd_up (sc (set_bytes m v1))" by (rule mem_current [OF i2])
  obtain v' where v': "resume_timer (set_bytes m v1) = Some v'" "same_pages (set_bytes m v1) v'" "same_vm (set_bytes m v1) v'" by (rule resume_same [OF up2])
  have "mem_inv B' N D A H M v'" by (rule mem_same [OF i2 vm_frame_timer(2) [OF v'(1)] v'(2,3)])
  moreover have "resume_timer (v1\<lparr>hp := put_bytes (hp v1) m\<rparr>) = Some v'" using v'(1) by (simp add: set_bytes_def)
  moreover have "pt_root (hp v1) \<noteq> NULL" "memory (hp v') = memory (hp v)" using i1 e v'(3) by (simp_all add: mem_inv_def same_vm_def)
  ultimately show thesis using that [OF v1(1) m(1)] by blast
qed

lemma mem_lib_request:
  assumes i: "mem_inv B N D A H M v" and f: "ff_alloc PT_BLOCK_SIZE (memory (hp v)) n B = Some (p, B')"
  obtains v' where "myallocate fl line n LIBRARYREQ v = Some (v', p)" "mem_inv B' N D A H M v'" "memory (hp v') = memory (hp v)"
proof -
  have "N \<subseteq> fst ` set (live PT_BLOCK_SIZE (memory (hp v)) B')" using i ff_alloc_live [OF f] by (auto simp: mem_inv_def lib_heap_def)
  moreover have "\<exists>m. myallocate_lib fl line h n = Some (put_bytes h m, p) \<and> lib_rep (put_bytes h m) (memory h) B' \<and> (\<forall>x \<ge> lib_end h. m x = pt_bytes h x)"
    if "lib_rep h (memory h) B" "memory h = memory (hp v)" for h using myallocate_lib_Some [OF that(1) f [folded that(2)], of fl line] by blast
  ultimately obtain v1 h v' where v': "hold_timer v = Some v1" "myallocate_lib fl line (hp v1) n = Some (h, p)" "resume_timer (v1\<lparr>hp := h\<rparr>) = Some v'" "mem_inv B' N D A H M v'" "pt_root (hp v1) \<noteq> NULL" "memory (hp v') = memory (hp v)"
    by (rule mem_lib_call [OF i])
  then show thesis using that by (simp add: myallocate_def serve_def LIBRARYREQ_def DISKREQ_def)
qed

lemma mem_lib_release:
  assumes i: "mem_inv B N D A H M v" and l: "(q, z) \<in> set (live PT_BLOCK_SIZE (memory (hp v)) B)" "0 < z" "q \<notin> N"
  obtains v' B' where "mydeallocate fl line q LIBRARYREQ v = Some v'" "ff_free PT_BLOCK_SIZE (memory (hp v)) (q - PT_BLOCK_SIZE) B = Some B'" "mem_inv B' N D A H M v'"
proof -
  obtain B' where f: "ff_free PT_BLOCK_SIZE (memory (hp v)) (q - PT_BLOCK_SIZE) B = Some B'" using ff_free_of_live [OF PT_BLOCK_SIZE_pos(1) l(1)] by blast
  have "q - PT_BLOCK_SIZE + PT_BLOCK_SIZE = q" using live_bounds [OF l(1)] by simp
  then have lv: "set (live PT_BLOCK_SIZE (memory (hp v)) B') = {(p, n). (p, n) \<in> set (live PT_BLOCK_SIZE (memory (hp v)) B) \<and> p \<noteq> q}" using ff_free_live [OF PT_BLOCK_SIZE_pos(1) f] by simp
  have "N \<subseteq> fst ` set (live PT_BLOCK_SIZE (memory (hp v)) B')"
  proof
    fix x assume x: "x \<in> N"
    then obtain k where "(x, k) \<in> set (live PT_BLOCK_SIZE (memory (hp v)) B)" using i by (force simp: mem_inv_def lib_heap_def)
    then show "x \<in> fst ` set (live PT_BLOCK_SIZE (memory (hp v)) B')" using lv x l(3) by force
  qed
  moreover have "\<exists>m. map_option (\<lambda>h. (h, ())) (mydeallocate_lib fl line h q) = Some (put_bytes h m, ()) \<and> lib_rep (put_bytes h m) (memory h) B' \<and> (\<forall>x \<ge> lib_end h. m x = pt_bytes h x)"
    if "lib_rep h (memory h) B" "memory h = memory (hp v)" for h using mydeallocate_lib_ok [OF that(1) l(1) [folded that(2)] l(2) f [folded that(2)], of fl line] by auto
  ultimately obtain v1 h v' where v': "hold_timer v = Some v1" "map_option (\<lambda>h. (h, ())) (mydeallocate_lib fl line (hp v1) q) = Some (h, ())" "resume_timer (v1\<lparr>hp := h\<rparr>) = Some v'" "mem_inv B' N D A H M v'"
    by (rule mem_lib_call [OF i])
  then show thesis using that [of v' B'] f by (auto simp: mydeallocate_def mydeallocate_request_def)
qed

text \<open>A message changes no memory.\<close>

lemma mem_say:
  assumes i: "mem_inv B N D A H M v"
  shows "mem_inv B N D A H M (v\<lparr>hp := say x (hp v)\<rparr>)"
proof -
  let ?v = "v\<lparr>hp := say x (hp v)\<rparr>"
  have sz: "npages ?v = npages v" "ndisk ?v = ndisk v" "userSpace ?v = userSpace v" by (simp_all add: npages_def ndisk_def userSpace_def)
  have "slot_at ?v s = slot_at v s" for s by (cases s) (simp_all add: slot_at.simps sz)
  then have "same_pages v ?v" using sz by (simp add: same_pages_def)
  note view = same_pages_view [OF this]
  have "running (live_ids D A v) (owner v) v" using i by (simp add: mem_inv_def)
  then have "running (live_ids D A v) (owner v) ?v" using view(8) by blast
  then have "running (live_ids D A ?v) (owner ?v) ?v" by (simp add: live_ids_def owner_def)
  moreover have "thread_heap u (H u) (M u) ?v" if "u \<in> A" for u by (rule thread_heap_cong [of _ _ _ v]) (use i that view sz in \<open>simp_all add: mem_inv_def\<close>)
  moreover have "lib_heap N B ?v" by (rule lib_heap_low [of N B v]) (use i in \<open>simp_all add: mem_inv_def\<close>)
  ultimately show ?thesis using i view sz unfolding mem_inv_def by simp
qed

text \<open>A request that does not fit is answered with a null pointer and a message.\<close>

lemma mem_lib_refused:
  assumes i: "mem_inv B N D A H M v" and f: "ff_alloc PT_BLOCK_SIZE (memory (hp v)) n B = None"
  obtains v' where "myallocate fl line n LIBRARYREQ v = Some (v', NULL)" "mem_inv B N D A H M v'"
proof -
  have up: "scd_up (sc v)" by (rule mem_current [OF i])
  obtain v1 where v1: "hold_timer v = Some v1" "same_pages v v1" "same_vm v v1" by (rule hold_same [OF up])
  have i1: "mem_inv B N D A H M v1" by (rule mem_same [OF i vm_frame_timer(1) [OF v1(1)] v1(2,3)])
  have e: "memory (hp v1) = memory (hp v)" and r1: "lib_rep (hp v1) (memory (hp v1)) B" and rt: "pt_root (hp v1) \<noteq> NULL" using v1(3) i1 by (simp_all add: same_vm_def mem_inv_def lib_heap_def)
  let ?v = "v1\<lparr>hp := say (PNotEnoughSpace line fl) (hp v1)\<rparr>"
  have al: "myallocate_lib fl line (hp v1) n = Some (say (PNotEnoughSpace line fl) (hp v1), NULL)" by (rule myallocate_lib_None [OF r1]) (use f e in simp)
  note i2 = mem_say [OF i1, of "PNotEnoughSpace line fl"]
  have up2: "scd_up (sc ?v)" by (rule mem_current [OF i2])
  obtain v' where v': "resume_timer ?v = Some v'" "same_pages ?v v'" "same_vm ?v v'" by (rule resume_same [OF up2])
  have "mem_inv B N D A H M v'" by (rule mem_same [OF i2 vm_frame_timer(2) [OF v'(1)] v'(2,3)])
  moreover have "myallocate fl line n LIBRARYREQ v = Some (v', NULL)" using v1(1) rt al v'(1) by (simp add: myallocate_def serve_def LIBRARYREQ_def DISKREQ_def)
  ultimately show thesis using that by blast
qed

text \<open>The library uses one of its blocks.\<close>

lemma mem_lib_write:
  assumes i: "mem_inv B N D A H M v" and l: "(q, z) \<in> set (live PT_BLOCK_SIZE (memory (hp v)) B)" and m: "\<And>x. \<not> (q \<le> x \<and> x < q + z) \<Longrightarrow> m x = pt_bytes (hp v) x"
  shows "mem_inv B N D A H M (set_bytes m v)"
proof -
  have r: "lib_rep (hp v) (memory (hp v)) B" "N \<subseteq> fst ` set (live PT_BLOCK_SIZE (memory (hp v)) B)" using i by (simp_all add: mem_inv_def lib_heap_def)
  have c: "pt_chain (pt_bytes (hp v)) (memory (hp v)) B" using r(1) by (simp add: lib_rep_def)
  have "pt_chain m (memory (hp v)) B" by (rule pt_hdr.chain_live [OF c l]) (rule m, linarith)
  then have "lib_rep (put_bytes (hp v) m) (memory (hp v)) B" using r(1) by (simp add: lib_rep_def pt_arena_def)
  moreover have top: "q + z \<le> userSpace v" using live_bounds [OF l] r(1) by (simp add: lib_rep_def pt_arena_def userSpace_def)
  have "m x = pt_bytes (hp v) x" if "userSpace v \<le> x" for x by (rule m) (use top that in linarith)
  ultimately show ?thesis using mem_library [OF i _ _ r(2)] by blast
qed

text \<open>The timer is paused and set again by a call that does nothing else.\<close>

lemma mem_timer:
  assumes i: "mem_inv B N D A H M v" and f: "f = pause_timer \<or> f = unpause_timer \<or> f = lib_request"
  shows "mem_inv B N D A H M (v\<lparr>sc := f (sc v)\<rparr>)"
proof (rule mem_mark [OF i])
  obtain L T where s: "sched_inv (sc v) L T" "insert (current (sc v)) (everyone L) \<subseteq> N" "set T \<union> A \<subseteq> D" "\<forall>x \<in> insert (current (sc v)) (everyone L). threadID (nodes (sc v) x) \<in> A"
    using i unfolding mem_inv_def accounted_def by blast
  have "sched_inv (f (sc v)) L T" using f sched_inv_pause [OF s(1)] sched_inv_unpause [OF s(1)] sched_inv_lib_request [OF s(1)] by blast
  moreover have e: "current (f (sc v)) = current (sc v)" "nodes (f (sc v)) = nodes (sc v)" using f by (auto simp: pause_timer_same unpause_timer_same lib_request_same)
  ultimately show "accounted (f (sc v)) N D A" using s(2-4) unfolding accounted_def e by blast
qed (use f in \<open>auto simp: pause_timer_same unpause_timer_same lib_request_same\<close>)

section \<open>The array of maintenance\<close>

text \<open>
  A call \<open>f\<close> into the scheduler that comes to \<open>schedule\<close> once.  When the call is the one in which
  \<open>maintenance\<close> is due, the library allocator is asked for the array and its answer, which the code does not check, is what
  \<open>maintenance\<close> finds; afterwards the array is given back.  The scheduler and the library's blocks do not share bytes in the
  model, so the release may stand behind the rest of \<open>f\<close>.
\<close>

definition with_array :: "(sched \<Rightarrow> sched option) \<Rightarrow> vm \<Rightarrow> vm option" where
  "with_array f v =
     (if cycles (sc v) + 1 > 100 then do {
        (h, arr) \<leftarrow> myallocate_lib THIS_FILE 512 (hp v) ((RUN_QUEUE_SIZE - 1) * 4);
        s \<leftarrow> f ((sc v)\<lparr>lib_room := arr \<noteq> NULL\<rparr>);
        h \<leftarrow> mydeallocate_lib THIS_FILE 547 h arr;
        Some (v\<lparr>hp := h, sc := s\<rparr>)
      }
      else map_option (\<lambda>s. v\<lparr>sc := s\<rparr>) (f (sc v)))"

text \<open>The array fits, or is not needed.\<close>

definition array_fits :: "ablock list \<Rightarrow> vm \<Rightarrow> bool" where
  "array_fits B v \<longleftrightarrow> cycles (sc v) + 1 \<le> 100 \<or> ff_alloc PT_BLOCK_SIZE (memory (hp v)) ((RUN_QUEUE_SIZE - 1) * 4) B \<noteq> None"

lemma mem_array:
  assumes i: "mem_inv B N D A H M v" and co: "coalesced B" and fit: "array_fits B v"
  obtains h where "\<And>f. with_array f v = map_option (\<lambda>s. v\<lparr>hp := h, sc := s\<rparr>) (f (sc v))" "mem_inv B N D A H M (v\<lparr>hp := h\<rparr>)"
proof (cases "cycles (sc v) + 1 > 100")
  case True
  let ?n = "(RUN_QUEUE_SIZE - 1) * 4"
  obtain p B' where f: "ff_alloc PT_BLOCK_SIZE (memory (hp v)) ?n B = Some (p, B')" using fit True by (auto simp: array_fits_def)
  have lr: "lib_rep (hp v) (memory (hp v)) B" and N: "N \<subseteq> fst ` set (live PT_BLOCK_SIZE (memory (hp v)) B)" and room: "lib_room (sc v)"
    using i by (auto simp: mem_inv_def lib_heap_def accounted_def sched_inv_def)
  obtain m where m: "myallocate_lib THIS_FILE 512 (hp v) ?n = Some (put_bytes (hp v) m, p)" "lib_rep (put_bytes (hp v) m) (memory (hp v)) B'" "\<forall>x \<ge> lib_end (hp v). m x = pt_bytes (hp v) x"
    using myallocate_lib_Some [OF lr f, of THIS_FILE 512] by blast
  have l: "(p, ?n) \<in> set (live PT_BLOCK_SIZE (memory (hp v)) B')" "0 < ?n" using ff_alloc_live [OF f] by (simp_all add: RUN_QUEUE_SIZE_def)
  have fr: "ff_free PT_BLOCK_SIZE (memory (hp v)) (p - PT_BLOCK_SIZE) B' = Some B" by (rule ff_alloc_free [OF PT_BLOCK_SIZE_pos(1) co f])
  obtain m' where m': "mydeallocate_lib THIS_FILE 547 (put_bytes (hp v) m) p = Some (put_bytes (put_bytes (hp v) m) m')" "lib_rep (put_bytes (put_bytes (hp v) m) m') (memory (hp v)) B"
    "\<forall>x \<ge> lib_end (put_bytes (hp v) m). m' x = pt_bytes (put_bytes (hp v) m) x" using mydeallocate_lib_ok [OF m(2) l fr, of THIS_FILE 547] by blast
  have "p \<noteq> NULL" using ff_alloc_bounds [OF f] PT_BLOCK_SIZE_pos(1) by linarith
  moreover have "(sc v)\<lparr>lib_room := True\<rparr> = sc v" using room by (cases "sc v") simp
  ultimately have "with_array f v = map_option (\<lambda>s. v\<lparr>hp := put_bytes (hp v) m', sc := s\<rparr>) (f (sc v))" for f
    using True m(1) m'(1) by (cases "f (sc v)") (simp_all add: with_array_def)
  moreover have "mem_inv B N D A H M (set_bytes m' v)" by (rule mem_library [OF i]) (use m(3) m'(2,3) N in \<open>simp_all add: userSpace_def\<close>)
  ultimately show thesis using that by (simp add: set_bytes_def)
next
  case False
  then show thesis using that [of "hp v"] i by (simp add: with_array_def)
qed

text \<open>When it does not fit, \<open>maintenance\<close> writes through a null pointer.\<close>

lemma mem_no_array:
  assumes i: "mem_inv B N D A H M v" and fit: "\<not> array_fits B v" and f: "f ((sc v)\<lparr>lib_room := False\<rparr>) = None"
  shows "with_array f v = None"
proof -
  have lr: "lib_rep (hp v) (memory (hp v)) B" using i by (simp add: mem_inv_def lib_heap_def)
  have "myallocate_lib THIS_FILE 512 (hp v) ((RUN_QUEUE_SIZE - 1) * 4) = Some (say (PNotEnoughSpace 512 THIS_FILE) (hp v), NULL)" 
    by (rule myallocate_lib_None [OF lr]) (use fit in \<open>simp only: array_fits_def de_Morgan_disj not_not\<close>)
  then show ?thesis using fit f by (simp add: with_array_def array_fits_def)
qed

text \<open>So a call that returns has found its array, and the scheduler has done what it does alone.\<close>

lemma mem_called:
  assumes i: "mem_inv B N D A H M v" "coalesced B" and r: "with_array f v = Some v'"
    and f: "f = timerHandler \<or> f = terminationHandler \<or> f = my_pthread_yield \<or> (\<exists>r. f = my_pthread_exit r) \<or> (\<exists>t. f = join_wait t)"
  obtains h s where "f (sc v) = Some s" "v' = v\<lparr>hp := h, sc := s\<rparr>" "mem_inv B N D A H M (v\<lparr>hp := h\<rparr>)"
proof -
  have up: "scd_up (sc v)" by (rule mem_current [OF i(1)])
  have fit: "array_fits B v"
  proof (rule ccontr)
    assume n: "\<not> array_fits B v"
    then have "f ((sc v)\<lparr>lib_room := False\<rparr>) = None" using calls_no_array [of "(sc v)\<lparr>lib_room := False\<rparr>"] f up by (auto simp: array_fits_def)
    then show False using mem_no_array [OF i(1) n] r by simp
  qed
  obtain h where h: "\<And>f. with_array f v = map_option (\<lambda>s. v\<lparr>hp := h, sc := s\<rparr>) (f (sc v))" "mem_inv B N D A H M (v\<lparr>hp := h\<rparr>)" by (rule mem_array [OF i fit]) (rule that)
  then show thesis using that r by auto
qed

end
