(* ===== verification/PtStart.thy ===== *)
theory PtStart
  imports PtLibrary
begin

text \<open>
  The start of a program: the set-up of memory, main alone, whose requests go to the library's pages,
  \<open>initialize\<close> with the blocks the allocator gives it, and \<open>my_pthread_create\<close> with its three requests.
\<close>

section \<open>The start of a program\<close>

text \<open>Pages of a size the library can use: its part of \<open>memory\<close> has room for the two page tables.\<close>

definition boot_ok :: "vm \<Rightarrow> bool" where
  "boot_ok v \<longleftrightarrow> 0 < memory (hp v) \<and> PT_BLOCK_SIZE \<le> PAGESIZE (hp v) \<and> LIBPAGES * PAGESIZE (hp v) \<le> PT_MAX_MEMORY \<and>
     4 * ndisk v + 4 * npages v + 3 * PT_BLOCK_SIZE \<le> LIBPAGES * PAGESIZE (hp v) \<and> \<not> timerSet (sc v)"

text \<open>First fit over the library's pages for the two page tables.\<close>

definition table_blocks :: "vm \<Rightarrow> (addr list \<times> ablock list) option" where
  "table_blocks v = ff_allocs (memory (hp v)) [4 * ndisk v, 4 * npages v] [(LIBPAGES * PAGESIZE (hp v) - PT_BLOCK_SIZE, True)]"

lemma setUpMemory_ok:
  assumes b: "boot_ok v"
  obtains v' m where "setUpMemory v = Some v'" "hp v' = (hp v)\<lparr>pt_root := memory (hp v), pt_bytes := m\<rparr>"
    "sc v' = (sc v)\<lparr>pages := replicate (npages v) 1, prot := (\<lambda>_. True)\<rparr>" "diskPages v' = replicate (ndisk v) 1"
    "table_blocks v = Some (ps, B) \<Longrightarrow> lib_rep (hp v') (memory (hp v)) B"
proof -
  let ?h = "pt_initializeRoot (hp v)" and ?a = "memory (hp v)" and ?z = "LIBPAGES * PAGESIZE (hp v)"
  have b': "0 < ?a" "0 < PAGESIZE (hp v)" "?z \<le> PT_MAX_MEMORY" "4 * ndisk v + 4 * npages v + 3 * PT_BLOCK_SIZE \<le> ?z" "\<not> timerSet (sc v)"
    using b less_le_trans [OF PT_BLOCK_SIZE_pos(1), of "PAGESIZE (hp v)"] by (auto simp: boot_ok_def)
  have h: "lib_rep ?h ?a [(?z - PT_BLOCK_SIZE, True)]" by (rule pt_initializeRoot_rep [OF b'(1-3)])
  obtain m0 where m0: "?h = (hp v)\<lparr>pt_root := ?a, pt_bytes := m0\<rparr>" by (simp add: pt_initializeRoot_def Let_def)
  have f1: "ff_alloc PT_BLOCK_SIZE ?a (4 * ndisk v) [(?z - PT_BLOCK_SIZE, True)] = Some (?a + PT_BLOCK_SIZE, [(4 * ndisk v, False), (?z - PT_BLOCK_SIZE - 4 * ndisk v - PT_BLOCK_SIZE, True)])"
    using b'(4) by (auto simp: PT_BLOCK_SIZE_def)
  obtain h1 m1 where h1: "myallocate_lib THIS_FILE 1392 ?h (4 * ndisk v) = Some (h1, ?a + PT_BLOCK_SIZE)" "h1 = put_bytes ?h m1"
    "lib_rep h1 ?a [(4 * ndisk v, False), (?z - PT_BLOCK_SIZE - 4 * ndisk v - PT_BLOCK_SIZE, True)]"
    using myallocate_lib_Some [OF h f1, of THIS_FILE 1392] by blast
  let ?p = "?a + PT_BLOCK_SIZE + 4 * ndisk v + PT_BLOCK_SIZE"
  obtain cs where f2: "ff_alloc PT_BLOCK_SIZE ?a (4 * npages v) [(4 * ndisk v, False), (?z - PT_BLOCK_SIZE - 4 * ndisk v - PT_BLOCK_SIZE, True)] = Some (?p, cs)"
    using b'(4) by (fastforce simp: PT_BLOCK_SIZE_def)
  obtain h2 m2 where h2: "myallocate_lib THIS_FILE 1402 h1 (4 * npages v) = Some (h2, ?p)" "h2 = put_bytes h1 m2" "lib_rep h2 ?a cs"
    using myallocate_lib_Some [OF h1(3) f2, of THIS_FILE 1402] by blast
  let ?v = "v\<lparr>hp := h2, diskPages := replicate (ndisk v) 1, sc := (sc v)\<lparr>pages := replicate (npages v) 1, prot := (\<lambda>_. True)\<rparr>\<rparr>"
  have c1: "lib_call 1392 (4 * ndisk v) (v\<lparr>hp := ?h\<rparr>) = Some (v\<lparr>hp := h1\<rparr>, ?a + PT_BLOCK_SIZE)"
    using b'(5) h1(1) by (simp add: lib_call_def hold_timer_def serve_def resume_timer_def)
  have sz: "npages (v\<lparr>hp := h\<rparr>) = npages v" "ndisk (v\<lparr>hp := h\<rparr>) = ndisk v" "npages (v\<lparr>hp := h, diskPages := d\<rparr>) = npages v" if "PAGESIZE h = PAGESIZE (hp v)" for h d
    using that by (simp_all add: npages_def ndisk_def)
  have P: "PAGESIZE h1 = PAGESIZE (hp v)" "PAGESIZE h2 = PAGESIZE (hp v)" using h1(2) h2(2) m0 by simp_all
  have c2: "lib_call 1402 (4 * npages v) (v\<lparr>hp := h1, diskPages := replicate (ndisk v) 1\<rparr>) = Some (v\<lparr>hp := h2, diskPages := replicate (ndisk v) 1\<rparr>, ?p)"
    using b'(5) h2(1) by (simp add: lib_call_def hold_timer_def serve_def resume_timer_def)
  have run: "setUpMemory v = Some ?v" using c1 c2 sz [OF P(1)] sz [OF P(2)] b'(1) by (simp add: setUpMemory_def sz(2))
  have hv: "hp ?v = (hp v)\<lparr>pt_root := ?a, pt_bytes := m2\<rparr>" using h1(2) h2(2) m0 by simp
  have "lib_rep (hp ?v) ?a B" if "table_blocks v = Some (ps, B)"
    using that f2 h2(3) unfolding table_blocks_def ff_allocs.simps f1 by auto
  then show thesis by (intro that [OF run hv]) simp_all
qed

text \<open>All slots free and accessible: nobody has a page.\<close>

lemma fresh_tables:
  assumes pg: "pages (sc v) = replicate (npages v) 1" "diskPages v = replicate (ndisk v) 1" "\<And>i. prot (sc v) i" and up: "scd_up (sc v)" "PT_BLOCK_SIZE \<le> PAGESIZE (hp v)"
    and o: "owner v \<in> user_ids" "current_thread v \<noteq> None"
  shows "running user_ids (owner v) v" "loose v" "u \<in> user_ids \<Longrightarrow> virt u j v = None"
proof -
  have e: "slot_ok v s \<Longrightarrow> entry v s = 1" for s using pg by (cases s) (auto simp: slot_at.simps)
  have l: "\<not> lives v u k s" for u k s using e [of s] by (auto simp: lives_def)
  have "0 \<notin> user_ids" by (simp add: user_ids_def)
  moreover have "vm_ok v" using up less_le_trans [OF PT_BLOCK_SIZE_pos(1) up(2)] pg by (simp add: vm_ok_def)
  ultimately have p: "paged user_ids v" using e l by (auto simp: paged_def)
  moreover have "shielded user_ids (owner v) v" using e l by (auto simp: shielded_def)
  ultimately show "running user_ids (owner v) v" using o up(2) by (simp add: running_def)
  show "loose v" using pg(3) by (simp add: loose_def)
  show "virt u j v = None" if "u \<in> user_ids" using virt_lives [OF p that] l by blast
qed

text \<open>The sizes of the library's structures are the compiler's.\<close>

datatype ctype = T_scheduler | T_queue | T_itimerval | T_list | T_threadList | T_ucontext | T_pthread | T_node

definition STACK_SIZE :: nat where
  "STACK_SIZE = 18192"

text \<open>The requests of \<open>initialize\<close>, in order; the last is that of \<open>createNode\<close>.\<close>

definition init_requests :: "(ctype \<Rightarrow> nat) \<Rightarrow> (int \<times> nat) list" where
  "init_requests sizeof =
     (675, sizeof T_scheduler) #
     concat (map (\<lambda>i. (683, sizeof T_queue) # (if i < RUN_QUEUE_SIZE - 1 then [(689, sizeof T_queue)] else [])) [0..<RUN_QUEUE_SIZE]) @
     [(699, sizeof T_itimerval), (701, sizeof T_list), (704, sizeof T_threadList), (711, sizeof T_ucontext), (713, STACK_SIZE),
      (720, sizeof T_ucontext), (723, sizeof T_pthread), (236, sizeof T_node)]"

definition start_library :: "(ctype \<Rightarrow> nat) \<Rightarrow> vm \<Rightarrow> vm option" where
  "start_library sizeof v = do {
     v \<leftarrow> (if pt_root (hp v) = NULL then setUpMemory v else Some v);
     (h, as) \<leftarrow> lib_allocs (init_requests sizeof) (hp v);
     s \<leftarrow> initialize (\<lambda>k. as ! k) (sc v);
     Some (v\<lparr>hp := h, sc := s\<rparr>)
   }"

lemma init_requests_length: "length (init_requests sizeof) = 18"
  by (simp add: init_requests_def RUN_QUEUE_SIZE_def upt_rec)

lemma answers_ok:
  assumes "distinct ps" "length ps = 18" "\<forall>p \<in> set ps. 0 < p"
  shows "alloc_ok (\<lambda>k. ps ! k)"
proof -
  have "ps ! k \<noteq> NULL" if "k < 18" for k using assms(2,3) that by (metis less_irrefl nth_mem)
  moreover have "inj_on (\<lambda>k. ps ! k) {..<18}" using assms(1,2) by (auto intro: inj_onI simp: nth_eq_iff_index_eq)
  then have "inj_on (\<lambda>k. ps ! k) (set (filter (\<lambda>k. k \<noteq> 14) [0..<18]))" by (rule inj_on_subset) auto
  ultimately show ?thesis by (auto simp: alloc_ok_def alloc_fails_def distinct_map)
qed

text \<open>
  Before the first thread is created there is no scheduler: main's requests are passed on to the library
  allocator, and so are its releases.  The first request sets memory up.
\<close>

inductive main_alone :: "ablock list \<Rightarrow> vm \<Rightarrow> bool" where
  set_up: "boot_ok v0 \<Longrightarrow> pt_root (hp v0) = NULL \<Longrightarrow> mainPageNum (sc v0) = 0 \<Longrightarrow> lib_room (sc v0) \<Longrightarrow> \<not> scd_up (sc v0) \<Longrightarrow> table_blocks v0 = Some (ps, B) \<Longrightarrow>
    setUpMemory v0 = Some v \<Longrightarrow> main_alone B v"
| request: "main_alone B v \<Longrightarrow> ff_alloc PT_BLOCK_SIZE (memory (hp v)) n B = Some (p, B') \<Longrightarrow> myallocate fl line n THREADREQ v = Some (v', q) \<Longrightarrow> main_alone B' v'"
| refused: "main_alone B v \<Longrightarrow> ff_alloc PT_BLOCK_SIZE (memory (hp v)) n B = None \<Longrightarrow> myallocate fl line n THREADREQ v = Some (v', q) \<Longrightarrow> main_alone B v'"
| release: "main_alone B v \<Longrightarrow> (q, z) \<in> set (live PT_BLOCK_SIZE (memory (hp v)) B) \<Longrightarrow> 0 < z \<Longrightarrow> ff_free PT_BLOCK_SIZE (memory (hp v)) (q - PT_BLOCK_SIZE) B = Some B' \<Longrightarrow>
    mydeallocate fl line q THREADREQ v = Some v' \<Longrightarrow> main_alone B' v'"
| use: "main_alone B v \<Longrightarrow> (q, z) \<in> set (live PT_BLOCK_SIZE (memory (hp v)) B) \<Longrightarrow> (\<And>x. \<not> (q \<le> x \<and> x < q + z) \<Longrightarrow> m x = pt_bytes (hp v) x) \<Longrightarrow> main_alone B (set_bytes m v)"

definition alone_inv :: "ablock list \<Rightarrow> vm \<Rightarrow> bool" where
  "alone_inv B v \<longleftrightarrow> lib_rep (hp v) (memory (hp v)) B \<and> pages (sc v) = replicate (npages v) 1 \<and> diskPages v = replicate (ndisk v) 1 \<and> (\<forall>i. prot (sc v) i) \<and>
     \<not> timerSet (sc v) \<and> \<not> scd_up (sc v) \<and> mainPageNum (sc v) = 0 \<and> lib_room (sc v) \<and> PT_BLOCK_SIZE \<le> PAGESIZE (hp v) \<and> 0 < memory (hp v)"

lemma alone_heap:
  assumes "alone_inv B v" "lib_rep h (memory h) B'" "memory h = memory (hp v)" "PAGESIZE h = PAGESIZE (hp v)"
  shows "alone_inv B' (v\<lparr>hp := h\<rparr>)"
  using assms by (simp add: alone_inv_def npages_def ndisk_def)

lemma alone_request:
  assumes i: "alone_inv B v"
  shows "ff_alloc PT_BLOCK_SIZE (memory (hp v)) n B = Some (p, B') \<Longrightarrow> \<exists>v'. myallocate fl line n THREADREQ v = Some (v', p) \<and> alone_inv B' v'"
    "ff_alloc PT_BLOCK_SIZE (memory (hp v)) n B = None \<Longrightarrow> \<exists>v'. myallocate fl line n THREADREQ v = Some (v', NULL) \<and> alone_inv B v'"
proof -
  have lr: "lib_rep (hp v) (memory (hp v)) B" "pt_root (hp v) \<noteq> NULL" using i by (auto simp: alone_inv_def lib_rep_def)
  have st: "myallocate fl line n THREADREQ v = map_option (\<lambda>(h, p). (v\<lparr>hp := h\<rparr>, p)) (myallocate_lib THIS_FILE 1542 (hp v) n)"
    using i lr(2) by (auto simp: alone_inv_def myallocate_def hold_timer_def resume_timer_def lib_call_def serve_def THREADREQ_def DISKREQ_def LIBRARYREQ_def split: option.split)
  show "\<exists>v'. myallocate fl line n THREADREQ v = Some (v', p) \<and> alone_inv B' v'" if f: "ff_alloc PT_BLOCK_SIZE (memory (hp v)) n B = Some (p, B')"
  proof -
    obtain m where m: "myallocate_lib THIS_FILE 1542 (hp v) n = Some (put_bytes (hp v) m, p)" "lib_rep (put_bytes (hp v) m) (memory (hp v)) B'" using myallocate_lib_Some [OF lr(1) f] by blast
    then show ?thesis using alone_heap [OF i, of "put_bytes (hp v) m" B'] st by simp
  qed
  show "\<exists>v'. myallocate fl line n THREADREQ v = Some (v', NULL) \<and> alone_inv B v'" if f: "ff_alloc PT_BLOCK_SIZE (memory (hp v)) n B = None"
    using alone_heap [OF i, of "say (PNotEnoughSpace 1542 THIS_FILE) (hp v)" B] myallocate_lib_None [OF lr(1) f, of THIS_FILE 1542] lr(1) st by (simp add: lib_rep_def pt_arena_def)
qed

lemma alone_release:
  assumes i: "alone_inv B v" and l: "(q, z) \<in> set (live PT_BLOCK_SIZE (memory (hp v)) B)" "0 < z" and f: "ff_free PT_BLOCK_SIZE (memory (hp v)) (q - PT_BLOCK_SIZE) B = Some B'"
  shows "\<exists>v'. mydeallocate fl line q THREADREQ v = Some v' \<and> alone_inv B' v'"
proof -
  have lr: "lib_rep (hp v) (memory (hp v)) B" using i by (simp add: alone_inv_def)
  note b = live_bounds [OF l(1)]
  have up: "memory (hp v) + span PT_BLOCK_SIZE B = userSpace v" "userSpace v \<le> memory (hp v) + PT_MAX_MEMORY" using lr by (simp_all add: lib_rep_def pt_arena_def userSpace_def)
  have hd: "ok_hdr (hp v) (q - PT_BLOCK_SIZE)" "accessible v (q - PT_BLOCK_SIZE)" "accessible v (q - PT_BLOCK_SIZE + 3)" "inMemSpace (hp v) q"
    using b up l(2) by (auto simp: ok_hdr_def accessible_def inMemSpace_def PT_BLOCK_SIZE_def)
  have tk: "getBlockIsF (load32 (pt_bytes (hp v)) (q - PT_BLOCK_SIZE)) \<noteq> 1"
  proof -
    have "\<not> hdr_free (pt_bytes (hp v)) (q - PT_BLOCK_SIZE)" using lr pt_hdr.live_head_taken [OF _ l(1)] by (simp add: lib_rep_def)
    then show ?thesis by (simp add: hdr_free_def)
  qed
  have fp: "findPage 1 v = 0" using i by (auto simp: findPage_def alone_inv_def first_from_None split: option.split dest: first_from_Some [THEN iffD1])
  obtain m where m: "mydeallocate_lib THIS_FILE 1782 (hp v) q = Some (put_bytes (hp v) m)" "lib_rep (put_bytes (hp v) m) (memory (hp v)) B'"
    using mydeallocate_lib_ok [OF lr l f, of THIS_FILE 1782] by blast
  have "mydeallocate fl line q THREADREQ v = Some (v\<lparr>hp := put_bytes (hp v) m\<rparr>)"
    using i hd tk fp m(1) touch_hdrs_open [of v "[q - PT_BLOCK_SIZE]"]
    by (simp add: alone_inv_def mydeallocate_def mydeallocate_thread_def mydeallocate_request_def hold_timer_def resume_timer_def Let_def THREADREQ_def LIBRARYREQ_def)
  then show ?thesis using alone_heap [OF i, of "put_bytes (hp v) m" B'] m(2) by simp
qed

lemma main_alone_inv: "main_alone B v \<Longrightarrow> alone_inv B v"
proof (induction rule: main_alone.induct)
  case (set_up v0 ps B v)
  obtain v1 m where v1: "setUpMemory v0 = Some v1" "hp v1 = (hp v0)\<lparr>pt_root := memory (hp v0), pt_bytes := m\<rparr>" "sc v1 = (sc v0)\<lparr>pages := replicate (npages v0) 1, prot := (\<lambda>_. True)\<rparr>"
    "diskPages v1 = replicate (ndisk v0) 1" "lib_rep (hp v1) (memory (hp v0)) B" using setUpMemory_ok [OF set_up(1), of ps B] set_up(6) by metis
  then show ?case using set_up by (simp add: alone_inv_def boot_ok_def npages_def ndisk_def)
next
  case (request B v n p B' fl line v' q)
  then show ?case using alone_request(1) [OF request.IH request.hyps(2), of fl line] by auto
next
  case (refused B v n fl line v' q)
  then show ?case using alone_request(2) [OF refused.IH refused.hyps(2), of fl line] by auto
next
  case (release B v q z B' fl line v')
  then show ?case using alone_release [OF release.IH release.hyps(2-4), of fl line] by auto
next
  case (use B v q z m)
  have r: "lib_rep (hp v) (memory (hp v)) B" using use.IH by (simp add: alone_inv_def)
  have c: "pt_chain (pt_bytes (hp v)) (memory (hp v)) B" using r by (simp add: lib_rep_def)
  have "pt_chain m (memory (hp v)) B" by (rule pt_hdr.chain_live [OF c use.hyps(2)]) (rule use.hyps(3), linarith)
  then have "lib_rep (put_bytes (hp v) m) (memory (hp v)) B" using r by (simp add: lib_rep_def pt_arena_def)
  then show ?case using alone_heap [OF use.IH, of "put_bytes (hp v) m" B] by (simp add: set_bytes_def)
qed

lemma main_alone_coalesced: "main_alone B v \<Longrightarrow> coalesced B"
proof (induction rule: main_alone.induct)
  case (set_up v0 ps B v)
  have "ff_allocs (memory (hp v0)) [4 * ndisk v0, 4 * npages v0] [(LIBPAGES * PAGESIZE (hp v0) - PT_BLOCK_SIZE, True)] = Some (ps, B)" using set_up(6) by (simp only: table_blocks_def)
  then show ?case by (rule ff_allocs_coalesced) simp
qed (auto elim: ff_alloc_coalesced ff_free_coalesced [OF PT_BLOCK_SIZE_pos(1)])

text \<open>The first thread is created: the library starts.\<close>

lemma mem_start:
  assumes al: "alone_inv B0 v0" and f: "ff_allocs (memory (hp v0)) (map snd (init_requests sizeof)) B0 = Some (ps, B)"
  obtains v where "start_library sizeof v0 = Some v" "mem_inv B {ps ! 17} {ps ! 16} {ps ! 16} (\<lambda>_. []) (\<lambda>_ _. None) v" "current_thread v = Some (ps ! 16)" "loose v" "free_slots v = {s. slot_ok v s}"
    "threadNum (sc v) = 2" "cycles (sc v) = 0" "memory (hp v) = memory (hp v0)" "PAGESIZE (hp v) = PAGESIZE (hp v0)"
proof -
  let ?a = "memory (hp v0)"
  have v0: "lib_rep (hp v0) ?a B0" "pages (sc v0) = replicate (npages v0) 1" "diskPages v0 = replicate (ndisk v0) 1" "\<And>i. prot (sc v0) i" "mainPageNum (sc v0) = 0" "lib_room (sc v0)"
    "PT_BLOCK_SIZE \<le> PAGESIZE (hp v0)" "0 < ?a" "pt_root (hp v0) = ?a" using al by (simp_all add: alone_inv_def lib_rep_def)
  note fl = ff_allocs_live [OF f]
  have len: "length ps = 18" using fl(2) init_requests_length by simp
  have a: "alloc_ok (\<lambda>k. ps ! k)" using fl(3,5) len by (intro answers_ok) auto
  obtain m' where m': "lib_allocs (init_requests sizeof) (hp v0) = Some (put_bytes (hp v0) m', ps)" "lib_rep (put_bytes (hp v0) m') ?a B"
    using lib_allocs_ok [OF v0(1) f] by blast
  obtain s' where s': "initialize (\<lambda>k. ps ! k) (sc v0) = Some s'" "sched_inv s' (\<lambda>_. []) []" by (rule initialize_inv [OF a v0(6)]) (rule that)
  note ff = initialize_fields [OF s'(1)]
  let ?v = "v0\<lparr>hp := put_bytes (hp v0) m', sc := s'\<rparr>"
  have st: "start_library sizeof v0 = Some ?v" using v0(8,9) m'(1) s'(1) by (simp add: start_library_def)
  have sz: "npages ?v = npages v0" "ndisk ?v = ndisk v0" by (simp_all add: npages_def ndisk_def)
  have g: "pages s' = pages (sc v0)" "prot s' = prot (sc v0)" "pageNum (pthreads s' (ps ! 16)) = mainPageNum (sc v0)"
    using s'(1) by (auto simp: initialize_def createNode_def upd_thread_def setitimer_def Let_def lib_request_same split: if_split_asm)
  have nz: "ps ! 17 \<noteq> NULL" "ps ! 16 \<noteq> NULL" using a unfolding alloc_ok_def alloc_fails_def by (auto dest: bspec [of _ _ 17] bspec [of _ _ 16])
  have w: "(1 :: uint32) \<in> user_ids" by (simp add: user_ids_def)
  have o: "owner ?v = 1" "current_thread ?v = Some (ps ! 16)" using ff nz by (simp_all add: owner_def current_thread_def)
  have t: "running user_ids (owner ?v) ?v" "loose ?v" "\<And>u j. u \<in> user_ids \<Longrightarrow> virt u j ?v = None"
    using fresh_tables [of ?v] g v0 sz ff(9) o w by simp_all
  have "accounted s' {ps ! 17} {ps ! 16} {ps ! 16}" using s'(2) ff by (auto simp: accounted_def everyone_def intro!: exI [of _ "\<lambda>_. []"] exI [of _ "[]"])
  moreover have "thread_heap (ps ! 16) [] (\<lambda>_. None) ?v" using t(3) [OF w] g(3) v0(5) ff(15) by (simp add: thread_heap_def)
  moreover have "live_ids {ps ! 16} {ps ! 16} ?v = user_ids" by (simp add: live_ids_def)
  moreover have "(ps ! 17, snd (init_requests sizeof ! 17)) \<in> set (zip ps (map snd (init_requests sizeof)))" using len init_requests_length by (auto simp: set_zip intro!: exI [of _ 17])
  then have "lib_heap {ps ! 17} B ?v" using m'(2) fl(1) by (force simp: lib_heap_def)
  ultimately have i: "mem_inv B {ps ! 17} {ps ! 16} {ps ! 16} (\<lambda>_. []) (\<lambda>_ _. None) ?v" using t v0 ff by (simp add: mem_inv_def)
  have "getPageIsF (entry ?v s) = 1" if "slot_ok ?v s" for s using that g(1) v0(2,3) sz by (cases s) (auto simp: slot_at.simps)
  then have "free_slots ?v = {s. slot_ok ?v s}" by (auto simp: free_slots_def)
  then show thesis using that [OF st i] o(2) t(2) ff by simp
qed

section \<open>A new thread\<close>

text \<open>\<open>my_pthread_create\<close> with its requests: a context, a stack, and the node, each unless an earlier one failed.\<close>

definition create_thread :: "(ctype \<Rightarrow> nat) \<Rightarrow> addr \<Rightarrow> vm \<Rightarrow> (int \<times> vm) option" where
  "create_thread sizeof thread v = do {
     v \<leftarrow> (if scd_up (sc v) then Some v else start_library sizeof v);
     (h, newCxt) \<leftarrow> myallocate_lib THIS_FILE 752 (hp v) (sizeof T_ucontext);
     (h, stack) \<leftarrow> (if newCxt = NULL then Some (h, NULL) else myallocate_lib THIS_FILE 761 h STACK_SIZE);
     (h, newNode) \<leftarrow> (if newCxt = NULL \<or> stack = NULL then Some (h, NULL) else myallocate_lib THIS_FILE 236 h (sizeof T_node));
     (r, s) \<leftarrow> my_pthread_create (\<lambda>_. NULL) newCxt stack newNode thread (sc v);
     Some (r, v\<lparr>hp := h, sc := s\<rparr>)
   }"

definition thread_sizes :: "(ctype \<Rightarrow> nat) \<Rightarrow> nat list" where
  "thread_sizes sizeof = [sizeof T_ucontext, STACK_SIZE, sizeof T_node]"

lemma mem_new_thread:
  assumes i: "mem_inv B N D A H M v" and f: "ff_allocs (memory (hp v)) (thread_sizes sizeof) B = Some ([c, st, n], B')"
    and th: "th \<noteq> NULL" "th \<notin> D" and room: "threadNum (sc v) < 2 ^ 8"
  obtains v' where "create_thread sizeof th v = Some (0, v')" "mem_inv B' (insert n N) (insert th D) (insert th A) (H(th := [])) (M(th := \<lambda>_. None)) v'"
    "ready (sc v')" "current_thread v' = current_thread v" "memory (hp v') = memory (hp v)"
proof -
  let ?a = "memory (hp v)"
  note fl = ff_allocs_live [OF f]
  have nz: "c \<noteq> NULL" "st \<noteq> NULL" "n \<noteq> NULL" using fl(5) by auto
  have lr: "lib_rep (hp v) ?a B" "N \<subseteq> fst ` set (live PT_BLOCK_SIZE ?a B)" and ac: "accounted (sc v) N D A" using i by (simp_all add: mem_inv_def lib_heap_def)
  have nN: "n \<notin> N" using fl(4) lr(2) by auto
  have N': "insert n N \<subseteq> fst ` set (live PT_BLOCK_SIZE ?a B')" using fl(1) lr(2) by (force simp: thread_sizes_def)
  obtain m where m: "lib_allocs [(752, sizeof T_ucontext), (761, STACK_SIZE), (236, sizeof T_node)] (hp v) = Some (put_bytes (hp v) m, [c, st, n])"
    "lib_rep (put_bytes (hp v) m) ?a B'" "\<forall>x \<ge> lib_end (hp v). m x = pt_bytes (hp v) x"
    using lib_allocs_ok [OF lr(1), of "[(752, sizeof T_ucontext), (761, STACK_SIZE), (236, sizeof T_node)]" "[c, st, n]" B'] f by (auto simp: thread_sizes_def)
  let ?v = "set_bytes m v"
  have i1: "mem_inv B' N D A H M ?v" by (rule mem_library [OF i _ m(2)]) (use m(3) N' in \<open>simp_all add: userSpace_def\<close>)
  obtain L T where s: "sched_inv (sc v) L T" "insert (current (sc v)) (everyone L) \<subseteq> N" "set T \<union> A \<subseteq> D" "\<forall>x \<in> insert (current (sc v)) (everyone L). threadID (nodes (sc v) x) \<in> A"
    using ac unfolding accounted_def by blast
  have fr: "fresh_thread (sc v) L T th n" using s(2-4) th nz nN by (auto simp: fresh_thread_def)
  obtain s' where s': "my_pthread_create (\<lambda>_. NULL) c st n th (sc v) = Some (0, s')" "sched_inv s' (put (Run 0) n L) (th # T)" "current s' = current (sc v)"
    "\<forall>x. threadID (nodes s' x) = (if x = n then th else threadID (nodes (sc v) x))"
    by (rule create_inv [OF s(1) fr nz(1,2)]) (rule that)
  have up: "scd_up (sc v)" "scd_up s'" using s(1) s'(2) by (simp_all add: sched_inv_def)
  have "create_thread sizeof th v = Some (0, ?v\<lparr>sc := s'\<rparr>)"
    using m(1) nz s'(1) up(1) by (auto simp: create_thread_def set_bytes_def split: option.split_asm)
  moreover have "mem_inv B' (insert n N) (insert th D) (insert th A) (H(th := [])) (M(th := \<lambda>_. None)) (?v\<lparr>sc := s'\<rparr>)"
    by (rule mem_create [OF i1 nz(3) nN th]) (use N' room s'(1) in \<open>simp_all add: set_bytes_def\<close>)
  moreover have "ready s'" using ready_layout [OF s'(2)] by (auto simp: put_def)
  moreover have "current (sc v) \<noteq> n" using s(2) nN by auto
  then have "current_thread (?v\<lparr>sc := s'\<rparr>) = current_thread v" using s'(3,4) up by (simp add: current_thread_def)
  ultimately show thesis using that [of "?v\<lparr>sc := s'\<rparr>"] by simp
qed

text \<open>
  When the context or the stack does not fit, the call returns 1 and no thread is made; a context
  that was given out stays taken.  The answer for the node is not looked at: when it is a null
  pointer, the call writes through it.
\<close>

lemma mem_no_context:
  assumes i: "mem_inv B N D A H M v" and f: "ff_alloc PT_BLOCK_SIZE (memory (hp v)) (sizeof T_ucontext) B = None"
  obtains v' where "create_thread sizeof th v = Some (1, v')" "mem_inv B N D A H M v'"
proof -
  have up: "scd_up (sc v)" and r: "lib_rep (hp v) (memory (hp v)) B" using i by (simp_all add: mem_inv_def lib_heap_def accounted_def sched_inv_def) blast
  let ?h = "say (PNotEnoughSpace 752 THIS_FILE) (hp v)" and ?s = "lib_request (pause_timer (sc v))"
  have "create_thread sizeof th v = Some (1, v\<lparr>hp := ?h, sc := unpause_timer ?s\<rparr>)"
    using up myallocate_lib_None [OF r f] by (simp add: create_thread_def my_pthread_create_def Let_def)
  moreover have "mem_inv B N D A H M (v\<lparr>hp := ?h, sc := unpause_timer ?s\<rparr>)"
    using mem_timer [OF mem_timer [OF mem_timer [OF mem_say [OF i]]], of pause_timer lib_request unpause_timer] by simp
  ultimately show thesis by (rule that)
qed

lemma mem_no_stack:
  assumes i: "mem_inv B N D A H M v" and f: "ff_alloc PT_BLOCK_SIZE (memory (hp v)) (sizeof T_ucontext) B = Some (c, B')" "ff_alloc PT_BLOCK_SIZE (memory (hp v)) STACK_SIZE B' = None"
  obtains v' where "create_thread sizeof th v = Some (1, v')" "mem_inv B' N D A H M v'"
proof -
  have up: "scd_up (sc v)" and r: "lib_rep (hp v) (memory (hp v)) B" "N \<subseteq> fst ` set (live PT_BLOCK_SIZE (memory (hp v)) B)" using i by (simp_all add: mem_inv_def lib_heap_def accounted_def sched_inv_def) blast
  obtain m where m: "myallocate_lib THIS_FILE 752 (hp v) (sizeof T_ucontext) = Some (put_bytes (hp v) m, c)" "lib_rep (put_bytes (hp v) m) (memory (hp v)) B'" "\<forall>x \<ge> lib_end (hp v). m x = pt_bytes (hp v) x"
    using myallocate_lib_Some [OF r(1) f(1), of THIS_FILE 752] by blast
  have c: "c \<noteq> NULL" using ff_alloc_bounds [OF f(1)] PT_BLOCK_SIZE_pos(1) by linarith
  have i1: "mem_inv B' N D A H M (set_bytes m v)" by (rule mem_library [OF i _ m(2)]) (use m(3) r(2) ff_alloc_live [OF f(1)] in \<open>auto simp: userSpace_def\<close>)
  let ?h = "say (PNotEnoughSpace 761 THIS_FILE) (put_bytes (hp v) m)" and ?s = "lib_request (lib_request (pause_timer (sc v)))"
  have "create_thread sizeof th v = Some (1, v\<lparr>hp := ?h, sc := unpause_timer ?s\<rparr>)"
    using up m(1) c myallocate_lib_None [OF m(2) f(2)] by (simp add: create_thread_def my_pthread_create_def Let_def)
  moreover have "mem_inv B' N D A H M (v\<lparr>hp := ?h, sc := unpause_timer ?s\<rparr>)"
    using mem_timer [OF mem_timer [OF mem_timer [OF mem_timer [OF mem_say [OF i1]]]], of pause_timer lib_request lib_request unpause_timer] by (simp add: set_bytes_def)
  ultimately show thesis by (rule that)
qed

lemma no_node_faults:
  assumes i: "mem_inv B N D A H M v" and f: "ff_allocs (memory (hp v)) [sizeof T_ucontext, STACK_SIZE] B = Some ([c, st], B')" "ff_alloc PT_BLOCK_SIZE (memory (hp v)) (sizeof T_node) B' = None"
  shows "create_thread sizeof th v = None"
proof -
  have up: "scd_up (sc v)" and r: "lib_rep (hp v) (memory (hp v)) B" using i by (simp_all add: mem_inv_def lib_heap_def accounted_def sched_inv_def) blast
  obtain m where m: "lib_allocs [(752, sizeof T_ucontext), (761, STACK_SIZE)] (hp v) = Some (put_bytes (hp v) m, [c, st])" "lib_rep (put_bytes (hp v) m) (memory (hp v)) B'"
    using lib_allocs_ok [OF r, of "[(752, sizeof T_ucontext), (761, STACK_SIZE)]" "[c, st]" B'] f(1) by auto
  have nz: "c \<noteq> NULL" "st \<noteq> NULL" using ff_allocs_live(5) [OF f(1)] by auto
  have "my_pthread_create a c st NULL th (sc v) = None" for a using up nz by (simp add: my_pthread_create_def Let_def createNode_def addThread_def bind_eq_None_conv split: if_split)
  then show ?thesis using m(1) nz up myallocate_lib_None [OF m(2) f(2), of THIS_FILE 236] by (auto simp: create_thread_def split: option.split_asm)
qed

end
