(* ===== verification/PtProgram.thy ===== *)
theory PtProgram
  imports PtStart
begin

text \<open>
  Programs of threads: how they start, the states a program can reach, and what holds in all of them.
\<close>

section \<open>Reachable states\<close>

text \<open>
  The states of a disciplined program.  It starts with main alone and then with the start of the library; then, in any
  order, time passes, the library requests, uses and gives back blocks of its own pages (other than the nodes of threads, which
  the code never frees), the running thread touches a byte, stores
  a byte in one of its blocks, requests or frees a block, or calls for a new thread, threads are
  switched by the timer, a yield or a join, and a thread ends, by a call or because its function returns.
  \<open>B\<close>, \<open>H\<close> and \<open>M\<close> are what memory should hold: the block lists first fit gives
  the library and the threads, and the last bytes stored.

  Discipline means these conditions, none of which the code checks:
  \<^item> a thread requests only what is \<open>servable\<close>: its first page is in slot 0 of memory or of the swap file (or it has none yet); and
    where the request needs pages, there are enough of them, none of the free pages in memory is protected, and the last block
    of the heap is such that the pages the code asks for suffice;
  \<^item> a thread frees a block only while its first page is in slot 0;
  \<^item> a thread joins, and ends, only while another thread is ready, and the timer does not interrupt a thread that waits when none is;
  \<^item> threads have descriptors of their own, and there are at most 255.
\<close>

inductive mem_reach :: "ablock list \<Rightarrow> addr set \<Rightarrow> addr set \<Rightarrow> addr set \<Rightarrow> (addr \<Rightarrow> ablock list) \<Rightarrow> (addr \<Rightarrow> addr \<Rightarrow> byte option) \<Rightarrow> vm \<Rightarrow> bool" where
  start: "main_alone B0 v0 \<Longrightarrow> ff_allocs (memory (hp v0)) (map snd (init_requests sizeof)) B0 = Some (ps, B) \<Longrightarrow> start_library sizeof v0 = Some v \<Longrightarrow>
    mem_reach B {ps ! 17} {ps ! 16} {ps ! 16} (\<lambda>_. []) (\<lambda>_ _. None) v"
| elapse: "mem_reach B N D A H M v \<Longrightarrow> mem_reach B N D A H M (v\<lparr>sc := (sc v)\<lparr>now := t, ktimer := k\<rparr>\<rparr>)"
| lib_request: "mem_reach B N D A H M v \<Longrightarrow> ff_alloc PT_BLOCK_SIZE (memory (hp v)) n B = Some (p, B') \<Longrightarrow> myallocate fl line n LIBRARYREQ v = Some (v', q) \<Longrightarrow> mem_reach B' N D A H M v'"
| lib_refused: "mem_reach B N D A H M v \<Longrightarrow> ff_alloc PT_BLOCK_SIZE (memory (hp v)) n B = None \<Longrightarrow> myallocate fl line n LIBRARYREQ v = Some (v', q) \<Longrightarrow> mem_reach B N D A H M v'"
| lib_release: "mem_reach B N D A H M v \<Longrightarrow> (q, z) \<in> set (live PT_BLOCK_SIZE (memory (hp v)) B) \<Longrightarrow> 0 < z \<Longrightarrow> q \<notin> N \<Longrightarrow>
    ff_free PT_BLOCK_SIZE (memory (hp v)) (q - PT_BLOCK_SIZE) B = Some B' \<Longrightarrow> mydeallocate fl line q LIBRARYREQ v = Some v' \<Longrightarrow> mem_reach B' N D A H M v'"
| lib_write: "mem_reach B N D A H M v \<Longrightarrow> (q, z) \<in> set (live PT_BLOCK_SIZE (memory (hp v)) B) \<Longrightarrow> (\<And>x. \<not> (q \<le> x \<and> x < q + z) \<Longrightarrow> m x = pt_bytes (hp v) x) \<Longrightarrow>
    mem_reach B N D A H M (set_bytes m v)"
| access: "mem_reach B N D A H M v \<Longrightarrow> load_byte a v = Some (b, v') \<Longrightarrow> mem_reach B N D A H M v'"
| store: "mem_reach B N D A H M v \<Longrightarrow> current_thread v = Some th \<Longrightarrow> (q, z) \<in> set (live PT_BLOCK_SIZE (userSpace v) (H th)) \<Longrightarrow> q \<le> a \<Longrightarrow> a < q + z \<Longrightarrow>
    store_byte a b v = Some v' \<Longrightarrow> mem_reach B N D A H (M(th := (M th)(a := Some b))) v'"
| request: "mem_reach B N D A H M v \<Longrightarrow> current_thread v = Some th \<Longrightarrow> servable th n (H th) v \<Longrightarrow>
    heap_request (PAGESIZE (hp v)) (userSpace v) n (first_heap v (H th)) = (a, bs) \<Longrightarrow> myallocate fl line n THREADREQ v = Some (v', p) \<Longrightarrow>
    mem_reach B N D A (H(th := bs)) (M(th := forget a n (M th))) v'"
| release: "mem_reach B N D A H M v \<Longrightarrow> current_thread v = Some th \<Longrightarrow> (q, z) \<in> set (live PT_BLOCK_SIZE (userSpace v) (H th)) \<Longrightarrow> 0 < z \<Longrightarrow> lives v (th_word v th) 0 (Mem 0) \<Longrightarrow>
    ff_free PT_BLOCK_SIZE (userSpace v) (q - PT_BLOCK_SIZE) (H th) = Some bs \<Longrightarrow> mydeallocate fl line q THREADREQ v = Some v' \<Longrightarrow> mem_reach B N D A (H(th := bs)) M v'"
| create: "mem_reach B N D A H M v \<Longrightarrow> ff_allocs (memory (hp v)) (thread_sizes sizeof) B = Some ([c, st, n], B') \<Longrightarrow> th \<noteq> NULL \<Longrightarrow> th \<notin> D \<Longrightarrow> threadNum (sc v) < 2 ^ 8 \<Longrightarrow>
    create_thread sizeof th v = Some (0, v') \<Longrightarrow> mem_reach B' (insert n N) (insert th D) (insert th A) (H(th := [])) (M(th := \<lambda>_. None)) v'"
| no_context: "mem_reach B N D A H M v \<Longrightarrow> ff_alloc PT_BLOCK_SIZE (memory (hp v)) (sizeof T_ucontext) B = None \<Longrightarrow> create_thread sizeof th v = Some (r, v') \<Longrightarrow> mem_reach B N D A H M v'"
| no_stack: "mem_reach B N D A H M v \<Longrightarrow> ff_alloc PT_BLOCK_SIZE (memory (hp v)) (sizeof T_ucontext) B = Some (c, B') \<Longrightarrow> ff_alloc PT_BLOCK_SIZE (memory (hp v)) STACK_SIZE B' = None \<Longrightarrow>
    create_thread sizeof th v = Some (r, v') \<Longrightarrow> mem_reach B' N D A H M v'"
| tick: "mem_reach B N D A H M v \<Longrightarrow> status (nodes (sc v) (current (sc v))) \<noteq> EXITING \<Longrightarrow> status (nodes (sc v) (current (sc v))) = JOINING \<longrightarrow> ready (sc v) \<Longrightarrow>
    with_array timerHandler v = Some v' \<Longrightarrow> mem_reach B N D A H M v'"
| yield: "mem_reach B N D A H M v \<Longrightarrow> with_array my_pthread_yield v = Some v' \<Longrightarrow> mem_reach B N D A H M v'"
| join: "mem_reach B N D A H M v \<Longrightarrow> ready (sc v) \<Longrightarrow> with_array (join_wait t) v = Some v' \<Longrightarrow> mem_reach B N D A H M v'"
| join_returns: "mem_reach B N D A H M v \<Longrightarrow> my_pthread_join t (sc v) = Some (Returned r x s') \<Longrightarrow> mem_reach B N D A H M (v\<lparr>sc := s'\<rparr>)"
| joined: "mem_reach B N D A H M v \<Longrightarrow> join_resume u (sc v) = (r, x, s') \<Longrightarrow> mem_reach B N D A H M (v\<lparr>sc := s'\<rparr>)"
| exit: "mem_reach B N D A H M v \<Longrightarrow> current_thread v = Some th \<Longrightarrow> with_array (my_pthread_exit r) v = Some v' \<Longrightarrow> current (sc v') \<noteq> current (sc v) \<Longrightarrow>
    mem_reach B N D (A - {th}) H M v'"
| finish: "mem_reach B N D A H M v \<Longrightarrow> current_thread v = Some th \<Longrightarrow> with_array terminationHandler v = Some v' \<Longrightarrow> current (sc v') \<noteq> current (sc v) \<Longrightarrow>
    mem_reach B N D (A - {th}) H M v'"

lemma mem_reach_coalesced: "mem_reach B N D A H M v \<Longrightarrow> coalesced B"
proof (induction rule: mem_reach.induct)
  case (start B0 v0 sizeof ps B v)
  show ?case by (rule ff_allocs_coalesced [OF start(2) main_alone_coalesced [OF start(1)]])
qed (auto elim: ff_alloc_coalesced ff_allocs_coalesced ff_free_coalesced [OF PT_BLOCK_SIZE_pos(1)])

lemma mem_reach_inv: "mem_reach B N D A H M v \<Longrightarrow> mem_inv B N D A H M v"
proof (induction rule: mem_reach.induct)
  case (start B0 v0 sizeof ps B v)
  obtain w where "start_library sizeof v0 = Some w" "mem_inv B {ps ! 17} {ps ! 16} {ps ! 16} (\<lambda>_. []) (\<lambda>_ _. None) w" by (rule mem_start [OF main_alone_inv [OF start(1)] start(2)])
  then show ?case using start(3) by simp
next
  case (elapse B N D A H M v k t)
  have "accounted ((sc v)\<lparr>now := t, ktimer := k\<rparr>) N D A" using accounted_elapse elapse.IH by (simp add: mem_inv_def)
  then show ?case by (intro mem_mark [OF elapse.IH]) simp_all
next
  case (lib_request B N D A H M v n p B' fl line v' q)
  obtain w where "myallocate fl line n LIBRARYREQ v = Some (w, p)" "mem_inv B' N D A H M w" by (rule mem_lib_request [OF lib_request.IH lib_request.hyps(2)])
  then show ?case using lib_request.hyps(3) by simp
next
  case (lib_refused B N D A H M v n fl line v' q)
  obtain w where "myallocate fl line n LIBRARYREQ v = Some (w, NULL)" "mem_inv B N D A H M w" by (rule mem_lib_refused [OF lib_refused.IH lib_refused.hyps(2)])
  then show ?case using lib_refused.hyps(3) by simp
next
  case (lib_release B N D A H M v q z B' fl line v')
  obtain w C where "mydeallocate fl line q LIBRARYREQ v = Some w" "ff_free PT_BLOCK_SIZE (memory (hp v)) (q - PT_BLOCK_SIZE) B = Some C" "mem_inv C N D A H M w"
    by (rule mem_lib_release [OF lib_release.IH lib_release.hyps(2-4)])
  then show ?case using lib_release.hyps(5,6) by simp
next
  case (lib_write B N D A H M v q z m)
  show ?case by (rule mem_lib_write [OF lib_write.IH lib_write.hyps(2,3)])
next
  case (access B N D A H M v a b v')
  then show ?case using mem_touch [OF access.IH] by (auto simp: load_byte_def)
next
  case (store B N D A H M v th q z a b v')
  obtain w where "store_byte a b v = Some w" "mem_inv B N D A H (M(th := (M th)(a := Some b))) w" by (rule mem_store [OF store.IH store.hyps(2-5)])
  then show ?case using store.hyps(6) by (simp add: fun_upd_def)
next
  case (request B N D A H M v th n a bs fl line v' p)
  obtain w where "myallocate fl line n THREADREQ v = Some (w, a)" "mem_inv B N D A (H(th := bs)) (M(th := forget a n (M th))) w" by (rule mem_request [OF request.IH request.hyps(2-4)])
  then show ?case using request.hyps(5) by (simp add: fun_upd_def)
next
  case (release B N D A H M v th q z bs fl line v')
  obtain w cs where "mydeallocate fl line q THREADREQ v = Some w" "ff_free PT_BLOCK_SIZE (userSpace v) (q - PT_BLOCK_SIZE) (H th) = Some cs" "mem_inv B N D A (H(th := cs)) M w"
    by (rule mem_free [OF release.IH release.hyps(2-5)])
  then show ?case using release.hyps(6,7) by (simp add: fun_upd_def)
next
  case (create B N D A H M v sizeof c st n B' th v')
  obtain w where "create_thread sizeof th v = Some (0, w)" "mem_inv B' (insert n N) (insert th D) (insert th A) (H(th := [])) (M(th := \<lambda>_. None)) w" by (rule mem_new_thread [OF create.IH create.hyps(2-5)])
  then show ?case using create.hyps(6) by (simp add: fun_upd_def)
next
  case (no_context B N D A H M v sizeof th r v')
  obtain w where "create_thread sizeof th v = Some (1, w)" "mem_inv B N D A H M w" by (rule mem_no_context [where sizeof = sizeof, OF no_context.IH no_context.hyps(2)])
  then show ?case using no_context.hyps(3) by simp
next
  case (no_stack B N D A H M v sizeof c B' th r v')
  obtain w where "create_thread sizeof th v = Some (1, w)" "mem_inv B' N D A H M w" by (rule mem_no_stack [where sizeof = sizeof, OF no_stack.IH no_stack.hyps(2,3)])
  then show ?case using no_stack.hyps(4) by simp
next
  case (tick B N D A H M v v')
  obtain h s where s: "timerHandler (sc v) = Some s" "v' = v\<lparr>hp := h, sc := s\<rparr>" "mem_inv B N D A H M (v\<lparr>hp := h\<rparr>)"
    by (rule mem_called [OF tick.IH mem_reach_coalesced [OF tick.hyps(1)] tick.hyps(4)]) blast
  obtain w where "timerHandler (sc v) = Some w" "mem_inv B N D A H M (v\<lparr>hp := h, sc := w\<rparr>)" using mem_tick [OF s(3)] tick.hyps(2,3) by auto
  then show ?case using s by simp
next
  case (yield B N D A H M v v')
  obtain h s where s: "my_pthread_yield (sc v) = Some s" "v' = v\<lparr>hp := h, sc := s\<rparr>" "mem_inv B N D A H M (v\<lparr>hp := h\<rparr>)"
    by (rule mem_called [OF yield.IH mem_reach_coalesced [OF yield.hyps(1)] yield.hyps(2)]) blast
  obtain w where "my_pthread_yield (sc v) = Some w" "mem_inv B N D A H M (v\<lparr>hp := h, sc := w\<rparr>)" using mem_yield [OF s(3)] by auto
  then show ?case using s by simp
next
  case (join B N D A H M v t v')
  obtain h s where s: "join_wait t (sc v) = Some s" "v' = v\<lparr>hp := h, sc := s\<rparr>" "mem_inv B N D A H M (v\<lparr>hp := h\<rparr>)"
    by (rule mem_called [OF join.IH mem_reach_coalesced [OF join.hyps(1)] join.hyps(3)]) blast
  then obtain u where "my_pthread_join t (sc v) = Some (Waiting u s)" by (auto simp: join_wait_def split: option.split_asm join_result.split_asm)
  then show ?case using mem_join [OF s(3), of t u s] join.hyps(2) s(2) by simp
next
  case (join_returns B N D A H M v t r x s')
  have "scd_up (sc v)" by (rule mem_current [OF join_returns.IH])
  then have "s' = unpause_timer (pause_timer (sc v))" using join_returns.hyps(2) by (auto simp: my_pthread_join_def Let_def bind_eq_Some_conv split: if_split_asm)
  then show ?case using mem_timer [OF mem_timer [OF join_returns.IH], of pause_timer unpause_timer] by simp
next
  case (joined B N D A H M v u r x s')
  then show ?case using mem_timer [OF mem_timer [OF joined.IH], of pause_timer unpause_timer] by (simp add: join_resume_def)
next
  case (exit B N D A H M v th r v')
  obtain h s where s: "my_pthread_exit r (sc v) = Some s" "v' = v\<lparr>hp := h, sc := s\<rparr>" "mem_inv B N D A H M (v\<lparr>hp := h\<rparr>)"
    by (rule mem_called [OF exit.IH mem_reach_coalesced [OF exit.hyps(1)] exit.hyps(3)]) blast
  have "current_thread (v\<lparr>hp := h\<rparr>) = Some th" using exit.hyps(2) by (auto simp: current_thread_def split: if_split_asm)
  from mem_exit(1) [OF s(3) this, of r s] show ?case using s(1,2) exit.hyps(4) by simp
next
  case (finish B N D A H M v th v')
  obtain h s where s: "terminationHandler (sc v) = Some s" "v' = v\<lparr>hp := h, sc := s\<rparr>" "mem_inv B N D A H M (v\<lparr>hp := h\<rparr>)"
    by (rule mem_called [OF finish.IH mem_reach_coalesced [OF finish.hyps(1)] finish.hyps(3)]) blast
  have "current_thread (v\<lparr>hp := h\<rparr>) = Some th" using finish.hyps(2) by (auto simp: current_thread_def split: if_split_asm)
  from mem_finish(1) [OF s(3) this, of s] show ?case using s(1,2) finish.hyps(4) by simp
qed

section \<open>Properties\<close>

text \<open>
  C5. In every state a disciplined program of threads reaches (with the conditions above: servable requests,
  blocks freed only while the first page is in slot 0, joins and ends only while another thread is ready): the heap of each thread that has not ended is a chain of
  blocks that fills exactly the pages the thread has, in memory or on disk, and no slot of memory or of the
  swap file holds pages of two threads.  Within these conditions the program may have created threads, switched them, ended
  them and let them access, request and free memory in any order.
\<close>

theorem program_heaps_consistent:
  assumes "mem_reach B N D A H M v" "th \<in> A"
  shows "span PT_BLOCK_SIZE (H th) = PAGESIZE (hp v) * th_pages v th \<and> (\<forall>j < npages v. virt (th_word v th) j v \<noteq> None \<longleftrightarrow> j < th_pages v th) \<and>
    (H th \<noteq> [] \<longrightarrow> pt_chain (vbytes (th_word v th) v) (userSpace v) (H th)) \<and>
    (\<forall>u \<in> D. \<forall>j k s. lives v (th_word v th) j s \<and> lives v (th_word v u) k s \<longrightarrow> u = th)"
proof -
  note i = mem_reach_inv [OF assms(1)]
  have h: "thread_heap th (H th) (M th) v" using i assms(2) by (simp add: mem_inv_def)
  have "u = th" if "u \<in> D" "lives v (th_word v th) j s" "lives v (th_word v u) k s" for u j k s
    using that th_word_eq(1) [OF i alive_ids(1) [OF i assms(2)] that(1)] by (auto simp: lives_def)
  then show ?thesis using h unfolding thread_heap_def by blast
qed

text \<open>
  C6. The page tables mean what they say: in every state a disciplined program reaches they have as many entries as there are
  pages in memory and on disk; an entry in use that has a thread number has the number of exactly
  one thread the program created, and, unless that thread has ended, the number of one of its pages;
  and a page the running thread may touch is free or is the thread's own page, in its place.
\<close>

theorem program_tables_typed:
  assumes "mem_reach B N D A H M v"
  shows "length (pages (sc v)) = npages v \<and> length (diskPages v) = ndisk v \<and>
    (\<forall>s. slot_ok v s \<and> getPageIsF (entry v s) = 0 \<and> getPageThID (entry v s) \<noteq> 0 \<longrightarrow>
       (\<exists>!th. th \<in> D \<and> getPageThID (entry v s) = th_word v th \<and> (th \<in> A \<longrightarrow> unat (getPagePgID (entry v s)) < th_pages v th))) \<and>
    (\<forall>k < npages v. prot (sc v) k \<longrightarrow> getPageIsF (entry v (Mem k)) \<noteq> 0 \<or> lives v (owner v) k (Mem k))"
proof -
  note i = mem_reach_inv [OF assms]
  have r: "running (live_ids D A v) (owner v) v" using i by (simp add: mem_inv_def)
  then have P: "paged (live_ids D A v) v" and sh: "shielded (live_ids D A v) (owner v) v" by (simp_all add: running_def)
  have "\<exists>!th. th \<in> D \<and> getPageThID (entry v s) = th_word v th \<and> (th \<in> A \<longrightarrow> unat (getPagePgID (entry v s)) < th_pages v th)"
    if s: "slot_ok v s" "getPageIsF (entry v s) = 0" "getPageThID (entry v s) \<noteq> 0" for s
  proof -
    let ?u = "getPageThID (entry v s)" and ?k = "unat (getPagePgID (entry v s))"
    have u: "?u \<in> user_ids" using s(3) page_word.bounds(2) [of "entry v s"] unat_gt_0 [of ?u] by (simp add: user_ids_def)
    have l: "lives v ?u ?k s" using s by (simp add: lives_def)
    have here: "?k < npages v" "virt ?u ?k v \<noteq> None" if "?u \<in> live_ids D A v"
      using P that s l virt_lives [OF P that] unfolding paged_def by blast+
    have "?u \<in> th_word v ` D"
    proof (rule ccontr)
      assume n: "?u \<notin> th_word v ` D"
      then have "virt ?u ?k v = None" if "?k < npages v" using i u that by (auto simp: mem_inv_def)
      then show False using here u n by (auto simp: live_ids_def)
    qed
    then obtain th where th: "th \<in> D" "?u = th_word v th" by blast
    have "?k < th_pages v th" if "th \<in> A" using here alive_ids(2) [OF i that] th(2) i that by (auto simp: mem_inv_def thread_heap_def)
    moreover have "u = th" if "u \<in> D" "?u = th_word v u" for u using th_word_eq(1) [OF i that(1) th(1)] that(2) th(2) by simp
    ultimately show ?thesis using th by blast
  qed
  moreover have "getPageIsF (entry v (Mem k)) \<noteq> 0 \<or> lives v (owner v) k (Mem k)" if "k < npages v" "prot (sc v) k" for k using sh that unfolding shielded_def by blast
  ultimately show ?thesis using P unfolding paged_def vm_ok_def by blast
qed

text \<open>
  C4. A thread reads what it wrote: in every state a disciplined program reaches, when the running thread loads a byte of one
  of its blocks in which it has stored since the block was given out, the load returns, and it returns
  the last byte stored, whatever faults, moves, swaps, servable requests and switches have happened since and
  whatever other threads have stored at the same address.  The conditions are needed: outside them the code
  does give one page the place of another, and blocks whose end is in no page of the thread.
\<close>

theorem thread_reads_last_write:
  assumes "mem_reach B N D A H M v" "current_thread v = Some th" "(q, z) \<in> set (live PT_BLOCK_SIZE (userSpace v) (H th))" "q \<le> a" "a < q + z" "M th a = Some b"
  shows "\<exists>v'. load_byte a v = Some (b, v') \<and> mem_reach B N D A H M v'"
proof -
  note i = mem_reach_inv [OF assms(1)]
  obtain v' where v': "touch a v = Some v'" "faulted (live_ids D A v) (th_word v th) v v'" "in_place (th_word v th) v' a" by (rule live_access [OF i assms(2-5)])
  have h: "thread_heap th (H th) (M th) v" and tT: "th_word v th \<in> live_ids D A v"
    by (rule mem_current [OF i], use assms(2) in \<open>simp add: running_def\<close>)+
  have "running (live_ids D A v) (th_word v th) v'" using v'(2) by (simp add: faulted_def)
  then have "pt_bytes (hp v') a = vbytes (th_word v th) v' a" using placed_byte v'(3) by (simp add: in_place_def)
  also have "\<dots> = b" using faulted_vbytes [OF v'(2) tT] h assms(3-6) unfolding thread_heap_def by fastforce
  finally have l: "load_byte a v = Some (b, v')" using v'(1) by (simp add: load_byte_def)
  show ?thesis using l mem_reach.access [OF assms(1) l] by blast
qed

text \<open>
  C21. Which calls return, in every state a disciplined program reaches.  While the array of maintenance fits in the library's pages or
  maintenance is not due, a yield returns, a timer signal returns (unless the thread has ended, or waits with nobody ready),
  and a thread that ends while another one is ready hands over to another; when maintenance is due and the array does not fit, a yield writes through a
  null pointer.  A store to a byte of a block returns, a request that
  can be served returns the address the first-fit specification gives, and freeing a block returns
  when the thread's first page is in place.
\<close>

theorem program_steps_return:
  assumes "mem_reach B N D A H M v" "current_thread v = Some th"
  shows "(array_fits B v \<longleftrightarrow> (\<exists>v'. with_array my_pthread_yield v = Some v')) \<and>
    (array_fits B v \<longrightarrow> status (nodes (sc v) (current (sc v))) \<noteq> EXITING \<longrightarrow> (status (nodes (sc v) (current (sc v))) = JOINING \<longrightarrow> ready (sc v)) \<longrightarrow>
      (\<exists>v'. with_array timerHandler v = Some v')) \<and>
    (array_fits B v \<longrightarrow> ready (sc v) \<longrightarrow> (\<exists>v'. with_array (my_pthread_exit r) v = Some v' \<and> current (sc v') \<noteq> current (sc v)) \<and>
      (\<exists>v'. with_array terminationHandler v = Some v' \<and> current (sc v') \<noteq> current (sc v))) \<and>
    (\<forall>n. servable th n (H th) v \<longrightarrow>
      (\<exists>v'. myallocate fl line n THREADREQ v = Some (v', fst (heap_request (PAGESIZE (hp v)) (userSpace v) n (first_heap v (H th)))))) \<and>
    (\<forall>(q, z) \<in> set (live PT_BLOCK_SIZE (userSpace v) (H th)). (\<forall>a b. q \<le> a \<and> a < q + z \<longrightarrow> (\<exists>v'. store_byte a b v = Some v')) \<and>
      (0 < z \<and> lives v (th_word v th) 0 (Mem 0) \<longrightarrow> (\<exists>v'. mydeallocate fl line q THREADREQ v = Some v')))"
proof -
  note i = mem_reach_inv [OF assms(1)]
  have arr: "\<exists>h. \<forall>f. with_array f v = map_option (\<lambda>s. v\<lparr>hp := h, sc := s\<rparr>) (f (sc v))" if "array_fits B v"
    by (rule mem_array [OF i mem_reach_coalesced [OF assms(1)] that]) blast
  obtain s where y: "my_pthread_yield (sc v) = Some s" by (rule mem_yield [OF i])
  have "with_array my_pthread_yield v = None" if "\<not> array_fits B v"
  proof -
    have "scd_up (sc v)" by (rule mem_current [OF i])
    then show ?thesis using calls_no_array(3) [of "(sc v)\<lparr>lib_room := False\<rparr>"] that by (intro mem_no_array [OF i that]) (simp add: array_fits_def)
  qed
  then have "array_fits B v \<longleftrightarrow> (\<exists>v'. with_array my_pthread_yield v = Some v')" using arr y by (metis option.distinct(1) option.simps(9))
  moreover have "\<exists>v'. with_array timerHandler v = Some v'"
    if "array_fits B v" "status (nodes (sc v) (current (sc v))) \<noteq> EXITING" "status (nodes (sc v) (current (sc v))) = JOINING \<longrightarrow> ready (sc v)"
    using arr [OF that(1)] mem_tick [OF i that(2,3)] by (metis option.simps(9))
  moreover have "\<exists>v'. with_array f v = Some v' \<and> current (sc v') \<noteq> current (sc v)" if "array_fits B v" "\<exists>s'. f (sc v) = Some s' \<and> current s' \<noteq> current (sc v)" for f
    using arr [OF that(1)] that(2) by fastforce
  moreover have "\<exists>v'. myallocate fl line n THREADREQ v = Some (v', fst (heap_request (PAGESIZE (hp v)) (userSpace v) n (first_heap v (H th))))" if "servable th n (H th) v" for n
    by (rule mem_request [OF i assms(2) that surjective_pairing, of fl line]) blast
  moreover have "\<exists>v'. store_byte a b v = Some v'" if "(q, z) \<in> set (live PT_BLOCK_SIZE (userSpace v) (H th))" "q \<le> a" "a < q + z" for q z a b
    by (rule mem_store [OF i assms(2) that, of b]) blast
  moreover have "\<exists>v'. mydeallocate fl line q THREADREQ v = Some v'" if "(q, z) \<in> set (live PT_BLOCK_SIZE (userSpace v) (H th))" "0 < z" "lives v (th_word v th) 0 (Mem 0)" for q z
    by (rule mem_free [OF i assms(2) that, of fl line]) blast
  ultimately show ?thesis using mem_exit(2) [OF i assms(2), of r] mem_finish(2) [OF i assms(2)] by blast
qed

text \<open>
  C7. The library's own memory in every state a disciplined program reaches: its blocks are a chain that fills exactly the
  library's pages and ends where the pages of the threads begin; every node in a queue, in the join list
  or running is in a block of its own that is given out; a request of the library
  returns exactly what first fit over that chain gives, a null pointer when nothing fits; and giving
  back a block that is no thread's node returns.
\<close>

theorem program_library_consistent:
  assumes "mem_reach B N D A H M v"
  shows "pt_chain (pt_bytes (hp v)) (memory (hp v)) B \<and> memory (hp v) + span PT_BLOCK_SIZE B = userSpace v \<and>
    (\<exists>L T. sched_inv (sc v) L T \<and> insert (current (sc v)) (everyone L) \<subseteq> fst ` set (live PT_BLOCK_SIZE (memory (hp v)) B)) \<and>
    (\<forall>n. \<exists>v'. myallocate fl line n LIBRARYREQ v = Some (v', case ff_alloc PT_BLOCK_SIZE (memory (hp v)) n B of None \<Rightarrow> NULL | Some (p, _) \<Rightarrow> p)) \<and>
    (\<forall>(q, z) \<in> set (live PT_BLOCK_SIZE (memory (hp v)) B). 0 < z \<and> q \<notin> N \<longrightarrow> (\<exists>v'. mydeallocate fl line q LIBRARYREQ v = Some v'))"
proof -
  note i = mem_reach_inv [OF assms]
  have l: "lib_rep (hp v) (memory (hp v)) B" "N \<subseteq> fst ` set (live PT_BLOCK_SIZE (memory (hp v)) B)" and a: "accounted (sc v) N D A" using i by (simp_all add: mem_inv_def lib_heap_def)
  have "pt_chain (pt_bytes (hp v)) (memory (hp v)) B" "memory (hp v) + span PT_BLOCK_SIZE B = userSpace v" using l(1) by (simp_all add: lib_rep_def pt_arena_def userSpace_def)
  moreover have "\<exists>L T. sched_inv (sc v) L T \<and> insert (current (sc v)) (everyone L) \<subseteq> fst ` set (live PT_BLOCK_SIZE (memory (hp v)) B)"
    using a order_trans [OF _ l(2)] unfolding accounted_def by metis
  moreover have "\<exists>v'. myallocate fl line n LIBRARYREQ v = Some (v', case ff_alloc PT_BLOCK_SIZE (memory (hp v)) n B of None \<Rightarrow> NULL | Some (p, _) \<Rightarrow> p)" for n
  proof (cases "ff_alloc PT_BLOCK_SIZE (memory (hp v)) n B")
    case None
    obtain v' where "myallocate fl line n LIBRARYREQ v = Some (v', NULL)" by (rule mem_lib_refused [OF i None])
    then show ?thesis using None by simp
  next
    case (Some r)
    then obtain p B' where f: "ff_alloc PT_BLOCK_SIZE (memory (hp v)) n B = Some (p, B')" by (cases r) simp
    obtain v' where "myallocate fl line n LIBRARYREQ v = Some (v', p)" by (rule mem_lib_request [OF i f])
    then show ?thesis using f by simp
  qed
  moreover have "\<exists>v'. mydeallocate fl line q LIBRARYREQ v = Some v'" if "(q, z) \<in> set (live PT_BLOCK_SIZE (memory (hp v)) B)" "0 < z" "q \<notin> N" for q z
    by (rule mem_lib_release [OF i that, of fl line]) blast
  ultimately show ?thesis by blast
qed

text \<open>
  C33. Creating a thread, on every branch, in every state a disciplined program reaches with a thread number left: when the
  context, the stack and the node fit, the call returns 0, and the new thread waits at level 0 with
  no memory; when the context does not fit it returns 1 and nothing is made; when the stack does
  not fit it returns 1 too, and the block of the context is never given back; and when the node
  does not fit the call writes through a null pointer.
\<close>

theorem create_thread_outcomes:
  assumes "mem_reach B N D A H M v" "th \<noteq> NULL" "th \<notin> D" "threadNum (sc v) < 2 ^ 8"
  shows "case ff_alloc PT_BLOCK_SIZE (memory (hp v)) (sizeof T_ucontext) B of
      None \<Rightarrow> (\<exists>v'. create_thread sizeof th v = Some (1, v') \<and> mem_reach B N D A H M v')
    | Some (c, B1) \<Rightarrow> (case ff_alloc PT_BLOCK_SIZE (memory (hp v)) STACK_SIZE B1 of
        None \<Rightarrow> (\<exists>v'. create_thread sizeof th v = Some (1, v') \<and> mem_reach B1 N D A H M v')
      | Some (st, B2) \<Rightarrow> (case ff_alloc PT_BLOCK_SIZE (memory (hp v)) (sizeof T_node) B2 of
          None \<Rightarrow> create_thread sizeof th v = None
        | Some (n, B3) \<Rightarrow> (\<exists>v'. create_thread sizeof th v = Some (0, v') \<and> ready (sc v') \<and> current_thread v' = current_thread v \<and>
            mem_reach B3 (insert n N) (insert th D) (insert th A) (H(th := [])) (M(th := \<lambda>_. None)) v')))"
proof -
  note i = mem_reach_inv [OF assms(1)]
  let ?f = "ff_alloc PT_BLOCK_SIZE (memory (hp v))"
  consider (no_cxt) "?f (sizeof T_ucontext) B = None"
    | (stack) c B1 where "?f (sizeof T_ucontext) B = Some (c, B1)" "?f STACK_SIZE B1 = None"
    | (node) c B1 st B2 where "?f (sizeof T_ucontext) B = Some (c, B1)" "?f STACK_SIZE B1 = Some (st, B2)" "?f (sizeof T_node) B2 = None"
    | (fits) c B1 st B2 n B3 where "?f (sizeof T_ucontext) B = Some (c, B1)" "?f STACK_SIZE B1 = Some (st, B2)" "?f (sizeof T_node) B2 = Some (n, B3)"
    by (metis option.exhaust surj_pair)
  then show ?thesis
  proof cases
    case no_cxt
    obtain v' where v': "create_thread sizeof th v = Some (1, v')" by (rule mem_no_context [where sizeof = sizeof, OF i no_cxt])
    then show ?thesis using no_cxt mem_reach.no_context [where sizeof = sizeof, OF assms(1) no_cxt v'] by simp
  next
    case stack
    obtain v' where v': "create_thread sizeof th v = Some (1, v')" by (rule mem_no_stack [where sizeof = sizeof, OF i stack])
    then show ?thesis using stack mem_reach.no_stack [where sizeof = sizeof, OF assms(1) stack v'] by simp
  next
    case node
    then have "create_thread sizeof th v = None" by (intro no_node_faults [where sizeof = sizeof, OF i _ node(3)]) simp
    then show ?thesis using node by simp
  next
    case fits
    then have f: "ff_allocs (memory (hp v)) (thread_sizes sizeof) B = Some ([c, st, n], B3)" by (simp add: thread_sizes_def)
    obtain v' where v': "create_thread sizeof th v = Some (0, v')" "ready (sc v')" "current_thread v' = current_thread v" by (rule mem_new_thread [OF i f assms(2-4)])
    then show ?thesis using fits mem_reach.create [OF assms(1) f assms(2-4) v'(1)] by simp
  qed
qed

section \<open>A program\<close>

text \<open>Main, alone, requests 100 bytes and stores 42 in the first.\<close>

definition boot_vm :: vm where
  "boot_vm = \<lparr>hp = \<lparr>PAGESIZE = 4096, memory = 4096, pt_bytes = (\<lambda>_. 0), pt_root = NULL, rootBlockD = NULL, pt_out = []\<rparr>, sc = boot, diskPages = [], swpFile = (\<lambda>_. 0)\<rparr>"

text \<open>Sizes of the structures, as a 64-bit compiler gives them, and the blocks of the library at the start.\<close>

definition demo_sizeof :: "ctype \<Rightarrow> nat" where
  "demo_sizeof t = (case t of T_scheduler \<Rightarrow> 200 | T_queue \<Rightarrow> 24 | T_itimerval \<Rightarrow> 32 | T_list \<Rightarrow> 8 | T_threadList \<Rightarrow> 8 | T_ucontext \<Rightarrow> 936 | T_pthread \<Rightarrow> 40 | T_node \<Rightarrow> 64)"

definition demo_blocks :: "ablock list" where
  "demo_blocks =
     [(16384, False), (7392, False), (200, False), (24, False), (24, False), (24, False), (24, False), (24, False), (24, False), (24, False), (24, False), (24, False),
      (32, False), (8, False), (8, False), (936, False), (18192, False), (936, False), (40, False), (64, False), (774708, True)]"

definition demo_answers :: "addr list" where
  "demo_answers = [27884, 28088, 28116, 28144, 28172, 28200, 28228, 28256, 28284, 28312, 28340, 28376, 28388, 28400, 29340, 47536, 48476, 48520]"

lemma boot_sizes: "npages boot_vm = 1848" "ndisk boot_vm = 4096" "memory (hp boot_vm) = 4096" "PAGESIZE (hp boot_vm) = 4096"
  by (simp_all add: boot_vm_def npages_def ndisk_def PT_MAX_MEMORY_def LIBPAGES_def DISK_MEMORY_def)

lemma boot_vm_ok: "boot_ok boot_vm" "pt_root (hp boot_vm) = NULL" "mainPageNum (sc boot_vm) = 0" "lib_room (sc boot_vm)" "\<not> scd_up (sc boot_vm)"
  using boot_sizes by (simp_all add: boot_ok_def boot_vm_def boot_def PT_BLOCK_SIZE_def PT_MAX_MEMORY_def LIBPAGES_def)

lemma demo_tables: "table_blocks boot_vm = Some ([4100, 20488], [(16384, False), (7392, False), (795412, True)])"
  by (simp add: table_blocks_def boot_sizes PT_BLOCK_SIZE_def LIBPAGES_def)

lemma demo_start: "ff_allocs 4096 (map snd (init_requests demo_sizeof)) [(16384, False), (7392, False), (795412, True)] = Some (demo_answers, demo_blocks)"
  by (simp add: init_requests_def demo_sizeof_def STACK_SIZE_def RUN_QUEUE_SIZE_def PT_BLOCK_SIZE_def upt_rec demo_blocks_def demo_answers_def)

lemma demo_alone:
  obtains v where "main_alone [(16384, False), (7392, False), (795412, True)] v" "memory (hp v) = 4096" "PAGESIZE (hp v) = 4096"
proof -
  obtain v m where v: "setUpMemory boot_vm = Some v" "hp v = (hp boot_vm)\<lparr>pt_root := memory (hp boot_vm), pt_bytes := m\<rparr>" by (rule setUpMemory_ok [OF boot_vm_ok(1)])
  show thesis using that [OF main_alone.set_up [OF boot_vm_ok demo_tables v(1)]] v(2) boot_sizes by simp
qed

lemma program_starts:
  obtains v where "mem_reach demo_blocks {48520} {48476} {48476} (\<lambda>_. []) (\<lambda>_ _. None) v" "current_thread v = Some 48476" "userSpace v = 823296" "servable 48476 100 [] v"
    "heap_request (PAGESIZE (hp v)) (userSpace v) 100 (first_heap v []) = (823300, [(100, False), (3988, True)])" "threadNum (sc v) = 2" "memory (hp v) = 4096"
proof -
  obtain v0 where v0: "main_alone [(16384, False), (7392, False), (795412, True)] v0" "memory (hp v0) = 4096" "PAGESIZE (hp v0) = 4096" by (rule demo_alone)
  note ds = demo_start [folded v0(2)]
  obtain v where v: "start_library demo_sizeof v0 = Some v" "current_thread v = Some (demo_answers ! 16)" "loose v" "free_slots v = {s. slot_ok v s}"
    "threadNum (sc v) = 2" "memory (hp v) = memory (hp v0)" "PAGESIZE (hp v) = PAGESIZE (hp v0)" by (rule mem_start [OF main_alone_inv [OF v0(1)] ds])
  have d: "demo_answers ! 16 = 48476" "demo_answers ! 17 = 48520" by (simp_all add: demo_answers_def)
  have r: "mem_reach demo_blocks {48520} {48476} {48476} (\<lambda>_. []) (\<lambda>_ _. None) v" using mem_reach.start [OF v0(1) ds v(1)] unfolding d .
  have P: "PAGESIZE (hp v) = 4096" "memory (hp v) = 4096" using v(6,7) v0 by simp_all
  then have u: "userSpace v = 823296" "npages v = 1848" by (simp_all add: userSpace_def npages_def LIBPAGES_def PT_MAX_MEMORY_def)
  then have "Mem 0 \<in> free_slots v" using v(4) by simp
  then have "0 < card (free_slots v)" using finite_free card_gt_0_iff by blast
  moreover have rq: "heap_request (PAGESIZE (hp v)) (userSpace v) 100 (first_heap v []) = (823300, [(100, False), (3988, True)])" "request_pages (PAGESIZE (hp v)) (userSpace v) 100 (first_heap v []) = 0"
    using P u by (simp_all add: heap_request_def request_pages_def first_heap_def PT_BLOCK_SIZE_def)
  ultimately have "servable 48476 100 [] v" using u rq(2) v(3) by (simp add: servable_def)
  then show thesis using that [OF r] v(2,5) u(1) rq(1) P d by simp
qed

lemma program_stores:
  obtains v H M where "mem_reach demo_blocks {48520} {48476} {48476} H M v" "current_thread v = Some 48476" "userSpace v = 823296" "H 48476 = [(100, False), (3988, True)]" "M 48476 823300 = Some 42"
proof -
  obtain v where v: "mem_reach demo_blocks {48520} {48476} {48476} (\<lambda>_. []) (\<lambda>_ _. None) v" "current_thread v = Some 48476" "userSpace v = 823296" "servable 48476 100 [] v"
    "heap_request (PAGESIZE (hp v)) (userSpace v) 100 (first_heap v []) = (823300, [(100, False), (3988, True)])" by (rule program_starts)
  let ?H = "\<lambda>a :: addr. if a = 48476 then [(100, False), (3988, True)] else []" and ?M = "\<lambda>b :: addr. if b = 48476 then forget 823300 100 (\<lambda>_. None) else (\<lambda>_. None)"
  obtain v1 where v1: "myallocate ''t.c'' 1 100 THREADREQ v = Some (v1, 823300)" "userSpace v1 = 823296" "current_thread v1 = Some 48476"
    using mem_request [OF mem_reach_inv [OF v(1)] v(2,4,5), of "''t.c''" 1] v(3) by metis
  have r1: "mem_reach demo_blocks {48520} {48476} {48476} ?H ?M v1" using mem_reach.request [OF v(1,2,4,5) v1(1)] by (simp add: fun_upd_def)
  have l: "(823300, 100) \<in> set (live PT_BLOCK_SIZE (userSpace v1) (?H 48476))" using v1(2) by (simp add: PT_BLOCK_SIZE_def)
  obtain v2 where v2: "store_byte 823300 42 v1 = Some v2" "userSpace v2 = 823296" "current_thread v2 = Some 48476"
    using mem_store [OF mem_reach_inv [OF r1] v1(3) l, of 823300 42] v1(2) by auto
  have "mem_reach demo_blocks {48520} {48476} {48476} ?H (?M(48476 := (?M 48476)(823300 := Some 42))) v2" using mem_reach.store [OF r1 v1(3) l _ _ v2(1)] by (simp add: fun_upd_def)
  then show thesis by (rule that [OF _ v2(3,2)]) simp_all
qed

theorem program_heaps_consistent_witness:
  "\<exists>H M v. mem_reach demo_blocks {48520} {48476} {48476} H M v \<and> pt_chain (vbytes (th_word v 48476) v) 823296 [(100, False), (3988, True)]"
proof -
  obtain v H M where v: "mem_reach demo_blocks {48520} {48476} {48476} H M v" "userSpace v = 823296" "H 48476 = [(100, False), (3988, True)]" by (rule program_stores)
  then show ?thesis using program_heaps_consistent [OF v(1), of 48476] by (intro exI [of _ H] exI [of _ M] exI [of _ v]) simp
qed

theorem thread_reads_last_write_witness:
  "\<exists>H M v v'. mem_reach demo_blocks {48520} {48476} {48476} H M v \<and> load_byte 823300 v = Some (42, v')"
proof -
  obtain v H M where v: "mem_reach demo_blocks {48520} {48476} {48476} H M v" "current_thread v = Some 48476" "userSpace v = 823296" "H 48476 = [(100, False), (3988, True)]" "M 48476 823300 = Some 42"
    by (rule program_stores)
  have "(823300, 100) \<in> set (live PT_BLOCK_SIZE (userSpace v) (H 48476))" using v(3,4) by (simp add: PT_BLOCK_SIZE_def)
  from thread_reads_last_write [OF v(1,2) this _ _ v(5)] show ?thesis using v(1) by auto
qed

text \<open>Main creates a thread, whose descriptor is at 3100, and ends: the other thread runs.\<close>

definition more_blocks :: "ablock list" where
  "more_blocks = butlast demo_blocks @ [(936, False), (18192, False), (64, False), (755504, True)]"

lemma more_answers: "ff_allocs 4096 (thread_sizes demo_sizeof) demo_blocks = Some ([48588, 49528, 67724], more_blocks)"
  by (simp add: thread_sizes_def demo_sizeof_def STACK_SIZE_def PT_BLOCK_SIZE_def demo_blocks_def more_blocks_def)

lemma demo_array: "ff_alloc PT_BLOCK_SIZE 4096 ((RUN_QUEUE_SIZE - 1) * 4) demo_blocks \<noteq> None" "ff_alloc PT_BLOCK_SIZE 4096 ((RUN_QUEUE_SIZE - 1) * 4) more_blocks \<noteq> None"
  by (simp_all add: RUN_QUEUE_SIZE_def PT_BLOCK_SIZE_def demo_blocks_def more_blocks_def)

lemma program_ends:
  obtains v H M where "mem_reach more_blocks {67724, 48520} {3100, 48476} {3100} H M v"
proof -
  obtain v where v: "mem_reach demo_blocks {48520} {48476} {48476} (\<lambda>_. []) (\<lambda>_ _. None) v" "current_thread v = Some 48476" "threadNum (sc v) = 2" "memory (hp v) = 4096" by (rule program_starts)
  have f: "ff_allocs (memory (hp v)) (thread_sizes demo_sizeof) demo_blocks = Some ([48588, 49528, 67724], more_blocks)" using v(4) more_answers by simp
  have n: "3100 \<noteq> NULL" "3100 \<notin> {48476 :: addr}" "threadNum (sc v) < 2 ^ 8" using v(3) by simp_all
  obtain v1 where v1: "create_thread demo_sizeof 3100 v = Some (0, v1)" "ready (sc v1)" "current_thread v1 = current_thread v" "memory (hp v1) = memory (hp v)" by (rule mem_new_thread [OF mem_reach_inv [OF v(1)] f n])
  note r = mem_reach.create [OF v(1) f n v1(1)]
  have c: "current_thread v1 = Some 48476" using v1(3) v(2) by simp
  have fit: "array_fits more_blocks v1" using v1(4) v(4) demo_array by (simp add: array_fits_def)
  obtain s where s: "my_pthread_exit 7 (sc v1) = Some s" "current s \<noteq> current (sc v1)" using mem_exit(2) [OF mem_reach_inv [OF r] c v1(2)] by blast
  obtain h where "\<And>f. with_array f v1 = map_option (\<lambda>s. v1\<lparr>hp := h, sc := s\<rparr>) (f (sc v1))" by (rule mem_array [OF mem_reach_inv [OF r] mem_reach_coalesced [OF r] fit]) (rule that)
  then have "with_array (my_pthread_exit 7) v1 = Some (v1\<lparr>hp := h, sc := s\<rparr>)" using s(1) by simp
  note e = mem_reach.exit [OF r c this]
  have "{3100, 48476} - {48476} = {3100 :: addr}" by auto
  then show thesis using that e s(2) by simp
qed

theorem program_tables_typed_witness:
  "\<exists>H M v. mem_reach more_blocks {67724, 48520} {3100, 48476} {3100} H M v \<and> length (pages (sc v)) = npages v"
proof -
  obtain v H M where v: "mem_reach more_blocks {67724, 48520} {3100, 48476} {3100} H M v" by (rule program_ends)
  show ?thesis using v program_tables_typed [OF v] by blast
qed

text \<open>In the state after the start, the library gets 40 bytes behind the node of main, and gives back the timer's block.\<close>

theorem program_library_consistent_witness:
  "\<exists>v. mem_reach demo_blocks {48520} {48476} {48476} (\<lambda>_. []) (\<lambda>_ _. None) v \<and> pt_chain (pt_bytes (hp v)) 4096 demo_blocks \<and>
    (\<exists>v'. myallocate ''t.c'' 1 40 LIBRARYREQ v = Some (v', 48588)) \<and> (\<exists>v'. mydeallocate ''t.c'' 1 28340 LIBRARYREQ v = Some v')"
proof -
  obtain v where v: "mem_reach demo_blocks {48520} {48476} {48476} (\<lambda>_. []) (\<lambda>_ _. None) v" "memory (hp v) = 4096" by (rule program_starts)
  note r = program_library_consistent [OF v(1), of "''t.c''" 1, unfolded v(2)]
  have "ff_alloc PT_BLOCK_SIZE 4096 40 demo_blocks = Some (48588, butlast demo_blocks @ [(40, False), (774664, True)])" by (simp add: demo_blocks_def PT_BLOCK_SIZE_def)
  then have "\<exists>v'. myallocate ''t.c'' 1 40 LIBRARYREQ v = Some (v', 48588)" using r [THEN conjunct2, THEN conjunct2, THEN conjunct2, THEN conjunct1, THEN spec, of 40] by simp
  moreover have "(28340, 32) \<in> set (live PT_BLOCK_SIZE 4096 demo_blocks)" by (simp add: demo_blocks_def PT_BLOCK_SIZE_def)
  then have "\<exists>v'. mydeallocate ''t.c'' 1 28340 LIBRARYREQ v = Some v'" using r [THEN conjunct2, THEN conjunct2, THEN conjunct2, THEN conjunct2] by fastforce
  ultimately show ?thesis using v(1) r by blast
qed

text \<open>With a context larger than the library's free block, no thread is made; with the sizes above, one is.\<close>

theorem create_thread_outcomes_witness:
  "\<exists>v. mem_reach demo_blocks {48520} {48476} {48476} (\<lambda>_. []) (\<lambda>_ _. None) v \<and> (\<exists>v'. create_thread demo_sizeof 3100 v = Some (0, v')) \<and>
    (\<exists>v'. create_thread (demo_sizeof(T_ucontext := 800000)) 3100 v = Some (1, v')) \<and>
    (\<exists>v'. create_thread (demo_sizeof(T_ucontext := 774000)) 3100 v = Some (1, v')) \<and>
    create_thread (demo_sizeof(T_node := 800000)) 3100 v = None"
proof -
  obtain v where v: "mem_reach demo_blocks {48520} {48476} {48476} (\<lambda>_. []) (\<lambda>_ _. None) v" "memory (hp v) = 4096" "threadNum (sc v) = 2" by (rule program_starts)
  have "(3100 :: addr) \<noteq> NULL" "(3100 :: addr) \<notin> {48476}" "threadNum (sc v) < 2 ^ 8" using v(3) by simp_all
  note r = create_thread_outcomes [OF v(1) this]
  note c = v(2) demo_sizeof_def STACK_SIZE_def PT_BLOCK_SIZE_def demo_blocks_def
  have "\<exists>v'. create_thread demo_sizeof 3100 v = Some (0, v')" using r [of demo_sizeof] unfolding c by auto
  moreover have "\<exists>v'. create_thread (demo_sizeof(T_ucontext := 800000)) 3100 v = Some (1, v')" using r [of "demo_sizeof(T_ucontext := 800000)"] by (auto simp: c)
  moreover have "\<exists>v'. create_thread (demo_sizeof(T_ucontext := 774000)) 3100 v = Some (1, v')" using r [of "demo_sizeof(T_ucontext := 774000)"] by (auto simp: c)
  moreover have "create_thread (demo_sizeof(T_node := 800000)) 3100 v = None" using r [of "demo_sizeof(T_node := 800000)"] by (simp add: c)
  ultimately show ?thesis using v(1) by blast
qed

theorem program_steps_return_witness:
  "\<exists>v. mem_reach demo_blocks {48520} {48476} {48476} (\<lambda>_. []) (\<lambda>_ _. None) v \<and> (\<exists>v'. with_array my_pthread_yield v = Some v') \<and> (\<exists>v'. myallocate ''t.c'' 1 100 THREADREQ v = Some (v', 823300))"
proof -
  obtain v where v: "mem_reach demo_blocks {48520} {48476} {48476} (\<lambda>_. []) (\<lambda>_ _. None) v" "current_thread v = Some 48476" "servable 48476 100 [] v"
    "heap_request (PAGESIZE (hp v)) (userSpace v) 100 (first_heap v []) = (823300, [(100, False), (3988, True)])" "memory (hp v) = 4096" by (rule program_starts)
  note r = program_steps_return [OF v(1,2), of 0 "''t.c''" 1]
  have "array_fits demo_blocks v" using demo_array v(5) by (simp add: array_fits_def)
  then have "\<exists>v'. with_array my_pthread_yield v = Some v'" using r [THEN conjunct1] by simp
  moreover have "\<exists>v'. myallocate ''t.c'' 1 100 THREADREQ v = Some (v', 823300)" using r [THEN conjunct2, THEN conjunct2, THEN conjunct2, THEN conjunct1, rule_format, OF v(3)] v(4) by simp
  ultimately show ?thesis using v(1) by blast
qed

end
