(* ===== verification/Spec2Isabelle.thy ===== *)
theory Spec2Isabelle
  imports MyMalloc LibHeap SfsSession SfsLog PtProps PtMutex PtProgram
begin

text \<open>
  This development models the three programs of the repository and proves what makes them correct:
  a static-array allocator (\<open>src/MallocStuff/mymalloc.c\<close>), a user-level thread library with its own
  memory manager (\<open>src/my_pthread/my_pthread.c\<close> and \<open>my_pthread_t.h\<close>), and a FUSE file system on one
  host file (\<open>src/assignment3/src/sfs.c\<close>, \<open>block.c\<close>, \<open>params.h\<close>, \<open>log.c\<close>).

  \<^bold>\<open>How the parts interact.\<close>  The thread library asks its library allocator for every structure it
  keeps, its timer signal enters the scheduler, the scheduler protects the pages of the thread it
  takes off the processor, an access to a protected page enters the fault handler, which swaps pages
  within memory or with the swap file, and the thread branch of the allocator runs over those pages.
  The file system keeps inodes and data in blocks of the block device.

  \<^bold>\<open>Conventions.\<close>  C memory is a function from byte addresses to bytes; a \<open>uint32\<close> is a 32-bit word;
  pointers are natural numbers and \<open>NULL\<close> is 0.  State is a record passed through; an operation
  returns an option, and \<open>None\<close> stands for what C leaves undefined or does not survive: a null
  dereference, an access outside the object, an exit of the process, or a loop that does not end
  (pointer walks are \<open>partial_function (option)\<close>).  So a theorem with \<open>Some\<close> in its conclusion says
  that the code returns.  No fuel is used; the only bounded loops are the bounded ones of the code.
  What the code gets from outside is an argument or a field: the address \<open>posix_memalign\<close>
  returns, \<open>PAGESIZE\<close>, the sizes of the structures (\<open>sizeof\<close>), the clock, uninitialised buffers, the host file.
  The scheduler's operations take the addresses of new structures as arguments, and whether there is room for the array of
  \<open>maintenance\<close> as the field \<open>lib_room\<close>; \<open>PtLibrary\<close> and \<open>PtStart\<close> supply what the library allocator answers.

  \<^bold>\<open>Theories and code.\<close>
  \<^item> \<open>Prelude\<close>: memory, loads and stores, C integers, search loops; the simp collections.
  \<^item> \<open>FirstFit\<close>: first fit over an abstract list of blocks and the locale \<open>first_fit_allocator\<close>, the
    contract of an allocator, with its clients (payloads are disjoint, nobody gets stuck, everything
    freed coalesces).  \<open>BlockChain\<close>: block lists as chains of headers in memory; the locales
    \<open>block_chain\<close> and \<open>chain_allocator\<close> prove once that a search and a free over a chain refine the
    abstract ones.
  \<^item> \<open>MyMalloc\<close>: all of \<open>mymalloc.c\<close> (16-byte headers); interprets the three locales.
  \<^item> \<open>PackedWords\<close>: the packed block headers and page entries, locale \<open>packed3\<close>, two interpretations.
    \<open>LibHeap\<close>: the library branch of \<open>myallocate\<close>, \<open>mydeallocate\<close> and \<open>freeAndMerge\<close> (4-byte
    headers); interprets the same three locales.
  \<^item> \<open>BlockDev\<close>: \<open>block.c\<close>, locale \<open>block_store\<close>.  \<open>SfsLayout\<close>: bitmaps (locale \<open>free_map\<close>, for blocks
    and for inodes), inode encoding, path lookup.  \<open>SfsOps\<close>: the FUSE handlers, whole.  \<open>SfsFiles\<close>: the
    abstract view, a map from names to byte sequences, and the invariant.  \<open>SfsCorrect\<close>: the handlers
    against that view.  \<open>SfsProps\<close>: locale \<open>byte_files\<close> with its interpretation, reachable disks, the
    properties.  \<open>SfsSession\<close>: the table \<open>sfs_oper\<close> of handlers, sessions of requests served through it,
    and the store a client sees.  \<open>SfsLog\<close>: the dumps of \<open>log.c\<close> and a reader for them; the arguments of \<open>main\<close>.
  \<^item> \<open>PtSched\<close>: nodes, queues, lists, timer, \<open>maintenance\<close>, \<open>schedule\<close> and the thread interface.
    \<open>PtQueues\<close>, \<open>PtFifo\<close> (locale \<open>fifo\<close>, interpreted on the run queues), \<open>PtMaint\<close>, \<open>PtThreads\<close>,
    \<open>PtSchedule\<close>, \<open>PtApi\<close>: pointer structures as lists, and what each operation does to them.
    \<open>PtProps\<close>: reachable states and the properties.
  \<^item> \<open>PtMutex\<close>: the mutex list and the spin lock.  \<open>mx_next\<close> is the code of the lock and unlock calls from one access of the
    lock to the next; the calls are made of it for one thread and its steps are interleaved over many; locale \<open>lock_cell\<close>.
  \<^item> \<open>PtPaging\<close>: page tables, swapping, the fault handler, making room, the thread branch of
    \<open>myallocate\<close> and \<open>mydeallocate\<close>, the first call and the dispatch on the caller.  \<open>PtPageProps\<close>:
    slots and the locale \<open>page_store\<close>.  \<open>PtVirtual\<close>: every thread's own memory, which faults leave
    as it is.  \<open>PtThreadHeap\<close>: search and free of a thread over its own memory.  \<open>PtGrow\<close>: a thread
    gets another page.  \<open>PtAlign\<close>: \<open>alignPages\<close> and the first page of a thread.  \<open>PtThreadAlloc\<close>: a
    heap grows by whole pages.  \<open>PtRequest\<close>: \<open>myallocate\<close> and \<open>mydeallocate\<close> of threads as a whole.
    \<open>PtSwitch\<close>: what a call of \<open>schedule\<close> does to the threads' memory.  \<open>PtFrame\<close>: what the memory
    operations leave alone of the scheduler.  \<open>PtRuns\<close>, \<open>PtSteps\<close> and \<open>PtProgram\<close>: programs of threads from
    \<open>setUpMemory\<close> on, as a state machine over loads, stores, requests, frees,
    creations, switches and ends of threads, with an invariant that joins scheduler, page tables and heaps.
    \<open>PtLibrary\<close>: the library's own requests, releases and writes among them, and the array of \<open>maintenance\<close>.
    \<open>PtStart\<close>: the set-up, main alone with its requests before the first creation, and
    \<open>initialize\<close> and \<open>my_pthread_create\<close> with the blocks the allocator gives them.

  \<^bold>\<open>What the theorems show.\<close>  Allocators: refinement of first fit, disjoint payloads in the arena,
  coalescing, error messages, refusal of oversized requests also where 32-bit sizes wrap.  File
  system: an invariant of all reachable disks, reads and writes refine byte sequences, appending,
  creating, unlinking, formatting, errors; a whole session behaves as a map from names to byte sequences.  Scheduler: an invariant of the states it reaches as long as no thread waits while no other is
  ready, exactly where \<open>schedule\<close> puts the running thread and which runs next, that entry points return while
  \<open>maintenance\<close> gets its array (and what happens when not), maintenance, joining and waking.  Mutexes: exclusion, when
  only holders unlock and no unlock call is preempted between its stores, and how it is lost.  Paging: faults are
  transparent to every thread, a thread's requests and frees are those of first fit over its own
  memory, extended by whole pages where nothing fits, and cost no other thread its data; nor does a
  switch between threads.  The two together: in every state a disciplined program of threads reaches, the heap of each
  thread that has not ended fills exactly its pages, every page table entry in use names a page of a
  thread that was created, a thread reads what it last stored, and the library's own blocks are a chain over its
  pages in which every node of a thread has a block of its own; what a failed creation of a thread leaves behind.  Logging: a dump reads back.  Some theorems show defects of the code; they
  say what happens.

  \<^bold>\<open>Disciplined programs.\<close>  The code of the thread library is correct only for programs that keep to some conditions, and
  checks none of them.  The theorems about programs say so: requests of threads are \<open>servable\<close> (the thread's first page is
  in slot 0 of memory or of the swap file, and where pages are needed there are enough, no free one is protected, and the
  pages the code asks for suffice), blocks are freed while the first page is in slot 0, and a thread joins or
  ends while another one is ready.  What the code does outside of them is the subject of theorems of its own:
  a first page elsewhere (\<open>PtAlign\<close>), too few pages after a taken last block (\<open>PtRequest\<close>), free pages that are
  protected after an exit (\<open>PtSwitch\<close>), a join with nobody ready (\<open>PtProps\<close>).

  \<^bold>\<open>Bounds.\<close>  Page numbers are below 2\<open>^\<close>16 and thread ids below 2\<open>^\<close>8 where page entries are written,
  the widths of their fields; \<open>PAGESIZE\<close> is at least a block header; the sizes of \<open>memory\<close>, the swap
  file and the disk are those of the code.

  \<^bold>\<open>Not modelled.\<close>  The messages \<open>sfs.c\<close> logs on the way (output only); \<open>fuse.h\<close> and \<open>config.h\<close>
  (vendored and generated); \<open>main\<close> and the test thread of \<open>my_pthread.c\<close> and \<open>benchmark\<close> (they print
  and call the parts above); creating, truncating and deleting the swap file and
  installing the handler (system calls); the contents of saved contexts: a switch sets which context
  runs.
\<close>

end
